(* ===== verification/Prelude.thy ===== *)
theory Prelude
  imports Main "HOL-Library.Word" "HOL-Library.List_Lexorder" "HOL-Library.Signed_Division"
begin

text \<open>
  Shared vocabulary of the development: Go's values and failures as HOL types, Go's integer
  arithmetic, and the list lemmas that several components use.

  \<^item> \<open>bytes\<close> is Go's \<open>[]byte\<close>; \<open>bytes.Compare\<close> is the lexicographic order of
    \<open>HOL-Library.List_Lexorder\<close> (\<open>bytes.Compare(a, b) < 0\<close> is \<open>a < b\<close>).
  \<^item> Go's \<open>int64\<close> and \<open>int32\<close> are \<open>int\<close>, with the wrap-around \<open>wrap64\<close> or
    \<open>wrap32\<close> written at every operation that can leave the range, and \<open>in64\<close> for the
    range itself. Go's \<open>/\<close> truncates towards zero and is \<open>sdiv\<close>.
  \<^item> A function that can panic or return an error has a result \<open>'e fault + 'a\<close>: \<open>Inl\<close> of
    a \<open>Panic\<close> or of an \<open>Err\<close>, else \<open>Inr\<close>. \<open>bindR\<close> sequences such results.
\<close>

section \<open>Go values\<close>

type_synonym bytes = "8 word list"

datatype 'e fault = Panic string | Err 'e

fun bindR :: "'e + 'a \<Rightarrow> ('a \<Rightarrow> 'e + 'b) \<Rightarrow> 'e + 'b" where
  "bindR (Inl e) f = Inl e"
| "bindR (Inr x) f = f x"

fun isOk :: "'e + 'a \<Rightarrow> bool" where
  "isOk (Inl e) = False"
| "isOk (Inr x) = True"

text \<open>A slice or array access: Go panics when the index is out of range.\<close>

definition goIndex :: "'a list \<Rightarrow> int \<Rightarrow> 'e fault + 'a" where
  "goIndex xs i =
     (if 0 \<le> i \<and> nat i < length xs then Inr (xs ! nat i) else Inl (Panic ''index out of range''))"

definition goUpdate :: "'a list \<Rightarrow> int \<Rightarrow> 'a \<Rightarrow> 'e fault + 'a list" where
  "goUpdate xs i v =
     (if 0 \<le> i \<and> nat i < length xs then Inr (xs[nat i := v]) else Inl (Panic ''index out of range''))"

section \<open>Go integers\<close>

definition MaxInt64 :: int where "MaxInt64 = 9223372036854775807"

definition MinInt64 :: int where "MinInt64 = - 9223372036854775808"

definition MaxInt32 :: int where "MaxInt32 = 2147483647"

definition MinInt32 :: int where "MinInt32 = - 2147483648"

definition in64 :: "int \<Rightarrow> bool" where
  "in64 x \<longleftrightarrow> MinInt64 \<le> x \<and> x \<le> MaxInt64"

definition in32 :: "int \<Rightarrow> bool" where
  "in32 x \<longleftrightarrow> MinInt32 \<le> x \<and> x \<le> MaxInt32"

definition wrap64 :: "int \<Rightarrow> int" where
  "wrap64 x = (x + 2 ^ 63) mod 2 ^ 64 - 2 ^ 63"

definition wrap32 :: "int \<Rightarrow> int" where
  "wrap32 x = (x + 2 ^ 31) mod 2 ^ 32 - 2 ^ 31"

named_theorems int_range \<open>the constants that bound Go's integer types\<close>

declare MaxInt64_def [int_range] MinInt64_def [int_range] MaxInt32_def [int_range]
  MinInt32_def [int_range] in64_def [int_range] in32_def [int_range]

lemma wrap64_id [simp]: "in64 x \<Longrightarrow> wrap64 x = x"
  by (simp add: int_range wrap64_def)

lemma wrap32_id [simp]: "in32 x \<Longrightarrow> wrap32 x = x"
  by (simp add: int_range wrap32_def)

lemma in64_wrap64 [simp]: "in64 (wrap64 x)"
proof -
  have "0 \<le> (x + 2 ^ 63) mod 2 ^ 64" "(x + 2 ^ 63) mod 2 ^ 64 < 2 ^ 64"
    by simp_all
  then show ?thesis by (simp add: int_range wrap64_def)
qed

lemma wrap64_over: "MaxInt64 < x \<Longrightarrow> x \<le> MaxInt64 + 2 ^ 64 \<Longrightarrow> wrap64 x = x - 2 ^ 64"
  using minus_mod_self2 [of "x + 2 ^ 63" "2 ^ 64 :: int"]
    mod_pos_pos_trivial [of "x + 2 ^ 63 - 2 ^ 64" "2 ^ 64 :: int"]
  by (simp add: int_range wrap64_def)

lemma wrap64_under: "x < MinInt64 \<Longrightarrow> MinInt64 - 2 ^ 64 \<le> x \<Longrightarrow> wrap64 x = x + 2 ^ 64"
  using mod_add_self2 [of "x + 2 ^ 63" "2 ^ 64 :: int"]
    mod_pos_pos_trivial [of "x + 2 ^ 63 + 2 ^ 64" "2 ^ 64 :: int"]
  by (simp add: int_range wrap64_def)

lemma sdiv_nonneg: "0 \<le> a \<Longrightarrow> 0 < b \<Longrightarrow> a sdiv b = a div (b::int)"
  by (simp add: signed_divide_int_def sgn_if)

lemma sdiv_neg: "a < 0 \<Longrightarrow> 0 < b \<Longrightarrow> a sdiv b = - ((- a) div (b::int))"
  by (simp add: signed_divide_int_def sgn_if)

section \<open>Results\<close>

lemma bindR_Inr_iff: "bindR m f = Inr y \<longleftrightarrow> (\<exists>x. m = Inr x \<and> f x = Inr y)"
  by (cases m) auto

lemma bindR_Inl_iff: "bindR m f = Inl e \<longleftrightarrow> m = Inl e \<or> (\<exists>x. m = Inr x \<and> f x = Inl e)"
  by (cases m) auto

lemma bindR_InrE:
  assumes "bindR m f = Inr y"
  obtains x where "m = Inr x" and "f x = Inr y"
  using assms by (auto simp: bindR_Inr_iff)

lemma isOk_iff: "isOk m \<longleftrightarrow> (\<exists>x. m = Inr x)"
  by (cases m) auto

lemma goIndex_nat [simp]: "goIndex xs (int i) = (if i < length xs then Inr (xs ! i) else Inl (Panic ''index out of range''))"
  by (simp add: goIndex_def)

lemma goUpdate_nat [simp]: "goUpdate xs (int i) v = (if i < length xs then Inr (xs[i := v]) else Inl (Panic ''index out of range''))"
  by (simp add: goUpdate_def)

lemma goIndex_Inr_iff: "goIndex xs i = Inr x \<longleftrightarrow> 0 \<le> i \<and> nat i < length xs \<and> xs ! nat i = x"
  by (auto simp: goIndex_def)

lemma goUpdate_Inr_iff:
  "goUpdate xs i v = Inr ys \<longleftrightarrow> 0 \<le> i \<and> nat i < length xs \<and> ys = xs[nat i := v]"
  by (auto simp: goUpdate_def)

section \<open>Lists\<close>

lemma sum_list_map_update:
  fixes f :: "'a \<Rightarrow> int"
  assumes "i < length xs"
  shows "sum_list (map f (xs[i := v])) = sum_list (map f xs) - f (xs ! i) + f v"
  using assms
proof (induction xs arbitrary: i)
  case Nil
  then show ?case by simp
next
  case (Cons x xs)
  then show ?case by (cases i) auto
qed

lemma sum_list_nonneg_le:
  fixes f :: "'a \<Rightarrow> int"
  assumes "\<forall>x \<in> set xs. 0 \<le> f x" and "x \<in> set xs"
  shows "f x \<le> sum_list (map f xs)"
  using assms
proof (induction xs)
  case Nil
  then show ?case by simp
next
  case (Cons y ys)
  have "0 \<le> sum_list (map f ys)"
    using Cons.prems(1) by (intro sum_list_nonneg) auto
  with Cons show ?case by fastforce
qed

lemma sorted_wrt_distinct:
  assumes "sorted_wrt R xs" and "\<And>x. x \<in> set xs \<Longrightarrow> \<not> R x x"
  shows "distinct xs"
  using assms by (induction xs) auto

end
