(* ===== verification/BitArray.thy ===== *)
theory BitArray
  imports Prelude
begin

text \<open>
  \<open>libs/bits/bit_array.go\<close>: the bit array that vote sets, part sets and peers share.

  A \<open>*BitArray\<close> is a \<open>bit_array option\<close> (\<open>None\<close> is the nil pointer, which every
  method accepts); the mutex is not modelled, each method being one atomic step. A method that
  mutates its receiver returns the new array. \<open>bitAt\<close> is the abstraction: the bits the array
  stands for. \<open>wf_bits\<close> says that \<open>Elems\<close> has the length that \<open>Bits\<close> asks for, and
  \<open>clean\<close> that no bit beyond \<open>Bits\<close> is set. \<open>Not\<close> does not keep \<open>clean\<close>, and \<open>IsEmpty\<close>
  reads the bits beyond \<open>Bits\<close>: both facts are proved below.
\<close>

unbundle bit_operations_syntax

section \<open>The structure and its operations\<close>

record bit_array =
  Bits :: int
  Elems :: "64 word list"

definition numElems :: "int \<Rightarrow> int" where
  "numElems n = (n + 63) sdiv 64"

definition NewBitArray :: "int \<Rightarrow> bit_array option" where
  "NewBitArray n =
     (if n \<le> 0 then None
      else Some \<lparr>Bits = n, Elems = replicate (nat (numElems n)) 0\<rparr>)"

fun BA_Size :: "bit_array option \<Rightarrow> int" where
  "BA_Size None = 0"
| "BA_Size (Some b) = Bits b"

text \<open>\<open>uint64(1) << uint(i%64)\<close>: for a negative remainder the shift count is huge and the
  result is 0.\<close>

definition bitMask :: "int \<Rightarrow> 64 word" where
  "bitMask i = (let r = i smod 64 in if r < 0 then 0 else push_bit (nat r) 1)"

definition getIndex :: "bit_array \<Rightarrow> int \<Rightarrow> 'e fault + bool" where
  "getIndex b i =
     (if i \<ge> Bits b then Inr False
      else bindR (goIndex (Elems b) (i sdiv 64)) (\<lambda>e. Inr (e AND bitMask i > 0)))"

fun GetIndex :: "bit_array option \<Rightarrow> int \<Rightarrow> 'e fault + bool" where
  "GetIndex None i = Inr False"
| "GetIndex (Some b) i = getIndex b i"

definition setIndex :: "bit_array \<Rightarrow> int \<Rightarrow> bool \<Rightarrow> 'e fault + (bit_array \<times> bool)" where
  "setIndex b i v =
     (if i \<ge> Bits b then Inr (b, False)
      else bindR (goIndex (Elems b) (i sdiv 64)) (\<lambda>e.
           bindR (goUpdate (Elems b) (i sdiv 64)
                    (if v then e OR bitMask i else e AND NOT (bitMask i))) (\<lambda>es.
           Inr (b\<lparr>Elems := es\<rparr>, True))))"

fun SetIndex :: "bit_array option \<Rightarrow> int \<Rightarrow> bool \<Rightarrow> 'e fault + (bit_array option \<times> bool)" where
  "SetIndex None i v = Inr (None, False)"
| "SetIndex (Some b) i v = bindR (setIndex b i v) (\<lambda>(b', r). Inr (Some b', r))"

text \<open>Values are copied by HOL itself, so \<open>Copy\<close> is the identity; \<open>copyBits\<close> allocates
  \<open>numElems(bits)\<close> elements and copies as many as fit.\<close>

definition BA_Copy :: "bit_array option \<Rightarrow> bit_array option" where
  "BA_Copy p = (case p of None \<Rightarrow> None | Some b \<Rightarrow> Some \<lparr>Bits = Bits b, Elems = Elems b\<rparr>)"

definition copyBits :: "bit_array \<Rightarrow> int \<Rightarrow> bit_array" where
  "copyBits b n =
     (let k = nat (numElems n) in
      \<lparr>Bits = n, Elems = take k (Elems b) @ replicate (k - length (Elems b)) 0\<rparr>)"

text \<open>The loop \<open>for i := 0; i < n; i++ { c.Elems[i] = f(c.Elems[i], o.Elems[i]) }\<close>.\<close>

fun elemLoop ::
  "(64 word \<Rightarrow> 64 word \<Rightarrow> 64 word) \<Rightarrow> 64 word list \<Rightarrow> 64 word list \<Rightarrow> nat \<Rightarrow> 'e fault + 64 word list"
where
  "elemLoop f cs os 0 = Inr cs"
| "elemLoop f cs os (Suc n) =
     bindR (elemLoop f cs os n) (\<lambda>cs'.
     bindR (goIndex cs' (int n)) (\<lambda>a.
     bindR (goIndex os (int n)) (\<lambda>b.
     goUpdate cs' (int n) (f a b))))"

fun BA_Or :: "bit_array option \<Rightarrow> bit_array option \<Rightarrow> 'e fault + bit_array option" where
  "BA_Or None None = Inr None"
| "BA_Or None (Some b) = Inr (BA_Copy (Some b))"
| "BA_Or (Some a) None = Inr (BA_Copy (Some a))"
| "BA_Or (Some a) (Some b) =
     (let c = copyBits a (max (Bits a) (Bits b));
          smaller = min (length (Elems a)) (length (Elems b)) in
      bindR (elemLoop (OR) (Elems c) (Elems b) smaller) (\<lambda>es. Inr (Some (c\<lparr>Elems := es\<rparr>))))"

definition and_bits :: "bit_array \<Rightarrow> bit_array \<Rightarrow> 'e fault + bit_array" where
  "and_bits a b =
     (let c = copyBits a (min (Bits a) (Bits b)) in
      bindR (elemLoop (AND) (Elems c) (Elems b) (length (Elems c))) (\<lambda>es. Inr (c\<lparr>Elems := es\<rparr>)))"

fun BA_And :: "bit_array option \<Rightarrow> bit_array option \<Rightarrow> 'e fault + bit_array option" where
  "BA_And (Some a) (Some b) = bindR (and_bits a b) (\<lambda>c. Inr (Some c))"
| "BA_And _ _ = Inr None"

definition not_bits :: "bit_array \<Rightarrow> bit_array" where
  "not_bits b = \<lparr>Bits = Bits b, Elems = map NOT (Elems b)\<rparr>"

definition BA_Not :: "bit_array option \<Rightarrow> bit_array option" where
  "BA_Not p = map_option not_bits p"

fun BA_Sub :: "bit_array option \<Rightarrow> bit_array option \<Rightarrow> 'e fault + bit_array option" where
  "BA_Sub (Some a) (Some b) =
     (let c = copyBits a (Bits a);
          smaller = min (length (Elems a)) (length (Elems b)) in
      bindR (elemLoop (\<lambda>x y. x AND NOT y) (Elems c) (Elems b) smaller)
        (\<lambda>es. Inr (Some (c\<lparr>Elems := es\<rparr>))))"
| "BA_Sub _ _ = Inr None"

fun BA_IsEmpty :: "bit_array option \<Rightarrow> bool" where
  "BA_IsEmpty None = True"
| "BA_IsEmpty (Some b) = (\<not> list_ex (\<lambda>e. e > 0) (Elems b))"

text \<open>\<open>Elems[:len(Elems)-1]\<close> panics on an empty slice.\<close>

fun BA_IsFull :: "bit_array option \<Rightarrow> 'e fault + bool" where
  "BA_IsFull None = Inr True"
| "BA_IsFull (Some b) =
     (if Elems b = [] then Inl (Panic ''slice bounds out of range'')
      else if list_ex (\<lambda>e. NOT e \<noteq> 0) (butlast (Elems b)) then Inr False
      else (let lastElemBits = nat ((Bits b + 63) smod 64 + 1) in
            Inr ((last (Elems b) + 1) AND (push_bit lastElemBits 1 - 1) = 0)))"

text \<open>The indices of the set bits of one element, the \<open>n\<close> low bits being looked at,
  numbered from \<open>curBit\<close>.\<close>

definition trueIndicesOf :: "64 word \<Rightarrow> int \<Rightarrow> nat \<Rightarrow> int list" where
  "trueIndicesOf e curBit n = map (\<lambda>j. curBit + int j) (filter (\<lambda>j. e AND push_bit j 1 > 0) [0..<n])"

fun trueIndicesLoop :: "64 word list \<Rightarrow> int \<Rightarrow> int list \<times> int" where
  "trueIndicesLoop [] curBit = ([], curBit)"
| "trueIndicesLoop (e # es) curBit =
     (let (is, c) = trueIndicesLoop es (curBit + 64) in
      ((if e = 0 then [] else trueIndicesOf e curBit 64) @ is, c))"

definition getTrueIndices :: "bit_array \<Rightarrow> 'e fault + int list" where
  "getTrueIndices b =
     (if Elems b = [] then Inl (Panic ''index out of range'')
      else (let (is, curBit) = trueIndicesLoop (butlast (Elems b)) 0;
                numFinalBits = nat (Bits b - curBit) in
            Inr (is @ trueIndicesOf (last (Elems b)) curBit numFinalBits)))"

text \<open>\<open>rnd\<close> stands for \<open>tmrand.Intn\<close>: an index below its argument.\<close>

fun PickRandom :: "(nat \<Rightarrow> nat) \<Rightarrow> bit_array option \<Rightarrow> 'e fault + (int \<times> bool)" where
  "PickRandom rnd None = Inr (0, False)"
| "PickRandom rnd (Some b) =
     bindR (getTrueIndices b) (\<lambda>is.
       if is = [] then Inr (0, False)
       else bindR (goIndex is (int (rnd (length is)))) (\<lambda>i. Inr (i, True)))"

text \<open>\<open>copy(bA.Elems, o.Elems)\<close> overwrites the common prefix.\<close>

fun BA_Update :: "bit_array option \<Rightarrow> bit_array option \<Rightarrow> bit_array option" where
  "BA_Update (Some a) (Some b) =
     Some (a\<lparr>Elems := take (length (Elems a)) (Elems b) @ drop (length (Elems b)) (Elems a)\<rparr>)"
| "BA_Update p _ = p"

section \<open>JSON and protobuf forms\<close>

datatype bits_error = BadJSON | NegativeBits | TooManyBits | InvalidNumElems

fun jsonBits :: "bit_array \<Rightarrow> nat \<Rightarrow> 'e fault + string" where
  "jsonBits b 0 = Inr ''''"
| "jsonBits b (Suc n) =
     bindR (jsonBits b n) (\<lambda>s.
     bindR (getIndex b (int n)) (\<lambda>v. Inr (s @ (if v then ''x'' else ''_''))))"

definition quote :: char where "quote = CHR 0x22"

fun BA_MarshalJSON :: "bit_array option \<Rightarrow> 'e fault + string" where
  "BA_MarshalJSON None = Inr ''null''"
| "BA_MarshalJSON (Some b) = bindR (jsonBits b (nat (Bits b))) (\<lambda>s. Inr (quote # s @ [quote]))"

text \<open>The regular expression: a quoted string of underscores and \<open>x\<close>; the first submatch.\<close>

definition matchBits :: "string \<Rightarrow> string option" where
  "matchBits s =
     (if length s \<ge> 2 \<and> hd s = quote \<and> last s = quote \<and>
         list_all (\<lambda>c. c = CHR ''_'' \<or> c = CHR ''x'') (butlast (tl s))
      then Some (butlast (tl s)) else None)"

fun setBits :: "string \<Rightarrow> bit_array option \<Rightarrow> nat \<Rightarrow> 'e fault + bit_array option" where
  "setBits s p 0 = Inr p"
| "setBits s p (Suc n) =
     bindR (setBits s p n) (\<lambda>p'.
       if s ! n = CHR ''x'' then bindR (SetIndex p' (int n) True) (\<lambda>(q, _). Inr q) else Inr p')"

text \<open>\<open>*bA = *bA2\<close> dereferences what \<open>NewBitArray\<close> returned, nil when there are no bits.\<close>

definition BA_UnmarshalJSON :: "string \<Rightarrow> bits_error fault + bit_array" where
  "BA_UnmarshalJSON s =
     (if s = ''null'' then Inr \<lparr>Bits = 0, Elems = []\<rparr>
      else case matchBits s of
        None \<Rightarrow> Inl (Err BadJSON)
      | Some bs \<Rightarrow>
          bindR (setBits bs (NewBitArray (int (length bs))) (length bs)) (\<lambda>p.
            case p of None \<Rightarrow> Inl (Panic ''nil pointer dereference'') | Some b \<Rightarrow> Inr b))"

record proto_bit_array =
  pBits :: int
  pElems :: "64 word list"

definition BA_ToProto :: "bit_array option \<Rightarrow> proto_bit_array option" where
  "BA_ToProto p =
     (case p of
        None \<Rightarrow> None
      | Some b \<Rightarrow> if Elems b = [] \<and> Bits b = 0 then None
                  else Some \<lparr>pBits = wrap64 (Bits b), pElems = Elems b\<rparr>)"

definition BA_FromProto :: "bit_array \<Rightarrow> proto_bit_array option \<Rightarrow> bits_error fault + bit_array" where
  "BA_FromProto b p =
     (case p of
        None \<Rightarrow> Inr b
      | Some q \<Rightarrow>
          if pBits q < 0 then Inl (Err NegativeBits)
          else if pBits q > MaxInt32 then Inl (Err TooManyBits)
          else if int (length (pElems q)) \<noteq> numElems (pBits q) then Inl (Err InvalidNumElems)
          else Inr \<lparr>Bits = pBits q, Elems = pElems q\<rparr>)"

section \<open>What the bits mean\<close>

definition wf_bits :: "bit_array \<Rightarrow> bool" where
  "wf_bits b \<longleftrightarrow> 0 \<le> Bits b \<and> int (length (Elems b)) = numElems (Bits b)"

definition rawBit :: "64 word list \<Rightarrow> nat \<Rightarrow> bool" where
  "rawBit es i \<longleftrightarrow> i div 64 < length es \<and> bit (es ! (i div 64)) (i mod 64)"

definition bitAt :: "bit_array \<Rightarrow> nat \<Rightarrow> bool" where
  "bitAt b i \<longleftrightarrow> int i < Bits b \<and> rawBit (Elems b) i"

definition clean :: "bit_array \<Rightarrow> bool" where
  "clean b \<longleftrightarrow> (\<forall>i < 64 * length (Elems b). rawBit (Elems b) i \<longrightarrow> int i < Bits b)"

section \<open>Basic laws\<close>

lemma numElems_nonneg: "0 \<le> n \<Longrightarrow> numElems n = (n + 63) div 64"
  by (simp add: numElems_def sdiv_nonneg)

lemma numElems_of_nat [simp]: "nat (numElems (int n)) = (n + 63) div 64"
  by (simp add: numElems_nonneg zdiv_int nat_div_distrib)

lemma numElems_ge0: "0 \<le> n \<Longrightarrow> 0 \<le> numElems n"
  by (simp add: numElems_nonneg)

lemma wf_bits_length: "wf_bits b \<Longrightarrow> length (Elems b) = (nat (Bits b) + 63) div 64"
  by (clarsimp simp: wf_bits_def numElems_nonneg) linarith

lemma wf_bits_index: "wf_bits b \<Longrightarrow> int i < Bits b \<Longrightarrow> i div 64 < length (Elems b)"
  using wf_bits_length [of b] by linarith

lemma clean_iff: "clean b \<longleftrightarrow> (\<forall>i. rawBit (Elems b) i \<longrightarrow> int i < Bits b)"
  by (auto simp: clean_def rawBit_def div_less_iff_less_mult mult.commute)

lemma bitMask_nat: "bitMask (int i) = push_bit (i mod 64) 1"
proof -
  have "int i smod 64 = int (i mod 64)"
    by (simp add: signed_modulo_int_def signed_divide_int_def sgn_if zmod_int minus_div_mult_eq_mod)
  then show ?thesis by (simp add: bitMask_def)
qed

lemma sdiv_64_nat [simp]: "int i sdiv 64 = int (i div 64)"
  by (simp add: sdiv_nonneg zdiv_int)

lemma bit_push1: "n < 64 \<Longrightarrow> bit (push_bit n 1 :: 64 word) k \<longleftrightarrow> k = n"
  by (auto simp: bit_exp_iff possible_bit_def)

lemma bit_bitMask: "bit (bitMask (int i)) k \<longleftrightarrow> k = i mod 64"
  unfolding bitMask_nat by (rule bit_push1) simp

lemma and_push1_pos [simp]: "(e AND 2 ^ n :: 64 word) > 0 \<longleftrightarrow> n < 64 \<and> bit e n"
proof (cases "n < 64")
  case True
  have "e AND 2 ^ n = 0 \<longleftrightarrow> \<not> bit e n"
    by (simp add: and_exp_eq_0_iff_not_bit)
  with True show ?thesis by (simp add: word_neq_0_conv [symmetric])
next
  case False
  then have zero: "2 ^ n = (0 :: 64 word)"
    by (intro bit_word_eqI) (simp add: bit_exp_iff possible_bit_def)
  from False show ?thesis unfolding zero by simp
qed

lemma rawBit_update:
  "j < length es \<Longrightarrow>
   rawBit (es[j := w]) k \<longleftrightarrow> (if k div 64 = j then bit w (k mod 64) else rawBit es k)"
  by (auto simp: rawBit_def nth_list_update)

lemma rawBitD: "rawBit es i \<Longrightarrow> i div 64 < length es"
  by (simp add: rawBit_def)

lemma rawBit_replicate_0 [simp]: "\<not> rawBit (replicate n 0) i"
  by (auto simp: rawBit_def)

lemma rawBit_pad [simp]: "rawBit (es @ replicate n 0) i \<longleftrightarrow> rawBit es i"
  by (auto simp: rawBit_def nth_append)

lemma rawBit_take: "rawBit (take k es) i \<longleftrightarrow> i div 64 < k \<and> rawBit es i"
  by (auto simp: rawBit_def)

lemma getIndex_bitAt: "wf_bits b \<Longrightarrow> getIndex b (int i) = Inr (bitAt b i)"
  by (auto simp: getIndex_def bitAt_def rawBit_def bitMask_nat wf_bits_index)

lemma setIndex_wf:
  assumes "wf_bits b" and "int i < Bits b"
  shows "\<exists>b'. setIndex b (int i) v = Inr (b', True) \<and> wf_bits b' \<and> Bits b' = Bits b \<and>
    (\<forall>k. bitAt b' k \<longleftrightarrow> (if k = i then v else bitAt b k)) \<and> (clean b \<longrightarrow> clean b')"
proof -
  let ?e = "Elems b ! (i div 64)"
  let ?w = "if v then ?e OR bitMask (int i) else ?e AND NOT (bitMask (int i))"
  let ?b = "b\<lparr>Elems := (Elems b)[i div 64 := ?w]\<rparr>"
  have len: "i div 64 < length (Elems b)" using assms by (rule wf_bits_index)
  have set: "setIndex b (int i) v = Inr (?b, True)"
    using assms(2) len by (simp add: setIndex_def)
  have raw: "rawBit (Elems ?b) k \<longleftrightarrow> (if k = i then v else rawBit (Elems b) k)" for k
  proof (cases "k div 64 = i div 64")
    case True
    have "k = i \<longleftrightarrow> k mod 64 = i mod 64"
      using True by (metis div_mult_mod_eq)
    with True len show ?thesis
      by (auto simp: rawBit_update bit_or_iff bit_and_iff bit_not_iff bit_bitMask rawBit_def)
  next
    case False
    with len show ?thesis by (auto simp: rawBit_update)
  qed
  have "wf_bits ?b" using assms(1) by (simp add: wf_bits_def)
  moreover have "\<forall>k. bitAt ?b k \<longleftrightarrow> (if k = i then v else bitAt b k)"
    using raw assms(2) by (auto simp: bitAt_def)
  moreover have "clean b \<longrightarrow> clean ?b"
    using raw assms(2) by (auto simp: clean_iff)
  ultimately show ?thesis using set by auto
qed

lemma setIndex_beyond: "\<not> int i < Bits b \<Longrightarrow> setIndex b (int i) v = Inr (b, False)"
  by (simp add: setIndex_def)

lemma NewBitArray_wf:
  assumes "NewBitArray n = Some b"
  shows "wf_bits b \<and> clean b \<and> Bits b = n \<and> 0 < n \<and> (\<forall>i. \<not> bitAt b i)"
  using assms
  by (auto simp: NewBitArray_def wf_bits_def clean_iff bitAt_def numElems_nonneg split: if_splits)

section \<open>Bitwise operations\<close>

lemma elemLoop_eq:
  "n \<le> length cs \<Longrightarrow> n \<le> length os \<Longrightarrow>
   elemLoop f cs os n = Inr (map2 f (take n cs) (take n os) @ drop n cs)"
proof (induction n)
  case 0
  then show ?case by simp
next
  case (Suc n)
  let ?pre = "map2 f (take n cs) (take n os)"
  have len: "length ?pre = n" using Suc.prems by simp
  have "(?pre @ drop n cs)[n := f (cs ! n) (os ! n)] = ?pre @ f (cs ! n) (os ! n) # drop (Suc n) cs"
    using Suc.prems len by (simp add: list_update_append Cons_nth_drop_Suc [symmetric])
  also have "\<dots> = map2 f (take (Suc n) cs) (take (Suc n) os) @ drop (Suc n) cs"
    using Suc.prems by (simp add: take_Suc_conv_app_nth)
  finally show ?case
    using Suc len by (simp add: nth_append)
qed

text \<open>Bit \<open>i\<close> after the loop, for an operator that works bit by bit.\<close>

lemma elemLoop_rawBit:
  assumes "n \<le> length cs" and "n \<le> length os"
    and bitwise: "\<And>x y k. k < 64 \<Longrightarrow> bit (f x y) k \<longleftrightarrow> g (bit x k) (bit y k)"
  obtains es where "elemLoop f cs os n = Inr es" and "length es = length cs"
    and "\<And>i. rawBit es i \<longleftrightarrow>
      (if i div 64 < n then g (rawBit cs i) (rawBit os i) else rawBit cs i)"
proof
  let ?es = "map2 f (take n cs) (take n os) @ drop n cs"
  show "elemLoop f cs os n = Inr ?es" using assms(1,2) by (rule elemLoop_eq)
  show "length ?es = length cs" using assms(1,2) by simp
  show "rawBit ?es i \<longleftrightarrow> (if i div 64 < n then g (rawBit cs i) (rawBit os i) else rawBit cs i)" for i
    using assms(1,2) by (auto simp: rawBit_def nth_append bitwise)
qed

lemma numElems_mono: "0 \<le> m \<Longrightarrow> m \<le> n \<Longrightarrow> numElems m \<le> numElems n"
  by (simp add: numElems_nonneg zdiv_mono1)

lemma copyBits_rawBit:
  assumes "0 \<le> n"
  shows "length (Elems (copyBits b n)) = nat (numElems n)"
    and "rawBit (Elems (copyBits b n)) i \<longleftrightarrow> i div 64 < nat (numElems n) \<and> rawBit (Elems b) i"
  by (auto simp: copyBits_def Let_def rawBit_take)

lemma rawBit_numElems:
  "wf_bits b \<Longrightarrow> Bits b \<le> n \<Longrightarrow> rawBit (Elems b) i \<Longrightarrow> i div 64 < nat (numElems n)"
  using numElems_mono [of "Bits b" n] rawBitD [of "Elems b" i] by (auto simp: wf_bits_def)

lemma index_numElems: "int i < n \<Longrightarrow> i div 64 < nat (numElems n)"
  by (cases n rule: int_cases4) (auto simp: div_less_iff_less_mult)

lemma BA_Or_wf:
  assumes "wf_bits a" "clean a" "wf_bits b" "clean b"
  shows "\<exists>c. BA_Or (Some a) (Some b) = (Inr (Some c) :: 'e fault + _) \<and> wf_bits c \<and> clean c \<and>
    Bits c = max (Bits a) (Bits b) \<and>
    (\<forall>i. bitAt c i \<longleftrightarrow> bitAt a i \<or> bitAt b i \<and> i div 64 < length (Elems a))"
proof -
  let ?n = "max (Bits a) (Bits b)" and ?k = "min (length (Elems a)) (length (Elems b))"
  let ?cs = "Elems (copyBits a ?n)"
  have n: "0 \<le> ?n" using assms by (auto simp: wf_bits_def)
  have lens: "length (Elems a) = nat (numElems (Bits a))" "length (Elems b) = nat (numElems (Bits b))"
    using assms by (auto simp: wf_bits_def)
  have mono: "numElems (Bits a) \<le> numElems ?n" "numElems (Bits b) \<le> numElems ?n"
    "min (nat (numElems (Bits a))) (nat (numElems (Bits b))) \<le> nat (numElems ?n)"
    using assms numElems_mono [of "Bits a" ?n] numElems_mono [of "Bits b" ?n]
    by (auto simp: wf_bits_def min_def)
  obtain es where es: "elemLoop (OR) ?cs (Elems b) ?k = (Inr es :: 'e fault + _)" "length es = length ?cs"
    and raw: "\<And>i. rawBit es i \<longleftrightarrow>
      (if i div 64 < ?k then rawBit ?cs i \<or> rawBit (Elems b) i else rawBit ?cs i)"
    by (rule elemLoop_rawBit [of ?k ?cs "Elems b" "(OR)" "(\<or>)"])
      (use lens mono n in \<open>auto simp: bit_or_iff copyBits_rawBit\<close>)
  have or: "rawBit es i \<longleftrightarrow> rawBit (Elems a) i \<or> rawBit (Elems b) i \<and> i div 64 < length (Elems a)" for i
    using rawBit_numElems [OF assms(1), of ?n i] rawBit_numElems [OF assms(3), of ?n i]
      rawBitD [of "Elems a" i] rawBitD [of "Elems b" i]
    by (simp add: raw copyBits_rawBit [OF n]) blast
  let ?c = "(copyBits a ?n)\<lparr>Elems := es\<rparr>"
  have bits: "Bits ?c = ?n" by (simp add: copyBits_def Let_def)
  moreover have "wf_bits ?c"
    using n es(2) bits numElems_ge0 [OF n] unfolding wf_bits_def by (simp add: copyBits_rawBit)
  moreover have "clean ?c"
    using assms(2,4) or bits by (auto simp: clean_iff)
  moreover have "\<forall>i. bitAt ?c i \<longleftrightarrow> bitAt a i \<or> bitAt b i \<and> i div 64 < length (Elems a)"
    using assms(2,4) or bits by (auto simp: bitAt_def clean_iff)
  ultimately show ?thesis using es(1) by (auto simp: Let_def)
qed

lemma BA_And_wf:
  assumes "wf_bits a" "clean a" "wf_bits b" "clean b"
  shows "\<exists>c. BA_And (Some a) (Some b) = (Inr (Some c) :: 'e fault + _) \<and> wf_bits c \<and> clean c \<and>
    Bits c = min (Bits a) (Bits b) \<and> (\<forall>i. bitAt c i \<longleftrightarrow> bitAt a i \<and> bitAt b i)"
proof -
  let ?n = "min (Bits a) (Bits b)"
  let ?cs = "Elems (copyBits a ?n)"
  have n: "0 \<le> ?n" using assms by (auto simp: wf_bits_def)
  have lens: "length (Elems a) = nat (numElems (Bits a))" "length (Elems b) = nat (numElems (Bits b))"
    using assms by (auto simp: wf_bits_def)
  have mono: "numElems ?n \<le> numElems (Bits a)" "numElems ?n \<le> numElems (Bits b)"
    using n by (auto intro: numElems_mono)
  obtain es where es: "elemLoop (AND) ?cs (Elems b) (length ?cs) = (Inr es :: 'e fault + _)" "length es = length ?cs"
    and raw: "\<And>i. rawBit es i \<longleftrightarrow>
      (if i div 64 < length ?cs then rawBit ?cs i \<and> rawBit (Elems b) i else rawBit ?cs i)"
    by (rule elemLoop_rawBit [of "length ?cs" ?cs "Elems b" "(AND)" "(\<and>)"])
      (use lens mono n in \<open>auto simp: bit_and_iff copyBits_rawBit\<close>)
  have "and": "rawBit es i \<longleftrightarrow> rawBit (Elems a) i \<and> rawBit (Elems b) i \<and> i div 64 < nat (numElems ?n)" for i
    using n es(2) by (auto simp: raw copyBits_rawBit)
  let ?c = "(copyBits a ?n)\<lparr>Elems := es\<rparr>"
  have bits: "Bits ?c = ?n" by (simp add: copyBits_def Let_def)
  moreover have "wf_bits ?c"
    using n es(2) bits numElems_ge0 [OF n] unfolding wf_bits_def by (simp add: copyBits_rawBit)
  moreover have "clean ?c"
    using assms(2,4) "and" bits by (auto simp: clean_iff)
  moreover have "\<forall>i. bitAt ?c i \<longleftrightarrow> bitAt a i \<and> bitAt b i"
    using assms(2,4) "and" bits index_numElems [of _ ?n] by (auto simp: bitAt_def)
  ultimately show ?thesis using es(1) by (auto simp: and_bits_def Let_def)
qed

lemma BA_Sub_wf:
  assumes "wf_bits a" "clean a" "wf_bits b" "clean b"
  shows "\<exists>c. BA_Sub (Some a) (Some b) = (Inr (Some c) :: 'e fault + _) \<and> wf_bits c \<and> clean c \<and>
    Bits c = Bits a \<and> (\<forall>i. bitAt c i \<longleftrightarrow> bitAt a i \<and> \<not> bitAt b i)"
proof -
  let ?k = "min (length (Elems a)) (length (Elems b))" and ?cs = "Elems (copyBits a (Bits a))"
  have n: "0 \<le> Bits a" using assms by (auto simp: wf_bits_def)
  have lens: "length (Elems a) = nat (numElems (Bits a))" "length (Elems b) = nat (numElems (Bits b))"
    using assms by (auto simp: wf_bits_def)
  obtain es where es: "elemLoop (\<lambda>x y. x AND NOT y) ?cs (Elems b) ?k = (Inr es :: 'e fault + _)" "length es = length ?cs"
    and raw: "\<And>i. rawBit es i \<longleftrightarrow>
      (if i div 64 < ?k then rawBit ?cs i \<and> \<not> rawBit (Elems b) i else rawBit ?cs i)"
    by (rule elemLoop_rawBit [of ?k ?cs "Elems b" "\<lambda>x y. x AND NOT y" "\<lambda>x y. x \<and> \<not> y"])
      (use lens n in \<open>auto simp: bit_and_iff bit_not_iff copyBits_rawBit\<close>)
  have sub: "rawBit es i \<longleftrightarrow> rawBit (Elems a) i \<and> \<not> rawBit (Elems b) i" for i
    using rawBit_numElems [OF assms(1), of "Bits a" i] rawBitD [of "Elems a" i] rawBitD [of "Elems b" i]
    by (simp add: raw copyBits_rawBit [OF n]) blast
  let ?c = "(copyBits a (Bits a))\<lparr>Elems := es\<rparr>"
  have bits: "Bits ?c = Bits a" by (simp add: copyBits_def Let_def)
  moreover have "wf_bits ?c"
    using n es(2) bits numElems_ge0 [OF n] unfolding wf_bits_def by (simp add: copyBits_rawBit)
  moreover have "clean ?c"
    using assms(2) sub bits by (auto simp: clean_iff)
  moreover have "\<forall>i. bitAt ?c i \<longleftrightarrow> bitAt a i \<and> \<not> bitAt b i"
    using assms(2,4) sub bits by (auto simp: bitAt_def clean_iff)
  ultimately show ?thesis using es(1) by (auto simp: Let_def)
qed

section \<open>Scans\<close>

lemma rawBit_none: "(\<forall>i. \<not> rawBit es i) \<longleftrightarrow> (\<forall>e \<in> set es. e = 0)"
proof
  assume none: "\<forall>i. \<not> rawBit es i"
  show "\<forall>e \<in> set es. e = 0"
  proof
    fix e assume "e \<in> set es"
    then obtain j where j: "j < length es" "es ! j = e" by (auto simp: in_set_conv_nth)
    have "\<not> bit e k" if "k < 64" for k
      using none [rule_format, of "64 * j + k"] j that by (simp add: rawBit_def)
    then show "e = 0" by (intro bit_word_eqI) simp
  qed
next
  assume zero: "\<forall>e \<in> set es. e = 0"
  show "\<forall>i. \<not> rawBit es i"
  proof (intro allI notI)
    fix i assume "rawBit es i"
    then have "es ! (i div 64) \<in> set es" "bit (es ! (i div 64)) (i mod 64)"
      by (auto simp: rawBit_def)
    with zero show False by auto
  qed
qed

lemma BA_IsEmpty_iff:
  assumes "clean b"
  shows "BA_IsEmpty (Some b) \<longleftrightarrow> (\<forall>i. \<not> bitAt b i)"
proof -
  have "BA_IsEmpty (Some b) \<longleftrightarrow> (\<forall>e \<in> set (Elems b). e = 0)"
    by (auto simp: list_ex_iff word_gt_0)
  also have "\<dots> \<longleftrightarrow> (\<forall>i. \<not> rawBit (Elems b) i)" by (simp add: rawBit_none)
  also have "\<dots> \<longleftrightarrow> (\<forall>i. \<not> bitAt b i)" using assms by (auto simp: bitAt_def clean_iff)
  finally show ?thesis .
qed

lemma take_bit_Suc_int:
  fixes k :: int
  shows "take_bit n (k + 1) = 0 \<longleftrightarrow> take_bit n k = mask n"
proof
  assume eq: "take_bit n (k + 1) = 0"
  have "take_bit n k = take_bit n (take_bit n (k + 1) - take_bit n 1)"
    unfolding take_bit_diff by simp
  also have "\<dots> = take_bit n (0 - 1)" unfolding eq by (metis take_bit_diff take_bit_of_0)
  finally show "take_bit n k = mask n" by simp
next
  assume "take_bit n k = mask n"
  then have "take_bit n (k + 1) = take_bit n (mask n + 1)"
    by (metis take_bit_add take_bit_take_bit min.idem)
  then show "take_bit n (k + 1) = 0"
    by (simp add: mask_eq_exp_minus_1 take_bit_eq_mod)
qed

lemma take_bit_Suc_0_iff:
  fixes x :: "64 word"
  assumes "n \<le> 64"
  shows "(x + 1) AND (push_bit n 1 - 1) = 0 \<longleftrightarrow> (\<forall>k < n. bit x k)"
proof -
  have "(x + 1) AND (push_bit n 1 - 1) = take_bit n (x + 1)"
    by (simp add: take_bit_eq_mask mask_eq_decr_exp)
  moreover have "take_bit n (x + 1) = 0 \<longleftrightarrow> take_bit n (uint x + 1) = 0"
  proof -
    have "uint (x + 1) = take_bit 64 (uint x + 1)"
      by (simp add: uint_word_ariths take_bit_eq_mod)
    then have "uint (take_bit n (x + 1)) = take_bit n (take_bit 64 (uint x + 1))"
      by (simp only: unsigned_take_bit_eq)
    also have "\<dots> = take_bit n (uint x + 1)"
      using assms by (simp add: min_def)
    finally show ?thesis by (metis uint_0_iff)
  qed
  moreover have "take_bit n (uint x) = mask n \<longleftrightarrow> (\<forall>k < n. bit x k)"
    using assms by (auto simp: bit_eq_iff bit_take_bit_iff bit_mask_iff bit_uint_iff)
  ultimately show ?thesis by (simp only: take_bit_Suc_int)
qed

lemma all_less_add: "(\<forall>i < m + r. P i) \<longleftrightarrow> (\<forall>i < m. P i) \<and> (\<forall>k < r. P (m + k :: nat))"
proof safe
  fix i assume "\<forall>i < m. P i" "\<forall>k < r. P (m + k)" "i < m + r"
  then show "P i" by (cases "i < m") (auto dest: spec [of _ "i - m"])
qed auto

lemma not_zero_iff: "NOT e \<noteq> (0 :: 64 word) \<longleftrightarrow> (\<exists>k < 64. \<not> bit e k)"
  by (auto simp: bit_eq_iff bit_not_iff possible_bit_def)

lemma rawBit_all_iff:
  "(\<forall>i < 64 * length es. rawBit es i) \<longleftrightarrow> (\<forall>e \<in> set es. \<forall>k < 64. bit e k)"
proof
  assume all: "\<forall>i < 64 * length es. rawBit es i"
  show "\<forall>e \<in> set es. \<forall>k < 64. bit e k"
  proof (intro ballI allI impI)
    fix e k assume "e \<in> set es" "(k::nat) < 64"
    then obtain j where "j < length es" "es ! j = e" by (auto simp: in_set_conv_nth)
    with all [rule_format, of "64 * j + k"] \<open>k < 64\<close> show "bit e k" by (simp add: rawBit_def)
  qed
next
  assume all: "\<forall>e \<in> set es. \<forall>k < 64. bit e k"
  show "\<forall>i < 64 * length es. rawBit es i"
  proof (intro allI impI)
    fix i assume "i < 64 * length es"
    then have "i div 64 < length es" by (simp add: div_less_iff_less_mult mult.commute)
    then show "rawBit es i" using all by (simp add: rawBit_def)
  qed
qed

lemma trueIndicesOf_eq:
  "n \<le> 64 \<Longrightarrow> trueIndicesOf e c n = map (\<lambda>j. c + int j) (filter (bit e) [0..<n])"
  unfolding trueIndicesOf_def by (rule arg_cong [where f = "map _"]) (auto intro!: filter_cong)

lemma filter_shift_map:
  "map (\<lambda>i. c + int i) (filter P [64..<64 + n]) =
   map (\<lambda>i. c + 64 + int i) (filter (\<lambda>i. P (64 + i)) [0..<n])"
proof -
  have "[64..<64 + n] = map (\<lambda>i. 64 + i) [0..<n]"
    by (simp add: map_add_upt add.commute)
  then show ?thesis by (simp add: filter_map comp_def algebra_simps)
qed

lemma rawBit_Cons_shift: "rawBit (e # es) (64 + i) \<longleftrightarrow> rawBit es i"
proof -
  have "(64 + i) div 64 = Suc (i div 64)" by simp
  then show ?thesis by (simp add: rawBit_def)
qed

lemma trueIndicesLoop_eq:
  "trueIndicesLoop es c =
   (map (\<lambda>i. c + int i) (filter (rawBit es) [0..<64 * length es]), c + 64 * int (length es))"
proof (induction es arbitrary: c)
  case Nil
  then show ?case by simp
next
  case (Cons e es)
  have split: "[0..<64 * length (e # es)] = [0..<64] @ [64..<64 + 64 * length es]"
    by (metis add.commute le_add2 length_Cons mult_Suc_right upt_add_eq_append plus_nat.add_0 zero_le)
  have lo: "filter (rawBit (e # es)) [0..<64] = filter (bit e) [0..<64]"
    by (rule filter_cong) (auto simp: rawBit_def)
  have zero: "(if e = 0 then [] else trueIndicesOf e c 64) = map (\<lambda>j. c + int j) (filter (bit e) [0..<64])"
    by (simp add: trueIndicesOf_eq)
  have hi: "map (\<lambda>i. c + int i) (filter (rawBit (e # es)) [64..<64 + 64 * length es]) =
      map (\<lambda>i. c + 64 + int i) (filter (rawBit es) [0..<64 * length es])"
    unfolding filter_shift_map by (simp add: rawBit_Cons_shift)
  show ?case
    unfolding trueIndicesLoop.simps Cons.IH Let_def prod.case zero split filter_append map_append lo hi
    by simp
qed

lemma wf_bits_split_last:
  assumes "wf_bits b" and "0 < Bits b"
  obtains es e r where "Elems b = es @ [e]" and "nat (Bits b) = 64 * length es + r"
    and "0 < r" and "r \<le> 64" and "Bits b = 64 * int (length es) + int r"
proof
  have len: "length (Elems b) = (nat (Bits b) + 63) div 64" using assms(1) by (rule wf_bits_length)
  with assms(2) have "Elems b \<noteq> []" by auto
  then show "Elems b = butlast (Elems b) @ [last (Elems b)]" by simp
  let ?k = "length (butlast (Elems b))"
  have k: "?k = (nat (Bits b) + 63) div 64 - 1" using len by simp
  show "nat (Bits b) = 64 * ?k + (nat (Bits b) - 64 * ?k)"
    "0 < nat (Bits b) - 64 * ?k" "nat (Bits b) - 64 * ?k \<le> 64"
    "Bits b = 64 * int ?k + int (nat (Bits b) - 64 * ?k)"
    using assms(2) unfolding k by linarith+
qed

lemma rawBit_append: "rawBit (es @ [e]) i \<longleftrightarrow>
  (if i < 64 * length es then rawBit es i else i < 64 * length es + 64 \<and> bit e (i - 64 * length es))"
proof (cases "i < 64 * length es")
  case True
  then have "i div 64 < length es" by (simp add: div_less_iff_less_mult mult.commute)
  with True show ?thesis by (simp add: rawBit_def nth_append)
next
  case False
  define j where "j = i - 64 * length es"
  have i: "i = 64 * length es + j" using False by (simp add: j_def)
  have "i div 64 = length es + j div 64" "i mod 64 = j mod 64" by (simp_all add: i)
  moreover have "j div 64 = 0 \<longleftrightarrow> j < 64" by (simp add: div_eq_0_iff)
  ultimately show ?thesis by (auto simp: rawBit_def i nth_append)
qed

lemma getTrueIndices_eq:
  assumes "wf_bits b" and "0 < Bits b"
  shows "getTrueIndices b = Inr (map int (filter (bitAt b) [0..<nat (Bits b)]))"
proof -
  obtain es e r where b: "Elems b = es @ [e]" "nat (Bits b) = 64 * length es + r"
    "0 < r" "r \<le> 64" "Bits b = 64 * int (length es) + int r"
    using assms by (rule wf_bits_split_last)
  let ?m = "64 * length es"
  have "filter (bitAt b) [0..<nat (Bits b)] = filter (bitAt b) [0..<?m] @ filter (bitAt b) [?m..<?m + r]"
    unfolding b(2) by (metis filter_append le_add2 plus_nat.add_0 upt_add_eq_append zero_le)
  moreover have "filter (bitAt b) [0..<?m] = filter (rawBit es) [0..<?m]"
    by (rule filter_cong) (auto simp: bitAt_def b rawBit_append)
  moreover have "map int (filter (bitAt b) [?m..<?m + r]) =
      map (\<lambda>j. int ?m + int j) (filter (bit e) [0..<r])"
  proof -
    have "[?m..<?m + r] = map (\<lambda>j. ?m + j) [0..<r]" by (simp add: map_add_upt add.commute)
    moreover have "filter (bitAt b \<circ> (\<lambda>j. ?m + j)) [0..<r] = filter (bit e) [0..<r]"
      using b(4) by (intro filter_cong) (auto simp: bitAt_def b(1,2,5) rawBit_append)
    ultimately show ?thesis by (simp add: filter_map comp_def)
  qed
  ultimately show ?thesis
    using b(3,4) by (simp add: getTrueIndices_def b(1,5) trueIndicesLoop_eq trueIndicesOf_eq)
qed

lemma BA_IsFull_iff:
  assumes "wf_bits b" and "0 < Bits b"
  shows "BA_IsFull (Some b) = Inr (\<forall>i < nat (Bits b). bitAt b i)"
proof -
  obtain es e r where b: "Elems b = es @ [e]" "nat (Bits b) = 64 * length es + r"
    "0 < r" "r \<le> 64" "Bits b = 64 * int (length es) + int r"
    using assms by (rule wf_bits_split_last)
  have r: "nat ((Bits b + 63) smod 64 + 1) = r"
  proof -
    have "(Bits b + 63) smod 64 = (Bits b + 63) mod 64"
      using assms(2)
      by (simp add: signed_modulo_int_def signed_divide_int_def sgn_if minus_div_mult_eq_mod)
    moreover have "(Bits b + 63) mod 64 = int r - 1"
    proof -
      have "Bits b + 63 = (int r - 1) + 64 * (int (length es) + 1)" by (simp add: b(5))
      then have "(Bits b + 63) mod 64 = (int r - 1) mod 64" by (simp only: mod_mult_self2)
      also have "\<dots> = int r - 1" using b(3,4) by (intro mod_pos_pos_trivial) auto
      finally show ?thesis .
    qed
    ultimately show ?thesis by simp
  qed
  have "(\<forall>i < nat (Bits b). bitAt b i) \<longleftrightarrow>
      (\<forall>i < 64 * length es. rawBit es i) \<and> (\<forall>k < r. bit e k)"
  proof -
    have "(\<forall>i < nat (Bits b). bitAt b i) \<longleftrightarrow> (\<forall>i < 64 * length es + r. rawBit (es @ [e]) i)"
      by (auto simp: bitAt_def b(1,2,5))
    also have "\<dots> \<longleftrightarrow> (\<forall>i < 64 * length es. rawBit (es @ [e]) i) \<and>
        (\<forall>k < r. rawBit (es @ [e]) (64 * length es + k))"
      by (rule all_less_add)
    finally show ?thesis using b(4) by (auto simp: rawBit_append)
  qed
  then show ?thesis
    unfolding rawBit_all_iff
    using take_bit_Suc_0_iff [OF b(4), of e]
    by (auto simp: b(1) r list_ex_iff not_zero_iff Let_def)
qed

section \<open>Encodings\<close>

lemma bit_array_ext:
  assumes "wf_bits a" "clean a" "wf_bits b" "clean b" "Bits a = Bits b" "\<And>i. bitAt a i \<longleftrightarrow> bitAt b i"
  shows "a = b"
proof -
  have raw: "rawBit (Elems a) i \<longleftrightarrow> rawBit (Elems b) i" for i
    using assms by (auto simp: bitAt_def clean_iff)
  have len: "length (Elems a) = length (Elems b)"
    using assms by (simp add: wf_bits_length)
  have "Elems a = Elems b"
  proof (rule nth_equalityI [OF len])
    fix j assume j: "j < length (Elems a)"
    show "Elems a ! j = Elems b ! j"
    proof (rule bit_word_eqI)
      fix k assume "k < LENGTH(64)"
      with raw [of "64 * j + k"] j len show "bit (Elems a ! j) k \<longleftrightarrow> bit (Elems b ! j) k"
        by (simp add: rawBit_def)
    qed
  qed
  with assms(5) show ?thesis by simp
qed

definition bitChar :: "bit_array \<Rightarrow> nat \<Rightarrow> char" where
  "bitChar b i = (if bitAt b i then CHR ''x'' else CHR ''_'')"

lemma jsonBits_eq: "wf_bits b \<Longrightarrow> jsonBits b n = Inr (map (bitChar b) [0..<n])"
  by (induction n) (auto simp: getIndex_bitAt bitChar_def)

lemma matchBits_quoted:
  "list_all (\<lambda>c. c = CHR ''_'' \<or> c = CHR ''x'') s \<Longrightarrow> matchBits (quote # s @ [quote]) = Some s"
  by (simp add: matchBits_def)

lemma setBits_wf:
  assumes "wf_bits b" "clean b" "\<forall>i. \<not> bitAt b i"
  shows "int n \<le> Bits b \<Longrightarrow> \<exists>b'. setBits s (Some b) n = (Inr (Some b') :: 'e fault + _) \<and> wf_bits b' \<and> clean b' \<and>
    Bits b' = Bits b \<and> (\<forall>i. bitAt b' i \<longleftrightarrow> i < n \<and> s ! i = CHR ''x'')"
proof (induction n)
  case 0
  then show ?case using assms by auto
next
  case (Suc n)
  then obtain b' where b': "setBits s (Some b) n = (Inr (Some b') :: 'e fault + _)" "wf_bits b'" "clean b'"
    "Bits b' = Bits b" "\<forall>i. bitAt b' i \<longleftrightarrow> i < n \<and> s ! i = CHR ''x''"
    by auto
  show ?case
  proof (cases "s ! n = CHR ''x''")
    case True
    obtain b'' where "setIndex b' (int n) True = (Inr (b'', True) :: 'e fault + _)" "wf_bits b''" "Bits b'' = Bits b"
      "\<forall>k. bitAt b'' k \<longleftrightarrow> (if k = n then True else bitAt b' k)" "clean b''"
      using setIndex_wf [OF b'(2), of n True] b'(3,4) Suc.prems by auto
    with b' True show ?thesis by (auto simp: less_Suc_eq)
  next
    case False
    with b' show ?thesis by (auto simp: less_Suc_eq)
  qed
qed

lemma BA_json_roundtrip_aux:
  assumes "wf_bits b" "clean b" "0 < Bits b"
  shows "\<exists>s. BA_MarshalJSON (Some b) = (Inr s :: bits_error fault + string) \<and> BA_UnmarshalJSON s = Inr b"
proof -
  let ?n = "nat (Bits b)" and ?cs = "map (bitChar b) [0..<nat (Bits b)]"
  let ?s = "quote # ?cs @ [quote]"
  have marshal: "BA_MarshalJSON (Some b) = (Inr ?s :: bits_error fault + string)"
    using assms(1) by (simp add: jsonBits_eq)
  have match: "matchBits ?s = Some ?cs"
    by (rule matchBits_quoted) (auto simp: list_all_iff bitChar_def)
  obtain b0 where b0: "NewBitArray (int ?n) = Some b0"
    using assms(3) by (auto simp: NewBitArray_def)
  then have new: "wf_bits b0" "clean b0" "\<forall>i. \<not> bitAt b0 i" "Bits b0 = Bits b"
    using NewBitArray_wf [OF b0] assms(3) by auto
  obtain b' where b': "setBits ?cs (Some b0) ?n = (Inr (Some b') :: bits_error fault + _)" "wf_bits b'"
    "clean b'" "Bits b' = Bits b" "\<forall>i. bitAt b' i \<longleftrightarrow> i < ?n \<and> ?cs ! i = CHR ''x''"
    using setBits_wf [OF new(1-3), of ?n ?cs] assms(3) by (auto simp: new(4))
  have "bitAt b' i \<longleftrightarrow> bitAt b i" for i
  proof (cases "i < ?n")
    case True
    with b'(5) show ?thesis by (simp add: bitChar_def)
  next
    case False
    moreover from this have "\<not> int i < Bits b" by linarith
    ultimately show ?thesis using b'(5) by (simp add: bitAt_def)
  qed
  then have "b' = b"
    using b' assms by (intro bit_array_ext) auto
  moreover have "quote \<noteq> CHR ''n''" by (simp add: quote_def)
  ultimately have "BA_UnmarshalJSON ?s = Inr b"
    using b'(1) b0 by (simp add: BA_UnmarshalJSON_def match)
  with marshal show ?thesis by blast
qed

lemma BA_proto_roundtrip_aux:
  assumes "wf_bits b" "0 < Bits b" "Bits b \<le> MaxInt32"
  shows "BA_FromProto c (BA_ToProto (Some b)) = Inr b"
  using assms
  by (simp add: BA_FromProto_def BA_ToProto_def wf_bits_def in64_def MaxInt64_def MinInt64_def
      MaxInt32_def)

section \<open>The interface that vote sets and part sets rely on\<close>

text \<open>
  A client never looks at \<open>Elems\<close>: it needs that setting an index sets that bit and no other,
  and that the invariant survives. The locale states that contract and derives what a client
  that sets one index after another relies on.
\<close>

locale bit_set =
  fixes member :: "'b \<Rightarrow> nat \<Rightarrow> bool"
    and setB :: "'b \<Rightarrow> nat \<Rightarrow> bool \<Rightarrow> 'b"
    and bound :: "'b \<Rightarrow> nat"
    and invar :: "'b \<Rightarrow> bool"
  assumes member_setB: "invar b \<Longrightarrow> i < bound b \<Longrightarrow> member (setB b i v) k \<longleftrightarrow> (if k = i then v else member b k)"
    and invar_setB: "invar b \<Longrightarrow> i < bound b \<Longrightarrow> invar (setB b i v)"
    and bound_setB: "invar b \<Longrightarrow> i < bound b \<Longrightarrow> bound (setB b i v) = bound b"
    and member_bound: "invar b \<Longrightarrow> member b k \<Longrightarrow> k < bound b"
begin

lemma fold_setB:
  "invar b \<Longrightarrow> \<forall>i \<in> set is. i < bound b \<Longrightarrow>
   invar (fold (\<lambda>i b. setB b i True) is b) \<and> bound (fold (\<lambda>i b. setB b i True) is b) = bound b \<and>
   (\<forall>k. member (fold (\<lambda>i b. setB b i True) is b) k \<longleftrightarrow> k \<in> set is \<or> member b k)"
  by (induction "is" arbitrary: b) (auto simp: member_setB invar_setB bound_setB)

lemma setB_collect:
  assumes "invar b" "i < bound b"
  shows "{k. member (setB b i True) k} = insert i {k. member b k}"
  using assms by (auto simp: member_setB)

end

text \<open>The model's own operations, with the result of a successful call taken out of its sum.\<close>

definition setIndexOk :: "bit_array \<Rightarrow> nat \<Rightarrow> bool \<Rightarrow> bit_array" where
  "setIndexOk b i v = (case setIndex b (int i) v of Inr (b', _) \<Rightarrow> b' | Inl (_ :: unit fault) \<Rightarrow> b)"

interpretation ba: bit_set bitAt setIndexOk "\<lambda>b. nat (Bits b)" "\<lambda>b. wf_bits b \<and> clean b"
proof
  fix b i v k
  assume b: "wf_bits b \<and> clean b" and i: "i < nat (Bits b)"
  from i have "int i < Bits b" by linarith
  with b obtain b' where "setIndex b (int i) v = (Inr (b', True) :: unit fault + _)" "wf_bits b'"
    "Bits b' = Bits b" "\<forall>k. bitAt b' k \<longleftrightarrow> (if k = i then v else bitAt b k)" "clean b'"
    using setIndex_wf [of b i v] by auto
  then show "bitAt (setIndexOk b i v) k \<longleftrightarrow> (if k = i then v else bitAt b k)"
    and "wf_bits (setIndexOk b i v) \<and> clean (setIndexOk b i v)"
    and "nat (Bits (setIndexOk b i v)) = nat (Bits b)"
    by (auto simp: setIndexOk_def)
next
  fix b k assume "bitAt b k"
  then show "k < nat (Bits b)" unfolding bitAt_def by linarith
qed

lemma setIndex_Ok:
  assumes "wf_bits b" "clean b" "int i < Bits b"
  shows "setIndex b (int i) v = (Inr (setIndexOk b i v, True) :: 'e fault + _)"
proof -
  have len: "i div 64 < length (Elems b)" using assms by (intro wf_bits_index)
  with assms show ?thesis by (simp add: setIndex_def setIndexOk_def)
qed

section \<open>Bits that mark the filled slots of a slice\<close>

definition bitsMatch :: "bit_array option \<Rightarrow> 'a option list \<Rightarrow> bool" where
  "bitsMatch p ps =
     (case p of
        None \<Rightarrow> ps = []
      | Some b \<Rightarrow> ps \<noteq> [] \<and> wf_bits b \<and> clean b \<and> Bits b = int (length ps) \<and>
                   (\<forall>i < length ps. bitAt b i \<longleftrightarrow> ps ! i \<noteq> None))"

lemma bitsMatch_new: "bitsMatch (NewBitArray (int n)) (replicate n None)"
proof (cases "NewBitArray (int n)")
  case None
  then show ?thesis by (auto simp: bitsMatch_def NewBitArray_def split: if_splits)
next
  case (Some b)
  then show ?thesis using NewBitArray_wf [OF Some] by (auto simp: bitsMatch_def)
qed

lemma SetIndex_match:
  assumes "bitsMatch p ps" and "i < length ps"
  obtains p' r where "SetIndex p (int i) True = (Inr (p', r) :: 'e fault + _)" and "bitsMatch p' (ps[i := Some v])"
proof -
  obtain b where b: "p = Some b" "wf_bits b" "clean b" "Bits b = int (length ps)"
    "\<forall>i < length ps. bitAt b i \<longleftrightarrow> ps ! i \<noteq> None"
    using assms by (auto simp: bitsMatch_def split: option.splits)
  obtain b' where b': "setIndex b (int i) True = (Inr (b', True) :: 'e fault + _)" "wf_bits b'" "Bits b' = Bits b"
    "\<forall>k. bitAt b' k \<longleftrightarrow> (if k = i then True else bitAt b k)" "clean b'"
    using setIndex_wf [OF b(2), of i True] assms(2) b(3,4) by auto
  then have "bitsMatch (Some b') (ps[i := Some v])"
    using b assms(2) by (auto simp: bitsMatch_def nth_list_update)
  then show ?thesis using that [of "Some b'" True] b(1) b'(1) by simp
qed

section \<open>Properties\<close>

text \<open>Setting an index of a bit array succeeds and changes that bit and no other: a later
  read of any index sees the new value at the index set and the old value elsewhere.\<close>

theorem BA_get_after_set:
  assumes "wf_bits b" and "int i < Bits b"
  shows "\<exists>b'. SetIndex (Some b) (int i) v = (Inr (Some b', True) :: 'e fault + _) \<and> wf_bits b' \<and>
    (\<forall>k. GetIndex (Some b') (int k) = (Inr (if k = i then v else bitAt b k) :: 'e fault + _))"
proof -
  obtain b' where "setIndex b (int i) v = (Inr (b', True) :: 'e fault + _)" "wf_bits b'"
    "\<forall>k. bitAt b' k \<longleftrightarrow> (if k = i then v else bitAt b k)"
    using setIndex_wf [OF assms, of v] by blast
  then show ?thesis by (simp add: getIndex_bitAt)
qed

theorem BA_get_after_set_witness:
  "wf_bits \<lparr>Bits = 3, Elems = [0]\<rparr> \<and>
   (\<exists>b'. SetIndex (Some \<lparr>Bits = 3, Elems = [0]\<rparr>) (int 2) True = (Inr (Some b', True) :: unit fault + _) \<and>
      wf_bits b' \<and> (\<forall>k. GetIndex (Some b') (int k) =
        (Inr (if k = 2 then True else bitAt \<lparr>Bits = 3, Elems = [0]\<rparr> k) :: unit fault + _)))"
proof -
  have wf: "wf_bits \<lparr>Bits = 3, Elems = [0]\<rparr>" by (simp add: wf_bits_def numElems_nonneg)
  show ?thesis using wf BA_get_after_set [OF wf, of 2 True] by simp
qed

text \<open>Intersection and difference of two bit arrays are what their bits say: \<open>And\<close> has the
  smaller size and the bits set in both, \<open>Sub\<close> the size of its receiver and the bits not set in
  the argument; neither ever indexes out of range.\<close>

theorem BA_and_sub_bits:
  assumes "wf_bits a" "clean a" "wf_bits b" "clean b"
  shows "(\<exists>c. BA_And (Some a) (Some b) = (Inr (Some c) :: 'e fault + _) \<and> wf_bits c \<and> clean c \<and>
      Bits c = min (Bits a) (Bits b) \<and> (\<forall>i. bitAt c i \<longleftrightarrow> bitAt a i \<and> bitAt b i)) \<and>
    (\<exists>c. BA_Sub (Some a) (Some b) = (Inr (Some c) :: 'e fault + _) \<and> wf_bits c \<and> clean c \<and>
      Bits c = Bits a \<and> (\<forall>i. bitAt c i \<longleftrightarrow> bitAt a i \<and> \<not> bitAt b i))"
  using BA_And_wf [OF assms] BA_Sub_wf [OF assms] by blast

theorem BA_and_sub_bits_witness:
  "(\<exists>c. BA_And (Some \<lparr>Bits = 3, Elems = [1]\<rparr>) (Some \<lparr>Bits = 2, Elems = [1]\<rparr>) =
      (Inr (Some c) :: unit fault + _) \<and> Bits c = 2 \<and> bitAt c 0 \<and> \<not> bitAt c 1)"
proof -
  have a: "wf_bits \<lparr>Bits = 3, Elems = [1]\<rparr>" and b: "wf_bits \<lparr>Bits = 2, Elems = [1]\<rparr>"
    by (simp_all add: wf_bits_def numElems_nonneg)
  have ca: "clean \<lparr>Bits = 3, Elems = [1]\<rparr>" and cb: "clean \<lparr>Bits = 2, Elems = [1]\<rparr>"
    by (auto simp: clean_def rawBit_def bit_1_iff)
  have "bitAt \<lparr>Bits = 3, Elems = [1]\<rparr> 0" "\<not> bitAt \<lparr>Bits = 3, Elems = [1]\<rparr> 1"
    "bitAt \<lparr>Bits = 2, Elems = [1]\<rparr> 0"
    by (simp_all add: bitAt_def rawBit_def bit_1_iff)
  with BA_and_sub_bits [OF a ca b cb, where 'e = unit] show ?thesis by fastforce
qed

text \<open>\<open>IsFull\<close> and \<open>getTrueIndices\<close> agree with the bits: the first is true exactly when every
  bit below \<open>Bits\<close> is set, the second lists exactly the set indices, in increasing order.\<close>

theorem BA_scans_correct:
  assumes "wf_bits b" and "0 < Bits b"
  shows "BA_IsFull (Some b) = (Inr (\<forall>i < nat (Bits b). bitAt b i) :: 'e fault + _) \<and>
    getTrueIndices b = (Inr (map int (filter (bitAt b) [0..<nat (Bits b)])) :: 'e fault + _)"
  using BA_IsFull_iff [OF assms] getTrueIndices_eq [OF assms] by blast

theorem BA_scans_correct_witness:
  "getTrueIndices \<lparr>Bits = 3, Elems = [5]\<rparr> = (Inr [0, 2] :: unit fault + _)"
proof -
  have "wf_bits \<lparr>Bits = 3, Elems = [5]\<rparr>" by (simp add: wf_bits_def numElems_nonneg)
  then have "getTrueIndices \<lparr>Bits = 3, Elems = [5]\<rparr> =
      (Inr (map int (filter (bitAt \<lparr>Bits = 3, Elems = [5]\<rparr>) [0..<3])) :: unit fault + _)"
    using BA_scans_correct [of "\<lparr>Bits = 3, Elems = [5]\<rparr>", where 'e = unit] by simp
  then show ?thesis by (simp add: bitAt_def rawBit_def upt_rec bit_numeral_rec)
qed

text \<open>A non-empty bit array survives a trip through JSON: \<open>UnmarshalJSON\<close> of what
  \<open>MarshalJSON\<close> wrote is the array.\<close>

theorem BA_json_roundtrip:
  assumes "wf_bits b" "clean b" "0 < Bits b"
  shows "\<exists>s. BA_MarshalJSON (Some b) = (Inr s :: bits_error fault + string) \<and> BA_UnmarshalJSON s = Inr b"
  using assms by (rule BA_json_roundtrip_aux)

theorem BA_json_roundtrip_witness:
  "\<exists>s. BA_MarshalJSON (Some \<lparr>Bits = 3, Elems = [1]\<rparr>) = (Inr s :: bits_error fault + string) \<and>
     BA_UnmarshalJSON s = Inr \<lparr>Bits = 3, Elems = [1]\<rparr>"
  by (intro BA_json_roundtrip) (auto simp: wf_bits_def numElems_nonneg clean_def rawBit_def bit_1_iff)

text \<open>The array with no bits does not survive it: \<open>MarshalJSON\<close> writes two quotes for it, and
  \<open>UnmarshalJSON\<close> of two quotes dereferences the nil pointer that \<open>NewBitArray(0)\<close> returned.\<close>

theorem BA_json_empty_panics:
  "BA_MarshalJSON (Some \<lparr>Bits = 0, Elems = []\<rparr>) = (Inr [quote, quote] :: bits_error fault + string) \<and>
   BA_UnmarshalJSON [quote, quote] = Inl (Panic ''nil pointer dereference'')"
  by (simp add: BA_UnmarshalJSON_def matchBits_def NewBitArray_def)

text \<open>\<open>Or\<close> loses bits of its argument: it keeps those of the receiver and only those of the
  argument that lie in elements the receiver has, so an argument with more elements is cut off;
  for arguments no longer than the receiver it is the union.\<close>

theorem BA_or_bits:
  assumes "wf_bits a" "clean a" "wf_bits b" "clean b"
  shows "\<exists>c. BA_Or (Some a) (Some b) = (Inr (Some c) :: 'e fault + _) \<and> Bits c = max (Bits a) (Bits b) \<and>
    (\<forall>i. bitAt c i \<longleftrightarrow> bitAt a i \<or> bitAt b i \<and> i div 64 < length (Elems a)) \<and>
    (Bits b \<le> Bits a \<longrightarrow> (\<forall>i. bitAt c i \<longleftrightarrow> bitAt a i \<or> bitAt b i))"
proof -
  obtain c where c: "BA_Or (Some a) (Some b) = (Inr (Some c) :: 'e fault + _)"
    "Bits c = max (Bits a) (Bits b)"
    "\<forall>i. bitAt c i \<longleftrightarrow> bitAt a i \<or> bitAt b i \<and> i div 64 < length (Elems a)"
    using BA_Or_wf [OF assms] by blast
  have "\<forall>i. bitAt c i \<longleftrightarrow> bitAt a i \<or> bitAt b i" if "Bits b \<le> Bits a"
    using c(3) that wf_bits_index [OF assms(1)] by (auto simp: bitAt_def)
  with c show ?thesis by blast
qed

theorem BA_or_bits_witness:
  "\<exists>c. BA_Or (Some \<lparr>Bits = 1, Elems = [0]\<rparr>) (Some \<lparr>Bits = 65, Elems = [0, 1]\<rparr>) =
      (Inr (Some c) :: unit fault + _) \<and> bitAt \<lparr>Bits = 65, Elems = [0, 1]\<rparr> 64 \<and> \<not> bitAt c 64"
proof -
  let ?a = "\<lparr>Bits = 1, Elems = [0]\<rparr>" and ?b = "\<lparr>Bits = 65, Elems = [0, 1 :: 64 word]\<rparr>"
  have wf: "wf_bits ?a" "wf_bits ?b" by (simp_all add: wf_bits_def numElems_nonneg)
  have clean: "clean ?a" "clean ?b"
    by (auto simp: clean_def rawBit_def bit_1_iff less_Suc_eq nth_Cons' split: if_splits)
  have "bitAt ?b 64" "\<not> bitAt ?a 64" by (simp_all add: bitAt_def rawBit_def)
  with BA_or_bits [OF wf(1) clean(1) wf(2) clean(2), where 'e = unit] show ?thesis by fastforce
qed

text \<open>\<open>Not\<close> inverts the bits but also those beyond \<open>Bits\<close>, which \<open>IsEmpty\<close> reads: the
  complement of a full array of one bit has no bit set and is still not empty.\<close>

theorem BA_not_is_empty_disagrees:
  "\<exists>b. wf_bits b \<and> clean b \<and> BA_Not (Some b) = Some (not_bits b) \<and>
    (\<forall>i. \<not> bitAt (not_bits b) i) \<and> \<not> BA_IsEmpty (BA_Not (Some b))"
proof -
  let ?b = "\<lparr>Bits = 1, Elems = [1 :: 64 word]\<rparr>"
  have "wf_bits ?b" by (simp add: wf_bits_def numElems_nonneg)
  moreover have "clean ?b" by (auto simp: clean_def rawBit_def bit_1_iff)
  moreover have "\<forall>i. \<not> bitAt (not_bits ?b) i"
    by (auto simp: bitAt_def rawBit_def not_bits_def bit_not_iff)
  moreover have "\<not> BA_IsEmpty (BA_Not (Some ?b))"
    by (simp add: BA_Not_def not_bits_def word_gt_0)
  ultimately show ?thesis by (auto simp: BA_Not_def)
qed

end
