(* ===== verification/BlockTypes.thy ===== *)
theory BlockTypes
  imports BitArray
begin

text \<open>
  The value types of consensus messages: part-set headers and block identifiers
  (\<open>types/part_set.go\<close>, \<open>types/block.go\<close>), votes (\<open>types/vote.go\<close>), proposals
  (\<open>types/proposal.go\<close>), commit signatures and commits (\<open>types/block.go\<close>) and the canonical
  forms that are signed (\<open>types/canonical.go\<close>), with their basic validation.

  A protobuf message \<open>tmproto.X\<close> has the fields of \<open>types.X\<close> and is the same record here, so
  \<open>ToProto\<close> disappears and \<open>XFromProto\<close> is validation. The public-key operations and the
  length-delimited protobuf encoding of the canonical forms are parameters, in the record
  \<open>crypto_env\<close>. \<open>time.Time\<close> is an \<open>int\<close> of nanoseconds, 0 for the zero time. The
  protobuf encoding of a part-set header, which \<open>BlockID.Key\<close> needs, is modelled byte by byte.
\<close>

section \<open>Sizes and hashes\<close>

type_synonym time = int

definition hashSize :: nat where "hashSize = 32"

definition AddressSize :: nat where "AddressSize = 20"

definition MaxSignatureSize :: nat where "MaxSignatureSize = 64"

datatype basic_error =
    InvalidType | NegativeHeight | NegativeRound | NegativePOLRound
  | WrongHash | WrongPartSetHeader | WrongBlockID | IncompleteBlockID
  | WrongAddressSize | NegativeIndex | SignatureMissing | SignatureTooBig
  | UnknownFlag | AddressPresent | TimePresent | SignaturePresent
  | NilBlock | NoSignatures | WrongCommitSig nat basic_error
  | NilValidator | NoPubKey | NegativePower | EmptySet | WrongValidator nat basic_error | WrongProposer basic_error

definition ValidateHash :: "bytes \<Rightarrow> basic_error fault + unit" where
  "ValidateHash h = (if length h > 0 \<and> length h \<noteq> hashSize then Inl (Err WrongHash) else Inr ())"

section \<open>Part-set headers and block identifiers\<close>

record part_set_header =
  pshTotal :: "32 word"
  pshHash :: bytes

definition PSH_IsZero :: "part_set_header \<Rightarrow> bool" where
  "PSH_IsZero h \<longleftrightarrow> pshTotal h = 0 \<and> length (pshHash h) = 0"

definition PSH_Equals :: "part_set_header \<Rightarrow> part_set_header \<Rightarrow> bool" where
  "PSH_Equals a b \<longleftrightarrow> pshTotal a = pshTotal b \<and> pshHash a = pshHash b"

definition PSH_ValidateBasic :: "part_set_header \<Rightarrow> basic_error fault + unit" where
  "PSH_ValidateBasic h =
     (case ValidateHash (pshHash h) of Inl _ \<Rightarrow> Inl (Err WrongHash) | Inr _ \<Rightarrow> Inr ())"

record block_id =
  bidHash :: bytes
  bidParts :: part_set_header

definition emptyBlockID :: block_id where
  "emptyBlockID = \<lparr>bidHash = [], bidParts = \<lparr>pshTotal = 0, pshHash = []\<rparr>\<rparr>"

definition BlockID_Equals :: "block_id \<Rightarrow> block_id \<Rightarrow> bool" where
  "BlockID_Equals a b \<longleftrightarrow> bidHash a = bidHash b \<and> PSH_Equals (bidParts a) (bidParts b)"

text \<open>The base-128 encoding of the generated protobuf code, low group first.\<close>

fun encodeVarintTypes :: "nat \<Rightarrow> bytes" where
  "encodeVarintTypes v =
     (if v \<ge> 128 then of_nat (v mod 128 + 128) # encodeVarintTypes (v div 128) else [of_nat v])"

declare encodeVarintTypes.simps [simp del]

definition PSH_Marshal :: "part_set_header \<Rightarrow> bytes" where
  "PSH_Marshal m =
     (if pshTotal m \<noteq> 0 then 0x08 # encodeVarintTypes (unat (pshTotal m)) else []) @
     (if length (pshHash m) > 0
      then 0x12 # encodeVarintTypes (length (pshHash m)) @ pshHash m else [])"

definition Key :: "block_id \<Rightarrow> bytes" where
  "Key b = bidHash b @ PSH_Marshal (bidParts b)"

definition BlockID_ValidateBasic :: "block_id \<Rightarrow> basic_error fault + unit" where
  "BlockID_ValidateBasic b =
     (case ValidateHash (bidHash b) of
        Inl _ \<Rightarrow> Inl (Err WrongHash)
      | Inr _ \<Rightarrow> (case PSH_ValidateBasic (bidParts b) of
                    Inl _ \<Rightarrow> Inl (Err WrongPartSetHeader) | Inr _ \<Rightarrow> Inr ()))"

definition BlockID_IsZero :: "block_id \<Rightarrow> bool" where
  "BlockID_IsZero b \<longleftrightarrow> length (bidHash b) = 0 \<and> PSH_IsZero (bidParts b)"

definition BlockID_IsComplete :: "block_id \<Rightarrow> bool" where
  "BlockID_IsComplete b \<longleftrightarrow>
     length (bidHash b) = hashSize \<and> pshTotal (bidParts b) > 0 \<and> length (pshHash (bidParts b)) = hashSize"

definition PartSetHeaderFromProto :: "part_set_header option \<Rightarrow> basic_error fault + part_set_header" where
  "PartSetHeaderFromProto p =
     (case p of None \<Rightarrow> Inl (Err WrongPartSetHeader)
      | Some h \<Rightarrow> bindR (PSH_ValidateBasic h) (\<lambda>_. Inr h))"

definition BlockIDFromProto :: "block_id option \<Rightarrow> basic_error fault + block_id" where
  "BlockIDFromProto p =
     (case p of None \<Rightarrow> Inl (Err WrongBlockID)
      | Some b \<Rightarrow> bindR (PartSetHeaderFromProto (Some (bidParts b))) (\<lambda>_.
                  bindR (BlockID_ValidateBasic b) (\<lambda>_. Inr b)))"

section \<open>Votes and proposals\<close>

text \<open>Any other value of the protobuf enumeration is treated as \<open>UnknownType\<close> is.\<close>

datatype SignedMsgType = UnknownType | PrevoteType | PrecommitType | ProposalType

fun IsVoteTypeValid :: "SignedMsgType \<Rightarrow> bool" where
  "IsVoteTypeValid PrevoteType = True"
| "IsVoteTypeValid PrecommitType = True"
| "IsVoteTypeValid _ = False"

record vote =
  vType :: SignedMsgType
  vHeight :: int
  vRound :: int
  vBlockID :: block_id
  vTimestamp :: time
  vAddress :: bytes
  vIndex :: int
  vSignature :: bytes

datatype vote_error =
    ErrVoteUnexpectedStep | ErrVoteInvalidValidatorIndex | ErrVoteInvalidValidatorAddress
  | ErrVoteInvalidSignature | ErrVoteInvalidBlockHash | ErrVoteNonDeterministicSignature
  | ErrVoteNil | ErrVoteConflictingVotes vote vote

definition NewConflictingVoteError :: "vote \<Rightarrow> vote \<Rightarrow> vote_error" where
  "NewConflictingVoteError a b = ErrVoteConflictingVotes a b"

definition Vote_ValidateBasic :: "vote \<Rightarrow> basic_error fault + unit" where
  "Vote_ValidateBasic v =
     (if \<not> IsVoteTypeValid (vType v) then Inl (Err InvalidType)
      else if vHeight v < 0 then Inl (Err NegativeHeight)
      else if vRound v < 0 then Inl (Err NegativeRound)
      else case BlockID_ValidateBasic (vBlockID v) of
        Inl _ \<Rightarrow> Inl (Err WrongBlockID)
      | Inr _ \<Rightarrow>
          if \<not> BlockID_IsZero (vBlockID v) \<and> \<not> BlockID_IsComplete (vBlockID v)
          then Inl (Err IncompleteBlockID)
          else if length (vAddress v) \<noteq> AddressSize then Inl (Err WrongAddressSize)
          else if vIndex v < 0 then Inl (Err NegativeIndex)
          else if length (vSignature v) = 0 then Inl (Err SignatureMissing)
          else if length (vSignature v) > MaxSignatureSize then Inl (Err SignatureTooBig)
          else Inr ())"

definition VoteFromProto :: "vote option \<Rightarrow> basic_error fault + vote" where
  "VoteFromProto p =
     (case p of None \<Rightarrow> Inl (Err InvalidType)
      | Some v \<Rightarrow> bindR (BlockIDFromProto (Some (vBlockID v))) (\<lambda>_.
                  bindR (Vote_ValidateBasic v) (\<lambda>_. Inr v)))"

record proposal =
  prType :: SignedMsgType
  prHeight :: int
  prRound :: int
  prPOLRound :: int
  prBlockID :: block_id
  prTimestamp :: time
  prSignature :: bytes

text \<open>\<open>now\<close> is what \<open>tmtime.Now()\<close> returns.\<close>

definition NewProposal :: "time \<Rightarrow> int \<Rightarrow> int \<Rightarrow> int \<Rightarrow> block_id \<Rightarrow> proposal" where
  "NewProposal now h r polr b =
     \<lparr>prType = ProposalType, prHeight = h, prRound = r, prPOLRound = polr, prBlockID = b,
      prTimestamp = now, prSignature = []\<rparr>"

definition Proposal_ValidateBasic :: "proposal \<Rightarrow> basic_error fault + unit" where
  "Proposal_ValidateBasic p =
     (if prType p \<noteq> ProposalType then Inl (Err InvalidType)
      else if prHeight p < 0 then Inl (Err NegativeHeight)
      else if prRound p < 0 then Inl (Err NegativeRound)
      else if prPOLRound p < - 1 then Inl (Err NegativePOLRound)
      else case BlockID_ValidateBasic (prBlockID p) of
        Inl _ \<Rightarrow> Inl (Err WrongBlockID)
      | Inr _ \<Rightarrow>
          if \<not> BlockID_IsComplete (prBlockID p) then Inl (Err IncompleteBlockID)
          else if length (prSignature p) = 0 then Inl (Err SignatureMissing)
          else if length (prSignature p) > MaxSignatureSize then Inl (Err SignatureTooBig)
          else Inr ())"

definition ProposalFromProto :: "proposal option \<Rightarrow> basic_error fault + proposal" where
  "ProposalFromProto p =
     (case p of None \<Rightarrow> Inl (Err InvalidType)
      | Some q \<Rightarrow> bindR (BlockIDFromProto (Some (prBlockID q))) (\<lambda>_.
                  bindR (Proposal_ValidateBasic q) (\<lambda>_. Inr q)))"

section \<open>Canonical forms\<close>

record canonical_vote =
  cvType :: SignedMsgType
  cvHeight :: int
  cvRound :: int
  cvBlockID :: "block_id option"
  cvTimestamp :: time
  cvChainID :: string

record canonical_proposal =
  cpType :: SignedMsgType
  cpHeight :: int
  cpRound :: int
  cpPOLRound :: int
  cpBlockID :: "block_id option"
  cpTimestamp :: time
  cpChainID :: string

text \<open>
  What the code calls outside this development: the address of a public key and signature
  verification (\<open>crypto.PubKey\<close>), and the delimited protobuf encodings of the canonical forms.
\<close>

record crypto_env =
  pkAddress :: "bytes \<Rightarrow> bytes"
  pkVerify :: "bytes \<Rightarrow> bytes \<Rightarrow> bytes \<Rightarrow> bool"
  marshalVote :: "canonical_vote \<Rightarrow> bytes"
  marshalProposal :: "canonical_proposal \<Rightarrow> bytes"

definition CanonicalizeBlockID :: "block_id \<Rightarrow> 'e fault + block_id option" where
  "CanonicalizeBlockID b =
     (case BlockIDFromProto (Some b) of
        Inl _ \<Rightarrow> Inl (Panic ''wrong block ID'')
      | Inr rb \<Rightarrow> if BlockID_IsZero rb then Inr None
                  else Inr (Some \<lparr>bidHash = bidHash b, bidParts = bidParts b\<rparr>))"

definition CanonicalizeVote :: "string \<Rightarrow> vote \<Rightarrow> 'e fault + canonical_vote" where
  "CanonicalizeVote chainID v =
     bindR (CanonicalizeBlockID (vBlockID v)) (\<lambda>b.
       Inr \<lparr>cvType = vType v, cvHeight = vHeight v, cvRound = vRound v, cvBlockID = b,
            cvTimestamp = vTimestamp v, cvChainID = chainID\<rparr>)"

definition CanonicalizeProposal :: "string \<Rightarrow> proposal \<Rightarrow> 'e fault + canonical_proposal" where
  "CanonicalizeProposal chainID p =
     bindR (CanonicalizeBlockID (prBlockID p)) (\<lambda>b.
       Inr \<lparr>cpType = ProposalType, cpHeight = prHeight p, cpRound = prRound p,
            cpPOLRound = prPOLRound p, cpBlockID = b,
            cpTimestamp = prTimestamp p, cpChainID = chainID\<rparr>)"

definition VoteSignBytes :: "crypto_env \<Rightarrow> string \<Rightarrow> vote \<Rightarrow> 'e fault + bytes" where
  "VoteSignBytes env chainID v =
     bindR (CanonicalizeVote chainID v) (\<lambda>pb. Inr (marshalVote env pb))"

definition ProposalSignBytes :: "crypto_env \<Rightarrow> string \<Rightarrow> proposal \<Rightarrow> 'e fault + bytes" where
  "ProposalSignBytes env chainID p =
     bindR (CanonicalizeProposal chainID p) (\<lambda>pb. Inr (marshalProposal env pb))"

text \<open>A nil public key makes the method call panic.\<close>

definition Vote_Verify :: "crypto_env \<Rightarrow> string \<Rightarrow> bytes option \<Rightarrow> vote \<Rightarrow> vote_error fault + unit" where
  "Vote_Verify env chainID pubKey v =
     (case pubKey of
        None \<Rightarrow> Inl (Panic ''nil pointer dereference'')
      | Some pk \<Rightarrow>
          if pkAddress env pk \<noteq> vAddress v then Inl (Err ErrVoteInvalidValidatorAddress)
          else bindR (VoteSignBytes env chainID v) (\<lambda>sb.
            if \<not> pkVerify env pk sb (vSignature v) then Inl (Err ErrVoteInvalidSignature) else Inr ()))"

section \<open>Commits\<close>

datatype BlockIDFlag = BlockIDFlagAbsent | BlockIDFlagCommit | BlockIDFlagNil | BlockIDFlagOther "8 word"

record commit_sig =
  csFlag :: BlockIDFlag
  csAddress :: bytes
  csTimestamp :: time
  csSignature :: bytes

definition NewCommitSigForBlock :: "bytes \<Rightarrow> bytes \<Rightarrow> time \<Rightarrow> commit_sig" where
  "NewCommitSigForBlock sig addr ts =
     \<lparr>csFlag = BlockIDFlagCommit, csAddress = addr, csTimestamp = ts, csSignature = sig\<rparr>"

definition NewCommitSigAbsent :: commit_sig where
  "NewCommitSigAbsent = \<lparr>csFlag = BlockIDFlagAbsent, csAddress = [], csTimestamp = 0, csSignature = []\<rparr>"

definition ForBlock :: "commit_sig \<Rightarrow> bool" where
  "ForBlock cs \<longleftrightarrow> csFlag cs = BlockIDFlagCommit"

definition Absent :: "commit_sig \<Rightarrow> bool" where
  "Absent cs \<longleftrightarrow> csFlag cs = BlockIDFlagAbsent"

definition CommitSig_BlockID :: "commit_sig \<Rightarrow> block_id \<Rightarrow> 'e fault + block_id" where
  "CommitSig_BlockID cs commitBlockID =
     (case csFlag cs of
        BlockIDFlagAbsent \<Rightarrow> Inr emptyBlockID
      | BlockIDFlagCommit \<Rightarrow> Inr commitBlockID
      | BlockIDFlagNil \<Rightarrow> Inr emptyBlockID
      | BlockIDFlagOther _ \<Rightarrow> Inl (Panic ''Unknown BlockIDFlag''))"

definition CommitSig_ValidateBasic :: "commit_sig \<Rightarrow> basic_error fault + unit" where
  "CommitSig_ValidateBasic cs =
     (case csFlag cs of
        BlockIDFlagOther _ \<Rightarrow> Inl (Err UnknownFlag)
      | BlockIDFlagAbsent \<Rightarrow>
          if length (csAddress cs) \<noteq> 0 then Inl (Err AddressPresent)
          else if csTimestamp cs \<noteq> 0 then Inl (Err TimePresent)
          else if length (csSignature cs) \<noteq> 0 then Inl (Err SignaturePresent)
          else Inr ()
      | _ \<Rightarrow>
          if length (csAddress cs) \<noteq> AddressSize then Inl (Err WrongAddressSize)
          else if length (csSignature cs) = 0 then Inl (Err SignatureMissing)
          else if length (csSignature cs) > MaxSignatureSize then Inl (Err SignatureTooBig)
          else Inr ())"

text \<open>\<open>(*Vote).CommitSig\<close>, on a possibly nil vote.\<close>

definition Vote_CommitSig :: "vote option \<Rightarrow> 'e fault + commit_sig" where
  "Vote_CommitSig p =
     (case p of
        None \<Rightarrow> Inr NewCommitSigAbsent
      | Some v \<Rightarrow>
          bindR (if BlockID_IsComplete (vBlockID v) then Inr BlockIDFlagCommit
                 else if BlockID_IsZero (vBlockID v) then Inr BlockIDFlagNil
                 else Inl (Panic ''Invalid vote'')) (\<lambda>flag.
            Inr \<lparr>csFlag = flag, csAddress = vAddress v, csTimestamp = vTimestamp v,
                 csSignature = vSignature v\<rparr>))"

record commit =
  cmHeight :: int
  cmRound :: int
  cmBlockID :: block_id
  cmSignatures :: "commit_sig list"

definition NewCommit :: "int \<Rightarrow> int \<Rightarrow> block_id \<Rightarrow> commit_sig list \<Rightarrow> commit" where
  "NewCommit h r b sigs = \<lparr>cmHeight = h, cmRound = r, cmBlockID = b, cmSignatures = sigs\<rparr>"

definition GetVote :: "commit \<Rightarrow> int \<Rightarrow> 'e fault + vote" where
  "GetVote c valIdx =
     bindR (goIndex (cmSignatures c) valIdx) (\<lambda>cs.
     bindR (CommitSig_BlockID cs (cmBlockID c)) (\<lambda>bid.
       Inr \<lparr>vType = PrecommitType, vHeight = cmHeight c, vRound = cmRound c, vBlockID = bid,
            vTimestamp = csTimestamp cs, vAddress = csAddress cs, vIndex = valIdx,
            vSignature = csSignature cs\<rparr>))"

definition Commit_VoteSignBytes :: "crypto_env \<Rightarrow> commit \<Rightarrow> string \<Rightarrow> int \<Rightarrow> 'e fault + bytes" where
  "Commit_VoteSignBytes env c chainID valIdx =
     bindR (GetVote c valIdx) (\<lambda>v. VoteSignBytes env chainID v)"

definition Commit_Size :: "commit option \<Rightarrow> nat" where
  "Commit_Size p = (case p of None \<Rightarrow> 0 | Some c \<Rightarrow> length (cmSignatures c))"

fun commitBits :: "commit_sig list \<Rightarrow> bit_array option \<Rightarrow> nat \<Rightarrow> 'e fault + bit_array option" where
  "commitBits [] b i = Inr b"
| "commitBits (cs # css) b i =
     bindR (SetIndex b (int i) (\<not> Absent cs)) (\<lambda>(b', _). commitBits css b' (Suc i))"

definition Commit_BitArray :: "commit \<Rightarrow> 'e fault + bit_array option" where
  "Commit_BitArray c = commitBits (cmSignatures c) (NewBitArray (int (length (cmSignatures c)))) 0"

definition Commit_IsCommit :: "commit \<Rightarrow> bool" where
  "Commit_IsCommit c \<longleftrightarrow> length (cmSignatures c) \<noteq> 0"

fun validateSigs :: "nat \<Rightarrow> commit_sig list \<Rightarrow> basic_error fault + unit" where
  "validateSigs i [] = Inr ()"
| "validateSigs i (cs # css) =
     (case CommitSig_ValidateBasic cs of
        Inl (Err e) \<Rightarrow> Inl (Err (WrongCommitSig i e))
      | Inl (Panic p) \<Rightarrow> Inl (Panic p)
      | Inr _ \<Rightarrow> validateSigs (Suc i) css)"

definition Commit_ValidateBasic :: "commit \<Rightarrow> basic_error fault + unit" where
  "Commit_ValidateBasic c =
     (if cmHeight c < 0 then Inl (Err NegativeHeight)
      else if cmRound c < 0 then Inl (Err NegativeRound)
      else if cmHeight c \<ge> 1 then
        (if BlockID_IsZero (cmBlockID c) then Inl (Err NilBlock)
         else if length (cmSignatures c) = 0 then Inl (Err NoSignatures)
         else validateSigs 0 (cmSignatures c))
      else Inr ())"

section \<open>Lemmas\<close>

lemma PSH_Equals_iff [simp]: "PSH_Equals a b \<longleftrightarrow> a = b"
  by (cases a, cases b) (auto simp: PSH_Equals_def)

lemma BlockID_Equals_iff [simp]: "BlockID_Equals a b \<longleftrightarrow> a = b"
  by (cases a, cases b) (auto simp: BlockID_Equals_def)

lemma BlockID_IsZero_iff: "BlockID_IsZero b \<longleftrightarrow> b = emptyBlockID"
  by (cases b) (auto simp: BlockID_IsZero_def PSH_IsZero_def emptyBlockID_def intro: part_set_header.equality)

lemma not_zero_and_complete [simp]: "BlockID_IsZero b \<Longrightarrow> \<not> BlockID_IsComplete b"
  by (auto simp: BlockID_IsZero_def BlockID_IsComplete_def hashSize_def)

definition zeroOrComplete :: "block_id \<Rightarrow> bool" where
  "zeroOrComplete b \<longleftrightarrow> BlockID_IsZero b \<or> BlockID_IsComplete b"

lemma zeroOrComplete_valid: "zeroOrComplete b \<Longrightarrow> BlockID_ValidateBasic b = Inr ()"
  by (auto simp: zeroOrComplete_def BlockID_IsZero_iff emptyBlockID_def BlockID_IsComplete_def
      BlockID_ValidateBasic_def PSH_ValidateBasic_def ValidateHash_def)

lemma BlockIDFromProto_valid: "zeroOrComplete b \<Longrightarrow> BlockIDFromProto (Some b) = Inr b"
  using zeroOrComplete_valid [of b]
  by (auto simp: BlockIDFromProto_def PartSetHeaderFromProto_def BlockID_ValidateBasic_def
      split: sum.splits)

lemma Vote_ValidateBasic_zeroOrComplete: "Vote_ValidateBasic v = Inr () \<Longrightarrow> zeroOrComplete (vBlockID v)"
  by (auto simp: Vote_ValidateBasic_def zeroOrComplete_def split: if_splits sum.splits)

subsection \<open>The key of a block identifier\<close>

lemma encodeVarintTypes_small: "v < 128 \<Longrightarrow> encodeVarintTypes v = [of_nat v]"
  by (simp add: encodeVarintTypes.simps)

lemma byte_of_nat_inj: "a < 256 \<Longrightarrow> b < 256 \<Longrightarrow> (of_nat a :: 8 word) = of_nat b \<longleftrightarrow> a = b"
  by (simp add: word_of_nat_eq_iff take_bit_eq_mod)

text \<open>The encoding is prefix free: two encodings followed by anything agree only when the numbers
  and what follows agree.\<close>

lemma encodeVarint_prefix_free:
  "encodeVarintTypes a @ xs = encodeVarintTypes b @ ys \<longleftrightarrow> a = b \<and> xs = ys"
proof (induction a arbitrary: b rule: encodeVarintTypes.induct)
  case (1 a)
  have enc: "encodeVarintTypes v =
      (if v \<ge> 128 then of_nat (v mod 128 + 128) # encodeVarintTypes (v div 128) else [of_nat v])" for v
    by (rule encodeVarintTypes.simps)
  have lo: "v mod 128 + 128 < 256" for v :: nat
    using mod_less_divisor [of 128 v] by simp
  show ?case
  proof (cases "a \<ge> 128 \<and> b \<ge> 128")
    case True
    then have IH: "encodeVarintTypes (a div 128) @ xs = encodeVarintTypes (b div 128) @ ys \<longleftrightarrow>
        a div 128 = b div 128 \<and> xs = ys"
      using 1 by blast
    have "a = b \<longleftrightarrow> a mod 128 = b mod 128 \<and> a div 128 = b div 128"
      by (metis div_mod_decomp)
    with True show ?thesis
      by (auto simp: enc [of a] enc [of b] IH byte_of_nat_inj lo simp del: of_nat_add)
  next
    case False
    then show ?thesis
      using byte_of_nat_inj [of a "b mod 128 + 128"] byte_of_nat_inj [of "a mod 128 + 128" b] lo [of a] lo [of b]
      by (auto simp: enc [of a] enc [of b] byte_of_nat_inj simp del: of_nat_add)
  qed
qed

lemma Key_complete:
  "BlockID_IsComplete b \<Longrightarrow> Key b = bidHash b @ 0x08 # encodeVarintTypes (unat (pshTotal (bidParts b))) @
     0x12 # encodeVarintTypes hashSize @ pshHash (bidParts b)"
  by (auto simp: BlockID_IsComplete_def Key_def PSH_Marshal_def hashSize_def)

lemma Key_inj_aux:
  assumes "zeroOrComplete a" and "zeroOrComplete b" and "Key a = Key b"
  shows "a = b"
proof -
  have zero: "BlockID_IsZero c \<Longrightarrow> Key c = []" for c
    by (simp add: BlockID_IsZero_iff emptyBlockID_def Key_def PSH_Marshal_def)
  have nonzero: "BlockID_IsComplete c \<Longrightarrow> Key c \<noteq> []" for c
    by (simp add: Key_complete)
  consider "BlockID_IsZero a" "BlockID_IsZero b" | "BlockID_IsComplete a" "BlockID_IsComplete b"
    using assms zero nonzero by (metis zeroOrComplete_def)
  then show ?thesis
  proof cases
    case 1
    then show ?thesis by (simp add: BlockID_IsZero_iff)
  next
    case 2
    then have "bidHash a = bidHash b" and
      tail: "encodeVarintTypes (unat (pshTotal (bidParts a))) @ 0x12 # encodeVarintTypes hashSize @ pshHash (bidParts a) =
        encodeVarintTypes (unat (pshTotal (bidParts b))) @ 0x12 # encodeVarintTypes hashSize @ pshHash (bidParts b)"
      using assms(3) by (auto simp: Key_complete BlockID_IsComplete_def)
    moreover from tail have "pshTotal (bidParts a) = pshTotal (bidParts b) \<and>
        pshHash (bidParts a) = pshHash (bidParts b)"
      by (simp add: encodeVarint_prefix_free word_unat_eq_iff)
    ultimately show ?thesis
      by (cases a, cases b) (auto intro: part_set_header.equality)
  qed
qed

subsection \<open>Signed bytes\<close>

lemma CanonicalizeBlockID_valid:
  "zeroOrComplete b \<Longrightarrow> CanonicalizeBlockID b = Inr (if BlockID_IsZero b then None else Some b)"
  by (simp add: CanonicalizeBlockID_def BlockIDFromProto_valid)

lemma VoteSignBytes_valid:
  "zeroOrComplete (vBlockID v) \<Longrightarrow> VoteSignBytes env chainID v =
     Inr (marshalVote env \<lparr>cvType = vType v, cvHeight = vHeight v, cvRound = vRound v,
       cvBlockID = (if BlockID_IsZero (vBlockID v) then None else Some (vBlockID v)),
       cvTimestamp = vTimestamp v, cvChainID = chainID\<rparr>)"
  by (simp add: VoteSignBytes_def CanonicalizeVote_def CanonicalizeBlockID_valid)

text \<open>A commit signature keeps everything of a precommit but its place: put back at the validator's
  index of a commit for the same height, round and block, it is the vote again.\<close>

lemma GetVote_of_CommitSig:
  assumes "Vote_CommitSig (Some v) = (Inr cs :: 'e fault + _)" and "i < length (cmSignatures c)"
    and "cmSignatures c ! i = cs" and "vType v = PrecommitType" and "vIndex v = int i"
    and "cmHeight c = vHeight v" and "cmRound c = vRound v"
    and "BlockID_IsComplete (vBlockID v) \<Longrightarrow> cmBlockID c = vBlockID v"
  shows "GetVote c (int i) = Inr v"
proof (cases "BlockID_IsComplete (vBlockID v)")
  case True
  with assms(1) have "cs = \<lparr>csFlag = BlockIDFlagCommit, csAddress = vAddress v,
      csTimestamp = vTimestamp v, csSignature = vSignature v\<rparr>"
    by (simp add: Vote_CommitSig_def)
  with assms True show ?thesis by (simp add: GetVote_def CommitSig_BlockID_def)
next
  case False
  with assms(1) have "vBlockID v = emptyBlockID" and "cs = \<lparr>csFlag = BlockIDFlagNil, csAddress = vAddress v,
      csTimestamp = vTimestamp v, csSignature = vSignature v\<rparr>"
    by (auto simp: Vote_CommitSig_def BlockID_IsZero_iff split: if_splits)
  with assms show ?thesis by (simp add: GetVote_def CommitSig_BlockID_def)
qed

section \<open>Properties\<close>

text \<open>C27: The map key of a block identifier determines it: on identifiers that are empty or complete,
  as every validated vote's is, \<open>BlockID.Key\<close> is injective, so a vote set never mixes the votes of
  two blocks.\<close>

theorem Key_injective:
  assumes "Vote_ValidateBasic v = Inr ()" and "Vote_ValidateBasic w = Inr ()"
    and "Key (vBlockID v) = Key (vBlockID w)"
  shows "vBlockID v = vBlockID w"
  using assms by (intro Key_inj_aux Vote_ValidateBasic_zeroOrComplete)

definition sampleVote :: vote where
  "sampleVote = \<lparr>vType = PrecommitType, vHeight = 5, vRound = 0,
     vBlockID = \<lparr>bidHash = replicate 32 7, bidParts = \<lparr>pshTotal = 300, pshHash = replicate 32 9\<rparr>\<rparr>,
     vTimestamp = 1000, vAddress = replicate 20 1, vIndex = 0, vSignature = [1, 2, 3]\<rparr>"

lemma sampleVote_valid: "Vote_ValidateBasic (sampleVote\<lparr>vTimestamp := t\<rparr>) = Inr ()"
  by (simp add: sampleVote_def Vote_ValidateBasic_def BlockID_ValidateBasic_def PSH_ValidateBasic_def
      ValidateHash_def BlockID_IsComplete_def hashSize_def AddressSize_def MaxSignatureSize_def word_gt_0)

theorem Key_injective_witness:
  "vBlockID (sampleVote\<lparr>vTimestamp := 3\<rparr>) = vBlockID (sampleVote\<lparr>vTimestamp := 7\<rparr>)"
  using Key_injective [OF sampleVote_valid [of 3] sampleVote_valid [of 7]] by simp

text \<open>A precommit turned into a commit signature and read back with \<open>GetVote\<close> is the same vote,
  signed bytes included, when the commit is for its height, round and block.\<close>

theorem commit_vote_roundtrip:
  assumes "Vote_ValidateBasic v = Inr ()" and "vType v = PrecommitType" and "vIndex v = int i"
    and "i < length (cmSignatures c)"
    and "Vote_CommitSig (Some v) = (Inr (cmSignatures c ! i) :: 'e fault + _)"
    and "cmHeight c = vHeight v" and "cmRound c = vRound v"
    and "BlockID_IsComplete (vBlockID v) \<longrightarrow> cmBlockID c = vBlockID v"
  shows "GetVote c (int i) = (Inr v :: 'e fault + _) \<and>
    Commit_VoteSignBytes env c chainID (int i) = (VoteSignBytes env chainID v :: 'e fault + _)"
proof -
  have "GetVote c (int i) = (Inr v :: 'e fault + _)"
    using assms by (intro GetVote_of_CommitSig [OF assms(5,4) refl]) auto
  then show ?thesis by (simp add: Commit_VoteSignBytes_def)
qed

definition sampleCommit :: commit where
  "sampleCommit = NewCommit 5 0 (vBlockID sampleVote)
     [NewCommitSigForBlock [1, 2, 3] (replicate 20 1) 1000]"

theorem commit_vote_roundtrip_witness:
  "GetVote sampleCommit (int 0) = (Inr sampleVote :: unit fault + _)"
proof -
  have "BlockID_IsComplete (vBlockID sampleVote)"
    by (simp add: sampleVote_def BlockID_IsComplete_def hashSize_def word_gt_0)
  moreover have "Vote_ValidateBasic sampleVote = Inr ()"
    using sampleVote_valid [of "vTimestamp sampleVote"] by simp
  ultimately have "GetVote sampleCommit (int 0) = (Inr sampleVote :: unit fault + _) \<and>
      Commit_VoteSignBytes env sampleCommit ''c'' (int 0) = (VoteSignBytes env ''c'' sampleVote :: unit fault + _)"
    for env
    by (intro commit_vote_roundtrip)
      (auto simp: sampleCommit_def NewCommit_def NewCommitSigForBlock_def Vote_CommitSig_def sampleVote_def)
  then show ?thesis by simp
qed

end
