(* ===== verification/Validators.thy ===== *)
theory Validators
  imports BlockTypes "HOL-Library.Product_Lexorder" "HOL-Library.Multiset"
begin

text \<open>
  \<open>types/validator.go\<close> and \<open>types/validator_set.go\<close> (but for the commit checks, which are in
  \<open>CommitVerify\<close>): validators, the validator set, the update by a change set and the weighted
  round-robin choice of the proposer.

  A \<open>ValidatorSet\<close> is a record; its methods take it and return it changed. \<open>sort.Sort\<close> is
  \<open>sort_key\<close>: the keys used are distinct on the lists that survive validation, so the order
  Go's unstable sort gives is the same. \<open>Proposer\<close> holds the validator as it was when it was
  chosen: Go keeps a pointer into the list, so a later change of that list element's priority
  also shows through the pointer; the address, key and power, which are what the code reads
  through it, are the same either way.
\<close>

section \<open>Checked 64-bit arithmetic\<close>

definition MaxTotalVotingPower :: int where "MaxTotalVotingPower = MaxInt64 sdiv 8"

definition PriorityWindowSizeFactor :: int where "PriorityWindowSizeFactor = 2"

definition safeAdd :: "int \<Rightarrow> int \<Rightarrow> int \<times> bool" where
  "safeAdd a b =
     (if b > 0 \<and> a > MaxInt64 - b then (- 1, True)
      else if b < 0 \<and> a < MinInt64 - b then (- 1, True)
      else (wrap64 (a + b), False))"

definition safeSub :: "int \<Rightarrow> int \<Rightarrow> int \<times> bool" where
  "safeSub a b =
     (if b > 0 \<and> a < MinInt64 + b then (- 1, True)
      else if b < 0 \<and> a > MaxInt64 + b then (- 1, True)
      else (wrap64 (a - b), False))"

definition safeAddClip :: "int \<Rightarrow> int \<Rightarrow> int" where
  "safeAddClip a b =
     (let (c, overflow) = safeAdd a b in
      if overflow then (if b < 0 then MinInt64 else MaxInt64) else c)"

definition safeSubClip :: "int \<Rightarrow> int \<Rightarrow> int" where
  "safeSubClip a b =
     (let (c, overflow) = safeSub a b in
      if overflow then (if b > 0 then MinInt64 else MaxInt64) else c)"

definition safeMul :: "int \<Rightarrow> int \<Rightarrow> int \<times> bool" where
  "safeMul a b =
     (if a = 0 \<or> b = 0 then (0, False)
      else (let absOfB = (if b < 0 then wrap64 (- b) else b);
                absOfA = (if a < 0 then wrap64 (- a) else a) in
            if absOfA > MaxInt64 sdiv absOfB then (0, True) else (wrap64 (a * b), False)))"

section \<open>Validators\<close>

record validator =
  Address :: bytes
  PubKey :: "bytes option"
  VotingPower :: int
  ProposerPriority :: int

definition NewValidator :: "crypto_env \<Rightarrow> bytes \<Rightarrow> int \<Rightarrow> validator" where
  "NewValidator env pk vp =
     \<lparr>Address = pkAddress env pk, PubKey = Some pk, VotingPower = vp, ProposerPriority = 0\<rparr>"

definition Validator_ValidateBasic :: "validator option \<Rightarrow> basic_error fault + unit" where
  "Validator_ValidateBasic p =
     (case p of
        None \<Rightarrow> Inl (Err NilValidator)
      | Some v \<Rightarrow>
          if PubKey v = None then Inl (Err NoPubKey)
          else if VotingPower v < 0 then Inl (Err NegativePower)
          else if length (Address v) \<noteq> AddressSize then Inl (Err WrongAddressSize)
          else Inr ())"

text \<open>\<open>CompareProposerPriority\<close> returns its receiver or its argument: \<open>receiverWins\<close> says which.\<close>

definition receiverWins :: "validator \<Rightarrow> validator \<Rightarrow> 'e fault + bool" where
  "receiverWins v other =
     (if ProposerPriority v > ProposerPriority other then Inr True
      else if ProposerPriority v < ProposerPriority other then Inr False
      else if Address v < Address other then Inr True
      else if Address v > Address other then Inr False
      else Inl (Panic ''Cannot compare identical validators''))"

definition CompareProposerPriority :: "validator option \<Rightarrow> validator \<Rightarrow> 'e fault + validator" where
  "CompareProposerPriority p other =
     (case p of
        None \<Rightarrow> Inr other
      | Some v \<Rightarrow> bindR (receiverWins v other) (\<lambda>b. Inr (if b then v else other)))"

section \<open>The validator set\<close>

record validator_set =
  Validators :: "validator list"
  Proposer :: "validator option"
  totalVotingPower :: int

definition emptyValidatorSet :: validator_set where
  "emptyValidatorSet = \<lparr>Validators = [], Proposer = None, totalVotingPower = 0\<rparr>"

definition IsNilOrEmpty :: "validator_set option \<Rightarrow> bool" where
  "IsNilOrEmpty p = (case p of None \<Rightarrow> True | Some vals \<Rightarrow> Validators vals = [])"

fun validateEach :: "nat \<Rightarrow> validator list \<Rightarrow> basic_error fault + unit" where
  "validateEach i [] = Inr ()"
| "validateEach i (v # vs) =
     (case Validator_ValidateBasic (Some v) of
        Inl (Err e) \<Rightarrow> Inl (Err (WrongValidator i e))
      | Inl (Panic p) \<Rightarrow> Inl (Panic p)
      | Inr _ \<Rightarrow> validateEach (Suc i) vs)"

definition ValidatorSet_ValidateBasic :: "validator_set option \<Rightarrow> basic_error fault + unit" where
  "ValidatorSet_ValidateBasic p =
     (case p of
        None \<Rightarrow> Inl (Err EmptySet)
      | Some vals \<Rightarrow>
          if IsNilOrEmpty (Some vals) then Inl (Err EmptySet)
          else bindR (validateEach 0 (Validators vals)) (\<lambda>_.
            case Validator_ValidateBasic (Proposer vals) of
              Inl (Err e) \<Rightarrow> Inl (Err (WrongProposer e)) | r \<Rightarrow> r))"

definition HasAddress :: "validator_set \<Rightarrow> bytes \<Rightarrow> bool" where
  "HasAddress vals addr = list_ex (\<lambda>v. Address v = addr) (Validators vals)"

fun findAddress :: "validator list \<Rightarrow> bytes \<Rightarrow> int \<Rightarrow> int \<times> validator option" where
  "findAddress [] addr idx = (- 1, None)"
| "findAddress (v # vs) addr idx =
     (if Address v = addr then (wrap32 idx, Some v) else findAddress vs addr (idx + 1))"

definition GetByAddress :: "validator_set \<Rightarrow> bytes \<Rightarrow> int \<times> validator option" where
  "GetByAddress vals addr = findAddress (Validators vals) addr 0"

definition GetByIndex :: "validator_set \<Rightarrow> int \<Rightarrow> (bytes \<times> validator) option" where
  "GetByIndex vals i =
     (if i < 0 \<or> nat i \<ge> length (Validators vals) then None
      else (let v = Validators vals ! nat i in Some (Address v, v)))"

definition ValidatorSet_Size :: "validator_set \<Rightarrow> int" where
  "ValidatorSet_Size vals = int (length (Validators vals))"

fun powerLoop :: "validator list \<Rightarrow> int \<Rightarrow> 'e fault + int" where
  "powerLoop [] s = Inr s"
| "powerLoop (v # vs) s =
     (let s' = safeAddClip s (VotingPower v) in
      if s' > MaxTotalVotingPower then Inl (Panic ''Total voting power should be guarded'')
      else powerLoop vs s')"

definition updateTotalVotingPower :: "validator_set \<Rightarrow> 'e fault + validator_set" where
  "updateTotalVotingPower vals =
     bindR (powerLoop (Validators vals) 0) (\<lambda>s. Inr (vals\<lparr>totalVotingPower := s\<rparr>))"

text \<open>The total is recomputed, and cached, when the cache is zero.\<close>

definition TotalVotingPower :: "validator_set \<Rightarrow> 'e fault + (validator_set \<times> int)" where
  "TotalVotingPower vals =
     bindR (if totalVotingPower vals = 0 then updateTotalVotingPower vals else Inr vals)
       (\<lambda>vals'. Inr (vals', totalVotingPower vals'))"

section \<open>Choosing the proposer\<close>

fun mostLoop :: "validator list \<Rightarrow> nat \<Rightarrow> (nat \<times> validator) option \<Rightarrow> 'e fault + (nat \<times> validator) option" where
  "mostLoop [] i res = Inr res"
| "mostLoop (v # vs) i None = mostLoop vs (Suc i) (Some (i, v))"
| "mostLoop (v # vs) i (Some (j, w)) =
     bindR (receiverWins w v) (\<lambda>b. mostLoop vs (Suc i) (Some (if b then (j, w) else (i, v))))"

text \<open>The validator with the most priority, with its place in the list: the pointer Go returns.\<close>

definition getValWithMostPriority :: "validator list \<Rightarrow> 'e fault + (nat \<times> validator) option" where
  "getValWithMostPriority vs = mostLoop vs 0 None"

definition incrementProposerPriority :: "validator_set \<Rightarrow> 'e fault + (validator_set \<times> validator)" where
  "incrementProposerPriority vals =
     (let vs = map (\<lambda>v. v\<lparr>ProposerPriority := safeAddClip (ProposerPriority v) (VotingPower v)\<rparr>)
                 (Validators vals) in
      bindR (getValWithMostPriority vs) (\<lambda>r.
        case r of
          None \<Rightarrow> Inl (Panic ''nil pointer dereference'')
        | Some (i, mostest) \<Rightarrow>
            bindR (TotalVotingPower (vals\<lparr>Validators := vs\<rparr>)) (\<lambda>(vals', total).
              let m = mostest\<lparr>ProposerPriority := safeSubClip (ProposerPriority mostest) total\<rparr> in
              Inr (vals'\<lparr>Validators := (Validators vals')[i := m]\<rparr>, m))))"

definition computeAvgProposerPriority :: "validator list \<Rightarrow> 'e fault + int" where
  "computeAvgProposerPriority vs =
     (if vs = [] then Inl (Panic ''division by zero'')
      else (let avg = sum_list (map ProposerPriority vs) div int (length vs) in
            if in64 avg then Inr avg
            else Inl (Panic ''Cannot represent avg ProposerPriority as an int64'')))"

definition computeMaxMinPriorityDiff :: "validator list \<Rightarrow> 'e fault + int" where
  "computeMaxMinPriorityDiff vs =
     (if vs = [] then Inl (Panic ''empty validator set'')
      else (let mn = foldl (\<lambda>m v. if ProposerPriority v < m then ProposerPriority v else m) MaxInt64 vs;
                mx = foldl (\<lambda>m v. if ProposerPriority v > m then ProposerPriority v else m) MinInt64 vs;
                diff = wrap64 (mx - mn) in
            if diff < 0 then Inr (wrap64 (- 1 * diff)) else Inr diff))"

definition RescalePriorities :: "validator_set \<Rightarrow> int \<Rightarrow> 'e fault + validator_set" where
  "RescalePriorities vals diffMax =
     (if IsNilOrEmpty (Some vals) then Inl (Panic ''empty validator set'')
      else if diffMax \<le> 0 then Inr vals
      else bindR (computeMaxMinPriorityDiff (Validators vals)) (\<lambda>diff.
        let ratio = wrap64 (wrap64 (diff + diffMax) - 1) sdiv diffMax in
        if diff > diffMax then
          (if ratio = 0 then Inl (Panic ''integer divide by zero'')
           else Inr (vals\<lparr>Validators :=
             map (\<lambda>v. v\<lparr>ProposerPriority := wrap64 (ProposerPriority v sdiv ratio)\<rparr>) (Validators vals)\<rparr>))
        else Inr vals))"

definition shiftByAvgProposerPriority :: "validator_set \<Rightarrow> 'e fault + validator_set" where
  "shiftByAvgProposerPriority vals =
     (if IsNilOrEmpty (Some vals) then Inl (Panic ''empty validator set'')
      else bindR (computeAvgProposerPriority (Validators vals)) (\<lambda>avg.
        Inr (vals\<lparr>Validators :=
          map (\<lambda>v. v\<lparr>ProposerPriority := safeSubClip (ProposerPriority v) avg\<rparr>) (Validators vals)\<rparr>)))"

fun incLoop :: "nat \<Rightarrow> validator_set \<Rightarrow> validator option \<Rightarrow> 'e fault + (validator_set \<times> validator option)" where
  "incLoop 0 vals p = Inr (vals, p)"
| "incLoop (Suc n) vals p =
     bindR (incrementProposerPriority vals) (\<lambda>(vals', q). incLoop n vals' (Some q))"

definition IncrementProposerPriority :: "validator_set \<Rightarrow> int \<Rightarrow> 'e fault + validator_set" where
  "IncrementProposerPriority vals n =
     (if IsNilOrEmpty (Some vals) then Inl (Panic ''empty validator set'')
      else if n \<le> 0
      then Inl (Panic ''Cannot call IncrementProposerPriority with non-positive times'')
      else bindR (TotalVotingPower vals) (\<lambda>(vals1, total).
           let diffMax = wrap64 (PriorityWindowSizeFactor * total) in
           bindR (RescalePriorities vals1 diffMax) (\<lambda>vals2.
           bindR (shiftByAvgProposerPriority vals2) (\<lambda>vals3.
           bindR (incLoop (nat n) vals3 None) (\<lambda>(vals4, proposer).
             Inr (vals4\<lparr>Proposer := proposer\<rparr>))))))"

definition CopyIncrementProposerPriority :: "validator_set \<Rightarrow> int \<Rightarrow> 'e fault + validator_set" where
  "CopyIncrementProposerPriority vals n = IncrementProposerPriority vals n"

fun findProposerLoop :: "validator list \<Rightarrow> validator option \<Rightarrow> 'e fault + validator option" where
  "findProposerLoop [] p = Inr p"
| "findProposerLoop (v # vs) p =
     (if p = None \<or> Address v \<noteq> Address (the p)
      then bindR (CompareProposerPriority p v) (\<lambda>q. findProposerLoop vs (Some q))
      else findProposerLoop vs p)"

definition findProposer :: "validator_set \<Rightarrow> 'e fault + validator option" where
  "findProposer vals = findProposerLoop (Validators vals) None"

definition GetProposer :: "validator_set \<Rightarrow> 'e fault + (validator_set \<times> validator option)" where
  "GetProposer vals =
     (if Validators vals = [] then Inr (vals, None)
      else bindR (if Proposer vals = None
                  then bindR (findProposer vals) (\<lambda>p. Inr (vals\<lparr>Proposer := p\<rparr>)) else Inr vals)
             (\<lambda>vals'. Inr (vals', Proposer vals')))"

section \<open>Updating the set\<close>

datatype vs_error =
    DuplicateEntry | NegativeVotingPower | VotingPowerTooHigh
  | DeletesNotAllowed | EmptyResult | FailedToFind bytes | ErrTotalVotingPowerOverflow
  | EmptyValidators | InvalidValidator basic_error

fun changeLoop ::
  "validator list \<Rightarrow> bytes \<Rightarrow> validator list \<Rightarrow> validator list \<Rightarrow> vs_error fault + (validator list \<times> validator list)"
where
  "changeLoop [] prevAddr updates removals = Inr (updates, removals)"
| "changeLoop (v # vs) prevAddr updates removals =
     (if Address v = prevAddr then Inl (Err DuplicateEntry)
      else if VotingPower v < 0 then Inl (Err NegativeVotingPower)
      else if VotingPower v > MaxTotalVotingPower then Inl (Err VotingPowerTooHigh)
      else if VotingPower v = 0 then changeLoop vs (Address v) updates (removals @ [v])
      else changeLoop vs (Address v) (updates @ [v]) removals)"

text \<open>\<open>prevAddr\<close> starts as the nil address, which equals every empty address.\<close>

definition processChanges :: "validator list \<Rightarrow> vs_error fault + (validator list \<times> validator list)" where
  "processChanges changes = changeLoop (sort_key Address changes) [] [] []"

definition delta :: "validator_set \<Rightarrow> validator \<Rightarrow> int" where
  "delta vals upd =
     (case GetByAddress vals (Address upd) of
        (_, Some v) \<Rightarrow> wrap64 (VotingPower upd - VotingPower v)
      | (_, None) \<Rightarrow> VotingPower upd)"

fun verifyLoop :: "validator_set \<Rightarrow> validator list \<Rightarrow> int \<Rightarrow> vs_error fault + int" where
  "verifyLoop vals [] tvp = Inr tvp"
| "verifyLoop vals (u # us) tvp =
     (let tvp' = wrap64 (tvp + delta vals u) in
      if tvp' > MaxTotalVotingPower then Inl (Err ErrTotalVotingPowerOverflow)
      else verifyLoop vals us tvp')"

definition verifyUpdates :: "validator list \<Rightarrow> validator_set \<Rightarrow> int \<Rightarrow> vs_error fault + int" where
  "verifyUpdates updates vals removedPower =
     bindR (TotalVotingPower vals) (\<lambda>(_, total).
     bindR (verifyLoop vals (sort_key (delta vals) updates) (wrap64 (total - removedPower))) (\<lambda>tvp.
       Inr (wrap64 (tvp + removedPower))))"

definition numNewValidators :: "validator list \<Rightarrow> validator_set \<Rightarrow> int" where
  "numNewValidators updates vals = int (length (filter (\<lambda>u. \<not> HasAddress vals (Address u)) updates))"

definition computeNewPriorities :: "validator list \<Rightarrow> validator_set \<Rightarrow> int \<Rightarrow> validator list" where
  "computeNewPriorities updates vals tvp =
     map (\<lambda>u. case GetByAddress vals (Address u) of
                (_, None) \<Rightarrow> u\<lparr>ProposerPriority := wrap64 (- wrap64 (tvp + drop_bit 3 tvp))\<rparr>
              | (_, Some v) \<Rightarrow> u\<lparr>ProposerPriority := ProposerPriority v\<rparr>) updates"

fun mergeUpdates :: "validator list \<Rightarrow> validator list \<Rightarrow> validator list" where
  "mergeUpdates [] updates = updates"
| "mergeUpdates existing [] = existing"
| "mergeUpdates (e # es) (u # us) =
     (if Address e < Address u then e # mergeUpdates es (u # us)
      else if Address e = Address u then u # mergeUpdates es us
      else u # mergeUpdates (e # es) us)"

definition applyUpdates :: "validator_set \<Rightarrow> validator list \<Rightarrow> validator_set" where
  "applyUpdates vals updates =
     vals\<lparr>Validators := mergeUpdates (sort_key Address (Validators vals)) updates\<rparr>"

fun removalPower :: "validator_set \<Rightarrow> validator list \<Rightarrow> int \<Rightarrow> vs_error fault + int" where
  "removalPower vals [] removed = Inr removed"
| "removalPower vals (d # ds) removed =
     (case GetByAddress vals (Address d) of
        (_, None) \<Rightarrow> Inl (Err (FailedToFind (Address d)))
      | (_, Some v) \<Rightarrow> removalPower vals ds (wrap64 (removed + VotingPower v)))"

definition verifyRemovals :: "validator list \<Rightarrow> validator_set \<Rightarrow> vs_error fault + int" where
  "verifyRemovals deletes vals =
     bindR (removalPower vals deletes 0) (\<lambda>removed.
       if length deletes > length (Validators vals) then Inl (Panic ''more deletes than validators'')
       else Inr removed)"

text \<open>\<open>merged\<close> has \<open>cap\<close> places and is filled from the left; reading the head of an empty
  slice and writing past the last place both panic.\<close>

fun removalLoop ::
  "validator list \<Rightarrow> validator list \<Rightarrow> validator list \<Rightarrow> nat \<Rightarrow> 'e fault + validator list"
where
  "removalLoop existing [] merged cap =
     (if length merged + length existing > cap then Inl (Panic ''index out of range'')
      else Inr (merged @ existing))"
| "removalLoop [] (d # ds) merged cap = Inl (Panic ''index out of range'')"
| "removalLoop (e # es) (d # ds) merged cap =
     (if Address e = Address d then removalLoop es ds merged cap
      else if length merged \<ge> cap then Inl (Panic ''index out of range'')
      else removalLoop es (d # ds) (merged @ [e]) cap)"

definition applyRemovals :: "validator_set \<Rightarrow> validator list \<Rightarrow> 'e fault + validator_set" where
  "applyRemovals vals deletes =
     (if length deletes > length (Validators vals) then Inl (Panic ''makeslice: len out of range'')
      else bindR (removalLoop (Validators vals) deletes []
                    (length (Validators vals) - length deletes)) (\<lambda>vs.
             Inr (vals\<lparr>Validators := vs\<rparr>)))"

text \<open>The order of \<open>ValidatorsByVotingPower\<close>: more power first, then the smaller address.\<close>

definition powerKey :: "validator \<Rightarrow> int \<times> bytes" where
  "powerKey v = (- VotingPower v, Address v)"

definition updateWithChangeSet ::
  "validator_set \<Rightarrow> validator list \<Rightarrow> bool \<Rightarrow> vs_error fault + validator_set"
where
  "updateWithChangeSet vals changes allowDeletes =
     (if changes = [] then Inr vals
      else
        bindR (processChanges changes) (\<lambda>(updates, deletes).
        if \<not> allowDeletes \<and> deletes \<noteq> [] then Inl (Err DeletesNotAllowed)
        else if numNewValidators updates vals = 0 \<and> length (Validators vals) = length deletes
        then Inl (Err EmptyResult)
        else
          bindR (verifyRemovals deletes vals) (\<lambda>removed.
          bindR (verifyUpdates updates vals removed) (\<lambda>tvp.
          let updates' = computeNewPriorities updates vals tvp;
              vals1 = applyUpdates vals updates' in
          bindR (applyRemovals vals1 deletes) (\<lambda>vals2.
          bindR (updateTotalVotingPower vals2) (\<lambda>vals3.
          bindR (TotalVotingPower vals3) (\<lambda>(vals4, total).
          bindR (RescalePriorities vals4 (wrap64 (PriorityWindowSizeFactor * total))) (\<lambda>vals5.
          bindR (shiftByAvgProposerPriority vals5) (\<lambda>vals6.
            Inr (vals6\<lparr>Validators := sort_key powerKey (Validators vals6)\<rparr>))))))))))"

definition UpdateWithChangeSet :: "validator_set \<Rightarrow> validator list \<Rightarrow> vs_error fault + validator_set" where
  "UpdateWithChangeSet vals changes = updateWithChangeSet vals changes True"

definition NewValidatorSet :: "validator list \<Rightarrow> 'e fault + validator_set" where
  "NewValidatorSet valz =
     (case updateWithChangeSet emptyValidatorSet valz False of
        Inl _ \<Rightarrow> Inl (Panic ''Cannot create validator set'')
      | Inr vals \<Rightarrow> if length valz > 0 then IncrementProposerPriority vals 1 else Inr vals)"

fun findPreviousLoop :: "validator list \<Rightarrow> validator option \<Rightarrow> 'e fault + validator option" where
  "findPreviousLoop [] p = Inr p"
| "findPreviousLoop (v # vs) None = findPreviousLoop vs (Some v)"
| "findPreviousLoop (v # vs) (Some p) =
     bindR (receiverWins p v) (\<lambda>b. findPreviousLoop vs (Some (if b then v else p)))"

definition findPreviousProposer :: "validator list \<Rightarrow> 'e fault + validator option" where
  "findPreviousProposer vs = findPreviousLoop vs None"

fun validateForSet :: "validator list \<Rightarrow> vs_error fault + unit" where
  "validateForSet [] = Inr ()"
| "validateForSet (v # vs) =
     (case Validator_ValidateBasic (Some v) of
        Inl (Err e) \<Rightarrow> Inl (Err (InvalidValidator e))
      | Inl (Panic p) \<Rightarrow> Inl (Panic p)
      | Inr _ \<Rightarrow> validateForSet vs)"

definition ValidatorSetFromExistingValidators :: "validator list \<Rightarrow> vs_error fault + validator_set" where
  "ValidatorSetFromExistingValidators valz =
     (if valz = [] then Inl (Err EmptyValidators)
      else bindR (validateForSet valz) (\<lambda>_.
           bindR (findPreviousProposer valz) (\<lambda>p.
           bindR (updateTotalVotingPower \<lparr>Validators = valz, Proposer = p, totalVotingPower = 0\<rparr>) (\<lambda>vals.
             Inr (vals\<lparr>Validators := sort_key powerKey (Validators vals)\<rparr>)))))"

section \<open>The invariant\<close>

definition sumPower :: "validator list \<Rightarrow> int" where
  "sumPower vs = sum_list (map VotingPower vs)"

definition wf_list :: "validator list \<Rightarrow> bool" where
  "wf_list vs \<longleftrightarrow> distinct (map Address vs) \<and>
     (\<forall>v \<in> set vs. 0 < VotingPower v \<and> in64 (ProposerPriority v)) \<and> sumPower vs \<le> MaxTotalVotingPower"

definition wf_vals :: "validator_set \<Rightarrow> bool" where
  "wf_vals vals \<longleftrightarrow> wf_list (Validators vals) \<and>
     (totalVotingPower vals = 0 \<or> totalVotingPower vals = sumPower (Validators vals))"

section \<open>Arithmetic\<close>

lemma MaxTotalVotingPower_eq: "MaxTotalVotingPower = 1152921504606846975"
  by (simp add: MaxTotalVotingPower_def MaxInt64_def sdiv_nonneg)

lemmas vp_bounds = MaxTotalVotingPower_eq int_range

lemma safeAddClip_clamp:
  "in64 a \<Longrightarrow> in64 b \<Longrightarrow> safeAddClip a b = max MinInt64 (min MaxInt64 (a + b))"
  by (auto simp: safeAddClip_def safeAdd_def int_range)

lemma safeSubClip_clamp:
  "in64 a \<Longrightarrow> in64 b \<Longrightarrow> safeSubClip a b = max MinInt64 (min MaxInt64 (a - b))"
  by (auto simp: safeSubClip_def safeSub_def int_range)

lemma safeAddClip_exact: "in64 a \<Longrightarrow> in64 b \<Longrightarrow> in64 (a + b) \<Longrightarrow> safeAddClip a b = a + b"
  by (simp add: safeAddClip_clamp) (simp add: int_range)

lemma safeSubClip_exact: "in64 a \<Longrightarrow> in64 b \<Longrightarrow> in64 (a - b) \<Longrightarrow> safeSubClip a b = a - b"
  by (simp add: safeSubClip_clamp) (simp add: int_range)

lemma in64_safeAddClip [simp]: "in64 a \<Longrightarrow> in64 b \<Longrightarrow> in64 (safeAddClip a b)"
  by (simp add: safeAddClip_clamp) (simp add: int_range)

lemma in64_safeSubClip [simp]: "in64 a \<Longrightarrow> in64 b \<Longrightarrow> in64 (safeSubClip a b)"
  by (simp add: safeSubClip_clamp) (simp add: int_range)

section \<open>Powers and totals\<close>

lemma sumPower_simps [simp]:
  "sumPower [] = 0"
  "sumPower (v # vs) = VotingPower v + sumPower vs"
  "sumPower (vs @ ws) = sumPower vs + sumPower ws"
  by (simp_all add: sumPower_def)

lemma sumPower_nonneg: "\<forall>v \<in> set vs. 0 \<le> VotingPower v \<Longrightarrow> 0 \<le> sumPower vs"
  by (induction vs) auto

lemma VotingPower_le_sumPower: "\<forall>v \<in> set vs. 0 \<le> VotingPower v \<Longrightarrow> v \<in> set vs \<Longrightarrow> VotingPower v \<le> sumPower vs"
  unfolding sumPower_def by (rule sum_list_nonneg_le)

lemma sumPower_mset: "mset vs = mset ws \<Longrightarrow> sumPower vs = sumPower ws"
  unfolding sumPower_def by (metis mset_map sum_mset_sum_list)

lemma wf_list_power:
  assumes "wf_list vs" and "v \<in> set vs"
  shows "0 < VotingPower v" "VotingPower v \<le> sumPower vs" "VotingPower v \<le> MaxTotalVotingPower"
    "in64 (VotingPower v)" "in64 (ProposerPriority v)"
proof -
  have nonneg: "\<forall>v \<in> set vs. 0 \<le> VotingPower v" using assms(1) by (fastforce simp: wf_list_def)
  show "0 < VotingPower v" "in64 (ProposerPriority v)" using assms by (auto simp: wf_list_def)
  show le: "VotingPower v \<le> sumPower vs" using nonneg assms(2) by (rule VotingPower_le_sumPower)
  then show "VotingPower v \<le> MaxTotalVotingPower" using assms(1) by (simp add: wf_list_def)
  then show "in64 (VotingPower v)" using \<open>0 < VotingPower v\<close> by (simp add: vp_bounds)
qed

lemma wf_list_sum: "wf_list vs \<Longrightarrow> 0 \<le> sumPower vs \<and> sumPower vs \<le> MaxTotalVotingPower"
  using sumPower_nonneg [of vs] by (fastforce simp: wf_list_def)

lemma wf_list_sum_pos: "wf_list vs \<Longrightarrow> vs \<noteq> [] \<Longrightarrow> 0 < sumPower vs"
  using wf_list_power(1,2) [of vs "hd vs"] by (meson hd_in_set order_less_le_trans)

lemma powerLoop_ok:
  "\<forall>v \<in> set vs. 0 \<le> VotingPower v \<Longrightarrow> 0 \<le> s \<Longrightarrow> s + sumPower vs \<le> MaxTotalVotingPower \<Longrightarrow>
   powerLoop vs s = Inr (s + sumPower vs)"
proof (induction vs arbitrary: s)
  case Nil
  then show ?case by simp
next
  case (Cons v vs)
  have "0 \<le> sumPower vs" using Cons.prems(1) by (intro sumPower_nonneg) auto
  then have "safeAddClip s (VotingPower v) = s + VotingPower v"
    and "s + VotingPower v \<le> MaxTotalVotingPower"
    using Cons.prems by (auto intro!: safeAddClip_exact simp: vp_bounds)
  with Cons show ?case by (simp add: add.assoc)
qed

lemma updateTotalVotingPower_ok:
  assumes "wf_list (Validators vals)"
  shows "updateTotalVotingPower vals = Inr (vals\<lparr>totalVotingPower := sumPower (Validators vals)\<rparr>)"
proof -
  have "\<forall>v \<in> set (Validators vals). 0 \<le> VotingPower v"
    using assms by (fastforce simp: wf_list_def)
  then have "powerLoop (Validators vals) 0 = (Inr (0 + sumPower (Validators vals)) :: 'a fault + int)"
    using assms by (intro powerLoop_ok) (auto simp: wf_list_def)
  then show ?thesis by (simp add: updateTotalVotingPower_def)
qed

lemma TotalVotingPower_wf:
  assumes "wf_vals vals"
  shows "TotalVotingPower vals =
    Inr (vals\<lparr>totalVotingPower := sumPower (Validators vals)\<rparr>, sumPower (Validators vals))"
  using assms by (auto simp: TotalVotingPower_def wf_vals_def updateTotalVotingPower_ok)

section \<open>Lookup\<close>

lemma findAddress_find: "snd (findAddress vs a i) = find (\<lambda>v. Address v = a) vs"
  by (induction vs arbitrary: i) auto

lemma GetByAddress_find: "snd (GetByAddress vals a) = find (\<lambda>v. Address v = a) (Validators vals)"
  by (simp add: GetByAddress_def findAddress_find)

lemma HasAddress_iff: "HasAddress vals a \<longleftrightarrow> a \<in> Address ` set (Validators vals)"
  by (auto simp: HasAddress_def list_ex_iff)

lemma find_Address_None: "find (\<lambda>v. Address v = a) vs = None \<longleftrightarrow> a \<notin> Address ` set vs"
  by (auto simp: find_None_iff)

lemma find_Address_Some:
  "distinct (map Address vs) \<Longrightarrow> find (\<lambda>v. Address v = a) vs = Some v \<longleftrightarrow> v \<in> set vs \<and> Address v = a"
  by (induction vs) auto

lemma findAddress_None_iff: "findAddress vs a i = (j, None) \<Longrightarrow> a \<notin> Address ` set vs"
  using findAddress_find [of vs a i] find_Address_None [of a vs] by simp

lemma findAddress_index:
  "0 \<le> i \<Longrightarrow> i + int (length vs) \<le> MaxInt32 \<Longrightarrow> findAddress vs a i = (j, Some v) \<Longrightarrow>
   i \<le> j \<and> j < i + int (length vs) \<and> vs ! nat (j - i) = v \<and> Address v = a"
proof (induction vs arbitrary: i)
  case Nil
  then show ?case by simp
next
  case (Cons w ws)
  show ?case
  proof (cases "Address w = a")
    case True
    moreover have "wrap32 i = i" using Cons.prems by (intro wrap32_id) (simp add: int_range)
    ultimately show ?thesis using Cons.prems by auto
  next
    case False
    then have "i + 1 \<le> j \<and> j < i + 1 + int (length ws) \<and> ws ! nat (j - (i + 1)) = v \<and> Address v = a"
      using Cons.prems by (intro Cons.IH) auto
    moreover from this have "nat (j - i) = Suc (nat (j - (i + 1)))" by linarith
    ultimately show ?thesis by auto
  qed
qed

end
