(* ===== verification/ValidatorUpdate.thy ===== *)
theory ValidatorUpdate
  imports Validators
begin

text \<open>
  What a change set does to a validator set (\<open>updateWithChangeSet\<close> of \<open>types/validator_set.go\<close>).
  The abstract view of a set is its map from addresses to voting powers, \<open>powMap\<close>, and the
  specification of a change set is \<open>changeSpec\<close>: a change with power 0 removes its address, any
  other sets it. The lemmas follow the code: \<open>processChanges\<close>, \<open>verifyRemovals\<close>,
  \<open>verifyUpdates\<close>, the merge, the removal loop, rescaling and centring.
\<close>

section \<open>The specification\<close>

definition powMap :: "validator list \<Rightarrow> bytes \<rightharpoonup> int" where
  "powMap vs = map_of (map (\<lambda>v. (Address v, VotingPower v)) vs)"

definition changeSpec :: "(bytes \<rightharpoonup> int) \<Rightarrow> validator list \<Rightarrow> (bytes \<rightharpoonup> int)" where
  "changeSpec m changes a =
     (case powMap changes a of
        None \<Rightarrow> m a
      | Some p \<Rightarrow> if p = 0 then None else Some p)"

definition ascending :: "validator list \<Rightarrow> bool" where
  "ascending vs \<longleftrightarrow> sorted_wrt (<) (map Address vs)"

definition powAt :: "validator list \<Rightarrow> bytes \<Rightarrow> int" where
  "powAt vs a = (case find (\<lambda>v. Address v = a) vs of None \<Rightarrow> 0 | Some v \<Rightarrow> VotingPower v)"

lemma powMap_Some_iff:
  "distinct (map Address vs) \<Longrightarrow> powMap vs a = Some p \<longleftrightarrow> (\<exists>v \<in> set vs. Address v = a \<and> VotingPower v = p)"
  unfolding powMap_def by (subst map_of_eq_Some_iff) (auto simp: comp_def)

lemma powMap_None_iff: "powMap vs a = None \<longleftrightarrow> a \<notin> Address ` set vs"
  by (auto simp: powMap_def map_of_eq_None_iff image_image)

lemma ascending_distinct: "ascending vs \<Longrightarrow> distinct (map Address vs)"
  unfolding ascending_def by (rule sorted_wrt_distinct) auto

lemma ascending_simps [simp]:
  "ascending []"
  "ascending (v # vs) \<longleftrightarrow> (\<forall>w \<in> set vs. Address v < Address w) \<and> ascending vs"
  by (auto simp: ascending_def)

lemma ascending_filter: "ascending vs \<Longrightarrow> ascending (filter P vs)"
  by (induction vs) auto

lemma sort_Address_ascending:
  "distinct (map Address vs) \<Longrightarrow> ascending (sort_key Address vs)"
proof -
  assume "distinct (map Address vs)"
  then have "distinct (map Address (sort_key Address vs))"
    by (metis distinct_map distinct_sort set_sort)
  then show ?thesis by (simp add: ascending_def strict_sorted_iff)
qed

section \<open>Splitting the changes\<close>

definition changeOk :: "validator list \<Rightarrow> bool" where
  "changeOk cs \<longleftrightarrow> (\<forall>v \<in> set cs. 0 \<le> VotingPower v \<and> VotingPower v \<le> MaxTotalVotingPower)"

lemma changeLoop_spec:
  assumes "sorted (prev # map Address cs)"
  shows "changeLoop cs prev us rs =
     (if sorted_wrt (<) (prev # map Address cs) \<and> changeOk cs
      then Inr (us @ filter (\<lambda>v. VotingPower v \<noteq> 0) cs, rs @ filter (\<lambda>v. VotingPower v = 0) cs)
      else changeLoop cs prev us rs) \<and>
    (isOk (changeLoop cs prev us rs) \<longleftrightarrow> sorted_wrt (<) (prev # map Address cs) \<and> changeOk cs) \<and>
    (\<forall>p. changeLoop cs prev us rs \<noteq> Inl (Panic p))"
  using assms
proof (induction cs arbitrary: prev us rs)
  case Nil
  then show ?case by (simp add: changeOk_def)
next
  case (Cons c cs)
  have s: "sorted (Address c # map Address cs)" using Cons.prems by simp
  have strict: "sorted_wrt (<) (prev # map Address (c # cs)) \<longleftrightarrow>
      prev \<noteq> Address c \<and> sorted_wrt (<) (Address c # map Address cs)"
    using Cons.prems by (auto simp: order.order_iff_strict intro: less_le_trans)
  show ?case
    unfolding strict
    using Cons.IH [OF s, of us "rs @ [c]"] Cons.IH [OF s, of "us @ [c]" rs]
    by (auto simp: changeOk_def)
qed

lemma Nil_less_iff: "[] < (xs :: bytes) \<longleftrightarrow> xs \<noteq> []"
  by (cases xs) auto

lemma sorted_sort_Address: "sorted ([] # map Address (sort_key Address cs))"
  using sorted_sort_key [of Address cs] by simp

lemma processChanges_ok:
  assumes "processChanges cs = Inr (us, rs)"
  shows "changeOk cs \<and> distinct (map Address cs) \<and> ascending us \<and> ascending rs \<and>
    set us = {v \<in> set cs. VotingPower v \<noteq> 0} \<and> set rs = {v \<in> set cs. VotingPower v = 0} \<and>
    (\<forall>v \<in> set cs. Address v \<noteq> [])"
proof -
  let ?s = "sort_key Address cs"
  note spec = changeLoop_spec [OF sorted_sort_Address, of cs "[]" "[]"]
  from assms have ok: "sorted_wrt (<) ([] # map Address ?s)" "changeOk ?s"
    and parts: "us = filter (\<lambda>v. VotingPower v \<noteq> 0) ?s" "rs = filter (\<lambda>v. VotingPower v = 0) ?s"
    using spec by (auto simp: processChanges_def isOk_iff)
  have asc: "ascending ?s" using ok(1) by (simp add: ascending_def)
  have "distinct (map Address cs)"
    using ascending_distinct [OF asc] by (metis distinct_map distinct_sort set_sort)
  with ok parts asc show ?thesis
    by (auto simp: changeOk_def ascending_filter)
qed

lemma processChanges_isOk:
  "isOk (processChanges cs) \<longleftrightarrow>
   changeOk cs \<and> distinct (map Address cs) \<and> (\<forall>v \<in> set cs. Address v \<noteq> [])"
proof -
  let ?s = "sort_key Address cs"
  note spec = changeLoop_spec [OF sorted_sort_Address, of cs "[]" "[]"]
  then have "isOk (processChanges cs) \<longleftrightarrow> sorted_wrt (<) ([] # map Address ?s) \<and> changeOk ?s"
    by (auto simp: processChanges_def)
  also have "sorted_wrt (<) ([] # map Address ?s) \<longleftrightarrow>
      (\<forall>v \<in> set cs. Address v \<noteq> []) \<and> distinct (map Address ?s)"
    by (auto simp: strict_sorted_iff Nil_less_iff)
  also have "distinct (map Address ?s) \<longleftrightarrow> distinct (map Address cs)"
    by (metis distinct_map distinct_sort set_sort)
  finally show ?thesis by (auto simp: changeOk_def)
qed

lemma processChanges_no_panic: "processChanges cs \<noteq> Inl (Panic p)"
  using changeLoop_spec [OF sorted_sort_Address, of cs "[]" "[]"] by (auto simp: processChanges_def)

section \<open>Sums of powers\<close>

lemma sumPower_set: "distinct (map Address vs) \<Longrightarrow> sumPower vs = (\<Sum>v \<in> set vs. VotingPower v)"
  by (simp add: sumPower_def distinct_map sum_list_distinct_conv_sum_set)

lemma powAt_mem: "distinct (map Address vs) \<Longrightarrow> v \<in> set vs \<Longrightarrow> powAt vs (Address v) = VotingPower v"
  using find_Address_Some [of vs "Address v" v] by (simp add: powAt_def)

lemma powAt_notin: "a \<notin> Address ` set vs \<Longrightarrow> powAt vs a = 0"
  by (simp add: powAt_def find_Address_None [THEN iffD2])

lemma sum_powAt:
  assumes "distinct (map Address vs)" and "finite A"
  shows "(\<Sum>a \<in> A. powAt vs a) = (\<Sum>v \<in> {v \<in> set vs. Address v \<in> A}. VotingPower v)"
proof -
  let ?V = "{v \<in> set vs. Address v \<in> A}"
  have inj: "inj_on Address ?V" using assms(1) by (auto simp: distinct_map inj_on_def)
  have "(\<Sum>v \<in> ?V. VotingPower v) = (\<Sum>v \<in> ?V. powAt vs (Address v))"
    using assms(1) by (intro sum.cong) (auto simp: powAt_mem)
  also have "\<dots> = (\<Sum>a \<in> Address ` ?V. powAt vs a)" using inj by (simp add: sum.reindex)
  also have "\<dots> = (\<Sum>a \<in> A. powAt vs a)"
    using assms(2) by (intro sum.mono_neutral_left) (auto intro: powAt_notin)
  finally show ?thesis by simp
qed

lemma sum_list_powAt:
  assumes "distinct (map Address vs)" and "distinct (map Address us)"
  shows "sum_list (map (\<lambda>u. powAt vs (Address u)) us) =
    (\<Sum>v \<in> {v \<in> set vs. Address v \<in> Address ` set us}. VotingPower v)"
proof -
  have "sum_list (map (\<lambda>u. powAt vs (Address u)) us) = (\<Sum>a \<in> Address ` set us. powAt vs a)"
    using assms(2) by (simp add: distinct_map sum_list_distinct_conv_sum_set sum.reindex)
  with assms(1) show ?thesis by (simp add: sum_powAt)
qed

lemma sum_powAt_le:
  assumes "wf_list vs" and "distinct (map Address us)"
  shows "0 \<le> sum_list (map (\<lambda>u. powAt vs (Address u)) us)"
    and "sum_list (map (\<lambda>u. powAt vs (Address u)) us) \<le> sumPower vs"
proof -
  have d: "distinct (map Address vs)" and pos: "\<forall>v \<in> set vs. 0 \<le> VotingPower v"
    using assms(1) by (fastforce simp: wf_list_def)+
  show "0 \<le> sum_list (map (\<lambda>u. powAt vs (Address u)) us)"
    using pos by (auto simp: sum_list_powAt [OF d assms(2)] intro!: sum_nonneg)
  show "sum_list (map (\<lambda>u. powAt vs (Address u)) us) \<le> sumPower vs"
    using pos unfolding sum_list_powAt [OF d assms(2)] sumPower_set [OF d]
    by (intro sum_mono2) auto
qed

section \<open>Checking removals and updates\<close>

lemma GetByAddress_cases:
  obtains i where "GetByAddress vals a = (i, None)" "a \<notin> Address ` set (Validators vals)"
  | i v where "GetByAddress vals a = (i, Some v)" "v \<in> set (Validators vals)" "Address v = a"
proof (cases "GetByAddress vals a")
  case (Pair i r)
  have r: "r = find (\<lambda>v. Address v = a) (Validators vals)"
    using Pair GetByAddress_find [of vals a] by simp
  show ?thesis
  proof (cases r)
    case None
    with Pair r that(1) show ?thesis by (auto simp: find_Address_None [symmetric])
  next
    case (Some v)
    with r have "find (\<lambda>v. Address v = a) (Validators vals) = Some v" by simp
    then have "v \<in> set (Validators vals) \<and> Address v = a"
      by (auto simp: find_Some_iff in_set_conv_nth)
    with Pair Some that(2) show ?thesis by blast
  qed
qed

lemma powAt_GetByAddress:
  "powAt (Validators vals) a = (case GetByAddress vals a of (_, None) \<Rightarrow> 0 | (_, Some v) \<Rightarrow> VotingPower v)"
  using GetByAddress_find [of vals a] by (auto simp: powAt_def split: prod.splits option.splits)

lemma removalPower_spec:
  assumes "wf_list (Validators vals)" and "distinct (map Address ds)" and "0 \<le> r"
    and "r + sum_list (map (\<lambda>d. powAt (Validators vals) (Address d)) ds) \<le> MaxTotalVotingPower"
  shows "removalPower vals ds r =
    (if Address ` set ds \<subseteq> Address ` set (Validators vals)
     then Inr (r + sum_list (map (\<lambda>d. powAt (Validators vals) (Address d)) ds))
     else removalPower vals ds r) \<and>
    (isOk (removalPower vals ds r) \<longleftrightarrow> Address ` set ds \<subseteq> Address ` set (Validators vals)) \<and>
    (\<forall>p. removalPower vals ds r \<noteq> Inl (Panic p))"
  using assms(2-)
proof (induction ds arbitrary: r)
  case Nil
  then show ?case by simp
next
  case (Cons d ds)
  let ?pow = "\<lambda>d. powAt (Validators vals) (Address d)"
  show ?case
  proof (rule GetByAddress_cases [of vals "Address d"])
    fix i assume "GetByAddress vals (Address d) = (i, None)" "Address d \<notin> Address ` set (Validators vals)"
    then show ?thesis by simp
  next
    fix i v assume v: "GetByAddress vals (Address d) = (i, Some v)" "v \<in> set (Validators vals)"
      "Address v = Address d"
    have p: "?pow d = VotingPower v" using v(1) by (simp add: powAt_GetByAddress)
    have pos: "0 < VotingPower v" using assms(1) v(2) by (rule wf_list_power)
    have tail: "0 \<le> sum_list (map ?pow ds)"
      using assms(1) Cons.prems(1) by (intro sum_powAt_le) auto
    have "wrap64 (r + VotingPower v) = r + VotingPower v"
      using Cons.prems p pos tail by (intro wrap64_id) (simp add: vp_bounds)
    then show ?thesis
      using Cons.IH [of "r + VotingPower v"] Cons.prems v p pos
      by (auto simp: add.assoc image_iff)
  qed
qed

lemma length_subset_le:
  assumes "distinct (map Address ds)" and "Address ` set ds \<subseteq> Address ` set vs"
  shows "length ds \<le> length vs"
proof -
  have "length ds = card (Address ` set ds)"
    using assms(1) by (metis distinct_card length_map set_map)
  also have "\<dots> \<le> card (Address ` set vs)" using assms(2) by (intro card_mono) auto
  also have "\<dots> \<le> length vs" by (metis card_length length_map set_map)
  finally show ?thesis .
qed

lemma verifyRemovals_spec:
  assumes "wf_list (Validators vals)" and "distinct (map Address ds)"
  shows "(verifyRemovals ds vals = Inr r \<longleftrightarrow> Address ` set ds \<subseteq> Address ` set (Validators vals) \<and>
      r = sum_list (map (\<lambda>d. powAt (Validators vals) (Address d)) ds)) \<and>
    (\<forall>p. verifyRemovals ds vals \<noteq> Inl (Panic p))"
proof -
  have le: "sum_list (map (\<lambda>d. powAt (Validators vals) (Address d)) ds) \<le> MaxTotalVotingPower"
    using sum_powAt_le(2) [OF assms] wf_list_sum [OF assms(1)] by linarith
  note spec = removalPower_spec [OF assms, of 0]
  show ?thesis
  proof (cases "Address ` set ds \<subseteq> Address ` set (Validators vals)")
    case True
    then have "removalPower vals ds 0 = Inr (sum_list (map (\<lambda>d. powAt (Validators vals) (Address d)) ds))"
      using spec le by simp
    with length_subset_le [OF assms(2) True] True show ?thesis
      by (auto simp: verifyRemovals_def)
  next
    case False
    then obtain e where "removalPower vals ds 0 = Inl e" "\<forall>p. e \<noteq> Panic p"
      using spec le by (cases "removalPower vals ds 0") auto
    with False show ?thesis by (auto simp: verifyRemovals_def)
  qed
qed

lemma delta_powAt:
  assumes "wf_list (Validators vals)" and "0 \<le> VotingPower u" and "VotingPower u \<le> MaxTotalVotingPower"
  shows "delta vals u = VotingPower u - powAt (Validators vals) (Address u)"
proof (rule GetByAddress_cases [of vals "Address u"])
  fix i assume "GetByAddress vals (Address u) = (i, None)"
  then show ?thesis by (simp add: delta_def powAt_GetByAddress)
next
  fix i v assume v: "GetByAddress vals (Address u) = (i, Some v)" "v \<in> set (Validators vals)"
  have "0 < VotingPower v" "VotingPower v \<le> MaxTotalVotingPower"
    using wf_list_power [OF assms(1) v(2)] by simp_all
  then have "in64 (VotingPower u - VotingPower v)" using assms(2,3) by (simp add: vp_bounds)
  with v(1) show ?thesis by (simp add: delta_def powAt_GetByAddress)
qed

lemma verifyLoop_spec:
  assumes "wf_list (Validators vals)" and "changeOk us" and "sorted (map (delta vals) us)"
    and "tvp \<le> MaxTotalVotingPower"
    and "- MaxTotalVotingPower \<le> tvp - sum_list (map (\<lambda>u. powAt (Validators vals) (Address u)) us)"
  shows "verifyLoop vals us tvp =
    (if tvp + sum_list (map (delta vals) us) \<le> MaxTotalVotingPower
     then Inr (tvp + sum_list (map (delta vals) us)) else Inl (Err ErrTotalVotingPowerOverflow))"
  using assms(2-)
proof (induction us arbitrary: tvp)
  case Nil
  then show ?case by simp
next
  case (Cons u us)
  have u: "0 \<le> VotingPower u" "VotingPower u \<le> MaxTotalVotingPower" "changeOk us"
    using Cons.prems(1) by (auto simp: changeOk_def)
  have d: "delta vals u = VotingPower u - powAt (Validators vals) (Address u)"
    using assms(1) u by (intro delta_powAt) auto
  have nonneg: "0 \<le> powAt (Validators vals) a" for a
    using wf_list_power(1) [OF assms(1)]
    by (force simp: powAt_def find_Some_iff in_set_conv_nth split: option.splits)
  have rest: "0 \<le> sum_list (map (\<lambda>u. powAt (Validators vals) (Address u)) us)"
    by (rule sum_list_nonneg) (auto simp: nonneg)
  have w: "wrap64 (tvp + delta vals u) = tvp + delta vals u"
    using Cons.prems(3,4) u d rest nonneg [of "Address u"] by (intro wrap64_id) (simp add: vp_bounds)
  show ?case
  proof (cases "tvp + delta vals u \<le> MaxTotalVotingPower")
    case True
    then have "verifyLoop vals us (tvp + delta vals u) =
      (if tvp + delta vals u + sum_list (map (delta vals) us) \<le> MaxTotalVotingPower
       then Inr (tvp + delta vals u + sum_list (map (delta vals) us))
       else Inl (Err ErrTotalVotingPowerOverflow))"
      using Cons.prems u d by (intro Cons.IH) auto
    with True show ?thesis by (simp add: w add.assoc)
  next
    case False
    have "0 \<le> sum_list (map (delta vals) us)"
      using Cons.prems(2,3) False by (intro sum_list_nonneg) force
    with False show ?thesis by (simp add: w)
  qed
qed

lemma sort_key_sorted: "sorted (map f (sort_key f xs))"
  by simp

lemma sum_list_sort_key: "sum_list (map f (sort_key g xs)) = (sum_list (map f xs) :: int)"
  by (metis mset_map mset_sort sum_mset_sum_list)

lemma verifyUpdates_spec:
  assumes "wf_vals vals" and "changeOk us" and "0 \<le> removed" and "removed \<le> sumPower (Validators vals)"
    and "removed + sum_list (map (\<lambda>u. powAt (Validators vals) (Address u)) us) \<le> sumPower (Validators vals)"
  shows "verifyUpdates us vals removed =
    (let s = sumPower (Validators vals) - removed + sum_list (map (delta vals) us) in
     if s \<le> MaxTotalVotingPower then Inr (s + removed) else Inl (Err ErrTotalVotingPowerOverflow))"
proof -
  let ?s = "sumPower (Validators vals) - removed + sum_list (map (delta vals) us)"
  have wf: "wf_list (Validators vals)" using assms(1) by (simp add: wf_vals_def)
  note total = wf_list_sum [OF wf]
  have start: "wrap64 (sumPower (Validators vals) - removed) = sumPower (Validators vals) - removed"
    using total assms(3,4) by (intro wrap64_id) (simp add: vp_bounds)
  have loop: "verifyLoop vals (sort_key (delta vals) us) (sumPower (Validators vals) - removed) =
    (if ?s \<le> MaxTotalVotingPower then Inr ?s else Inl (Err ErrTotalVotingPowerOverflow))"
    using verifyLoop_spec [OF wf, of "sort_key (delta vals) us" "sumPower (Validators vals) - removed"]
      assms total by (simp add: sum_list_sort_key changeOk_def)
  have "sum_list (map (delta vals) us) \<ge> - sum_list (map (\<lambda>u. powAt (Validators vals) (Address u)) us)"
  proof -
    have "delta vals u \<ge> - powAt (Validators vals) (Address u)" if "u \<in> set us" for u
      using delta_powAt [OF wf, of u] assms(2) that by (auto simp: changeOk_def)
    then have "sum_list (map (\<lambda>u. - powAt (Validators vals) (Address u)) us) \<le> sum_list (map (delta vals) us)"
      by (rule sum_list_mono)
    then show ?thesis by (simp add: uminus_sum_list_map comp_def)
  qed
  then have "0 \<le> ?s" using assms(5) by linarith
  then have "?s \<le> MaxTotalVotingPower \<Longrightarrow> wrap64 (?s + removed) = ?s + removed"
    using total assms(3,4) by (intro wrap64_id) (simp add: vp_bounds)
  with TotalVotingPower_wf [OF assms(1), where 'a = vs_error] start loop show ?thesis
    by (simp add: verifyUpdates_def Let_def)
qed

section \<open>Merging and removing\<close>

lemma mergeUpdates_set:
  "ascending es \<Longrightarrow> ascending us \<Longrightarrow>
   set (mergeUpdates es us) = set us \<union> {e \<in> set es. Address e \<notin> Address ` set us}"
proof (induction es us rule: mergeUpdates.induct)
  case (3 e es u us)
  consider "Address e < Address u" | "Address e = Address u" | "Address u < Address e" by force
  then show ?case
  proof cases
    case 1
    then have "\<forall>w \<in> set us. Address e \<noteq> Address w" using "3.prems" by force
    with 1 "3.IH"(1) "3.prems" show ?thesis by auto
  next
    case 2
    then have "\<forall>x \<in> set es. Address x \<noteq> Address u" using "3.prems" by force
    with 2 "3.IH"(2) "3.prems" show ?thesis by auto
  next
    case 3
    then have "\<forall>x \<in> set es. Address x \<noteq> Address u" using "3.prems" by force
    moreover from 3 have "\<not> Address e < Address u" "Address e \<noteq> Address u" by auto
    ultimately show ?thesis using "3.IH"(3) "3.prems" by auto
  qed
qed auto

lemma mergeUpdates_ascending:
  "ascending es \<Longrightarrow> ascending us \<Longrightarrow> ascending (mergeUpdates es us)"
proof (induction es us rule: mergeUpdates.induct)
  case (3 e es u us)
  consider "Address e < Address u" | "Address e = Address u" | "Address u < Address e" by force
  then show ?case
  proof cases
    case 1
    with "3.IH"(1) "3.prems" show ?thesis by (auto simp: mergeUpdates_set)
  next
    case 2
    with "3.IH"(2) "3.prems" show ?thesis by (auto simp: mergeUpdates_set)
  next
    case 3
    then have "\<not> Address e < Address u" "Address e \<noteq> Address u" by auto
    with 3 "3.IH"(3) "3.prems" show ?thesis by (auto simp: mergeUpdates_set)
  qed
qed auto

lemma removalLoop_filter:
  "ascending es \<Longrightarrow> ascending ds \<Longrightarrow> Address ` set ds \<subseteq> Address ` set es \<Longrightarrow>
   length merged + length es \<le> cap + length ds \<Longrightarrow>
   removalLoop es ds merged cap = Inr (merged @ filter (\<lambda>e. Address e \<notin> Address ` set ds) es)"
proof (induction es ds merged cap rule: removalLoop.induct)
  case (1 existing merged cap)
  then show ?case by simp
next
  case (2 d ds merged cap)
  then show ?case by simp
next
  case (3 e es d ds merged cap)
  show ?case
  proof (cases "Address e = Address d")
    case True
    have sub: "Address ` set ds \<subseteq> Address ` set es"
    proof (rule subsetI)
      fix a assume a: "a \<in> Address ` set ds"
      then have "Address e < a" using "3.prems"(2) True by auto
      moreover have "a \<in> insert (Address e) (Address ` set es)" using a "3.prems"(3) by auto
      ultimately show "a \<in> Address ` set es" by auto
    qed
    have "\<forall>x \<in> set es. Address x \<noteq> Address d" using "3.prems"(1) True by force
    then have "filter (\<lambda>x. Address x \<notin> Address ` set (d # ds)) es =
        filter (\<lambda>x. Address x \<notin> Address ` set ds) es"
      by (intro filter_cong) auto
    with True "3.IH"(1) [OF True] "3.prems" sub show ?thesis by auto
  next
    case False
    have sub: "Address ` set (d # ds) \<subseteq> Address ` set es"
    proof (rule subsetI)
      fix a assume a: "a \<in> Address ` set (d # ds)"
      moreover have "Address d \<in> Address ` set es" using "3.prems"(3) False by auto
      ultimately have "Address e < a" using "3.prems"(1,2) by (auto intro: order.strict_trans)
      with a "3.prems"(3) show "a \<in> Address ` set es" by auto
    qed
    then have len: "length (d # ds) \<le> length es"
      using ascending_distinct [OF "3.prems"(2)] by (intro length_subset_le)
    have "Address e \<notin> Address ` set es" using "3.prems"(1) by auto
    then have "Address e \<notin> Address ` set (d # ds)" using sub by blast
    moreover have "\<not> cap \<le> length merged" using len "3.prems"(4) by auto
    ultimately show ?thesis using False "3.IH"(2) "3.prems" sub by auto
  qed
qed

lemma sumPower_split:
  assumes "distinct (map Address vs)"
  shows "sumPower vs = (\<Sum>v \<in> {v \<in> set vs. P v}. VotingPower v) + (\<Sum>v \<in> {v \<in> set vs. \<not> P v}. VotingPower v)"
proof -
  have "(\<Sum>v \<in> {v \<in> set vs. P v} \<union> {v \<in> set vs. \<not> P v}. VotingPower v) =
      (\<Sum>v \<in> {v \<in> set vs. P v}. VotingPower v) + (\<Sum>v \<in> {v \<in> set vs. \<not> P v}. VotingPower v)"
    by (rule sum.union_disjoint) auto
  moreover have "{v \<in> set vs. P v} \<union> {v \<in> set vs. \<not> P v} = set vs" by auto
  ultimately show ?thesis by (simp add: sumPower_set [OF assms])
qed

text \<open>The list a change set leaves: the updates, and the validators that no change names.\<close>

lemma sumPower_changed:
  assumes "distinct (map Address vs)" and "ascending us" and "ascending ds" and "distinct (map Address ws)"
    and "Address ` set us \<inter> Address ` set ds = {}"
    and "set ws = set us \<union> {v \<in> set vs. Address v \<notin> Address ` set us \<and> Address v \<notin> Address ` set ds}"
  shows "sumPower ws = sumPower vs - sum_list (map (\<lambda>d. powAt vs (Address d)) ds)
    + sum_list (map (\<lambda>u. VotingPower u - powAt vs (Address u)) us)"
proof -
  let ?U = "{v \<in> set vs. Address v \<in> Address ` set us}"
  let ?D = "{v \<in> set vs. Address v \<in> Address ` set ds}"
  let ?K = "{v \<in> set vs. Address v \<notin> Address ` set us \<and> Address v \<notin> Address ` set ds}"
  have "sumPower ws = (\<Sum>v \<in> set us \<union> ?K. VotingPower v)"
    using sumPower_set [OF assms(4)] assms(6) by simp
  also have "\<dots> = (\<Sum>v \<in> set us. VotingPower v) + (\<Sum>v \<in> ?K. VotingPower v)"
    by (rule sum.union_disjoint) auto
  also have "(\<Sum>v \<in> set us. VotingPower v) = sumPower us"
    using ascending_distinct [OF assms(2)] by (simp add: sumPower_set)
  finally have ws: "sumPower ws = sumPower us + (\<Sum>v \<in> ?K. VotingPower v)" .
  have "(\<Sum>v \<in> (?U \<union> ?D) \<union> ?K. VotingPower v) = (\<Sum>v \<in> ?U \<union> ?D. VotingPower v) + (\<Sum>v \<in> ?K. VotingPower v)"
    by (rule sum.union_disjoint) auto
  also have "(\<Sum>v \<in> ?U \<union> ?D. VotingPower v) = (\<Sum>v \<in> ?U. VotingPower v) + (\<Sum>v \<in> ?D. VotingPower v)"
    using assms(5) by (intro sum.union_disjoint) auto
  also have "(?U \<union> ?D) \<union> ?K = set vs" by auto
  finally have vs: "sumPower vs = (\<Sum>v \<in> ?U. VotingPower v) + (\<Sum>v \<in> ?D. VotingPower v) + (\<Sum>v \<in> ?K. VotingPower v)"
    by (simp add: sumPower_set [OF assms(1)])
  show ?thesis
    using ws vs assms(1) ascending_distinct [OF assms(2)] ascending_distinct [OF assms(3)]
    by (simp add: sum_list_powAt sum_list_subtractf sumPower_def)
qed

lemma powMap_changed:
  assumes "distinct (map Address vs)" and "distinct (map Address ws)" and "distinct (map Address cs)"
    and "\<And>a p. (\<exists>w \<in> set ws. Address w = a \<and> VotingPower w = p) \<longleftrightarrow>
      (\<exists>c \<in> set cs. Address c = a \<and> VotingPower c = p \<and> p \<noteq> 0) \<or>
      (\<exists>v \<in> set vs. Address v = a \<and> VotingPower v = p \<and> a \<notin> Address ` set cs)"
  shows "powMap ws = changeSpec (powMap vs) cs"
proof
  fix a
  have ws: "powMap ws a = Some p \<longleftrightarrow> (powMap cs a = Some p \<and> p \<noteq> 0) \<or> (powMap vs a = Some p \<and> powMap cs a = None)" for p
    using assms(1-3) assms(4) [of a p] by (auto simp: powMap_Some_iff powMap_None_iff)
  show "powMap ws a = changeSpec (powMap vs) cs a"
  proof (cases "powMap cs a")
    case None
    then have "powMap ws a = Some p \<longleftrightarrow> powMap vs a = Some p" for p using ws by simp
    then have "powMap ws a = powMap vs a" by (metis not_Some_eq)
    with None show ?thesis by (simp add: changeSpec_def)
  next
    case (Some q)
    then have "powMap ws a = Some p \<longleftrightarrow> (q \<noteq> 0 \<and> p = q)" for p using ws by auto
    then have "powMap ws a = (if q = 0 then None else Some q)" by (metis not_Some_eq)
    with Some show ?thesis by (simp add: changeSpec_def)
  qed
qed

section \<open>Priorities are the only thing rescaling and centring change\<close>

definition reprio :: "(validator \<Rightarrow> int) \<Rightarrow> validator list \<Rightarrow> validator list" where
  "reprio f vs = map (\<lambda>v. v\<lparr>ProposerPriority := f v\<rparr>) vs"

lemma reprio_simps [simp]:
  "map Address (reprio f vs) = map Address vs"
  "map VotingPower (reprio f vs) = map VotingPower vs"
  "map PubKey (reprio f vs) = map PubKey vs"
  "sumPower (reprio f vs) = sumPower vs"
  "reprio f vs = [] \<longleftrightarrow> vs = []"
  "length (reprio f vs) = length vs"
  by (auto simp: reprio_def sumPower_def comp_def)

lemma powMap_reprio [simp]: "powMap (reprio f vs) = powMap vs"
  by (simp add: powMap_def reprio_def comp_def)

lemma wf_list_reprio: "wf_list vs \<Longrightarrow> \<forall>v \<in> set vs. in64 (f v) \<Longrightarrow> wf_list (reprio f vs)"
  unfolding wf_list_def by simp (auto simp: reprio_def)

lemma reprio_id: "vs = reprio ProposerPriority vs"
  by (simp add: reprio_def)

lemma RescalePriorities_reprio:
  assumes "wf_list (Validators vals)" and "Validators vals \<noteq> []"
    and "0 < diffMax" and "diffMax \<le> 2 * MaxTotalVotingPower"
  obtains f where "RescalePriorities vals diffMax = (Inr (vals\<lparr>Validators := reprio f (Validators vals)\<rparr>) :: 'e fault + _)"
    and "\<forall>v \<in> set (Validators vals). in64 (f v)"
proof -
  obtain diff where diff: "computeMaxMinPriorityDiff (Validators vals) = (Inr diff :: 'e fault + int)" "in64 diff"
    using assms(2) unfolding computeMaxMinPriorityDiff_def Let_def by (metis in64_wrap64)
  define ratio where "ratio = wrap64 (wrap64 (diff + diffMax) - 1) sdiv diffMax"
  show ?thesis
  proof (cases "diff > diffMax")
    case True
    have big: "\<bar>wrap64 (wrap64 (diff + diffMax) - 1)\<bar> \<ge> diffMax"
    proof (cases "diff + diffMax \<le> MaxInt64")
      case True
      then have "wrap64 (wrap64 (diff + diffMax) - 1) = diff + diffMax - 1"
        using assms(3) \<open>diff > diffMax\<close> by (simp add: int_range)
      then show ?thesis using assms(3) \<open>diff > diffMax\<close> by simp
    next
      case False
      then have w: "wrap64 (diff + diffMax) = diff + diffMax - 2 ^ 64"
        using assms(4) diff(2) by (intro wrap64_over) (simp_all add: vp_bounds)
      show ?thesis
      proof (cases "diff + diffMax - 2 ^ 64 - 1 \<ge> MinInt64")
        case True
        then have "wrap64 (wrap64 (diff + diffMax) - 1) = diff + diffMax - 2 ^ 64 - 1"
          unfolding w using assms(4) diff(2) by (intro wrap64_id) (simp add: vp_bounds)
        then show ?thesis using assms(4) diff(2) by (simp add: vp_bounds)
      next
        case False
        then have "wrap64 (wrap64 (diff + diffMax) - 1) = diff + diffMax - 1"
          unfolding w using assms(3) \<open>diff > diffMax\<close>
          by (subst wrap64_under) (simp_all add: vp_bounds)
        then show ?thesis using assms(3) \<open>diff > diffMax\<close> by simp
      qed
    qed
    then have "ratio \<noteq> 0"
      using assms(3) by (auto simp: ratio_def signed_divide_int_def sgn_if zdiv_eq_0_iff div_pos_pos_trivial)
    then have "RescalePriorities vals diffMax = (Inr (vals\<lparr>Validators :=
        reprio (\<lambda>v. wrap64 (ProposerPriority v sdiv ratio)) (Validators vals)\<rparr>) :: 'e fault + _)"
      using True diff assms(2,3)
      by (simp add: RescalePriorities_def IsNilOrEmpty_def reprio_def ratio_def Let_def)
    then show ?thesis using that by simp
  next
    case False
    then have "RescalePriorities vals diffMax =
        (Inr (vals\<lparr>Validators := reprio ProposerPriority (Validators vals)\<rparr>) :: 'e fault + _)"
      using diff assms(2,3) by (simp add: RescalePriorities_def IsNilOrEmpty_def Let_def flip: reprio_id)
    then show ?thesis using that assms(1) by (simp add: wf_list_def)
  qed
qed

lemma sum_list_bounds:
  fixes f :: "'a \<Rightarrow> int"
  assumes "\<forall>x \<in> set xs. lo \<le> f x \<and> f x \<le> hi"
  shows "lo * int (length xs) \<le> sum_list (map f xs)" and "sum_list (map f xs) \<le> hi * int (length xs)"
  using assms by (induction xs) (auto simp: algebra_simps)

lemma avg_bounds:
  fixes f :: "'a \<Rightarrow> int"
  assumes "xs \<noteq> []" and "\<forall>x \<in> set xs. lo \<le> f x \<and> f x \<le> hi"
  shows "lo \<le> sum_list (map f xs) div int (length xs)" and "sum_list (map f xs) div int (length xs) \<le> hi"
proof -
  have pos: "0 < int (length xs)" using assms(1) by simp
  show "lo \<le> sum_list (map f xs) div int (length xs)"
    using zdiv_mono1 [OF sum_list_bounds(1) [OF assms(2)] pos] pos by simp
  show "sum_list (map f xs) div int (length xs) \<le> hi"
    using zdiv_mono1 [OF sum_list_bounds(2) [OF assms(2)] pos] pos by simp
qed

lemma computeAvg_ok:
  assumes "wf_list vs" and "vs \<noteq> []"
  shows "computeAvgProposerPriority vs = Inr (sum_list (map ProposerPriority vs) div int (length vs))"
    and "in64 (sum_list (map ProposerPriority vs) div int (length vs))"
proof -
  have "\<forall>v \<in> set vs. MinInt64 \<le> ProposerPriority v \<and> ProposerPriority v \<le> MaxInt64"
    using assms(1) by (auto simp: wf_list_def in64_def)
  from avg_bounds [OF assms(2) this]
  show "in64 (sum_list (map ProposerPriority vs) div int (length vs))" by (simp add: in64_def)
  with assms(2) show "computeAvgProposerPriority vs = Inr (sum_list (map ProposerPriority vs) div int (length vs))"
    by (simp add: computeAvgProposerPriority_def Let_def)
qed

lemma shift_reprio:
  assumes "wf_list (Validators vals)" and "Validators vals \<noteq> []"
  obtains f where "shiftByAvgProposerPriority vals = (Inr (vals\<lparr>Validators := reprio f (Validators vals)\<rparr>) :: 'e fault + _)"
    and "\<forall>v \<in> set (Validators vals). in64 (f v)"
proof -
  let ?avg = "sum_list (map ProposerPriority (Validators vals)) div int (length (Validators vals))"
  have "shiftByAvgProposerPriority vals = (Inr (vals\<lparr>Validators :=
      reprio (\<lambda>v. safeSubClip (ProposerPriority v) ?avg) (Validators vals)\<rparr>) :: 'e fault + _)"
    using assms(2) computeAvg_ok(1) [OF assms, where 'a = 'e]
    by (simp add: shiftByAvgProposerPriority_def IsNilOrEmpty_def reprio_def)
  moreover have "\<forall>v \<in> set (Validators vals). in64 (safeSubClip (ProposerPriority v) ?avg)"
    using computeAvg_ok(2) [OF assms] wf_list_power(5) [OF assms(1)] by simp
  ultimately show ?thesis using that by blast
qed

lemma wf_vals_nonempty_total:
  assumes "wf_list vs" and "vs \<noteq> []"
  shows "0 < wrap64 (PriorityWindowSizeFactor * sumPower vs)"
    and "wrap64 (PriorityWindowSizeFactor * sumPower vs) = 2 * sumPower vs"
proof -
  have "in64 (2 * sumPower vs)" using wf_list_sum [OF assms(1)] by (simp add: vp_bounds)
  then show w: "wrap64 (PriorityWindowSizeFactor * sumPower vs) = 2 * sumPower vs"
    by (simp add: PriorityWindowSizeFactor_def)
  then show "0 < wrap64 (PriorityWindowSizeFactor * sumPower vs)" using wf_list_sum_pos [OF assms] by simp
qed

text \<open>Rescaling to twice the total and centring, the two steps every change of a set ends with.\<close>

lemma rescale_shift:
  assumes "wf_list (Validators vals)" and "Validators vals \<noteq> []"
  obtains f where
    "bindR (RescalePriorities vals (wrap64 (PriorityWindowSizeFactor * sumPower (Validators vals))))
       shiftByAvgProposerPriority = (Inr (vals\<lparr>Validators := reprio f (Validators vals)\<rparr>) :: 'e fault + _)"
    and "\<forall>v \<in> set (Validators vals). in64 (f v)"
proof -
  note d = wf_vals_nonempty_total [OF assms]
  have "wrap64 (PriorityWindowSizeFactor * sumPower (Validators vals)) \<le> 2 * MaxTotalVotingPower"
    using d(2) wf_list_sum [OF assms(1)] by simp
  with assms d(1) obtain f where f: "RescalePriorities vals (wrap64 (PriorityWindowSizeFactor * sumPower (Validators vals)))
      = (Inr (vals\<lparr>Validators := reprio f (Validators vals)\<rparr>) :: 'e fault + _)"
    "\<forall>v \<in> set (Validators vals). in64 (f v)"
    by (rule RescalePriorities_reprio)
  let ?v1 = "vals\<lparr>Validators := reprio f (Validators vals)\<rparr>"
  have "wf_list (Validators ?v1)" "Validators ?v1 \<noteq> []"
    using wf_list_reprio [OF assms(1) f(2)] assms(2) by simp_all
  then obtain g where g: "shiftByAvgProposerPriority ?v1 = (Inr (?v1\<lparr>Validators := reprio g (Validators ?v1)\<rparr>) :: 'e fault + _)"
    "\<forall>v \<in> set (Validators ?v1). in64 (g v)"
    by (rule shift_reprio)
  have "reprio g (reprio f (Validators vals)) = reprio (\<lambda>v. g (v\<lparr>ProposerPriority := f v\<rparr>)) (Validators vals)"
    by (simp add: reprio_def)
  moreover have "\<forall>v \<in> set (Validators vals). in64 (g (v\<lparr>ProposerPriority := f v\<rparr>))"
    using g(2) by (auto simp: reprio_def)
  ultimately show ?thesis using that f(1) g(1) by simp
qed

section \<open>The whole update\<close>

definition powTotal :: "(bytes \<rightharpoonup> int) \<Rightarrow> int" where
  "powTotal m = (\<Sum>a \<in> dom m. the (m a))"

lemma dom_powMap: "dom (powMap vs) = Address ` set vs"
  by (rule set_eqI) (simp only: domIff powMap_None_iff not_not)

lemma powTotal_powMap: "distinct (map Address vs) \<Longrightarrow> powTotal (powMap vs) = sumPower vs"
proof -
  assume d: "distinct (map Address vs)"
  then have inj: "inj_on Address (set vs)" by (simp add: distinct_map)
  have "powTotal (powMap vs) = (\<Sum>v \<in> set vs. the (powMap vs (Address v)))"
    unfolding powTotal_def dom_powMap by (simp add: sum.reindex [OF inj])
  also have "\<dots> = (\<Sum>v \<in> set vs. VotingPower v)"
  proof (rule sum.cong [OF refl])
    fix v assume "v \<in> set vs"
    then have "powMap vs (Address v) = Some (VotingPower v)" using d by (auto simp: powMap_Some_iff)
    then show "the (powMap vs (Address v)) = VotingPower v" by simp
  qed
  finally show ?thesis using d by (simp add: sumPower_set)
qed

lemma computeNewPriorities_reprio:
  assumes "wf_list (Validators vals)"
  obtains g where "computeNewPriorities us vals tvp = reprio g us" and "\<forall>u. in64 (g u)"
proof -
  define g where "g u = (case GetByAddress vals (Address u) of
      (_, None) \<Rightarrow> wrap64 (- wrap64 (tvp + drop_bit 3 tvp)) | (_, Some v) \<Rightarrow> ProposerPriority v)"
    for u :: validator
  have "computeNewPriorities us vals tvp = reprio g us"
    by (auto simp: computeNewPriorities_def reprio_def g_def split: prod.splits option.splits)
  moreover have "in64 (g u)" for u
    using wf_list_power(5) [OF assms]
    by (rule_tac GetByAddress_cases [of vals "Address u"]) (simp_all add: g_def)
  ultimately show ?thesis using that by blast
qed

lemma set_map_eq: "map f xs = map f ys \<Longrightarrow> f ` set xs = f ` set ys"
  by (metis set_map)

lemma ascending_reprio [simp]: "ascending (reprio g us) \<longleftrightarrow> ascending us"
  by (simp add: ascending_def)

lemma Address_reprio [simp]: "Address ` set (reprio g us) = Address ` set us"
  by (rule set_map_eq) simp

text \<open>The list that the merge and the removals leave.\<close>

lemma applied_list:
  assumes "wf_list (Validators vals)" and "ascending us" and "ascending ds"
    and "Address ` set us \<inter> Address ` set ds = {}" and "Address ` set ds \<subseteq> Address ` set (Validators vals)"
  obtains ws where "applyRemovals (applyUpdates vals us) ds = (Inr (vals\<lparr>Validators := ws\<rparr>) :: 'e fault + _)"
    and "ascending ws"
    and "set ws = set us \<union> {v \<in> set (Validators vals). Address v \<notin> Address ` set us \<and> Address v \<notin> Address ` set ds}"
proof -
  let ?es = "sort_key Address (Validators vals)"
  let ?m = "mergeUpdates ?es us"
  let ?ws = "filter (\<lambda>e. Address e \<notin> Address ` set ds) ?m"
  have es: "ascending ?es" using assms(1) by (intro sort_Address_ascending) (simp add: wf_list_def)
  have m: "set ?m = set us \<union> {e \<in> set (Validators vals). Address e \<notin> Address ` set us}" "ascending ?m"
    using mergeUpdates_set [OF es assms(2)] mergeUpdates_ascending [OF es assms(2)] by auto
  have sub: "Address ` set ds \<subseteq> Address ` set ?m"
  proof
    fix a assume "a \<in> Address ` set ds"
    then have "a \<in> Address ` set (Validators vals)" "a \<notin> Address ` set us" using assms(4,5) by auto
    then obtain v where "v \<in> set (Validators vals)" "Address v = a" by blast
    with \<open>a \<notin> Address ` set us\<close> show "a \<in> Address ` set ?m" unfolding m(1) by blast
  qed
  have len: "length ds \<le> length ?m"
    using ascending_distinct [OF assms(3)] sub by (rule length_subset_le)
  have "removalLoop ?m ds [] (length ?m - length ds) = (Inr ([] @ ?ws) :: 'e fault + _)"
    using m(2) assms(3) sub len by (intro removalLoop_filter) auto
  then have "applyRemovals (applyUpdates vals us) ds = (Inr (vals\<lparr>Validators := ?ws\<rparr>) :: 'e fault + _)"
    using len by (simp add: applyRemovals_def applyUpdates_def)
  moreover have "set ?ws = set us \<union> {v \<in> set (Validators vals). Address v \<notin> Address ` set us \<and> Address v \<notin> Address ` set ds}"
  proof (rule set_eqI)
    fix w
    have "w \<in> set us \<Longrightarrow> Address w \<notin> Address ` set ds" using assms(4) by blast
    then show "w \<in> set ?ws \<longleftrightarrow> w \<in> set us \<union> {v \<in> set (Validators vals).
        Address v \<notin> Address ` set us \<and> Address v \<notin> Address ` set ds}"
      unfolding set_filter m(1) by (cases "w \<in> set us") simp_all
  qed
  ultimately show ?thesis using that m(2) ascending_filter by blast
qed

lemma empty_result:
  assumes "distinct (map Address vs)" and "distinct (map Address ds)"
    and "Address ` set ds \<subseteq> Address ` set vs" and "Address ` set us \<inter> Address ` set ds = {}"
  shows "set (reprio g us) \<union> {v \<in> set vs. Address v \<notin> Address ` set (reprio g us) \<and> Address v \<notin> Address ` set ds} = {}
    \<longleftrightarrow> (\<forall>u \<in> set us. Address u \<in> Address ` set vs) \<and> length vs = length ds" (is "?L \<longleftrightarrow> ?R")
proof -
  have card: "card (Address ` set vs) = length vs" "card (Address ` set ds) = length ds"
    using assms(1,2) by (metis distinct_card length_map set_map)+
  have same: "length vs = length ds \<longleftrightarrow> Address ` set vs = Address ` set ds"
  proof
    assume "length vs = length ds"
    then have "Address ` set ds = Address ` set vs" using card by (intro card_subset_eq [OF _ assms(3)]) simp_all
    then show "Address ` set vs = Address ` set ds" by (rule sym)
  qed (use card in simp)
  have L: "?L \<longleftrightarrow> set us = {} \<and> (\<forall>v \<in> set vs. Address v \<in> Address ` set ds)"
    by (cases us) (auto simp: reprio_def)
  show ?thesis
  proof
    assume ?L
    then have "set us = {}" "Address ` set vs \<subseteq> Address ` set ds" using L by auto
    then show ?R using assms(3) same by auto
  next
    assume R: ?R
    then have eq: "Address ` set vs = Address ` set ds" using same by simp
    have "u \<notin> set us" for u
    proof
      assume u: "u \<in> set us"
      then have "Address u \<in> Address ` set us" by (rule imageI)
      moreover have "Address u \<in> Address ` set ds" using R u eq by simp
      ultimately show False using assms(4) by (metis IntI empty_iff)
    qed
    then have "set us = {}" by (metis all_not_in_conv)
    moreover have "\<forall>v \<in> set vs. Address v \<in> Address ` set ds"
      unfolding eq [symmetric] by simp
    ultimately show ?L unfolding L by simp
  qed
qed

definition changeAccepted :: "validator_set \<Rightarrow> validator list \<Rightarrow> bool \<Rightarrow> bool" where
  "changeAccepted vals cs allowDeletes \<longleftrightarrow>
     changeOk cs \<and> distinct (map Address cs) \<and> (\<forall>v \<in> set cs. Address v \<noteq> []) \<and>
     (allowDeletes \<or> (\<forall>v \<in> set cs. VotingPower v \<noteq> 0)) \<and>
     (\<forall>v \<in> set cs. VotingPower v = 0 \<longrightarrow> HasAddress vals (Address v)) \<and>
     dom (changeSpec (powMap (Validators vals)) cs) \<noteq> {} \<and>
     powTotal (changeSpec (powMap (Validators vals)) cs) \<le> MaxTotalVotingPower"

text \<open>What is known once the changes are split and the removals are members of the set.\<close>

lemma split_changes:
  assumes "wf_vals vals" and "processChanges cs = Inr (us, ds)"
    and "Address ` set ds \<subseteq> Address ` set (Validators vals)"
  obtains ws g where
    "applyRemovals (applyUpdates vals (computeNewPriorities us vals tvp)) ds =
       (Inr (vals\<lparr>Validators := ws\<rparr>) :: vs_error fault + _)"
    and "ascending ws" and "\<forall>v \<in> set ws. 0 < VotingPower v \<and> in64 (ProposerPriority v)"
    and "powMap ws = changeSpec (powMap (Validators vals)) cs"
    and "sumPower ws = sumPower (Validators vals) - sum_list (map (\<lambda>d. powAt (Validators vals) (Address d)) ds)
           + sum_list (map (delta vals) us)"
    and "ws = [] \<longleftrightarrow> numNewValidators us vals = 0 \<and> length (Validators vals) = length ds"
proof -
  let ?vs = "Validators vals"
  have wf: "wf_list ?vs" using assms(1) by (simp add: wf_vals_def)
  then have dvs: "distinct (map Address ?vs)" by (simp add: wf_list_def)
  from processChanges_ok [OF assms(2)]
  have ok: "changeOk cs" "distinct (map Address cs)" "ascending us" "ascending ds"
    "set us = {v \<in> set cs. VotingPower v \<noteq> 0}" "set ds = {v \<in> set cs. VotingPower v = 0}" by auto
  obtain g where g: "computeNewPriorities us vals tvp = reprio g us" "\<forall>u. in64 (g u)"
    using wf by (rule computeNewPriorities_reprio)
  have inj: "inj_on Address (set cs)" using ok(2) by (simp add: distinct_map)
  have disj: "Address ` set us \<inter> Address ` set ds = {}"
    using inj unfolding ok(5,6) inj_on_def by force
  have "ascending (reprio g us)" "Address ` set (reprio g us) \<inter> Address ` set ds = {}"
    using ok(3) disj by simp_all
  from applied_list [OF wf this(1) ok(4) this(2) assms(3)] obtain ws where ws:
    "applyRemovals (applyUpdates vals (reprio g us)) ds = (Inr (vals\<lparr>Validators := ws\<rparr>) :: vs_error fault + _)"
    "ascending ws"
    "set ws = set (reprio g us) \<union> {v \<in> set ?vs. Address v \<notin> Address ` set (reprio g us) \<and> Address v \<notin> Address ` set ds}"
    by metis
  have upd: "\<forall>w \<in> set (reprio g us). 0 < VotingPower w \<and> in64 (ProposerPriority w)"
    using ok(1) g(2) unfolding reprio_def changeOk_def ok(5)
    by (auto simp: ok(5) less_le)
  have good: "\<forall>v \<in> set ws. 0 < VotingPower v \<and> in64 (ProposerPriority v)"
    unfolding ws(3) using upd wf by (auto simp: wf_list_def)
  have sum: "sumPower ws = sumPower ?vs - sum_list (map (\<lambda>d. powAt ?vs (Address d)) ds)
      + sum_list (map (delta vals) us)"
  proof -
    have "map (\<lambda>u. VotingPower u - powAt ?vs (Address u)) (reprio g us) = map (delta vals) us"
      using delta_powAt [OF wf] ok(1,5) by (auto simp: reprio_def changeOk_def)
    with sumPower_changed [OF dvs _ ok(4) ascending_distinct [OF ws(2)] _ ws(3)] ok(3) disj
    show ?thesis by simp
  qed
  have pow: "powMap ws = changeSpec (powMap ?vs) cs"
  proof (rule powMap_changed [OF dvs ascending_distinct [OF ws(2)] ok(2)])
    fix a p
    have cs: "a \<notin> Address ` set us \<and> a \<notin> Address ` set ds \<longleftrightarrow> a \<notin> Address ` set cs" for a
      unfolding ok(5,6) by blast
    have "(\<exists>w \<in> set ws. Address w = a \<and> VotingPower w = p) \<longleftrightarrow>
        (\<exists>u \<in> set us. Address u = a \<and> VotingPower u = p) \<or>
        (\<exists>v \<in> set ?vs. Address v = a \<and> VotingPower v = p \<and> Address v \<notin> Address ` set cs)"
      unfolding ws(3) Address_reprio cs bex_Un by (simp add: reprio_def) blast
    then show "(\<exists>w \<in> set ws. Address w = a \<and> VotingPower w = p) \<longleftrightarrow>
      (\<exists>c \<in> set cs. Address c = a \<and> VotingPower c = p \<and> p \<noteq> 0) \<or>
      (\<exists>v \<in> set ?vs. Address v = a \<and> VotingPower v = p \<and> a \<notin> Address ` set cs)"
      unfolding ok(5) by auto
  qed
  have emp: "ws = [] \<longleftrightarrow> numNewValidators us vals = 0 \<and> length ?vs = length ds"
    using empty_result [OF dvs ascending_distinct [OF ok(4)] assms(3) disj, of g] ws(3)
    by (simp add: numNewValidators_def filter_empty_conv HasAddress_iff Ball_def flip: set_empty)
  show ?thesis using that [OF _ ws(2) good pow sum emp] ws(1) g(1) by simp
qed

lemma removedPower_bounds:
  assumes "wf_list (Validators vals)" and "processChanges cs = Inr (us, ds)"
  defines "removed \<equiv> sum_list (map (\<lambda>d. powAt (Validators vals) (Address d)) ds)"
  shows "0 \<le> removed" and "removed \<le> sumPower (Validators vals)"
    and "removed + sum_list (map (\<lambda>u. powAt (Validators vals) (Address u)) us) \<le> sumPower (Validators vals)"
proof -
  from processChanges_ok [OF assms(2)]
  have ok: "distinct (map Address cs)" "ascending us" "ascending ds"
    "set us = {v \<in> set cs. VotingPower v \<noteq> 0}" "set ds = {v \<in> set cs. VotingPower v = 0}" by auto
  have inj: "inj_on Address (set cs)" using ok(1) by (simp add: distinct_map)
  have "Address ` set ds \<inter> Address ` set us = {}"
    using inj unfolding ok(4,5) inj_on_def by force
  then have d: "distinct (map Address (ds @ us))"
    using ascending_distinct [OF ok(2)] ascending_distinct [OF ok(3)] by simp
  show "0 \<le> removed" "removed \<le> sumPower (Validators vals)"
    unfolding removed_def using sum_powAt_le [OF assms(1) ascending_distinct [OF ok(3)]] by simp_all
  show "removed + sum_list (map (\<lambda>u. powAt (Validators vals) (Address u)) us) \<le> sumPower (Validators vals)"
    unfolding removed_def using sum_powAt_le(2) [OF assms(1) d] by simp
qed

lemma sort_powerKey:
  assumes "wf_list vs"
  shows "wf_list (sort_key powerKey vs)" and "powMap (sort_key powerKey vs) = powMap vs"
    and "sumPower (sort_key powerKey vs) = sumPower vs"
proof -
  let ?ws = "sort_key powerKey vs"
  have d: "distinct (map Address vs)" using assms by (simp add: wf_list_def)
  then have dw: "distinct (map Address ?ws)" by (metis distinct_map distinct_sort set_sort)
  show sum: "sumPower ?ws = sumPower vs" by (rule sumPower_mset) simp
  with assms dw show "wf_list ?ws" by (simp add: wf_list_def)
  have "powMap ?ws a = Some p \<longleftrightarrow> powMap vs a = Some p" for a p
    using d dw by (simp add: powMap_Some_iff)
  then show "powMap ?ws = powMap vs" by (metis ext not_Some_eq)
qed

lemma update_tail:
  assumes "wf_list ws" and "ws \<noteq> []"
  obtains vals' where
    "bindR (updateTotalVotingPower (vals\<lparr>Validators := ws\<rparr>)) (\<lambda>vals3.
     bindR (TotalVotingPower vals3) (\<lambda>(vals4, total).
     bindR (RescalePriorities vals4 (wrap64 (PriorityWindowSizeFactor * total))) (\<lambda>vals5.
     bindR (shiftByAvgProposerPriority vals5) (\<lambda>vals6.
       Inr (vals6\<lparr>Validators := sort_key powerKey (Validators vals6)\<rparr>))))) = (Inr vals' :: 'e fault + _)"
    and "wf_list (Validators vals')" and "totalVotingPower vals' = sumPower (Validators vals')"
    and "powMap (Validators vals') = powMap ws" and "sorted (map powerKey (Validators vals'))"
    and "Proposer vals' = Proposer vals"
proof -
  let ?v = "vals\<lparr>Validators := ws, totalVotingPower := sumPower ws\<rparr>"
  have upd: "updateTotalVotingPower (vals\<lparr>Validators := ws\<rparr>) = (Inr ?v :: 'e fault + _)"
    using assms(1) by (simp add: updateTotalVotingPower_ok)
  have total: "TotalVotingPower ?v = (Inr (?v, sumPower ws) :: 'e fault + _)"
    using assms(1) by (subst TotalVotingPower_wf) (simp_all add: wf_vals_def)
  have v: "wf_list (Validators ?v)" "Validators ?v \<noteq> []" using assms by simp_all
  obtain f where f:
    "bindR (RescalePriorities ?v (wrap64 (PriorityWindowSizeFactor * sumPower (Validators ?v))))
       shiftByAvgProposerPriority = (Inr (?v\<lparr>Validators := reprio f (Validators ?v)\<rparr>) :: 'e fault + _)"
    "\<forall>v \<in> set (Validators ?v). in64 (f v)"
    using v by (rule rescale_shift)
  let ?ws = "reprio f ws"
  have wf: "wf_list ?ws" using assms(1) f(2) by (simp add: wf_list_reprio)
  let ?r = "?v\<lparr>Validators := sort_key powerKey ?ws\<rparr>"
  have "bindR (updateTotalVotingPower (vals\<lparr>Validators := ws\<rparr>)) (\<lambda>vals3.
     bindR (TotalVotingPower vals3) (\<lambda>(vals4, total).
     bindR (RescalePriorities vals4 (wrap64 (PriorityWindowSizeFactor * total))) (\<lambda>vals5.
     bindR (shiftByAvgProposerPriority vals5) (\<lambda>vals6.
       Inr (vals6\<lparr>Validators := sort_key powerKey (Validators vals6)\<rparr>))))) = (Inr ?r :: 'e fault + _)"
    using f(1) by (auto simp: upd total bindR_Inr_iff)
  then show ?thesis
    by (rule that) (simp_all add: sort_powerKey [OF wf])
qed

lemma update_members:
  assumes "wf_vals vals" and "cs \<noteq> []" and pc: "processChanges cs = Inr (us, ds)"
    and sub: "Address ` set ds \<subseteq> Address ` set (Validators vals)"
  shows "(\<exists>e. updateWithChangeSet vals cs allow = Inl (Err e)) \<and>
      \<not> ((allow \<or> ds = []) \<and> dom (changeSpec (powMap (Validators vals)) cs) \<noteq> {} \<and>
         powTotal (changeSpec (powMap (Validators vals)) cs) \<le> MaxTotalVotingPower) \<or>
    (\<exists>vals'. updateWithChangeSet vals cs allow = Inr vals' \<and> (allow \<or> ds = []) \<and>
      dom (changeSpec (powMap (Validators vals)) cs) \<noteq> {} \<and>
      powTotal (changeSpec (powMap (Validators vals)) cs) \<le> MaxTotalVotingPower \<and>
      wf_list (Validators vals') \<and> totalVotingPower vals' = sumPower (Validators vals') \<and>
      powMap (Validators vals') = changeSpec (powMap (Validators vals)) cs \<and>
      sorted (map powerKey (Validators vals')) \<and> Proposer vals' = Proposer vals)"
proof -
  let ?vs = "Validators vals"
  let ?removed = "sum_list (map (\<lambda>d. powAt ?vs (Address d)) ds)"
  let ?s = "sumPower ?vs - ?removed + sum_list (map (delta vals) us)"
  define tvp where "tvp = ?s + ?removed"
  have wf: "wf_list ?vs" using assms(1) by (simp add: wf_vals_def)
  from processChanges_ok [OF pc]
  have ok: "changeOk cs" "distinct (map Address cs)" "ascending us" "ascending ds"
    "set us = {v \<in> set cs. VotingPower v \<noteq> 0}" "set ds = {v \<in> set cs. VotingPower v = 0}" by auto
  have us: "changeOk us" using ok(1,5) by (auto simp: changeOk_def)
  have removals: "verifyRemovals ds vals = Inr ?removed"
    using verifyRemovals_spec [OF wf ascending_distinct [OF ok(4)], of ?removed] sub by simp
  have updates: "verifyUpdates us vals ?removed =
      (if ?s \<le> MaxTotalVotingPower then Inr tvp else Inl (Err ErrTotalVotingPowerOverflow))"
    using removedPower_bounds [OF wf pc] by (subst verifyUpdates_spec [OF assms(1) us]) (simp_all add: Let_def tvp_def)
  from split_changes [OF assms(1) pc sub, of tvp] obtain ws where ws:
    "applyRemovals (applyUpdates vals (computeNewPriorities us vals tvp)) ds =
       (Inr (vals\<lparr>Validators := ws\<rparr>) :: vs_error fault + _)"
    "ascending ws" "\<forall>v \<in> set ws. 0 < VotingPower v \<and> in64 (ProposerPriority v)"
    "powMap ws = changeSpec (powMap ?vs) cs" "sumPower ws = ?s"
    "ws = [] \<longleftrightarrow> numNewValidators us vals = 0 \<and> length ?vs = length ds"
    by metis
  have spec: "dom (changeSpec (powMap ?vs) cs) \<noteq> {} \<longleftrightarrow> ws \<noteq> []" "powTotal (changeSpec (powMap ?vs) cs) = ?s"
    using ws(5) powTotal_powMap [OF ascending_distinct [OF ws(2)]] dom_powMap [of ws] by (simp_all flip: ws(4))
  show ?thesis
  proof (cases "(allow \<or> ds = []) \<and> ws \<noteq> [] \<and> ?s \<le> MaxTotalVotingPower")
    case True
    then have "wf_list ws" "ws \<noteq> []"
      using ws(2,3,5) ascending_distinct by (auto simp: wf_list_def)
    then obtain vals' where t: "bindR (updateTotalVotingPower (vals\<lparr>Validators := ws\<rparr>)) (\<lambda>vals3.
       bindR (TotalVotingPower vals3) (\<lambda>(vals4, total).
       bindR (RescalePriorities vals4 (wrap64 (PriorityWindowSizeFactor * total))) (\<lambda>vals5.
       bindR (shiftByAvgProposerPriority vals5) (\<lambda>vals6.
         Inr (vals6\<lparr>Validators := sort_key powerKey (Validators vals6)\<rparr>))))) = (Inr vals' :: vs_error fault + _)"
      "wf_list (Validators vals')" "totalVotingPower vals' = sumPower (Validators vals')"
      "powMap (Validators vals') = powMap ws" "sorted (map powerKey (Validators vals'))"
      "Proposer vals' = Proposer vals"
      by (rule update_tail)
    have "updateWithChangeSet vals cs allow = Inr vals'"
      using True assms(2) ws(6) unfolding updateWithChangeSet_def Let_def
      by (simp add: pc removals updates ws(1) t(1))
    with True t ws(4) spec show ?thesis by auto
  next
    case False
    then consider "\<not> allow \<and> ds \<noteq> []" | "allow \<or> ds = []" "ws = []"
      | "allow \<or> ds = []" "ws \<noteq> []" "\<not> ?s \<le> MaxTotalVotingPower" by blast
    then have "\<exists>e. updateWithChangeSet vals cs allow = Inl (Err e)"
    proof cases
      case 3
      then show ?thesis using assms(2) ws(6) by (simp add: updateWithChangeSet_def pc removals updates)
    qed (use assms(2) ws(6) in \<open>simp_all add: updateWithChangeSet_def pc\<close>)
    with False spec show ?thesis by auto
  qed
qed

lemma update_outcome:
  assumes "wf_vals vals" and "cs \<noteq> []"
  shows "(\<exists>e. updateWithChangeSet vals cs allow = Inl (Err e)) \<and> \<not> changeAccepted vals cs allow \<or>
    (\<exists>vals'. updateWithChangeSet vals cs allow = Inr vals' \<and> changeAccepted vals cs allow \<and>
       wf_list (Validators vals') \<and> totalVotingPower vals' = sumPower (Validators vals') \<and>
       powMap (Validators vals') = changeSpec (powMap (Validators vals)) cs \<and>
       sorted (map powerKey (Validators vals')) \<and> Proposer vals' = Proposer vals)"
proof (cases "processChanges cs")
  case (Inl e)
  then obtain e' where "e = Err e'" using processChanges_no_panic [of cs] by (cases e) auto
  with Inl assms(2) processChanges_isOk [of cs] show ?thesis
    by (auto simp: updateWithChangeSet_def changeAccepted_def)
next
  case (Inr r)
  obtain us ds where r: "r = (us, ds)" by (cases r)
  note pc = Inr [unfolded r]
  have wf: "wf_list (Validators vals)" using assms(1) by (simp add: wf_vals_def)
  from processChanges_ok [OF pc]
  have ok: "changeOk cs" "distinct (map Address cs)" "ascending us" "ascending ds"
    "set us = {v \<in> set cs. VotingPower v \<noteq> 0}" "set ds = {v \<in> set cs. VotingPower v = 0}"
    "\<forall>v \<in> set cs. Address v \<noteq> []" by auto
  have member: "(\<forall>v \<in> set cs. VotingPower v = 0 \<longrightarrow> HasAddress vals (Address v)) \<longleftrightarrow>
      Address ` set ds \<subseteq> Address ` set (Validators vals)"
    unfolding ok(6) HasAddress_iff by blast
  have nodel: "(\<forall>v \<in> set cs. VotingPower v \<noteq> 0) \<longleftrightarrow> ds = []"
    using ok(6) by (auto simp flip: set_empty)
  note removals = verifyRemovals_spec [OF wf ascending_distinct [OF ok(4)]]
  show ?thesis
  proof (cases "Address ` set ds \<subseteq> Address ` set (Validators vals)")
    case False
    then obtain e where "verifyRemovals ds vals = Inl (Err e)"
      using removals by (metis fault.exhaust sum.exhaust)
    with False pc assms(2) member show ?thesis
      by (auto simp: updateWithChangeSet_def changeAccepted_def)
  next
    case True
    have outcome: "(\<exists>e. updateWithChangeSet vals cs allow = Inl (Err e)) \<and>
        \<not> ((allow \<or> ds = []) \<and> dom (changeSpec (powMap (Validators vals)) cs) \<noteq> {} \<and>
           powTotal (changeSpec (powMap (Validators vals)) cs) \<le> MaxTotalVotingPower) \<or>
      (\<exists>vals'. updateWithChangeSet vals cs allow = Inr vals' \<and> (allow \<or> ds = []) \<and>
        dom (changeSpec (powMap (Validators vals)) cs) \<noteq> {} \<and>
        powTotal (changeSpec (powMap (Validators vals)) cs) \<le> MaxTotalVotingPower \<and>
        wf_list (Validators vals') \<and> totalVotingPower vals' = sumPower (Validators vals') \<and>
        powMap (Validators vals') = changeSpec (powMap (Validators vals)) cs \<and>
        sorted (map powerKey (Validators vals')) \<and> Proposer vals' = Proposer vals)"
      using assms pc True by (rule update_members)
    with True ok(1,2,7) member nodel show ?thesis by (auto simp: changeAccepted_def)
  qed
qed

section \<open>An update brings in no other keys\<close>

definition identities :: "validator list \<Rightarrow> (bytes \<times> bytes option) set" where
  "identities vs = (\<lambda>v. (Address v, PubKey v)) ` set vs"

lemma identities_reprio [simp]: "identities (reprio f vs) = identities vs"
  by (simp add: identities_def reprio_def image_image)

lemma mergeUpdates_subset: "set (mergeUpdates es us) \<subseteq> set es \<union> set us"
  by (induction es us rule: mergeUpdates.induct) auto

lemma removalLoop_subset:
  "removalLoop es ds merged cap = (Inr vs :: 'e fault + _) \<Longrightarrow> set vs \<subseteq> set es \<union> set merged"
  by (induction es ds merged cap rule: removalLoop.induct) (auto split: if_splits)

lemma TotalVotingPower_validators: "TotalVotingPower vals = (Inr (vals', t) :: 'e fault + _) \<Longrightarrow> Validators vals' = Validators vals"
  by (auto simp: TotalVotingPower_def updateTotalVotingPower_def bindR_Inr_iff split: if_splits)

lemma update_identities:
  assumes "updateWithChangeSet vals changes allow = Inr vals'"
  shows "identities (Validators vals') \<subseteq> identities (Validators vals) \<union> identities changes"
proof (cases "changes = []")
  case True
  then show ?thesis using assms by (simp add: updateWithChangeSet_def)
next
  case False
  obtain us ds where split: "processChanges changes = Inr (us, ds)"
    using assms False by (auto simp: updateWithChangeSet_def elim!: bindR_InrE)
  obtain tvp vals2 vals3 vals4 t vals5 vals6 where run:
    "applyRemovals (applyUpdates vals (computeNewPriorities us vals tvp)) ds = (Inr vals2 :: vs_error fault + _)"
    "updateTotalVotingPower vals2 = (Inr vals3 :: vs_error fault + _)"
    "TotalVotingPower vals3 = (Inr (vals4, t) :: vs_error fault + _)"
    "RescalePriorities vals4 (wrap64 (PriorityWindowSizeFactor * t)) = (Inr vals5 :: vs_error fault + _)"
    "shiftByAvgProposerPriority vals5 = (Inr vals6 :: vs_error fault + _)"
    "Validators vals' = sort_key powerKey (Validators vals6)"
    using assms False split by (auto simp: updateWithChangeSet_def Let_def split: if_splits elim!: bindR_InrE)
  have us: "set us \<subseteq> set changes" using processChanges_ok [OF split] by auto
  have new: "identities (computeNewPriorities us vals tvp) = identities us"
    by (auto simp: identities_def computeNewPriorities_def image_iff split: prod.splits option.splits)
  have "identities (Validators vals') = identities (Validators vals6)" by (simp add: run(6) identities_def)
  also have "\<dots> = identities (Validators vals5)"
    using run(5) by (auto simp: shiftByAvgProposerPriority_def identities_def image_image split: if_splits elim!: bindR_InrE)
  also have "\<dots> = identities (Validators vals4)"
    using run(4) by (auto simp: RescalePriorities_def identities_def image_image Let_def split: if_splits elim!: bindR_InrE)
  also have "\<dots> = identities (Validators vals2)"
    using TotalVotingPower_validators [OF run(3)] run(2) by (auto simp: updateTotalVotingPower_def elim!: bindR_InrE)
  also have "\<dots> \<subseteq> identities (mergeUpdates (sort_key Address (Validators vals)) (computeNewPriorities us vals tvp))"
    using run(1) by (auto simp: applyRemovals_def applyUpdates_def identities_def split: if_splits elim!: bindR_InrE dest!: removalLoop_subset)
  also have "\<dots> \<subseteq> identities (Validators vals) \<union> identities (computeNewPriorities us vals tvp)"
    using mergeUpdates_subset [of "sort_key Address (Validators vals)" "computeNewPriorities us vals tvp"]
    unfolding identities_def image_Un [symmetric] by (intro image_mono) auto
  finally have "identities (Validators vals') \<subseteq> identities (Validators vals) \<union> identities us" unfolding new .
  moreover have "identities us \<subseteq> identities changes" unfolding identities_def using us by (rule image_mono)
  ultimately show ?thesis by blast
qed

section \<open>A sample\<close>

definition sampleVals :: validator_set where
  "sampleVals = \<lparr>Validators =
     [\<lparr>Address = [2], PubKey = Some [2], VotingPower = 20, ProposerPriority = - 5\<rparr>,
      \<lparr>Address = [1], PubKey = Some [1], VotingPower = 10, ProposerPriority = 5\<rparr>],
     Proposer = None, totalVotingPower = 0\<rparr>"

definition sampleChanges :: "validator list" where
  "sampleChanges =
     [\<lparr>Address = [3], PubKey = Some [3], VotingPower = 40, ProposerPriority = 0\<rparr>,
      \<lparr>Address = [1], PubKey = Some [1], VotingPower = 0, ProposerPriority = 0\<rparr>]"

definition sampleVals' :: validator_set where
  "sampleVals' = \<lparr>Validators =
     [\<lparr>Address = [3], PubKey = Some [3], VotingPower = 40, ProposerPriority = - 36\<rparr>,
      \<lparr>Address = [2], PubKey = Some [2], VotingPower = 20, ProposerPriority = 37\<rparr>],
     Proposer = None, totalVotingPower = 60\<rparr>"

lemma sampleVals_wf: "wf_vals sampleVals"
  by (simp add: wf_vals_def wf_list_def sampleVals_def vp_bounds)

lemma sampleUpdate: "updateWithChangeSet sampleVals sampleChanges True = Inr sampleVals'"
  by code_simp

section \<open>Properties\<close>

text \<open>C9: A change set that a validator set accepts does to it what its specification says: the
  map from addresses to powers is the old one with every changed address set, or removed when its
  new power is 0; the result is well formed (distinct addresses, positive powers, a total below
  the cap), its cached total is the real total, and it is in the order of \<open>ValidatorsByVotingPower\<close>.\<close>

theorem update_refines_spec:
  assumes "wf_vals vals" and "changes \<noteq> []" and "updateWithChangeSet vals changes allowDeletes = Inr vals'"
  shows "wf_vals vals' \<and> powMap (Validators vals') = changeSpec (powMap (Validators vals)) changes \<and>
    totalVotingPower vals' = sumPower (Validators vals') \<and> sorted (map powerKey (Validators vals')) \<and>
    Proposer vals' = Proposer vals"
  using update_outcome [OF assms(1,2), of allowDeletes] assms(3) by (auto simp: wf_vals_def)

theorem update_refines_spec_witness:
  "wf_vals sampleVals \<and> sampleChanges \<noteq> [] \<and>
   updateWithChangeSet sampleVals sampleChanges True = Inr sampleVals' \<and>
   powMap (Validators sampleVals') = changeSpec (powMap (Validators sampleVals)) sampleChanges \<and>
   sorted (map powerKey (Validators sampleVals'))"
proof -
  have "sampleChanges \<noteq> []" by (simp add: sampleChanges_def)
  with update_refines_spec [OF sampleVals_wf this sampleUpdate] sampleVals_wf sampleUpdate
  show ?thesis by blast
qed

text \<open>C10: On a well-formed set a change set never panics, and it is accepted exactly when its
  addresses are distinct and not empty, its powers are within range, removals are allowed and
  name members, and the set that results is not empty and has a total power of at most
  \<open>MaxTotalVotingPower\<close>. The overflow check on partial sums refuses nothing else.\<close>

theorem update_accepts_iff:
  assumes "wf_vals vals" and "changes \<noteq> []"
  shows "(isOk (updateWithChangeSet vals changes allowDeletes) \<longleftrightarrow> changeAccepted vals changes allowDeletes) \<and>
    (\<forall>p. updateWithChangeSet vals changes allowDeletes \<noteq> Inl (Panic p))"
  using update_outcome [OF assms, of allowDeletes] by auto

theorem update_accepts_iff_witness:
  "wf_vals sampleVals \<and> sampleChanges \<noteq> [] \<and> changeAccepted sampleVals sampleChanges True"
proof -
  have "sampleChanges \<noteq> []" by (simp add: sampleChanges_def)
  with update_accepts_iff [OF sampleVals_wf this, of True] sampleVals_wf sampleUpdate
  show ?thesis by simp
qed

end
