(* ===== verification/ValidatorPriority.thy ===== *)
theory ValidatorPriority
  imports ValidatorUpdate
begin

text \<open>
  The weighted round robin of \<open>types/validator_set.go\<close>: which validator is chosen, that the
  64-bit arithmetic neither panics nor clips, and that every validator is chosen in proportion
  to its power. \<open>centred\<close> is the invariant of the rounds: no priority is below minus twice the
  total power and the sum of all priorities is between 0 and the number of validators.
\<close>

section \<open>Who is chosen\<close>

definition beats :: "validator \<Rightarrow> validator \<Rightarrow> bool" where
  "beats v w \<longleftrightarrow> ProposerPriority w < ProposerPriority v \<or>
     ProposerPriority w = ProposerPriority v \<and> Address v < Address w"

lemma beats_trans: "beats u v \<Longrightarrow> beats v w \<Longrightarrow> beats u w"
  by (auto simp: beats_def)

lemma receiverWins_iff:
  assumes "Address v \<noteq> Address w"
  shows "receiverWins v w = Inr (beats v w)" and "\<not> beats v w \<Longrightarrow> beats w v"
  using assms by (auto simp: receiverWins_def beats_def)

lemma mostLoop_spec:
  assumes "distinct (map Address (v # vs))"
  obtains i w where "mostLoop vs k (Some (j, v)) = (Inr (Some (i, w)) :: 'e fault + _)"
    and "(i = j \<and> w = v) \<or> (k \<le> i \<and> i < k + length vs \<and> w = vs ! (i - k))"
    and "\<forall>u \<in> set (v # vs). u = w \<or> beats w u"
  using assms
proof (induction vs arbitrary: v j k thesis)
  case Nil
  then show ?case by simp
next
  case (Cons x xs)
  have dx: "Address v \<noteq> Address x" and d1: "distinct (map Address (v # xs))"
    and d2: "distinct (map Address (x # xs))" using Cons.prems(2) by auto
  show ?case
  proof (cases "beats v x")
    case True
    obtain i w where w: "mostLoop xs (Suc k) (Some (j, v)) = (Inr (Some (i, w)) :: 'e fault + _)"
      "(i = j \<and> w = v) \<or> (Suc k \<le> i \<and> i < Suc k + length xs \<and> w = xs ! (i - Suc k))"
      "\<forall>u \<in> set (v # xs). u = w \<or> beats w u"
      using Cons.IH [OF _ d1, of "Suc k" j] by blast
    have "\<forall>u \<in> set (v # x # xs). u = w \<or> beats w u"
      using w(3) True beats_trans by auto
    moreover have "(i = j \<and> w = v) \<or> (k \<le> i \<and> i < k + length (x # xs) \<and> w = (x # xs) ! (i - k))"
      using w(2) by (auto simp: nth_Cons')
    ultimately show ?thesis
      using Cons.prems(1) w(1) True receiverWins_iff(1) [OF dx, where 'a = 'e] by simp
  next
    case False
    then have xv: "beats x v" using receiverWins_iff(2) [OF dx] by blast
    obtain i w where w: "mostLoop xs (Suc k) (Some (k, x)) = (Inr (Some (i, w)) :: 'e fault + _)"
      "(i = k \<and> w = x) \<or> (Suc k \<le> i \<and> i < Suc k + length xs \<and> w = xs ! (i - Suc k))"
      "\<forall>u \<in> set (x # xs). u = w \<or> beats w u"
      using Cons.IH [OF _ d2, of "Suc k" k] by blast
    have "\<forall>u \<in> set (v # x # xs). u = w \<or> beats w u"
      using w(3) xv beats_trans by auto
    moreover have "k \<le> i \<and> i < k + length (x # xs) \<and> w = (x # xs) ! (i - k)"
      using w(2) by (auto simp: nth_Cons')
    ultimately show ?thesis
      using Cons.prems(1) w(1) False receiverWins_iff(1) [OF dx, where 'a = 'e] by simp
  qed
qed

lemma mostest:
  assumes "distinct (map Address vs)" and "vs \<noteq> []"
  obtains i where "getValWithMostPriority vs = (Inr (Some (i, vs ! i)) :: 'e fault + _)"
    and "i < length vs" and "\<forall>u \<in> set vs. u = vs ! i \<or> beats (vs ! i) u"
proof -
  obtain v ws where vs: "vs = v # ws" using assms(2) by (cases vs) auto
  have d: "distinct (map Address (v # ws))" using assms(1) vs by simp
  obtain i w where "mostLoop ws (Suc 0) (Some (0, v)) = (Inr (Some (i, w)) :: 'e fault + _)"
    "(i = 0 \<and> w = v) \<or> (Suc 0 \<le> i \<and> i < Suc 0 + length ws \<and> w = ws ! (i - Suc 0))"
    "\<forall>u \<in> set (v # ws). u = w \<or> beats w u"
    using d by (rule mostLoop_spec)
  moreover from this(2) have "i < length vs" "w = vs ! i" by (auto simp: vs nth_Cons')
  ultimately show ?thesis using that [of i] by (simp add: getValWithMostPriority_def vs)
qed

lemma findProposerLoop_spec:
  assumes "distinct (map Address (v # vs))"
  obtains w where "findProposerLoop vs (Some v) = (Inr (Some w) :: 'e fault + _)"
    and "w \<in> set (v # vs)" and "\<forall>u \<in> set (v # vs). u = w \<or> beats w u"
  using assms
proof (induction vs arbitrary: v thesis)
  case Nil
  then show ?case by simp
next
  case (Cons x xs)
  have dx: "Address v \<noteq> Address x" and d1: "distinct (map Address (v # xs))"
    and d2: "distinct (map Address (x # xs))" using Cons.prems(2) by auto
  note step = receiverWins_iff(1) [OF dx, where 'a = 'e]
  show ?case
  proof (cases "beats v x")
    case True
    obtain w where w: "findProposerLoop xs (Some v) = (Inr (Some w) :: 'e fault + _)"
      "w \<in> set (v # xs)" "\<forall>u \<in> set (v # xs). u = w \<or> beats w u"
      using Cons.IH [OF _ d1] by blast
    have "\<forall>u \<in> set (v # x # xs). u = w \<or> beats w u" using w(3) True beats_trans by auto
    with w show ?thesis
      using Cons.prems(1) True step dx by (auto simp: CompareProposerPriority_def)
  next
    case False
    then have xv: "beats x v" using receiverWins_iff(2) [OF dx] by blast
    obtain w where w: "findProposerLoop xs (Some x) = (Inr (Some w) :: 'e fault + _)"
      "w \<in> set (x # xs)" "\<forall>u \<in> set (x # xs). u = w \<or> beats w u"
      using Cons.IH [OF _ d2] by blast
    have "\<forall>u \<in> set (v # x # xs). u = w \<or> beats w u" using w(3) xv beats_trans by auto
    with w show ?thesis
      using Cons.prems(1) False step dx by (auto simp: CompareProposerPriority_def)
  qed
qed

lemma beats_asym: "beats v w \<Longrightarrow> \<not> beats w v"
  by (auto simp: beats_def)

text \<open>\<open>findProposer\<close>, used when a set has no recorded proposer, and
  \<open>getValWithMostPriority\<close>, used when the priorities advance, choose the same validator: the
  member with the highest priority and, among equals, the smallest address. Neither panics.\<close>

theorem proposer_choice_agrees:
  assumes "distinct (map Address (Validators vals))" and "Validators vals \<noteq> []"
  shows "\<exists>i. findProposer vals = (Inr (Some (Validators vals ! i)) :: 'e fault + _) \<and>
    getValWithMostPriority (Validators vals) = (Inr (Some (i, Validators vals ! i)) :: 'e fault + _) \<and>
    i < length (Validators vals) \<and>
    (\<forall>u \<in> set (Validators vals). u = Validators vals ! i \<or> beats (Validators vals ! i) u)"
proof -
  let ?vs = "Validators vals"
  obtain i where i: "getValWithMostPriority ?vs = (Inr (Some (i, ?vs ! i)) :: 'e fault + _)"
    "i < length ?vs" "\<forall>u \<in> set ?vs. u = ?vs ! i \<or> beats (?vs ! i) u"
    using assms by (rule mostest)
  obtain v ws where vs: "?vs = v # ws" using assms(2) by (cases ?vs) auto
  obtain w where w: "findProposerLoop ws (Some v) = (Inr (Some w) :: 'e fault + _)"
    "w \<in> set ?vs" "\<forall>u \<in> set ?vs. u = w \<or> beats w u"
    using assms(1) unfolding vs by (rule findProposerLoop_spec)
  have "w = ?vs ! i" using i(2,3) w(2,3) beats_asym by (metis nth_mem)
  with i w(1) show ?thesis by (auto simp: findProposer_def vs CompareProposerPriority_def)
qed

theorem proposer_choice_agrees_witness:
  "distinct (map Address (Validators sampleVals)) \<and> Validators sampleVals \<noteq> [] \<and>
   (\<exists>i. findProposer sampleVals = (Inr (Some (Validators sampleVals ! i)) :: unit fault + _))"
proof -
  have "distinct (map Address (Validators sampleVals))" "Validators sampleVals \<noteq> []"
    by (simp_all add: sampleVals_def)
  with proposer_choice_agrees [OF this, where 'e = unit] show ?thesis by blast
qed

section \<open>Rescaling and centring\<close>

lemma fold_min:
  fixes f :: "'a \<Rightarrow> int"
  defines "m \<equiv> \<lambda>a vs. foldl (\<lambda>m v. if f v < m then f v else m) a vs"
  shows "m a vs \<le> a" and "v \<in> set vs \<Longrightarrow> m a vs \<le> f v" and "m a vs = a \<or> m a vs \<in> f ` set vs"
proof -
  show le: "m a vs \<le> a" for a vs
    unfolding m_def by (induction vs arbitrary: a) (auto intro: order_trans less_imp_le)
  show "v \<in> set vs \<Longrightarrow> m a vs \<le> f v"
  proof (induction vs arbitrary: a)
    case (Cons x xs)
    have "m a (x # xs) = m (if f x < a then f x else a) xs" by (simp add: m_def)
    with Cons le [of "if f x < a then f x else a" xs] show ?case by (auto split: if_splits)
  qed simp
  show "m a vs = a \<or> m a vs \<in> f ` set vs"
  proof (induction vs arbitrary: a)
    case (Cons x xs)
    have "m a (x # xs) = m (if f x < a then f x else a) xs" by (simp add: m_def)
    with Cons [of "if f x < a then f x else a"] show ?case by (auto split: if_splits)
  qed (simp add: m_def)
qed

lemma fold_max:
  fixes f :: "'a \<Rightarrow> int"
  defines "m \<equiv> \<lambda>a vs. foldl (\<lambda>m v. if f v > m then f v else m) a vs"
  shows "a \<le> m a vs" and "v \<in> set vs \<Longrightarrow> f v \<le> m a vs" and "m a vs = a \<or> m a vs \<in> f ` set vs"
proof -
  have neg: "m a vs = - foldl (\<lambda>m v. if - f v < m then - f v else m) (- a) vs" for a vs
    unfolding m_def by (induction vs arbitrary: a) auto
  show "a \<le> m a vs" using fold_min(1) [of "\<lambda>v. - f v" "- a" vs] by (simp add: neg)
  show "v \<in> set vs \<Longrightarrow> f v \<le> m a vs" using fold_min(2) [of v vs "\<lambda>v. - f v" "- a"] by (simp add: neg)
  show "m a vs = a \<or> m a vs \<in> f ` set vs"
    using fold_min(3) [of "\<lambda>v. - f v" "- a" vs] by (auto simp: neg)
qed

definition spreadAtMost :: "int \<Rightarrow> validator list \<Rightarrow> bool" where
  "spreadAtMost d vs \<longleftrightarrow> (\<forall>v \<in> set vs. \<forall>w \<in> set vs. ProposerPriority v - ProposerPriority w \<le> d)"

lemma diff_exact:
  assumes "wf_list vs" and "vs \<noteq> []" and "spreadAtMost d vs" and "d \<le> MaxInt64"
  obtains diff where "computeMaxMinPriorityDiff vs = (Inr diff :: 'e fault + int)"
    and "0 \<le> diff" and "diff \<le> d" and "spreadAtMost diff vs"
proof -
  let ?mn = "foldl (\<lambda>m v. if ProposerPriority v < m then ProposerPriority v else m) MaxInt64 vs"
  let ?mx = "foldl (\<lambda>m v. if ProposerPriority v > m then ProposerPriority v else m) MinInt64 vs"
  have range: "MinInt64 \<le> ProposerPriority v \<and> ProposerPriority v \<le> MaxInt64" if "v \<in> set vs" for v
    using wf_list_power(5) [OF assms(1) that] by (simp add: in64_def)
  have hd: "hd vs \<in> set vs" using assms(2) by simp
  have mn: "?mn \<in> ProposerPriority ` set vs"
    using fold_min(3) [of ProposerPriority MaxInt64 vs] fold_min(2) [OF hd, of ProposerPriority MaxInt64]
      range [OF hd] hd by force
  have mx: "?mx \<in> ProposerPriority ` set vs"
    using fold_max(3) [of ProposerPriority MinInt64 vs] fold_max(2) [OF hd, of ProposerPriority MinInt64]
      range [OF hd] hd by force
  have nn: "0 \<le> ?mx - ?mn" using mn fold_max(2) [of _ vs ProposerPriority MinInt64] by force
  have le: "?mx - ?mn \<le> d" using mn mx assms(3) by (auto simp: spreadAtMost_def)
  have "in64 (?mx - ?mn)" using nn le assms(4) by (simp add: int_range)
  then have "computeMaxMinPriorityDiff vs = (Inr (?mx - ?mn) :: 'e fault + int)"
    using assms(2) nn by (simp add: computeMaxMinPriorityDiff_def Let_def)
  moreover have "spreadAtMost (?mx - ?mn) vs"
    unfolding spreadAtMost_def
    by (intro ballI diff_mono fold_max(2) fold_min(2))
  ultimately show ?thesis using that nn le by blast
qed

lemma sdiv_add_le:
  fixes a b k r :: int
  assumes "a \<le> b + r * k" and "0 < r" and "0 \<le> k"
  shows "a sdiv r \<le> b sdiv r + k"
proof -
  have floor_le: "b div r \<le> b sdiv r"
  proof (cases "b < 0")
    case True
    then show ?thesis using assms(2) by (simp add: sdiv_neg zdiv_zminus1_eq_if)
  qed (simp add: sdiv_nonneg assms(2))
  show ?thesis
  proof (cases "0 \<le> a")
    case True
    have "a div r \<le> (b + r * k) div r" using assms(1,2) by (rule zdiv_mono1)
    also have "\<dots> = b div r + k" using assms(2) by simp
    finally show ?thesis using True assms(2) floor_le by (simp add: sdiv_nonneg)
  next
    case False
    show ?thesis
    proof (cases "b < 0")
      case True
      have "(- b - r * k) div r \<le> (- a) div r" using assms(1,2) by (intro zdiv_mono1) auto
      moreover have "(- b - r * k) div r = (- b) div r - k"
        using assms(2) div_mult_self4 [of r "- k" "- b"] by (simp add: algebra_simps)
      ultimately show ?thesis using True False assms(2) by (simp add: sdiv_neg)
    next
      case b: False
      have "a sdiv r \<le> 0" using False assms(2) by (simp add: sdiv_neg pos_imp_zdiv_nonneg_iff)
      moreover have "0 \<le> b sdiv r" using b assms(2) by (simp add: sdiv_nonneg pos_imp_zdiv_nonneg_iff)
      ultimately show ?thesis using assms(3) by linarith
    qed
  qed
qed

lemma sdiv_shrinks:
  fixes a r :: int
  assumes "0 < r"
  shows "(0 \<le> a \<longrightarrow> 0 \<le> a sdiv r \<and> a sdiv r \<le> a) \<and> (a < 0 \<longrightarrow> a \<le> a sdiv r \<and> a sdiv r \<le> 0)"
  using assms zdiv_mono2 [of a 1 r] zdiv_mono2 [of "- a" 1 r]
  by (auto simp: sdiv_nonneg sdiv_neg pos_imp_zdiv_nonneg_iff)

lemma spread_reprio:
  "spreadAtMost d (reprio f vs) \<longleftrightarrow> (\<forall>v \<in> set vs. \<forall>w \<in> set vs. f v - f w \<le> d)"
  by (auto simp: spreadAtMost_def reprio_def)

lemma RescalePriorities_spread:
  assumes wf: "wf_list (Validators vals)" and ne: "Validators vals \<noteq> []"
    and d: "0 < d" "d \<le> 2 * MaxTotalVotingPower" and s: "spreadAtMost (MaxInt64 - d) (Validators vals)"
  obtains f where "RescalePriorities vals d = (Inr (vals\<lparr>Validators := reprio f (Validators vals)\<rparr>) :: 'e fault + _)"
    and "\<forall>v \<in> set (Validators vals). in64 (f v)" and "spreadAtMost d (reprio f (Validators vals))"
proof -
  let ?vs = "Validators vals"
  have "MaxInt64 - d \<le> MaxInt64" using d(1) by simp
  with wf ne s obtain diff where diff: "computeMaxMinPriorityDiff ?vs = (Inr diff :: 'e fault + int)"
    "0 \<le> diff" "diff \<le> MaxInt64 - d" "spreadAtMost diff ?vs" by (rule diff_exact)
  define ratio where "ratio = (diff + d - 1) sdiv d"
  have sum: "wrap64 (wrap64 (diff + d) - 1) = diff + d - 1" using diff(2,3) d(1) by (simp add: int_range)
  show ?thesis
  proof (cases "diff > d")
    case True
    have r: "0 < ratio" "diff \<le> ratio * d"
    proof -
      have e: "ratio = (diff + d - 1) div d" using True d(1) by (simp add: ratio_def sdiv_nonneg)
      show "0 < ratio" using True d(1) by (simp add: e pos_imp_zdiv_pos_iff)
      have "(diff + d - 1) mod d < d" using d(1) by simp
      moreover have "ratio * d + (diff + d - 1) mod d = diff + d - 1"
        unfolding e by (simp add: mult.commute)
      ultimately show "diff \<le> ratio * d" by linarith
    qed
    let ?f = "\<lambda>v. wrap64 (ProposerPriority v sdiv ratio)"
    have exact: "?f v = ProposerPriority v sdiv ratio" if "v \<in> set ?vs" for v
    proof -
      have "in64 (ProposerPriority v)" using wf_list_power(5) [OF wf that] .
      then have "in64 (ProposerPriority v sdiv ratio)"
        using r(1) sdiv_shrinks [of ratio "ProposerPriority v"] by (auto simp: int_range)
      then show ?thesis by simp
    qed
    have "spreadAtMost d (reprio ?f ?vs)"
      unfolding spread_reprio
    proof (intro ballI)
      fix v w assume vw: "v \<in> set ?vs" "w \<in> set ?vs"
      then have "ProposerPriority v \<le> ProposerPriority w + ratio * d"
        using diff(4) r(2) unfolding spreadAtMost_def by fastforce
      from sdiv_add_le [OF this r(1)] d(1)
      show "?f v - ?f w \<le> d" by (simp add: exact vw)
    qed
    moreover have "RescalePriorities vals d = (Inr (vals\<lparr>Validators := reprio ?f ?vs\<rparr>) :: 'e fault + _)"
      using True diff(1) ne d(1) sum r(1)
      by (simp add: RescalePriorities_def IsNilOrEmpty_def reprio_def ratio_def Let_def)
    ultimately show ?thesis using that [of ?f] by simp
  next
    case False
    then have "RescalePriorities vals d = (Inr (vals\<lparr>Validators := reprio ProposerPriority ?vs\<rparr>) :: 'e fault + _)"
      using diff ne d(1) by (simp add: RescalePriorities_def IsNilOrEmpty_def Let_def flip: reprio_id)
    moreover have "spreadAtMost d ?vs"
      using False diff(4) unfolding spreadAtMost_def by fastforce
    ultimately show ?thesis using that [of ProposerPriority] wf by (simp add: wf_list_def flip: reprio_id)
  qed
qed

definition centred :: "int \<Rightarrow> validator list \<Rightarrow> bool" where
  "centred t vs \<longleftrightarrow> (\<forall>v \<in> set vs. - (2 * t) \<le> ProposerPriority v) \<and>
     0 \<le> sum_list (map ProposerPriority vs) \<and> sum_list (map ProposerPriority vs) < int (length vs)"

lemma sum_list_minus_const:
  "sum_list (map (\<lambda>v. f v - (c :: int)) vs) = sum_list (map f vs) - c * int (length vs)"
  by (induction vs) (auto simp: algebra_simps)

lemma shift_centred:
  assumes wf: "wf_list (Validators vals)" and ne: "Validators vals \<noteq> []"
    and s: "spreadAtMost (2 * t) (Validators vals)" and t: "2 * t \<le> MaxInt64"
  obtains f where "shiftByAvgProposerPriority vals = (Inr (vals\<lparr>Validators := reprio f (Validators vals)\<rparr>) :: 'e fault + _)"
    and "\<forall>v \<in> set (Validators vals). in64 (f v)" and "centred t (reprio f (Validators vals))"
    and "\<forall>v \<in> set (Validators vals). f v \<le> 2 * t"
proof -
  let ?vs = "Validators vals"
  let ?sum = "sum_list (map ProposerPriority ?vs)"
  let ?avg = "?sum div int (length ?vs)"
  let ?f = "\<lambda>v. safeSubClip (ProposerPriority v) ?avg"
  have pos: "0 < int (length ?vs)" using ne by simp
  have bounds: "- (2 * t) \<le> ProposerPriority v - ?avg \<and> ProposerPriority v - ?avg \<le> 2 * t" if "v \<in> set ?vs" for v
  proof -
    have "\<forall>w \<in> set ?vs. ProposerPriority v - 2 * t \<le> ProposerPriority w \<and> ProposerPriority w \<le> ProposerPriority v + 2 * t"
      using s that unfolding spreadAtMost_def by fastforce
    from avg_bounds [OF ne this] show ?thesis by linarith
  qed
  have exact: "?f v = ProposerPriority v - ?avg" if "v \<in> set ?vs" for v
    using wf_list_power(5) [OF wf that] computeAvg_ok(2) [OF wf ne] bounds [OF that] t
    by (intro safeSubClip_exact) (auto simp: int_range)
  have "sum_list (map ?f ?vs) = sum_list (map (\<lambda>v. ProposerPriority v - ?avg) ?vs)"
    using exact by (intro arg_cong [where f = sum_list] map_cong) auto
  also have "\<dots> = ?sum mod int (length ?vs)"
    by (simp add: sum_list_minus_const minus_div_mult_eq_mod)
  finally have "centred t (reprio ?f ?vs)"
    using pos exact bounds unfolding centred_def by (auto simp: reprio_def comp_def)
  moreover have "shiftByAvgProposerPriority vals = (Inr (vals\<lparr>Validators := reprio ?f ?vs\<rparr>) :: 'e fault + _)"
    using ne computeAvg_ok(1) [OF wf ne, where 'a = 'e]
    by (simp add: shiftByAvgProposerPriority_def IsNilOrEmpty_def reprio_def)
  moreover have "\<forall>v \<in> set ?vs. in64 (?f v)"
    using computeAvg_ok(2) [OF wf ne] wf_list_power(5) [OF wf] by simp
  ultimately show ?thesis using that [of ?f] exact bounds by simp
qed

section \<open>One round\<close>

text \<open>With the total \<open>t\<close> of \<open>n\<close> validators in this range, no priority of a centred set clips.\<close>

definition roomy :: "int \<Rightarrow> nat \<Rightarrow> bool" where
  "roomy t n \<longleftrightarrow> (2 * t + 1) * int n \<le> MaxInt64"

lemma sum_list_others:
  fixes f :: "'a \<Rightarrow> int"
  assumes "\<forall>v \<in> set vs. lo \<le> f v" and "v \<in> set vs"
  shows "f v \<le> sum_list (map f vs) - lo * (int (length vs) - 1)"
proof -
  have "f v - lo \<le> sum_list (map (\<lambda>v. f v - lo) vs)"
    using assms by (intro sum_list_nonneg_le) auto
  then show ?thesis by (simp add: sum_list_minus_const algebra_simps)
qed

lemma centred_upper:
  assumes "centred t vs" and "v \<in> set vs"
  shows "ProposerPriority v \<le> (2 * t + 1) * (int (length vs) - 1)"
proof -
  have "ProposerPriority v \<le> sum_list (map ProposerPriority vs) + 2 * t * (int (length vs) - 1)"
    using sum_list_others [of vs "- (2 * t)" ProposerPriority v] assms by (simp add: centred_def)
  then show ?thesis using assms(1) by (simp add: centred_def algebra_simps)
qed

lemma sum_list_pos_ex:
  fixes f :: "'a \<Rightarrow> int"
  shows "0 < sum_list (map f vs) \<Longrightarrow> \<exists>v \<in> set vs. 0 < f v"
  by (induction vs) force+

definition chosen :: "validator list \<Rightarrow> nat \<Rightarrow> bool" where
  "chosen vs i \<longleftrightarrow> i < length vs \<and> (\<forall>u \<in> set (reprio (\<lambda>v. ProposerPriority v + VotingPower v) vs).
     u = reprio (\<lambda>v. ProposerPriority v + VotingPower v) vs ! i \<or>
     beats (reprio (\<lambda>v. ProposerPriority v + VotingPower v) vs ! i) u)"

definition stepPrio :: "validator list \<Rightarrow> nat \<Rightarrow> validator list" where
  "stepPrio vs i = (let ws = reprio (\<lambda>v. ProposerPriority v + VotingPower v) vs in
     ws[i := (ws ! i)\<lparr>ProposerPriority := ProposerPriority (ws ! i) - sumPower vs\<rparr>])"

lemma increment_step:
  assumes wf: "wf_vals vals" and ne: "Validators vals \<noteq> []"
    and c: "centred (sumPower (Validators vals)) (Validators vals)"
    and r: "roomy (sumPower (Validators vals)) (length (Validators vals))"
  obtains i where "chosen (Validators vals) i"
    and "incrementProposerPriority vals = (Inr (vals\<lparr>Validators := stepPrio (Validators vals) i,
           totalVotingPower := sumPower (Validators vals)\<rparr>, stepPrio (Validators vals) i ! i) :: 'e fault + _)"
    and "centred (sumPower (Validators vals)) (stepPrio (Validators vals) i)"
proof -
  let ?vs = "Validators vals" and ?t = "sumPower (Validators vals)"
  let ?ws = "reprio (\<lambda>v. ProposerPriority v + VotingPower v) ?vs"
  have wfl: "wf_list ?vs" using wf by (simp add: wf_vals_def)
  have d: "distinct (map Address ?ws)" "?ws \<noteq> []" using wfl ne by (simp_all add: wf_list_def)
  obtain i where i: "getValWithMostPriority ?ws = (Inr (Some (i, ?ws ! i)) :: 'e fault + _)"
    "i < length ?ws" "\<forall>u \<in> set ?ws. u = ?ws ! i \<or> beats (?ws ! i) u"
    using d by (rule mostest)
  note tb = wf_list_sum [OF wfl]
  have t: "0 < ?t" using wf_list_sum_pos [OF wfl ne] .
  have range: "- (2 * ?t) \<le> ProposerPriority v \<and> ProposerPriority v + VotingPower v \<le> MaxInt64" if "v \<in> set ?vs" for v
  proof -
    have "ProposerPriority v + VotingPower v \<le> (2 * ?t + 1) * (int (length ?vs) - 1) + ?t"
      using centred_upper [OF c that] wf_list_power(2) [OF wfl that] by linarith
    also have "\<dots> \<le> (2 * ?t + 1) * int (length ?vs)" using t by (simp add: algebra_simps)
    finally show ?thesis using r c that by (auto simp: roomy_def centred_def)
  qed
  have "map (\<lambda>v. v\<lparr>ProposerPriority := safeAddClip (ProposerPriority v) (VotingPower v)\<rparr>) ?vs = ?ws"
    unfolding reprio_def
  proof (rule map_cong [OF refl])
    fix v assume v: "v \<in> set ?vs"
    have "safeAddClip (ProposerPriority v) (VotingPower v) = ProposerPriority v + VotingPower v"
      using wf_list_power [OF wfl v] range [OF v] tb by (intro safeAddClip_exact) (auto simp: vp_bounds)
    then show "v\<lparr>ProposerPriority := safeAddClip (ProposerPriority v) (VotingPower v)\<rparr> =
        v\<lparr>ProposerPriority := ProposerPriority v + VotingPower v\<rparr>" by simp
  qed
  note adv = this
  have sumw: "sum_list (map ProposerPriority ?ws) = sum_list (map ProposerPriority ?vs) + ?t"
    by (simp add: reprio_def comp_def sum_list_addf sumPower_def)
  have top: "0 < ProposerPriority (?ws ! i)"
  proof -
    obtain u where "u \<in> set ?ws" "0 < ProposerPriority u"
      using sum_list_pos_ex [of ProposerPriority ?ws] sumw c t by (auto simp: centred_def)
    then show ?thesis using i(3) by (auto simp: beats_def)
  qed
  have wsr: "- (2 * ?t) \<le> ProposerPriority w \<and> ProposerPriority w \<le> MaxInt64" if "w \<in> set ?ws" for w
    using that range wf_list_power(1) [OF wfl] by (fastforce simp: reprio_def)
  have sub: "safeSubClip (ProposerPriority (?ws ! i)) ?t = ProposerPriority (?ws ! i) - ?t"
    using top wsr [OF nth_mem [OF i(2)]] t tb by (intro safeSubClip_exact) (auto simp: vp_bounds)
  have total: "TotalVotingPower (vals\<lparr>Validators := ?ws\<rparr>) =
      (Inr (vals\<lparr>Validators := ?ws, totalVotingPower := ?t\<rparr>, ?t) :: 'e fault + _)"
  proof -
    have "\<forall>v \<in> set ?vs. in64 (ProposerPriority v + VotingPower v)"
      using range wf_list_power(1) [OF wfl] tb by (fastforce simp: vp_bounds)
    then have "wf_vals (vals\<lparr>Validators := ?ws\<rparr>)"
      using wf wfl by (simp add: wf_vals_def wf_list_reprio)
    then show ?thesis by (simp add: TotalVotingPower_wf)
  qed
  show ?thesis
  proof (rule that [of i])
    show "chosen ?vs i" using i by (simp add: chosen_def)
    show "incrementProposerPriority vals = (Inr (vals\<lparr>Validators := stepPrio ?vs i,
           totalVotingPower := ?t\<rparr>, stepPrio ?vs i ! i) :: 'e fault + _)"
      using i(2) by (simp add: incrementProposerPriority_def adv i(1) total sub stepPrio_def Let_def)
    have "\<forall>v \<in> set (stepPrio ?vs i). - (2 * ?t) \<le> ProposerPriority v"
      using wsr top t unfolding stepPrio_def Let_def
      by (auto dest!: set_update_subset_insert [THEN subsetD])
    then show "centred ?t (stepPrio ?vs i)"
      using c i(2) sumw unfolding centred_def stepPrio_def Let_def
      by (auto simp: sum_list_map_update)
  qed
qed

section \<open>Many rounds\<close>

lemma stepPrio_length [simp]: "length (stepPrio vs i) = length vs"
  by (simp add: stepPrio_def Let_def)

lemma stepPrio_nth:
  "j < length vs \<Longrightarrow> stepPrio vs i ! j = (vs ! j)\<lparr>ProposerPriority :=
     ProposerPriority (vs ! j) + VotingPower (vs ! j) - (if j = i then sumPower vs else 0)\<rparr>"
  by (cases "j = i") (simp_all add: stepPrio_def reprio_def Let_def)

lemma stepPrio_keeps [simp]:
  "map Address (stepPrio vs i) = map Address vs"
  "map VotingPower (stepPrio vs i) = map VotingPower vs"
  by (auto intro!: nth_equalityI simp: stepPrio_nth)

lemma sumPower_cong: "map VotingPower vs = map VotingPower ws \<Longrightarrow> sumPower vs = sumPower ws"
  by (simp add: sumPower_def)

lemma stepPrio_sumPower [simp]: "sumPower (stepPrio vs i) = sumPower vs"
  by (rule sumPower_cong) simp

lemma stepPrio_ne [simp]: "stepPrio vs i = [] \<longleftrightarrow> vs = []"
  by (metis length_0_conv stepPrio_length)

lemma centred_in64:
  assumes "centred t vs" and "roomy t (length vs)" and "0 \<le> t" and "t \<le> MaxTotalVotingPower" and "v \<in> set vs"
  shows "in64 (ProposerPriority v)"
proof -
  have "ProposerPriority v \<le> (2 * t + 1) * (int (length vs) - 1)" using assms(1,5) by (rule centred_upper)
  also have "\<dots> \<le> (2 * t + 1) * int (length vs)" using assms(3) by (intro mult_left_mono) auto
  finally show ?thesis using assms by (auto simp: roomy_def centred_def vp_bounds)
qed

lemma wf_list_same:
  assumes "wf_list vs" and "map Address ws = map Address vs" and "map VotingPower ws = map VotingPower vs"
    and "\<forall>v \<in> set ws. in64 (ProposerPriority v)"
  shows "wf_list ws"
proof -
  have "VotingPower ` set ws = VotingPower ` set vs" using assms(3) by (rule set_map_eq)
  then have "\<forall>v \<in> set ws. 0 < VotingPower v" using assms(1) unfolding wf_list_def by (metis imageE imageI)
  with assms show ?thesis by (auto simp: wf_list_def sumPower_def)
qed

definition roundOk :: "validator_set \<Rightarrow> bool" where
  "roundOk vals \<longleftrightarrow> wf_list (Validators vals) \<and> Validators vals \<noteq> [] \<and>
     totalVotingPower vals = sumPower (Validators vals) \<and>
     centred (sumPower (Validators vals)) (Validators vals) \<and>
     roomy (sumPower (Validators vals)) (length (Validators vals))"

lemma round_step:
  assumes "roundOk vals"
  obtains i where "chosen (Validators vals) i"
    and "incrementProposerPriority vals =
      (Inr (vals\<lparr>Validators := stepPrio (Validators vals) i\<rparr>, stepPrio (Validators vals) i ! i) :: 'e fault + _)"
    and "roundOk (vals\<lparr>Validators := stepPrio (Validators vals) i\<rparr>)"
proof -
  let ?vs = "Validators vals" and ?t = "sumPower (Validators vals)"
  have a: "wf_vals vals" "?vs \<noteq> []" "centred ?t ?vs" "roomy ?t (length ?vs)" "wf_list ?vs"
    using assms by (auto simp: roundOk_def wf_vals_def)
  obtain i where i: "chosen ?vs i" "incrementProposerPriority vals = (Inr (vals\<lparr>Validators := stepPrio ?vs i,
      totalVotingPower := ?t\<rparr>, stepPrio ?vs i ! i) :: 'e fault + _)" "centred ?t (stepPrio ?vs i)"
    using a(1-4) by (rule increment_step)
  have same: "vals\<lparr>Validators := stepPrio ?vs i, totalVotingPower := ?t\<rparr> = vals\<lparr>Validators := stepPrio ?vs i\<rparr>"
    using assms by (simp add: roundOk_def)
  have "\<forall>v \<in> set (stepPrio ?vs i). in64 (ProposerPriority v)"
    using i(3) a(4) wf_list_sum [OF a(5)] by (auto intro: centred_in64)
  then have "wf_list (stepPrio ?vs i)" by (rule wf_list_same [OF a(5) stepPrio_keeps])
  then have "roundOk (vals\<lparr>Validators := stepPrio ?vs i\<rparr>)"
    using assms i(3) by (simp add: roundOk_def)
  then show ?thesis by (rule that [OF i(1) i(2) [unfolded same]])
qed

definition rounds :: "validator_set \<Rightarrow> nat list \<Rightarrow> validator_set" where
  "rounds vals js = vals\<lparr>Validators := foldl stepPrio (Validators vals) js\<rparr>"

lemma rounds_simps [simp]:
  "rounds vals [] = vals"
  "rounds vals (j # js) = rounds (vals\<lparr>Validators := stepPrio (Validators vals) j\<rparr>) js"
  by (simp_all add: rounds_def)

lemma incLoop_rounds:
  assumes "roundOk vals"
  shows "\<exists>js. length js = n \<and> (\<forall>j \<in> set js. j < length (Validators vals)) \<and>
    (\<forall>k \<le> n. roundOk (rounds vals (take k js)) \<and>
       incLoop k vals p = (Inr (rounds vals (take k js),
         if k = 0 then p else Some (Validators (rounds vals (take k js)) ! (js ! (k - 1)))) :: 'e fault + _))"
  using assms
proof (induction n arbitrary: vals p)
  case 0
  then show ?case by (intro exI [of _ "[]"]) simp
next
  case (Suc n)
  obtain i where i: "chosen (Validators vals) i"
    "incrementProposerPriority vals =
      (Inr (vals\<lparr>Validators := stepPrio (Validators vals) i\<rparr>, stepPrio (Validators vals) i ! i) :: 'e fault + _)"
    "roundOk (vals\<lparr>Validators := stepPrio (Validators vals) i\<rparr>)"
    using Suc.prems by (rule round_step)
  let ?v = "vals\<lparr>Validators := stepPrio (Validators vals) i\<rparr>"
  obtain js where js: "length js = n" "\<forall>j \<in> set js. j < length (Validators ?v)"
    "\<forall>k \<le> n. roundOk (rounds ?v (take k js)) \<and>
       incLoop k ?v (Some (stepPrio (Validators vals) i ! i)) = (Inr (rounds ?v (take k js),
         if k = 0 then Some (stepPrio (Validators vals) i ! i)
         else Some (Validators (rounds ?v (take k js)) ! (js ! (k - 1)))) :: 'e fault + _)"
    using Suc.IH [OF i(3), of "Some (stepPrio (Validators vals) i ! i)"] by metis
  have "roundOk (rounds vals (take k (i # js))) \<and>
       incLoop k vals p = (Inr (rounds vals (take k (i # js)),
         if k = 0 then p else Some (Validators (rounds vals (take k (i # js))) ! ((i # js) ! (k - 1)))) :: 'e fault + _)"
    if "k \<le> Suc n" for k
    using that Suc.prems js(3) i(2) by (cases k) (auto simp: nth_Cons')
  then show ?case
    using js(1,2) i(1) by (intro exI [of _ "i # js"]) (simp add: chosen_def)
qed

lemma foldl_stepPrio_simps [simp]:
  "length (foldl stepPrio vs js) = length vs" "sumPower (foldl stepPrio vs js) = sumPower vs"
  "map Address (foldl stepPrio vs js) = map Address vs"
  "map VotingPower (foldl stepPrio vs js) = map VotingPower vs"
  by (induction js arbitrary: vs) simp_all

lemma foldl_stepPrio_nth:
  assumes "j < length vs"
  shows "foldl stepPrio vs js ! j = (vs ! j)\<lparr>ProposerPriority := ProposerPriority (vs ! j) +
    int (length js) * VotingPower (vs ! j) - sumPower vs * int (count_list js j)\<rparr>"
  using assms by (induction js arbitrary: vs) (simp_all add: stepPrio_nth algebra_simps)

section \<open>The whole advance\<close>

lemma increment_rounds:
  assumes wf: "wf_vals vals" and ne: "Validators vals \<noteq> []"
    and room: "roomy (sumPower (Validators vals)) (length (Validators vals))"
    and s: "spreadAtMost (MaxInt64 - 2 * sumPower (Validators vals)) (Validators vals)"
  obtains f js where "length js = n" and "\<forall>j \<in> set js. j < length (Validators vals)"
    and "\<forall>v \<in> set (Validators vals). - (2 * sumPower (Validators vals)) \<le> f v \<and> f v \<le> 2 * sumPower (Validators vals)"
    and "\<And>k. 0 < k \<Longrightarrow> k \<le> n \<Longrightarrow>
      IncrementProposerPriority vals (int k) =
        (Inr (vals\<lparr>Validators := foldl stepPrio (reprio f (Validators vals)) (take k js),
               totalVotingPower := sumPower (Validators vals),
               Proposer := Some (foldl stepPrio (reprio f (Validators vals)) (take k js) ! (js ! (k - 1)))\<rparr>) :: 'e fault + _) \<and>
      roundOk (vals\<lparr>Validators := foldl stepPrio (reprio f (Validators vals)) (take k js),
               totalVotingPower := sumPower (Validators vals)\<rparr>)"
proof -
  let ?vs = "Validators vals" and ?t = "sumPower (Validators vals)"
  have wfl: "wf_list ?vs" using wf by (simp add: wf_vals_def)
  note tb = wf_list_sum [OF wfl] and dm = wf_vals_nonempty_total [OF wfl ne]
  let ?v1 = "vals\<lparr>totalVotingPower := ?t\<rparr>"
  have t2: "0 < 2 * ?t" "2 * ?t \<le> 2 * MaxTotalVotingPower" "2 * ?t \<le> MaxInt64"
    using wf_list_sum_pos [OF wfl ne] tb by (simp_all add: vp_bounds)
  have v1: "wf_list (Validators ?v1)" "Validators ?v1 \<noteq> []" "spreadAtMost (MaxInt64 - 2 * ?t) (Validators ?v1)"
    using wfl ne s by simp_all
  obtain g where g: "RescalePriorities ?v1 (2 * ?t) = (Inr (?v1\<lparr>Validators := reprio g (Validators ?v1)\<rparr>) :: 'e fault + _)"
    "\<forall>v \<in> set (Validators ?v1). in64 (g v)" "spreadAtMost (2 * ?t) (reprio g (Validators ?v1))"
    using v1(1,2) t2(1,2) v1(3) by (rule RescalePriorities_spread)
  let ?v2 = "?v1\<lparr>Validators := reprio g ?vs\<rparr>"
  have v2: "wf_list (Validators ?v2)" "Validators ?v2 \<noteq> []" "spreadAtMost (2 * ?t) (Validators ?v2)"
    using wfl ne g by (simp_all add: wf_list_reprio)
  obtain h where h: "shiftByAvgProposerPriority ?v2 = (Inr (?v2\<lparr>Validators := reprio h (Validators ?v2)\<rparr>) :: 'e fault + _)"
    "\<forall>v \<in> set (Validators ?v2). in64 (h v)" "centred ?t (reprio h (Validators ?v2))"
    "\<forall>v \<in> set (Validators ?v2). h v \<le> 2 * ?t"
    using v2 t2(3) by (rule shift_centred)
  define f where "f v = h (v\<lparr>ProposerPriority := g v\<rparr>)" for v
  have comp: "reprio h (reprio g ?vs) = reprio f ?vs" by (simp add: reprio_def f_def)
  let ?v3 = "vals\<lparr>Validators := reprio f ?vs, totalVotingPower := ?t\<rparr>"
  have f: "\<forall>v \<in> set ?vs. - (2 * ?t) \<le> f v \<and> f v \<le> 2 * ?t" "\<forall>v \<in> set ?vs. in64 (f v)"
    using h(2-4) comp by (auto simp: f_def centred_def reprio_def)
  have r3: "roundOk ?v3"
    using wfl f(2) ne room h(3) comp by (simp add: roundOk_def wf_list_reprio)
  obtain js where js: "length js = n" "\<forall>j \<in> set js. j < length (Validators ?v3)"
    "\<forall>k \<le> n. roundOk (rounds ?v3 (take k js)) \<and>
       incLoop k ?v3 None = (Inr (rounds ?v3 (take k js),
         if k = 0 then None else Some (Validators (rounds ?v3 (take k js)) ! (js ! (k - 1)))) :: 'e fault + _)"
    using incLoop_rounds [OF r3, of n None] by metis
  show ?thesis
  proof (rule that [of js f])
    show "length js = n" "\<forall>j \<in> set js. j < length ?vs" using js(1,2) by simp_all
    show "\<forall>v \<in> set ?vs. - (2 * ?t) \<le> f v \<and> f v \<le> 2 * ?t" by (rule f(1))
    fix k :: nat assume k: "0 < k" "k \<le> n"
    have after: "rounds ?v3 ks = vals\<lparr>Validators := foldl stepPrio (reprio f ?vs) ks, totalVotingPower := ?t\<rparr>" for ks
      by (simp add: rounds_def)
    have "shiftByAvgProposerPriority ?v2 = (Inr ?v3 :: 'e fault + _)" using h(1) comp by simp
    moreover have "TotalVotingPower vals = (Inr (?v1, ?t) :: 'e fault + _)" by (rule TotalVotingPower_wf [OF wf])
    moreover have "RescalePriorities ?v1 (2 * ?t) = (Inr ?v2 :: 'e fault + _)" using g(1) by simp
    ultimately have "IncrementProposerPriority vals (int k) =
        bindR (incLoop k ?v3 None) (\<lambda>(vals4, proposer). Inr (vals4\<lparr>Proposer := proposer\<rparr>) :: 'e fault + _)"
      using ne k(1) dm(2) by (simp add: IncrementProposerPriority_def IsNilOrEmpty_def Let_def)
    then show "IncrementProposerPriority vals (int k) =
        (Inr (vals\<lparr>Validators := foldl stepPrio (reprio f ?vs) (take k js),
               totalVotingPower := ?t,
               Proposer := Some (foldl stepPrio (reprio f ?vs) (take k js) ! (js ! (k - 1)))\<rparr>) :: 'e fault + _) \<and>
      roundOk (vals\<lparr>Validators := foldl stepPrio (reprio f ?vs) (take k js), totalVotingPower := ?t\<rparr>)"
      using js(3) [rule_format, OF k(2)] k(1) by (simp add: after)
  qed
qed

definition proposerAt :: "validator_set \<Rightarrow> nat \<Rightarrow> bytes option" where
  "proposerAt vals k =
     (case IncrementProposerPriority vals (int k) of
        Inl (_ :: unit fault) \<Rightarrow> None | Inr vals' \<Rightarrow> map_option Address (Proposer vals'))"

lemma card_take: "card {k. 0 < k \<and> k \<le> length js \<and> js ! (k - 1) = j} = count_list js j"
proof (induction js rule: rev_induct)
  case Nil
  have "{k. 0 < k \<and> k \<le> length [] \<and> [] ! (k - 1) = j} = {}" by auto
  then show ?case by simp
next
  case (snoc x xs)
  let ?A = "{k. 0 < k \<and> k \<le> length xs \<and> xs ! (k - 1) = j}"
  have "{k. 0 < k \<and> k \<le> length (xs @ [x]) \<and> (xs @ [x]) ! (k - 1) = j} =
      (if x = j then insert (Suc (length xs)) ?A else ?A)"
    by (auto simp: nth_append le_Suc_eq)
  with snoc show ?case by simp
qed

lemma Address_nth_foldl: "j < length vs \<Longrightarrow> Address (foldl stepPrio vs js ! j) = Address (vs ! j)"
  by (simp add: foldl_stepPrio_nth)

lemma priority_after:
  assumes "wf_list (Validators vals)" and "j < length (Validators vals)"
    and "\<forall>v \<in> set (Validators vals). - (2 * sumPower (Validators vals)) \<le> f v \<and> f v \<le> 2 * sumPower (Validators vals)"
    and "length js \<noteq> 0 \<longrightarrow> centred (sumPower (Validators vals)) (foldl stepPrio (reprio f (Validators vals)) js)"
  defines "p \<equiv> f (Validators vals ! j) + int (length js) * VotingPower (Validators vals ! j)
    - sumPower (Validators vals) * int (count_list js j)"
  shows "- (2 * sumPower (Validators vals)) \<le> p \<and>
    p \<le> (2 * sumPower (Validators vals) + 1) * int (length (Validators vals))"
proof -
  let ?vs = "Validators vals" and ?t = "sumPower (Validators vals)"
  let ?fin = "foldl stepPrio (reprio f ?vs) js"
  have final: "ProposerPriority (?fin ! j) = p"
    using assms(2) by (simp add: p_def foldl_stepPrio_nth) (simp add: reprio_def)
  note t = wf_list_sum [OF assms(1)]
  show ?thesis
  proof (cases "js = []")
    case True
    have "2 * ?t * 1 \<le> (2 * ?t + 1) * int (length ?vs)"
      using t assms(2) by (intro mult_mono) auto
    moreover have "p = f (?vs ! j)" using True by (simp add: p_def)
    moreover have "?vs ! j \<in> set ?vs" using assms(2) by simp
    ultimately show ?thesis using assms(3) by force
  next
    case False
    then have c: "centred ?t ?fin" using assms(4) by simp
    have mem: "?fin ! j \<in> set ?fin" using assms(2) by simp
    have "(2 * ?t + 1) * (int (length ?vs) - 1) \<le> (2 * ?t + 1) * int (length ?vs)"
      using t by (intro mult_left_mono) auto
    then show ?thesis using centred_upper [OF c mem] c mem final by (auto simp: centred_def)
  qed
qed



section \<open>Safety without the range hypotheses\<close>

lemma increment_safe:
  assumes "wf_vals vals" and ne: "Validators vals \<noteq> []"
  shows "\<exists>vals' m. incrementProposerPriority vals = (Inr (vals', m) :: 'e fault + _) \<and> wf_vals vals' \<and>
    m \<in> set (Validators vals') \<and> map Address (Validators vals') = map Address (Validators vals) \<and>
    map VotingPower (Validators vals') = map VotingPower (Validators vals) \<and>
    map PubKey (Validators vals') = map PubKey (Validators vals) \<and>
    totalVotingPower vals' = sumPower (Validators vals)"
proof -
  let ?vs = "Validators vals" and ?t = "sumPower (Validators vals)"
  let ?ws = "reprio (\<lambda>v. safeAddClip (ProposerPriority v) (VotingPower v)) ?vs"
  have wf: "wf_list ?vs" using assms(1) by (simp add: wf_vals_def)
  have ws: "wf_list ?ws" using wf wf_list_power(4,5) [OF wf] by (simp add: wf_list_reprio)
  then have "distinct (map Address ?ws)" "?ws \<noteq> []" using ne by (simp_all add: wf_list_def)
  then obtain i where i: "getValWithMostPriority ?ws = (Inr (Some (i, ?ws ! i)) :: 'e fault + _)" "i < length ?ws"
    by (rule mostest)
  let ?m = "(?ws ! i)\<lparr>ProposerPriority := safeSubClip (ProposerPriority (?ws ! i)) ?t\<rparr>"
  let ?r = "vals\<lparr>Validators := ?ws[i := ?m], totalVotingPower := ?t\<rparr>"
  have "TotalVotingPower (vals\<lparr>Validators := ?ws\<rparr>) =
      (Inr (vals\<lparr>Validators := ?ws, totalVotingPower := ?t\<rparr>, ?t) :: 'e fault + _)"
    using assms(1) ws by (subst TotalVotingPower_wf) (simp_all add: wf_vals_def)
  then have "incrementProposerPriority vals = (Inr (?r, ?m) :: 'e fault + _)"
    using i(1) by (simp add: incrementProposerPriority_def Let_def reprio_def)
  moreover have keep: "map Address (?ws[i := ?m]) = map Address ?vs" "map VotingPower (?ws[i := ?m]) = map VotingPower ?vs"
    "map PubKey (?ws[i := ?m]) = map PubKey ?vs"
    using i(2) by (auto intro!: nth_equalityI simp: nth_list_update reprio_def)
  moreover have "wf_list (?ws[i := ?m])"
  proof (rule wf_list_same [OF wf keep(1,2)])
    have "in64 ?t" using wf_list_sum [OF wf] by (simp add: vp_bounds)
    then show "\<forall>v \<in> set (?ws[i := ?m]). in64 (ProposerPriority v)"
      using wf_list_power(5) [OF ws] i(2)
      by (auto dest!: set_update_subset_insert [THEN subsetD])
  qed
  moreover have "?m \<in> set (?ws[i := ?m])" using i(2) by (rule set_update_memI)
  moreover have "sumPower (?ws[i := ?m]) = ?t" using keep(2) by (rule sumPower_cong)
  ultimately show ?thesis by (simp add: wf_vals_def)
qed

lemma incLoop_safe:
  assumes "wf_vals vals" and "Validators vals \<noteq> []"
  shows "\<exists>vals' q. incLoop n vals p = (Inr (vals', q) :: 'e fault + _) \<and> wf_vals vals' \<and>
    (n = 0 \<and> q = p \<or> (\<exists>m \<in> set (Validators vals'). q = Some m)) \<and>
    map Address (Validators vals') = map Address (Validators vals) \<and>
    map VotingPower (Validators vals') = map VotingPower (Validators vals) \<and>
    map PubKey (Validators vals') = map PubKey (Validators vals)"
  using assms
proof (induction n arbitrary: vals p)
  case 0
  then show ?case by simp
next
  case (Suc n)
  obtain v1 m where v1: "incrementProposerPriority vals = (Inr (v1, m) :: 'e fault + _)" "wf_vals v1"
    "m \<in> set (Validators v1)" "map Address (Validators v1) = map Address (Validators vals)"
    "map VotingPower (Validators v1) = map VotingPower (Validators vals)"
    "map PubKey (Validators v1) = map PubKey (Validators vals)"
    using increment_safe [OF Suc.prems, where 'e = 'e] by blast
  have "Validators v1 \<noteq> []" using v1(4) Suc.prems(2) by auto
  from Suc.IH [OF v1(2) this, of "Some m"] v1 show ?case
    by (cases n) auto
qed

lemma advance_safe:
  assumes "wf_vals vals" and "Validators vals \<noteq> []" and "0 < n"
  shows "\<exists>vals' m. IncrementProposerPriority vals n = (Inr vals' :: 'e fault + _) \<and> wf_vals vals' \<and>
    Proposer vals' = Some m \<and> m \<in> set (Validators vals') \<and>
    map Address (Validators vals') = map Address (Validators vals) \<and>
    map VotingPower (Validators vals') = map VotingPower (Validators vals) \<and>
    map PubKey (Validators vals') = map PubKey (Validators vals)"
proof -
  let ?v1 = "vals\<lparr>totalVotingPower := sumPower (Validators vals)\<rparr>"
  have wf: "wf_list (Validators ?v1)" "Validators ?v1 \<noteq> []" using assms by (simp_all add: wf_vals_def)
  obtain f where f:
    "bindR (RescalePriorities ?v1 (wrap64 (PriorityWindowSizeFactor * sumPower (Validators ?v1))))
       shiftByAvgProposerPriority = (Inr (?v1\<lparr>Validators := reprio f (Validators ?v1)\<rparr>) :: 'e fault + _)"
    "\<forall>v \<in> set (Validators ?v1). in64 (f v)"
    using wf by (rule rescale_shift)
  let ?v3 = "?v1\<lparr>Validators := reprio f (Validators ?v1)\<rparr>"
  have v3: "wf_vals ?v3" "Validators ?v3 \<noteq> []"
    using wf f(2) by (simp_all add: wf_vals_def wf_list_reprio)
  obtain v4 q where v4: "incLoop (nat n) ?v3 None = (Inr (v4, q) :: 'e fault + _)" "wf_vals v4"
    "nat n = 0 \<and> q = None \<or> (\<exists>m \<in> set (Validators v4). q = Some m)"
    "map Address (Validators v4) = map Address (Validators ?v3)"
    "map VotingPower (Validators v4) = map VotingPower (Validators ?v3)"
    "map PubKey (Validators v4) = map PubKey (Validators ?v3)"
    using incLoop_safe [OF v3, of "nat n" None] by blast
  have "IncrementProposerPriority vals n = (Inr (v4\<lparr>Proposer := q\<rparr>) :: 'e fault + _)"
    using f(1) v4(1) assms
    by (auto simp: IncrementProposerPriority_def IsNilOrEmpty_def TotalVotingPower_wf Let_def bindR_Inr_iff)
  with v4 assms(3) show ?thesis by (auto simp: wf_vals_def)
qed

text \<open>C26: Advancing the proposer of a well-formed, non-empty set by a positive number of rounds
  never panics, whatever the priorities: it keeps every address and power and the order of the
  list, the result is well formed again, and the proposer it records is a member of the list.\<close>

theorem IncrementProposerPriority_safe:
  assumes "wf_vals vals" and "Validators vals \<noteq> []" and "0 < n"
  shows "\<exists>vals' m. IncrementProposerPriority vals n = (Inr vals' :: 'e fault + _) \<and> wf_vals vals' \<and>
    Proposer vals' = Some m \<and> m \<in> set (Validators vals') \<and>
    map Address (Validators vals') = map Address (Validators vals) \<and>
    map VotingPower (Validators vals') = map VotingPower (Validators vals)"
  using advance_safe [OF assms, where 'e = 'e] by blast

theorem IncrementProposerPriority_safe_witness:
  "wf_vals sampleVals \<and> Validators sampleVals \<noteq> [] \<and>
   isOk (IncrementProposerPriority sampleVals 7 :: unit fault + _)"
proof -
  have "Validators sampleVals \<noteq> []" by (simp add: sampleVals_def)
  with IncrementProposerPriority_safe [OF sampleVals_wf this, of 7, where 'e = unit] sampleVals_wf
  show ?thesis by (auto simp: isOk_iff)
qed

section \<open>Checked multiplication\<close>

text \<open>\<open>safeMul\<close> does not report every overflow: for a first factor of \<open>MinInt64\<close> its
  absolute value wraps to a negative number, which passes the check, and the wrapped product is
  returned as if it were exact.\<close>

theorem safeMul_misses_overflow:
  "safeMul MinInt64 2 = (0, False) \<and> safeMul MinInt64 (- 1) = (MinInt64, False) \<and>
   safeMul 2 MinInt64 = (0, True)"
  by code_simp

end
