(* ===== verification/CommitVerify.thy ===== *)
theory CommitVerify
  imports ValidatorUpdate
begin

text \<open>
  The three ways \<open>types/validator_set.go\<close> checks a commit: \<open>VerifyCommit\<close> (every signature),
  \<open>VerifyCommitLight\<close> (stop at +2/3) and \<open>VerifyCommitLightTrusting\<close> (a trusted set that need not
  be the set that committed). Each method may fill the set's cached total power, so each returns
  the receiver with its result. Key verification and the sign bytes' encoding are the fields of
  \<open>crypto_env\<close>.

  The locale \<open>quorum_system\<close> states the counting argument that Byzantine agreement rests on, and is
  interpreted on the indices and powers of a validator list.
\<close>

section \<open>The checks\<close>

datatype commit_error =
    NilCommit | ErrInvalidCommitSignatures int int | ErrInvalidCommitHeight int int
  | WrongCommitBlockID | WrongSignature nat | ErrNotEnoughVotingPowerSigned int int
  | ZeroDenominator | TrustLevelOverflow | DoubleVote nat nat

text \<open>\<open>val.PubKey.VerifySignature(commit.VoteSignBytes(chainID, int32(idx)), commitSig.Signature)\<close>;
  the call on a nil key panics.\<close>

definition checkSig ::
  "crypto_env \<Rightarrow> string \<Rightarrow> commit \<Rightarrow> validator \<Rightarrow> nat \<Rightarrow> commit_sig \<Rightarrow> commit_error fault + unit"
where
  "checkSig env chainID c val idx cs =
     bindR (Commit_VoteSignBytes env c chainID (wrap32 (int idx))) (\<lambda>sb.
       case PubKey val of
         None \<Rightarrow> Inl (Panic ''nil pointer dereference'')
       | Some pk \<Rightarrow> if \<not> pkVerify env pk sb (csSignature cs) then Inl (Err (WrongSignature idx)) else Inr ())"

fun verifyAllLoop ::
  "crypto_env \<Rightarrow> string \<Rightarrow> commit \<Rightarrow> validator list \<Rightarrow> nat \<Rightarrow> commit_sig list \<Rightarrow> int \<Rightarrow> commit_error fault + int"
where
  "verifyAllLoop env chainID c vs idx [] tallied = Inr tallied"
| "verifyAllLoop env chainID c vs idx (cs # css) tallied =
     (if Absent cs then verifyAllLoop env chainID c vs (Suc idx) css tallied
      else bindR (goIndex vs (int idx)) (\<lambda>val.
           bindR (checkSig env chainID c val idx cs) (\<lambda>_.
             verifyAllLoop env chainID c vs (Suc idx) css
               (if ForBlock cs then wrap64 (tallied + VotingPower val) else tallied))))"

definition VerifyCommit ::
  "crypto_env \<Rightarrow> validator_set \<Rightarrow> string \<Rightarrow> block_id \<Rightarrow> int \<Rightarrow> commit option \<Rightarrow>
   validator_set \<times> (commit_error fault + unit)"
where
  "VerifyCommit env vals chainID blockID height p =
     (case p of
        None \<Rightarrow> (vals, Inl (Err NilCommit))
      | Some c \<Rightarrow>
          if ValidatorSet_Size vals \<noteq> int (length (cmSignatures c))
          then (vals, Inl (Err (ErrInvalidCommitSignatures (ValidatorSet_Size vals) (int (length (cmSignatures c))))))
          else if height \<noteq> cmHeight c then (vals, Inl (Err (ErrInvalidCommitHeight height (cmHeight c))))
          else if \<not> BlockID_Equals blockID (cmBlockID c) then (vals, Inl (Err WrongCommitBlockID))
          else (case TotalVotingPower vals of
            Inl e \<Rightarrow> (vals, Inl e)
          | Inr (vals', tvp) \<Rightarrow>
              (vals',
               let needed = wrap64 (tvp * 2) sdiv 3 in
               bindR (verifyAllLoop env chainID c (Validators vals') 0 (cmSignatures c) 0) (\<lambda>got.
                 if got \<le> needed then Inl (Err (ErrNotEnoughVotingPowerSigned got needed)) else Inr ()))))"

fun verifyLightLoop ::
  "crypto_env \<Rightarrow> string \<Rightarrow> commit \<Rightarrow> validator list \<Rightarrow> int \<Rightarrow> nat \<Rightarrow> commit_sig list \<Rightarrow> int \<Rightarrow> commit_error fault + unit"
where
  "verifyLightLoop env chainID c vs needed idx [] tallied = Inl (Err (ErrNotEnoughVotingPowerSigned tallied needed))"
| "verifyLightLoop env chainID c vs needed idx (cs # css) tallied =
     (if \<not> ForBlock cs then verifyLightLoop env chainID c vs needed (Suc idx) css tallied
      else bindR (goIndex vs (int idx)) (\<lambda>val.
           bindR (checkSig env chainID c val idx cs) (\<lambda>_.
             let tallied' = wrap64 (tallied + VotingPower val) in
             if tallied' > needed then Inr ()
             else verifyLightLoop env chainID c vs needed (Suc idx) css tallied')))"

definition VerifyCommitLight ::
  "crypto_env \<Rightarrow> validator_set \<Rightarrow> string \<Rightarrow> block_id \<Rightarrow> int \<Rightarrow> commit option \<Rightarrow>
   validator_set \<times> (commit_error fault + unit)"
where
  "VerifyCommitLight env vals chainID blockID height p =
     (case p of
        None \<Rightarrow> (vals, Inl (Err NilCommit))
      | Some c \<Rightarrow>
          if ValidatorSet_Size vals \<noteq> int (length (cmSignatures c))
          then (vals, Inl (Err (ErrInvalidCommitSignatures (ValidatorSet_Size vals) (int (length (cmSignatures c))))))
          else if height \<noteq> cmHeight c then (vals, Inl (Err (ErrInvalidCommitHeight height (cmHeight c))))
          else if \<not> BlockID_Equals blockID (cmBlockID c) then (vals, Inl (Err WrongCommitBlockID))
          else (case TotalVotingPower vals of
            Inl e \<Rightarrow> (vals, Inl e)
          | Inr (vals', tvp) \<Rightarrow>
              (vals', verifyLightLoop env chainID c (Validators vals') (wrap64 (tvp * 2) sdiv 3) 0
                        (cmSignatures c) 0)))"

record Fraction =
  Numerator :: int
  Denominator :: int

text \<open>\<open>seen\<close> maps the index of a validator to the place of its first signature.\<close>

fun verifyTrustingLoop ::
  "crypto_env \<Rightarrow> string \<Rightarrow> commit \<Rightarrow> validator_set \<Rightarrow> int \<Rightarrow> nat \<Rightarrow> commit_sig list \<Rightarrow> int \<Rightarrow> (int \<rightharpoonup> nat) \<Rightarrow>
   commit_error fault + unit"
where
  "verifyTrustingLoop env chainID c vals needed idx [] tallied seen =
     Inl (Err (ErrNotEnoughVotingPowerSigned tallied needed))"
| "verifyTrustingLoop env chainID c vals needed idx (cs # css) tallied seen =
     (if \<not> ForBlock cs then verifyTrustingLoop env chainID c vals needed (Suc idx) css tallied seen
      else case GetByAddress vals (csAddress cs) of
        (valIdx, None) \<Rightarrow> verifyTrustingLoop env chainID c vals needed (Suc idx) css tallied seen
      | (valIdx, Some val) \<Rightarrow>
          (case seen valIdx of
             Some firstIndex \<Rightarrow> Inl (Err (DoubleVote firstIndex idx))
           | None \<Rightarrow>
               bindR (checkSig env chainID c val idx cs) (\<lambda>_.
                 let tallied' = wrap64 (tallied + VotingPower val) in
                 if tallied' > needed then Inr ()
                 else verifyTrustingLoop env chainID c vals needed (Suc idx) css tallied' (seen(valIdx \<mapsto> idx)))))"

definition VerifyCommitLightTrusting ::
  "crypto_env \<Rightarrow> validator_set \<Rightarrow> string \<Rightarrow> commit option \<Rightarrow> Fraction \<Rightarrow>
   validator_set \<times> (commit_error fault + unit)"
where
  "VerifyCommitLightTrusting env vals chainID p trustLevel =
     (if Denominator trustLevel = 0 then (vals, Inl (Err ZeroDenominator))
      else case p of
        None \<Rightarrow> (vals, Inl (Err NilCommit))
      | Some c \<Rightarrow>
          (case TotalVotingPower vals of
             Inl e \<Rightarrow> (vals, Inl e)
           | Inr (vals', tvp) \<Rightarrow>
               (vals',
                let (prod, overflow) = safeMul tvp (wrap64 (Numerator trustLevel)) in
                if overflow then Inl (Err TrustLevelOverflow)
                else verifyTrustingLoop env chainID c vals'
                       (wrap64 (prod sdiv wrap64 (Denominator trustLevel))) 0 (cmSignatures c) 0 Map.empty)))"

section \<open>Quorums\<close>

locale quorum_system =
  fixes members :: "'v set" and weight :: "'v \<Rightarrow> nat"
  assumes finite_members: "finite members"
begin

definition quorum :: "'v set \<Rightarrow> bool" where
  "quorum Q \<longleftrightarrow> Q \<subseteq> members \<and> 2 * sum weight members < 3 * sum weight Q"

lemma quorum_mono: "quorum P \<Longrightarrow> P \<subseteq> Q \<Longrightarrow> Q \<subseteq> members \<Longrightarrow> quorum Q"
  using sum_mono2 [of Q P weight] finite_members
  by (auto simp: quorum_def dest: finite_subset)

lemma two_quorums:
  assumes "quorum P" and "quorum Q"
  shows "sum weight members < 3 * sum weight (P \<inter> Q)"
proof -
  have fin: "finite P" "finite Q"
    using assms finite_members by (auto simp: quorum_def intro: finite_subset)
  have "sum weight (P \<union> Q) \<le> sum weight members"
    using assms finite_members by (intro sum_mono2) (auto simp: quorum_def)
  moreover have "sum weight (P \<union> Q) + sum weight (P \<inter> Q) = sum weight P + sum weight Q"
    using fin by (rule sum.union_inter)
  ultimately show ?thesis using assms by (simp add: quorum_def)
qed

lemma correct_member:
  assumes "quorum P" and "quorum Q" and "faulty \<subseteq> members" and "3 * sum weight faulty \<le> sum weight members"
  shows "\<exists>v \<in> P \<inter> Q. v \<notin> faulty"
proof (rule ccontr)
  assume "\<not> ?thesis"
  then have "P \<inter> Q \<subseteq> faulty" by blast
  then have "sum weight (P \<inter> Q) \<le> sum weight faulty"
    using assms(3) finite_members by (intro sum_mono2) (auto intro: finite_subset)
  with two_quorums [OF assms(1,2)] assms(4) show False by linarith
qed

end

interpretation vq: quorum_system "{..<length vs}" "\<lambda>i. nat (VotingPower (vs ! i))" for vs :: "validator list"
  by unfold_locales simp

section \<open>What the loops compute\<close>

definition sigValid :: "crypto_env \<Rightarrow> string \<Rightarrow> commit \<Rightarrow> validator list \<Rightarrow> nat \<Rightarrow> bool" where
  "sigValid env chainID c vs i \<longleftrightarrow> isOk (checkSig env chainID c (vs ! i) i (cmSignatures c ! i))"

definition forPower :: "commit \<Rightarrow> validator list \<Rightarrow> nat \<Rightarrow> nat \<Rightarrow> int" where
  "forPower c vs a b = (\<Sum>i \<in> {i \<in> {a..<b}. ForBlock (cmSignatures c ! i)}. VotingPower (vs ! i))"

lemma forPower_step:
  assumes "a < b"
  shows "forPower c vs a b = (if ForBlock (cmSignatures c ! a) then VotingPower (vs ! a) else 0) + forPower c vs (Suc a) b"
proof -
  have "{i \<in> {a..<b}. ForBlock (cmSignatures c ! i)} =
      (if ForBlock (cmSignatures c ! a) then insert a {i \<in> {Suc a..<b}. ForBlock (cmSignatures c ! i)}
       else {i \<in> {Suc a..<b}. ForBlock (cmSignatures c ! i)})"
    using assms by (auto simp: Suc_le_eq le_less)
  then show ?thesis by (simp add: forPower_def)
qed

lemma forPower_refl [simp]: "forPower c vs a a = 0"
  by (simp add: forPower_def)

lemma forPower_nonneg: "\<forall>v \<in> set vs. 0 \<le> VotingPower v \<Longrightarrow> b \<le> length vs \<Longrightarrow> 0 \<le> forPower c vs a b"
  unfolding forPower_def by (rule sum_nonneg) auto

lemma sumPower_nth: "sumPower vs = (\<Sum>i < length vs. VotingPower (vs ! i))"
  by (simp add: sumPower_def sum_list_sum_nth atLeast0LessThan)

lemma forPower_le:
  assumes "\<forall>v \<in> set vs. 0 \<le> VotingPower v"
  shows "forPower c vs 0 (length vs) \<le> sumPower vs"
  unfolding forPower_def sumPower_nth using assms by (intro sum_mono2) auto

text \<open>The setting of both loops: one signature per validator, and a tally that cannot overflow.\<close>

definition loopOk :: "commit \<Rightarrow> validator list \<Rightarrow> nat \<Rightarrow> commit_sig list \<Rightarrow> int \<Rightarrow> bool" where
  "loopOk c vs idx css tallied \<longleftrightarrow>
     length vs = length (cmSignatures c) \<and> drop idx (cmSignatures c) = css \<and> idx + length css = length vs \<and>
     (\<forall>v \<in> set vs. 0 \<le> VotingPower v) \<and>
     0 \<le> tallied \<and> tallied + forPower c vs idx (length vs) \<le> MaxTotalVotingPower"

lemma loopOk_Cons:
  assumes "loopOk c vs idx (cs # css) tallied"
  shows "cmSignatures c ! idx = cs" and "idx < length vs" and "goIndex vs (int idx) = Inr (vs ! idx)"
    and "\<not> ForBlock cs \<Longrightarrow> loopOk c vs (Suc idx) css tallied"
    and "ForBlock cs \<Longrightarrow> loopOk c vs (Suc idx) css (tallied + VotingPower (vs ! idx))"
    and "ForBlock cs \<Longrightarrow> wrap64 (tallied + VotingPower (vs ! idx)) = tallied + VotingPower (vs ! idx)"
proof -
  have d: "drop idx (cmSignatures c) = cs # css" and len: "idx < length vs"
    using assms by (auto simp: loopOk_def)
  then show "cmSignatures c ! idx = cs" "idx < length vs"
    by (metis nth_via_drop) (rule len)
  note nth = this(1)
  show "goIndex vs (int idx) = Inr (vs ! idx)" using len by simp
  have dr: "drop (Suc idx) (cmSignatures c) = css" using d by (metis drop_Suc list.sel(3) tl_drop)
  have pos: "0 \<le> VotingPower (vs ! idx)" "0 \<le> forPower c vs (Suc idx) (length vs)"
    using assms len by (auto simp: loopOk_def intro!: forPower_nonneg)
  note step = forPower_step [OF len, of c vs, unfolded nth]
  show "\<not> ForBlock cs \<Longrightarrow> loopOk c vs (Suc idx) css tallied"
    using assms dr step by (auto simp: loopOk_def)
  show ok: "loopOk c vs (Suc idx) css (tallied + VotingPower (vs ! idx))" if "ForBlock cs"
    using assms dr step pos that by (auto simp: loopOk_def)
  show "wrap64 (tallied + VotingPower (vs ! idx)) = tallied + VotingPower (vs ! idx)" if "ForBlock cs"
  proof (rule wrap64_id)
    have "0 \<le> tallied" "tallied + VotingPower (vs ! idx) \<le> MaxTotalVotingPower"
      using ok [OF that] pos assms by (auto simp: loopOk_def)
    with pos show "in64 (tallied + VotingPower (vs ! idx))" by (simp add: vp_bounds)
  qed
qed

lemma verifyAllLoop_spec:
  assumes "loopOk c vs idx css tallied"
  shows "(isOk (verifyAllLoop env chainID c vs idx css tallied) \<longleftrightarrow>
      (\<forall>i. idx \<le> i \<and> i < length vs \<and> \<not> Absent (cmSignatures c ! i) \<longrightarrow> sigValid env chainID c vs i)) \<and>
    (\<forall>t. verifyAllLoop env chainID c vs idx css tallied = Inr t \<longrightarrow> t = tallied + forPower c vs idx (length vs))"
  using assms
proof (induction css arbitrary: idx tallied)
  case Nil
  then show ?case by (auto simp: loopOk_def)
next
  case (Cons cs css)
  note l = loopOk_Cons [OF Cons.prems]
  have split: "(\<forall>i. idx \<le> i \<and> i < length vs \<and> \<not> Absent (cmSignatures c ! i) \<longrightarrow> sigValid env chainID c vs i) \<longleftrightarrow>
      (\<not> Absent cs \<longrightarrow> sigValid env chainID c vs idx) \<and>
      (\<forall>i. Suc idx \<le> i \<and> i < length vs \<and> \<not> Absent (cmSignatures c ! i) \<longrightarrow> sigValid env chainID c vs i)"
    using l(1,2) by (metis Suc_leD Suc_leI le_neq_implies_less order_refl)
  have absent: "Absent cs \<Longrightarrow> \<not> ForBlock cs" by (simp add: Absent_def ForBlock_def)
  note power = forPower_step [OF l(2), of c vs, unfolded l(1)]
  let ?t = "if ForBlock cs then wrap64 (tallied + VotingPower (vs ! idx)) else tallied"
  have nxt: "loopOk c vs (Suc idx) css ?t" using l(4-6) by simp
  have t: "?t + forPower c vs (Suc idx) (length vs) = tallied + forPower c vs idx (length vs)"
    using power l(6) by simp
  show ?case
  proof (cases "Absent cs")
    case True
    then show ?thesis using Cons.IH [OF nxt] absent split t by simp
  next
    case False
    show ?thesis
    proof (cases "checkSig env chainID c (vs ! idx) idx cs")
      case (Inl e)
      then show ?thesis using False split l(1,2,3) by (simp add: sigValid_def)
    next
      case (Inr u)
      then show ?thesis using False split l(1,2,3) Cons.IH [OF nxt] t by (simp add: sigValid_def)
    qed
  qed
qed

lemma verifyLightLoop_complete:
  assumes "loopOk c vs idx css tallied"
    and "\<forall>i. idx \<le> i \<and> i < length vs \<and> ForBlock (cmSignatures c ! i) \<longrightarrow> sigValid env chainID c vs i"
    and "tallied \<le> needed" and "needed < tallied + forPower c vs idx (length vs)"
  shows "verifyLightLoop env chainID c vs needed idx css tallied = Inr ()"
  using assms
proof (induction css arbitrary: idx tallied)
  case Nil
  then show ?case by (simp add: loopOk_def)
next
  case (Cons cs css)
  note l = loopOk_Cons [OF Cons.prems(1)]
  note power = forPower_step [OF l(2), of c vs, unfolded l(1)]
  have rest: "\<forall>i. Suc idx \<le> i \<and> i < length vs \<and> ForBlock (cmSignatures c ! i) \<longrightarrow> sigValid env chainID c vs i"
    using Cons.prems(2) by simp
  show ?case
  proof (cases "ForBlock cs")
    case False
    then show ?thesis using Cons.IH [OF l(4) rest] Cons.prems(3,4) power by simp
  next
    case True
    then have "checkSig env chainID c (vs ! idx) idx cs = Inr ()"
      using Cons.prems(2) l(1,2) by (auto simp: sigValid_def isOk_iff)
    then show ?thesis using True l(2,3,6) Cons.IH [OF l(5) rest] Cons.prems(4) power by (auto simp: Let_def)
  qed
qed

lemma verifyLightLoop_sound:
  assumes "loopOk c vs idx css tallied" and "tallied \<le> needed"
    and "verifyLightLoop env chainID c vs needed idx css tallied = Inr ()"
  shows "\<exists>k \<le> length vs. idx \<le> k \<and> needed < tallied + forPower c vs idx k \<and>
    (\<forall>i. idx \<le> i \<and> i < k \<and> ForBlock (cmSignatures c ! i) \<longrightarrow> sigValid env chainID c vs i)"
  using assms
proof (induction css arbitrary: idx tallied)
  case Nil
  then show ?case by simp
next
  case (Cons cs css)
  note l = loopOk_Cons [OF Cons.prems(1)]
  have more: "\<exists>k \<le> length vs. idx \<le> k \<and> needed < tallied + forPower c vs idx k \<and>
      (\<forall>i. idx \<le> i \<and> i < k \<and> ForBlock (cmSignatures c ! i) \<longrightarrow> sigValid env chainID c vs i)"
    if k: "k \<le> length vs" "Suc idx \<le> k"
      "needed < tallied + (if ForBlock cs then VotingPower (vs ! idx) else 0) + forPower c vs (Suc idx) k"
      "\<forall>i. Suc idx \<le> i \<and> i < k \<and> ForBlock (cmSignatures c ! i) \<longrightarrow> sigValid env chainID c vs i"
      "ForBlock cs \<longrightarrow> sigValid env chainID c vs idx" for k
  proof (intro exI [of _ k] conjI)
    show "needed < tallied + forPower c vs idx k"
      using k(2,3) forPower_step [of idx k c vs] l(1) by (simp add: Suc_le_eq)
    show "\<forall>i. idx \<le> i \<and> i < k \<and> ForBlock (cmSignatures c ! i) \<longrightarrow> sigValid env chainID c vs i"
      using k(4,5) l(1) by (metis le_neq_implies_less Suc_leI)
  qed (use k in auto)
  show ?case
  proof (cases "ForBlock cs")
    case False
    then have "verifyLightLoop env chainID c vs needed (Suc idx) css tallied = Inr ()"
      using Cons.prems(3) by simp
    from Cons.IH [OF l(4) [OF False] Cons.prems(2) this] more False show ?thesis by auto
  next
    case True
    let ?t = "tallied + VotingPower (vs ! idx)"
    have sig: "sigValid env chainID c vs idx"
      using Cons.prems(3) True l(1,2) by (auto simp: sigValid_def isOk_iff bindR_Inr_iff)
    show ?thesis
    proof (cases "?t > needed")
      case big: True
      show ?thesis by (rule more [of "Suc idx"]) (use big True sig l(2) in auto)
    next
      case small: False
      have "verifyLightLoop env chainID c vs needed (Suc idx) css ?t = Inr ()"
        using Cons.prems(3) True l(2,6) small by (auto simp: bindR_Inr_iff Let_def)
      from Cons.IH [OF l(5) [OF True] _ this] small more True sig show ?thesis by auto
    qed
  qed
qed

section \<open>A sample\<close>

definition sampleEnv :: crypto_env where
  "sampleEnv = \<lparr>pkAddress = (\<lambda>pk. pk), pkVerify = (\<lambda>pk sb sig. True), marshalVote = (\<lambda>cv. []),
     marshalProposal = (\<lambda>cp. [])\<rparr>"

definition commitVals :: validator_set where
  "commitVals = \<lparr>Validators =
     [\<lparr>Address = replicate 20 1, PubKey = Some [1], VotingPower = 10, ProposerPriority = 0\<rparr>],
     Proposer = None, totalVotingPower = 0\<rparr>"

lemma commitVals_wf: "wf_vals commitVals"
  by (simp add: wf_vals_def wf_list_def commitVals_def vp_bounds)

lemma sampleVerify:
  "snd (VerifyCommit sampleEnv commitVals ''c'' (cmBlockID sampleCommit) (cmHeight sampleCommit)
     (Some sampleCommit)) = Inr ()"
  by code_simp

lemma sampleVerifyLight:
  "snd (VerifyCommitLight sampleEnv commitVals ''c'' (cmBlockID sampleCommit) (cmHeight sampleCommit)
     (Some sampleCommit)) = Inr ()"
  by code_simp

section \<open>Properties\<close>

lemma total_two_thirds:
  assumes "wf_vals vals"
  shows "wrap64 (sumPower (Validators vals) * 2) sdiv 3 = (sumPower (Validators vals) * 2) div 3"
    and "0 \<le> (sumPower (Validators vals) * 2) div 3"
proof -
  have "0 \<le> sumPower (Validators vals)" "sumPower (Validators vals) \<le> MaxTotalVotingPower"
    using assms wf_list_sum [of "Validators vals"] by (auto simp: wf_vals_def)
  then have "in64 (sumPower (Validators vals) * 2)" by (simp add: vp_bounds)
  with \<open>0 \<le> sumPower (Validators vals)\<close>
  show "wrap64 (sumPower (Validators vals) * 2) sdiv 3 = (sumPower (Validators vals) * 2) div 3"
    "0 \<le> (sumPower (Validators vals) * 2) div 3"
    by (simp_all add: sdiv_nonneg)
qed

lemma loopOk_start:
  assumes "wf_vals vals" and "length (Validators vals) = length (cmSignatures c)"
  shows "loopOk c (Validators vals) 0 (cmSignatures c) 0"
proof -
  have wf: "wf_list (Validators vals)" using assms(1) by (simp add: wf_vals_def)
  have nn: "\<forall>v \<in> set (Validators vals). 0 \<le> VotingPower v" using wf by (fastforce simp: wf_list_def)
  with wf_list_sum [OF wf] forPower_le [OF nn, of c] assms(2) show ?thesis by (simp add: loopOk_def)
qed

lemma got_needed: "(got \<le> (t * 2) div 3) \<longleftrightarrow> 3 * got \<le> (2 * t :: int)"
  by presburger

text \<open>The commit is for this block and height, has one signature per validator, every signature
  that is present verifies, and those for the block carry more than two thirds of the power.\<close>

definition commitOk :: "crypto_env \<Rightarrow> validator_set \<Rightarrow> string \<Rightarrow> block_id \<Rightarrow> int \<Rightarrow> commit \<Rightarrow> bool" where
  "commitOk env vals chainID blockID height c \<longleftrightarrow>
     length (Validators vals) = length (cmSignatures c) \<and> cmHeight c = height \<and> cmBlockID c = blockID \<and>
     (\<forall>i < length (Validators vals). \<not> Absent (cmSignatures c ! i) \<longrightarrow> sigValid env chainID c (Validators vals) i) \<and>
     2 * sumPower (Validators vals) < 3 * forPower c (Validators vals) 0 (length (Validators vals))"

lemma VerifyCommit_iff:
  assumes "wf_vals vals"
  shows "snd (VerifyCommit env vals chainID blockID height (Some c)) = Inr () \<longleftrightarrow>
    commitOk env vals chainID blockID height c"
proof (cases "length (Validators vals) = length (cmSignatures c) \<and> cmHeight c = height \<and> cmBlockID c = blockID")
  case True
  note spec = verifyAllLoop_spec [OF loopOk_start [OF assms(1)], of c env chainID]
  let ?run = "verifyAllLoop env chainID c (Validators vals) 0 (cmSignatures c) 0"
  let ?t = "sumPower (Validators vals)"
  have "snd (VerifyCommit env vals chainID blockID height (Some c)) =
      bindR ?run (\<lambda>got. if 3 * got \<le> 2 * ?t then Inl (Err (ErrNotEnoughVotingPowerSigned got ((?t * 2) div 3))) else Inr ())"
    using True by (simp add: VerifyCommit_def ValidatorSet_Size_def TotalVotingPower_wf [OF assms]
        total_two_thirds [OF assms] got_needed)
  with True spec show ?thesis
    by (cases ?run) (auto simp: commitOk_def)
next
  case False
  then show ?thesis by (auto simp: VerifyCommit_def ValidatorSet_Size_def commitOk_def)
qed

lemma VerifyCommitLight_run:
  assumes "wf_vals vals"
  shows "snd (VerifyCommitLight env vals chainID blockID height (Some c)) = Inr () \<longleftrightarrow>
    length (Validators vals) = length (cmSignatures c) \<and> cmHeight c = height \<and> cmBlockID c = blockID \<and>
    verifyLightLoop env chainID c (Validators vals) (sumPower (Validators vals) * 2 div 3) 0 (cmSignatures c) 0 = Inr ()"
  by (auto simp: VerifyCommitLight_def ValidatorSet_Size_def TotalVotingPower_wf [OF assms]
      total_two_thirds [OF assms])

text \<open>C13: \<open>VerifyCommit\<close> accepts a commit exactly when it is for the given block and height, has
  one signature per validator, every signature that is not absent verifies, and the signatures for
  the block carry strictly more than two thirds of the total power.\<close>

theorem VerifyCommit_accepts_iff:
  assumes "wf_vals vals"
  shows "snd (VerifyCommit env vals chainID blockID height p) = Inr () \<longleftrightarrow>
    (\<exists>c. p = Some c \<and> commitOk env vals chainID blockID height c)"
proof (cases p)
  case None
  then show ?thesis by (simp add: VerifyCommit_def)
next
  case (Some c)
  then show ?thesis using VerifyCommit_iff [OF assms] by simp
qed

theorem VerifyCommit_accepts_iff_witness:
  "wf_vals commitVals \<and>
   commitOk sampleEnv commitVals ''c'' (cmBlockID sampleCommit) (cmHeight sampleCommit) sampleCommit"
  using VerifyCommit_accepts_iff [OF commitVals_wf, of sampleEnv "''c''" "cmBlockID sampleCommit"
      "cmHeight sampleCommit" "Some sampleCommit"] commitVals_wf sampleVerify by simp

text \<open>Whatever \<open>VerifyCommit\<close> accepts, the light client's \<open>VerifyCommitLight\<close>, which stops at
  two thirds and skips the votes for nil, accepts as well.\<close>

theorem VerifyCommit_implies_light:
  assumes "wf_vals vals" and "snd (VerifyCommit env vals chainID blockID height (Some c)) = Inr ()"
  shows "snd (VerifyCommitLight env vals chainID blockID height (Some c)) = Inr ()"
proof -
  have ok: "commitOk env vals chainID blockID height c" using VerifyCommit_iff [OF assms(1)] assms(2) by blast
  then have len: "length (Validators vals) = length (cmSignatures c)" by (simp add: commitOk_def)
  have "\<not> Absent cs" if "ForBlock cs" for cs using that by (simp add: Absent_def ForBlock_def)
  then have "verifyLightLoop env chainID c (Validators vals) (sumPower (Validators vals) * 2 div 3) 0 (cmSignatures c) 0 = Inr ()"
    using ok total_two_thirds(2) [OF assms(1)] loopOk_start [OF assms(1) len]
    by (intro verifyLightLoop_complete) (auto simp: commitOk_def)
  with ok show ?thesis unfolding VerifyCommitLight_run [OF assms(1)] by (simp add: commitOk_def)
qed

theorem VerifyCommit_implies_light_witness:
  "snd (VerifyCommitLight sampleEnv commitVals ''c'' (cmBlockID sampleCommit) (cmHeight sampleCommit)
     (Some sampleCommit)) = Inr ()"
  by (rule VerifyCommit_implies_light [OF commitVals_wf sampleVerify])

definition signers :: "crypto_env \<Rightarrow> validator_set \<Rightarrow> string \<Rightarrow> commit \<Rightarrow> nat set" where
  "signers env vals chainID c =
     {i. i < length (Validators vals) \<and> ForBlock (cmSignatures c ! i) \<and> sigValid env chainID c (Validators vals) i}"

lemma light_quorum:
  assumes "wf_vals vals" and "snd (VerifyCommitLight env vals chainID blockID height (Some c)) = Inr ()"
  shows "vq.quorum (Validators vals) (signers env vals chainID c)"
proof -
  let ?vs = "Validators vals" and ?t = "sumPower (Validators vals)"
  have run: "length ?vs = length (cmSignatures c)"
    "verifyLightLoop env chainID c ?vs (?t * 2 div 3) 0 (cmSignatures c) 0 = Inr ()"
    using assms(2) unfolding VerifyCommitLight_run [OF assms(1)] by auto
  obtain k where k: "k \<le> length ?vs" "?t * 2 div 3 < 0 + forPower c ?vs 0 k"
    "\<forall>i. 0 \<le> i \<and> i < k \<and> ForBlock (cmSignatures c ! i) \<longrightarrow> sigValid env chainID c ?vs i"
    using verifyLightLoop_sound [OF loopOk_start [OF assms(1) run(1)] total_two_thirds(2) [OF assms(1)] run(2)] by auto
  have nn: "\<forall>v \<in> set ?vs. 0 \<le> VotingPower v" using assms(1) by (fastforce simp: wf_vals_def wf_list_def)
  have sub: "{i \<in> {0..<k}. ForBlock (cmSignatures c ! i)} \<subseteq> signers env vals chainID c"
    using k(1,3) by (auto simp: signers_def)
  have "forPower c ?vs 0 k \<le> (\<Sum>i \<in> signers env vals chainID c. VotingPower (?vs ! i))"
    unfolding forPower_def using sub nn by (intro sum_mono2) (auto simp: signers_def)
  then have "2 * ?t < 3 * (\<Sum>i \<in> signers env vals chainID c. VotingPower (?vs ! i))" using k(2) by linarith
  moreover have "(\<Sum>i \<in> signers env vals chainID c. VotingPower (?vs ! i)) =
      int (\<Sum>i \<in> signers env vals chainID c. nat (VotingPower (?vs ! i)))"
    using nn by (auto simp: signers_def intro!: sum.cong)
  moreover have "?t = int (\<Sum>i < length ?vs. nat (VotingPower (?vs ! i)))"
    unfolding sumPower_nth using nn by (auto intro!: sum.cong)
  ultimately have "2 * (\<Sum>i < length ?vs. nat (VotingPower (?vs ! i))) < 3 * (\<Sum>i \<in> signers env vals chainID c. nat (VotingPower (?vs ! i)))"
    by linarith
  then show ?thesis by (auto simp: vq.quorum_def signers_def)
qed

text \<open>C12: Two commits that \<open>VerifyCommitLight\<close> accepts from the same validator set, for whatever
  blocks, heights and chains, share signers with more than a third of the power. When validators
  with at most a third of the power are faulty, a correct validator signed both, so commits for two
  different blocks of a height and round need a correct validator to equivocate.\<close>

theorem commits_share_a_correct_signer:
  assumes "wf_vals vals"
    and "snd (VerifyCommitLight env vals chainID b1 h1 (Some c1)) = Inr ()"
    and "snd (VerifyCommitLight env vals chainID b2 h2 (Some c2)) = Inr ()"
    and "faulty \<subseteq> {..<length (Validators vals)}"
    and "3 * (\<Sum>i \<in> faulty. nat (VotingPower (Validators vals ! i)))
           \<le> (\<Sum>i < length (Validators vals). nat (VotingPower (Validators vals ! i)))"
  shows "\<exists>i < length (Validators vals). i \<notin> faulty \<and>
    ForBlock (cmSignatures c1 ! i) \<and> sigValid env chainID c1 (Validators vals) i \<and>
    ForBlock (cmSignatures c2 ! i) \<and> sigValid env chainID c2 (Validators vals) i"
  using vq.correct_member [OF light_quorum [OF assms(1,2)] light_quorum [OF assms(1,3)] assms(4,5)]
  by (auto simp: signers_def)

theorem commits_share_a_correct_signer_witness:
  "\<exists>i < length (Validators commitVals). i \<notin> {} \<and>
    ForBlock (cmSignatures sampleCommit ! i) \<and> sigValid sampleEnv ''c'' sampleCommit (Validators commitVals) i \<and>
    ForBlock (cmSignatures sampleCommit ! i) \<and> sigValid sampleEnv ''c'' sampleCommit (Validators commitVals) i"
  by (rule commits_share_a_correct_signer [OF commitVals_wf sampleVerifyLight sampleVerifyLight]) simp_all

section \<open>Trusting verification\<close>

text \<open>The validators counted so far: each has a valid signature for the block under its address.\<close>

definition counted :: "crypto_env \<Rightarrow> string \<Rightarrow> commit \<Rightarrow> validator list \<Rightarrow> nat set \<Rightarrow> bool" where
  "counted env chainID c vs S \<longleftrightarrow> S \<subseteq> {..<length vs} \<and>
     (\<forall>i \<in> S. \<exists>j < length (cmSignatures c). ForBlock (cmSignatures c ! j) \<and>
        csAddress (cmSignatures c ! j) = Address (vs ! i) \<and>
        isOk (checkSig env chainID c (vs ! i) j (cmSignatures c ! j)))"

lemma counted_power_le:
  assumes "wf_list vs" and "counted env chainID c vs S"
  shows "(\<Sum>i \<in> S. VotingPower (vs ! i)) \<le> sumPower vs"
  unfolding sumPower_nth using assms wf_list_power(1) [OF assms(1)]
  by (intro sum_mono2) (auto simp: counted_def intro: less_imp_le)

lemma verifyTrustingLoop_sound:
  assumes "wf_list (Validators vals)" and "int (length (Validators vals)) \<le> MaxInt32"
    and "drop idx (cmSignatures c) = css" and "idx + length css = length (cmSignatures c)"
    and "counted env chainID c (Validators vals) S" and "dom seen = int ` S"
    and "tallied = (\<Sum>i \<in> S. VotingPower (Validators vals ! i))"
    and "verifyTrustingLoop env chainID c vals needed idx css tallied seen = Inr ()"
  shows "\<exists>S'. counted env chainID c (Validators vals) S' \<and>
    needed < (\<Sum>i \<in> S'. VotingPower (Validators vals ! i))"
  using assms(3-)
proof (induction css arbitrary: idx tallied seen S)
  case Nil
  then show ?case by simp
next
  case (Cons cs css)
  have nth: "cmSignatures c ! idx = cs" and idx: "idx < length (cmSignatures c)"
    using Cons.prems(1,2) by (auto intro: nth_via_drop)
  have dr: "drop (Suc idx) (cmSignatures c) = css" using Cons.prems(1) by (metis drop_Suc list.sel(3) tl_drop)
  note IH = Cons.IH [OF dr]
  show ?case
  proof (cases "ForBlock cs")
    case False
    then show ?thesis using IH [of S seen tallied] Cons.prems by simp
  next
    case fb: True
    obtain valIdx r where g: "GetByAddress vals (csAddress cs) = (valIdx, r)" by (cases "GetByAddress vals (csAddress cs)")
    show ?thesis
    proof (cases r)
      case None
      then show ?thesis using IH [of S seen tallied] Cons.prems fb g by simp
    next
      case (Some val)
      then have at: "0 \<le> valIdx" "valIdx < int (length (Validators vals))"
        "Validators vals ! nat valIdx = val" "Address val = csAddress cs"
        using g assms(2) findAddress_index [of 0 "Validators vals" "csAddress cs" valIdx val]
        by (auto simp: GetByAddress_def)
      have new: "seen valIdx = None" and sig: "checkSig env chainID c val idx cs = Inr ()"
        using Cons.prems(6) fb g Some by (auto simp: bindR_Inr_iff split: option.splits)
      let ?S = "insert (nat valIdx) S"
      have fin: "finite S" using Cons.prems(3) by (auto simp: counted_def intro: finite_subset)
      have notin: "nat valIdx \<notin> S" using new Cons.prems(4) at(1) by (metis domIff image_eqI nat_0_le)
      have cnt: "counted env chainID c (Validators vals) ?S"
        using Cons.prems(3) at fb sig idx nth by (auto simp: counted_def)
      have sum: "(\<Sum>i \<in> ?S. VotingPower (Validators vals ! i)) = tallied + VotingPower val"
        using fin notin Cons.prems(5) at(3) by simp
      have nn: "0 \<le> tallied" unfolding Cons.prems(5)
        using Cons.prems(3) wf_list_power(1) [OF assms(1)]
        by (intro sum_nonneg) (auto simp: counted_def intro!: less_imp_le)
      have "wrap64 (tallied + VotingPower val) = tallied + VotingPower val"
        using counted_power_le [OF assms(1) cnt] sum wf_list_sum [OF assms(1)] nn
          wf_list_power(1) [OF assms(1), of val] at by (intro wrap64_id) (auto simp: vp_bounds)
      then have run: "(if needed < tallied + VotingPower val then Inr ()
          else verifyTrustingLoop env chainID c vals needed (Suc idx) css (tallied + VotingPower val)
                 (seen(valIdx \<mapsto> idx))) = (Inr () :: commit_error fault + unit)"
        using Cons.prems(6) fb g Some new sig by (auto simp: Let_def split: if_splits)
      have dom: "dom (seen(valIdx \<mapsto> idx)) = int ` ?S" using Cons.prems(4) at(1) by simp
      show ?thesis
      proof (cases "needed < tallied + VotingPower val")
        case True
        then show ?thesis using cnt sum by metis
      next
        case False
        with run have rest: "verifyTrustingLoop env chainID c vals needed (Suc idx) css
            (tallied + VotingPower val) (seen(valIdx \<mapsto> idx)) = Inr ()" by simp
        have "Suc idx + length css = length (cmSignatures c)" using Cons.prems(2) by simp
        then show ?thesis by (rule IH [OF _ cnt dom sum [symmetric] rest])
      qed
    qed
  qed
qed

lemma trusting_sound:
  assumes "wf_vals vals" and "int (length (Validators vals)) \<le> MaxInt32"
    and "0 < Numerator trustLevel" and "Numerator trustLevel \<le> 8" and "0 < Denominator trustLevel"
    and "Denominator trustLevel \<le> MaxInt64"
    and "snd (VerifyCommitLightTrusting env vals chainID (Some c) trustLevel) = Inr ()"
  shows "\<exists>S. counted env chainID c (Validators vals) S \<and>
    sumPower (Validators vals) * Numerator trustLevel < Denominator trustLevel * (\<Sum>i \<in> S. VotingPower (Validators vals ! i))"
proof -
  let ?t = "sumPower (Validators vals)" and ?n = "Numerator trustLevel" and ?d = "Denominator trustLevel"
  have wf: "wf_list (Validators vals)" using assms(1) by (simp add: wf_vals_def)
  have t: "0 \<le> ?t" "?t \<le> MaxTotalVotingPower" using wf_list_sum [OF wf] by simp_all
  have prod: "0 \<le> ?t * ?n" "?t * ?n \<le> MaxInt64"
  proof -
    show "0 \<le> ?t * ?n" using t(1) assms(3) by simp
    have "?t * ?n \<le> ?t * 8" using t(1) assms(4) by (intro mult_left_mono) auto
    then show "?t * ?n \<le> MaxInt64" using t(2) by (simp add: vp_bounds)
  qed
  have w: "wrap64 ?n = ?n" "wrap64 ?d = ?d" "wrap64 (?t * ?n) = ?t * ?n"
    using assms(3-6) prod by (auto intro!: wrap64_id simp: int_range)
  have mul: "safeMul ?t ?n = (?t * ?n, False) \<or> safeMul ?t ?n = (0, True)"
    using t(1) assms(3) w(3) by (auto simp: safeMul_def Let_def)
  have q: "wrap64 (?t * ?n sdiv ?d) = ?t * ?n div ?d"
  proof -
    have "0 \<le> ?t * ?n div ?d" "?t * ?n div ?d \<le> ?t * ?n"
      using prod(1) assms(5) zdiv_mono2 [of "?t * ?n" 1 ?d] by (auto simp: pos_imp_zdiv_nonneg_iff)
    then show ?thesis using prod assms(5) by (subst sdiv_nonneg) (auto intro!: wrap64_id simp: int_range)
  qed
  let ?v = "vals\<lparr>totalVotingPower := ?t\<rparr>"
  have run: "verifyTrustingLoop env chainID c ?v (?t * ?n div ?d) 0 (cmSignatures c) 0 Map.empty = Inr ()"
    using assms(5,7) mul q w by (auto simp: VerifyCommitLightTrusting_def TotalVotingPower_wf [OF assms(1)])
  have "\<exists>S. counted env chainID c (Validators ?v) S \<and> ?t * ?n div ?d < (\<Sum>i \<in> S. VotingPower (Validators ?v ! i))"
    by (rule verifyTrustingLoop_sound [OF _ _ _ _ _ _ _ run]) (use wf assms(2) in \<open>auto simp: counted_def\<close>)
  then obtain S where S: "counted env chainID c (Validators vals) S"
    "?t * ?n div ?d < (\<Sum>i \<in> S. VotingPower (Validators vals ! i))" by auto
  have "?t * ?n < (\<Sum>i \<in> S. VotingPower (Validators vals ! i)) * ?d"
    using S(2) assms(5) zdiv_mono1 [of "(\<Sum>i \<in> S. VotingPower (Validators vals ! i)) * ?d" "?t * ?n" ?d]
    by (fastforce simp: not_less [symmetric])
  with S(1) show ?thesis by (auto simp: mult.commute)
qed



end
