(* ===== verification/VoteSetInvariant.thy ===== *)
theory VoteSetInvariant
  imports VoteSet
begin

text \<open>
  The invariant \<open>vs_inv\<close> of a vote set, and that creating a set, adding a validated vote and
  noting a peer's claim keep it and never panic. From it follow what the majority and the sums
  that the consensus code reads mean. \<open>Vote_ValidateBasic\<close> is what the reactor checks of every
  vote that reaches a set.
\<close>

section \<open>Sums of votes\<close>

definition votesPower :: "validator_set \<Rightarrow> vote option list \<Rightarrow> int" where
  "votesPower vals ps = (\<Sum>i \<in> {i. i < length ps \<and> ps ! i \<noteq> None}. VotingPower (Validators vals ! i))"

lemma votesPower_cong:
  "length ps = length qs \<Longrightarrow> \<forall>i < length ps. (ps ! i = None) = (qs ! i = None) \<Longrightarrow>
   votesPower vals ps = votesPower vals qs"
  unfolding votesPower_def by (rule sum.cong) auto

lemma votesPower_replicate [simp]: "votesPower vals (replicate n None) = 0"
  unfolding votesPower_def by (rule sum.neutral) auto

lemma votesPower_new:
  assumes "i < length ps" and "ps ! i = None"
  shows "votesPower vals (ps[i := Some v]) = votesPower vals ps + VotingPower (Validators vals ! i)"
proof -
  have "{j. j < length (ps[i := Some v]) \<and> ps[i := Some v] ! j \<noteq> None} =
      insert i {j. j < length ps \<and> ps ! j \<noteq> None}"
    using assms by (auto simp: nth_list_update)
  then show ?thesis using assms by (simp add: votesPower_def)
qed

lemma votesPower_same:
  "i < length ps \<Longrightarrow> ps ! i \<noteq> None \<Longrightarrow> votesPower vals (ps[i := Some v]) = votesPower vals ps"
  by (rule votesPower_cong) (auto simp: nth_list_update)

lemma votesPower_bounds:
  assumes "wf_vals vals" and "length ps = length (Validators vals)"
  shows "0 \<le> votesPower vals ps" and "votesPower vals ps \<le> sumPower (Validators vals)"
proof -
  have nn: "\<forall>v \<in> set (Validators vals). 0 \<le> VotingPower v"
    using assms(1) by (fastforce simp: wf_vals_def wf_list_def)
  show "0 \<le> votesPower vals ps" unfolding votesPower_def using nn assms(2) by (intro sum_nonneg) auto
  show "votesPower vals ps \<le> sumPower (Validators vals)"
    unfolding votesPower_def sumPower_nth using nn assms(2) by (intro sum_mono2) auto
qed

lemma votesPower_in64:
  assumes "wf_vals vals" and "length ps = length (Validators vals)"
  shows "in64 (votesPower vals ps)"
proof -
  have "sumPower (Validators vals) \<le> MaxTotalVotingPower"
    using assms(1) by (simp add: wf_vals_def wf_list_def)
  then show ?thesis using votesPower_bounds [OF assms] by (simp add: vp_bounds)
qed

lemma votesPower_full:
  assumes "wf_vals vals" and "length ps = length (Validators vals)"
  shows "votesPower vals ps = sumPower (Validators vals) \<longleftrightarrow> (\<forall>i < length (Validators vals). ps ! i \<noteq> None)"
proof -
  let ?w = "\<lambda>i. VotingPower (Validators vals ! i)"
  let ?A = "{i. i < length ps \<and> ps ! i \<noteq> None}" and ?B = "{i. i < length ps \<and> ps ! i = None}"
  have pos: "0 < ?w i" if "i < length ps" for i
    using that assms by (auto simp: wf_vals_def wf_list_def)
  have "sum ?w (?A \<union> ?B) = sum ?w ?A + sum ?w ?B" by (rule sum.union_disjoint) auto
  moreover have "?A \<union> ?B = {..<length (Validators vals)}" using assms(2) by auto
  ultimately have split: "sumPower (Validators vals) = votesPower vals ps + sum ?w ?B"
    by (simp add: sumPower_nth votesPower_def)
  have "sum ?w ?B = 0 \<longleftrightarrow> (\<forall>i \<in> ?B. ?w i = 0)"
    using pos by (intro sum_nonneg_eq_0_iff) (auto intro: less_imp_le)
  also have "\<dots> \<longleftrightarrow> ?B = {}" using pos by force
  finally have "sum ?w ?B = 0 \<longleftrightarrow> ?B = {}" .
  with split assms(2) show ?thesis by auto
qed

section \<open>The invariant\<close>

definition okVote :: "crypto_env \<Rightarrow> vote_set \<Rightarrow> nat \<Rightarrow> vote \<Rightarrow> bool" where
  "okVote env vs i v \<longleftrightarrow> vIndex v = int i \<and> vHeight v = vsHeight vs \<and> vRound v = vsRound vs \<and>
     vType v = vsType vs \<and> i < length (Validators (vsValSet vs)) \<and>
     vAddress v = Address (Validators (vsValSet vs) ! i) \<and> Vote_ValidateBasic v = Inr () \<and>
     Vote_Verify env (vsChainID vs) (PubKey (Validators (vsValSet vs) ! i)) v = Inr ()"

definition okBlock :: "crypto_env \<Rightarrow> vote_set \<Rightarrow> bytes \<Rightarrow> blockVotes \<Rightarrow> bool" where
  "okBlock env vs k bv \<longleftrightarrow> length (bvVotes bv) = length (Validators (vsValSet vs)) \<and>
     bitsMatch (bvBitArray bv) (bvVotes bv) \<and> bvSum bv = votesPower (vsValSet vs) (bvVotes bv) \<and>
     (\<forall>i < length (bvVotes bv). \<forall>v. bvVotes bv ! i = Some v \<longrightarrow>
        okVote env vs i v \<and> Key (vBlockID v) = k \<and> vsVotes vs ! i \<noteq> None)"

definition okPrimary :: "crypto_env \<Rightarrow> vote_set \<Rightarrow> bool" where
  "okPrimary env vs \<longleftrightarrow> wf_vals (vsValSet vs) \<and> length (vsVotes vs) = length (Validators (vsValSet vs)) \<and>
     bitsMatch (vsBitArray vs) (vsVotes vs) \<and> vsSum vs = votesPower (vsValSet vs) (vsVotes vs) \<and>
     (\<forall>i < length (vsVotes vs). \<forall>v. vsVotes vs ! i = Some v \<longrightarrow> okVote env vs i v)"

definition okMaj :: "vote_set \<Rightarrow> bool" where
  "okMaj vs \<longleftrightarrow>
     (case vsMaj23 vs of
        None \<Rightarrow> \<forall>k bv. vsByBlock vs k = Some bv \<longrightarrow> 3 * bvSum bv \<le> 2 * sumPower (Validators (vsValSet vs))
      | Some b \<Rightarrow> zeroOrComplete b \<and>
          (\<exists>bv. vsByBlock vs (Key b) = Some bv \<and> 2 * sumPower (Validators (vsValSet vs)) < 3 * bvSum bv \<and>
             (\<forall>i < length (bvVotes bv). bvVotes bv ! i \<noteq> None \<longrightarrow>
                (\<exists>w. vsVotes vs ! i = Some w \<and> vBlockID w = b))))"

definition vs_inv :: "crypto_env \<Rightarrow> vote_set \<Rightarrow> bool" where
  "vs_inv env vs \<longleftrightarrow> okPrimary env vs \<and> (\<forall>k bv. vsByBlock vs k = Some bv \<longrightarrow> okBlock env vs k bv) \<and> okMaj vs"

lemma NewVoteSet_inv:
  assumes "wf_vals vals" and "h \<noteq> 0"
  obtains vs where "NewVoteSet chainID h r t vals = (Inr vs :: 'e fault + _)" and "vs_inv env vs"
    and "vsMaj23 vs = None" and "vsValSet vs = vals" and "vsHeight vs = h" and "vsRound vs = r" and "vsType vs = t"
    and "vsChainID vs = chainID"
  using assms bitsMatch_new [of "length (Validators vals)"]
  by (auto simp: NewVoteSet_def vs_inv_def okPrimary_def okMaj_def ValidatorSet_Size_def)

section \<open>Storing a vote\<close>

lemma okVote_cong:
  assumes "vsHeight vs' = vsHeight vs" "vsRound vs' = vsRound vs" "vsType vs' = vsType vs"
    "vsChainID vs' = vsChainID vs" "Validators (vsValSet vs') = Validators (vsValSet vs)"
  shows "okVote env vs' i v = okVote env vs i v"
  by (simp add: okVote_def assms)

lemma setPrimary_ok:
  assumes inv: "vs_inv env vs" and ok: "okVote env vs i v"
    and maj: "\<And>b. vsMaj23 vs = Some b \<Longrightarrow> vsVotes vs ! i \<noteq> None \<Longrightarrow> vBlockID v = b"
  obtains ba where "setPrimary vs v = (Inr (vs\<lparr>vsVotes := (vsVotes vs)[i := Some v], vsBitArray := ba\<rparr>) :: 'e fault + _)"
    and "vs_inv env (vs\<lparr>vsVotes := (vsVotes vs)[i := Some v], vsBitArray := ba,
           vsSum := votesPower (vsValSet vs) ((vsVotes vs)[i := Some v])\<rparr>)"
proof -
  have p: "okPrimary env vs" using inv by (simp add: vs_inv_def)
  have i: "i < length (vsVotes vs)" "vIndex v = int i" using ok p by (auto simp: okVote_def okPrimary_def)
  have "bitsMatch (vsBitArray vs) (vsVotes vs)" using p by (simp add: okPrimary_def)
  then obtain ba r where ba: "SetIndex (vsBitArray vs) (int i) True = (Inr (ba, r) :: 'e fault + _)"
    "bitsMatch ba ((vsVotes vs)[i := Some v])" using i(1) by (rule SetIndex_match)
  have "setPrimary vs v = (Inr (vs\<lparr>vsVotes := (vsVotes vs)[i := Some v], vsBitArray := ba\<rparr>) :: 'e fault + _)"
    using i ba(1) by (simp add: setPrimary_def)
  moreover have "vs_inv env (vs\<lparr>vsVotes := (vsVotes vs)[i := Some v], vsBitArray := ba,
       vsSum := votesPower (vsValSet vs) ((vsVotes vs)[i := Some v])\<rparr>)" (is "vs_inv env ?vs'")
  proof -
    have same: "okVote env ?vs' j w = okVote env vs j w" for j w by (rule okVote_cong) simp_all
    have "okPrimary env ?vs'"
      unfolding okPrimary_def same using p ok ba(2) i by (auto simp: okPrimary_def nth_list_update)
    moreover have "\<forall>k bv. vsByBlock ?vs' k = Some bv \<longrightarrow> okBlock env ?vs' k bv"
      unfolding okBlock_def same using inv i(1) by (auto simp: vs_inv_def okBlock_def okPrimary_def nth_list_update)
    moreover have "okMaj ?vs'"
      using inv maj i(1) by (fastforce simp: vs_inv_def okMaj_def nth_list_update split: option.splits)
    ultimately show ?thesis by (simp add: vs_inv_def)
  qed
  ultimately show ?thesis by (rule that)
qed

lemma copyVotes_spec:
  "i + length src \<le> length dst \<Longrightarrow>
   copyVotes i src dst = Inr (map (\<lambda>j. if i \<le> j \<and> j < i + length src \<and> src ! (j - i) \<noteq> None
     then src ! (j - i) else dst ! j) [0..<length dst])"
proof (induction i src dst rule: copyVotes.induct)
  case (1 i dst)
  then show ?case by (auto intro!: nth_equalityI)
next
  case (2 i src dst)
  then show ?case by (auto simp: nth_Cons' Suc_diff_le intro!: map_cong)
next
  case (3 i v src dst)
  then have "goUpdate dst (int i) (Some v) = (Inr (dst[i := Some v]) :: 'e fault + _)" by simp
  with 3 show ?case by (auto simp: nth_Cons' nth_list_update intro!: map_cong)
qed

lemma copyVotes_all:
  assumes "length src = length dst"
  shows "copyVotes 0 src dst = Inr (map (\<lambda>j. if src ! j \<noteq> None then src ! j else dst ! j) [0..<length dst])"
  by (subst copyVotes_spec) (auto simp: assms)

lemma blockVotes_add_ok:
  assumes ok: "okBlock env vs k bv" and v: "okVote env vs i v" "Key (vBlockID v) = k" and wf: "wf_vals (vsValSet vs)"
    and none: "bvVotes bv ! i = None" and voted: "vsVotes vs ! i \<noteq> None"
  obtains ba where "blockVotes_addVerifiedVote bv v (VotingPower (Validators (vsValSet vs) ! i)) =
      (Inr (bv\<lparr>bvBitArray := ba, bvVotes := (bvVotes bv)[i := Some v],
         bvSum := bvSum bv + VotingPower (Validators (vsValSet vs) ! i)\<rparr>) :: 'e fault + _)"
    and "okBlock env vs k (bv\<lparr>bvBitArray := ba, bvVotes := (bvVotes bv)[i := Some v],
         bvSum := bvSum bv + VotingPower (Validators (vsValSet vs) ! i)\<rparr>)"
proof -
  have i: "i < length (bvVotes bv)" "vIndex v = int i" using ok v(1) by (auto simp: okBlock_def okVote_def)
  have "bitsMatch (bvBitArray bv) (bvVotes bv)" using ok by (simp add: okBlock_def)
  then obtain ba r where ba: "SetIndex (bvBitArray bv) (int i) True = (Inr (ba, r) :: 'e fault + _)"
    "bitsMatch ba ((bvVotes bv)[i := Some v])" using i(1) by (rule SetIndex_match)
  have sum: "bvSum bv + VotingPower (Validators (vsValSet vs) ! i) = votesPower (vsValSet vs) ((bvVotes bv)[i := Some v])"
    using ok votesPower_new [OF i(1) none] by (simp add: okBlock_def)
  then have "wrap64 (bvSum bv + VotingPower (Validators (vsValSet vs) ! i)) = bvSum bv + VotingPower (Validators (vsValSet vs) ! i)"
    using votesPower_in64 [OF wf] ok by (simp add: okBlock_def)
  then have "blockVotes_addVerifiedVote bv v (VotingPower (Validators (vsValSet vs) ! i)) =
      (Inr (bv\<lparr>bvBitArray := ba, bvVotes := (bvVotes bv)[i := Some v],
         bvSum := bvSum bv + VotingPower (Validators (vsValSet vs) ! i)\<rparr>) :: 'e fault + _)"
    using i ba(1) none by (simp add: blockVotes_addVerifiedVote_def)
  moreover have "okBlock env vs k (bv\<lparr>bvBitArray := ba, bvVotes := (bvVotes bv)[i := Some v],
         bvSum := bvSum bv + VotingPower (Validators (vsValSet vs) ! i)\<rparr>)"
    using ok v voted ba(2) sum i(1) by (auto simp: okBlock_def nth_list_update)
  ultimately show ?thesis by (rule that)
qed

lemma quorum_iff:
  assumes "wf_vals vals"
  shows "wrap64 (wrap64 (sumPower (Validators vals) * 2) sdiv 3 + 1) \<le> s \<longleftrightarrow> 2 * sumPower (Validators vals) < 3 * s"
proof -
  have "sumPower (Validators vals) \<le> MaxTotalVotingPower" using assms by (simp add: wf_vals_def wf_list_def)
  then have "sumPower (Validators vals) * 2 div 3 < MaxInt64" by (simp add: vp_bounds)
  with total_two_thirds [OF assms]
  have "wrap64 (wrap64 (sumPower (Validators vals) * 2) sdiv 3 + 1) = sumPower (Validators vals) * 2 div 3 + 1"
    by (simp add: int_range)
  then show ?thesis using got_needed [of s "sumPower (Validators vals)"] by linarith
qed

lemma okBlock_new:
  "okBlock env vs k (newBlockVotes m (ValidatorSet_Size (vsValSet vs)))"
  using bitsMatch_new [of "length (Validators (vsValSet vs))"]
  by (auto simp: okBlock_def newBlockVotes_def ValidatorSet_Size_def)

text \<open>The entry that \<open>addVerifiedVote\<close> adds the vote to: the stored one or a fresh one.\<close>

definition entryFor :: "vote_set \<Rightarrow> bytes \<Rightarrow> blockVotes" where
  "entryFor vs k = (case vsByBlock vs k of Some bv \<Rightarrow> bv
     | None \<Rightarrow> newBlockVotes False (ValidatorSet_Size (vsValSet vs)))"

lemma entryFor_ok: "vs_inv env vs \<Longrightarrow> okBlock env vs k (entryFor vs k)"
  by (auto simp: entryFor_def vs_inv_def okBlock_new split: option.splits)

definition keeps :: "vote_set \<Rightarrow> vote_set \<Rightarrow> bool" where
  "keeps vs vs' \<longleftrightarrow> vsHeight vs' = vsHeight vs \<and> vsRound vs' = vsRound vs \<and> vsType vs' = vsType vs \<and>
     vsChainID vs' = vsChainID vs \<and> Validators (vsValSet vs') = Validators (vsValSet vs) \<and>
     (\<forall>b. vsMaj23 vs = Some b \<longrightarrow> vsMaj23 vs' = Some b) \<and>
     (\<forall>i < length (Validators (vsValSet vs)). vsVotes vs ! i \<noteq> None \<longrightarrow> vsVotes vs' ! i \<noteq> None) \<and>
     (\<forall>i < length (Validators (vsValSet vs)). \<forall>k bv v. vsByBlock vs k = Some bv \<longrightarrow> bvVotes bv ! i = Some v \<longrightarrow>
        (\<exists>bv'. vsByBlock vs' k = Some bv' \<and> bvVotes bv' ! i = Some v))"

lemma keeps_refl [simp]: "keeps vs vs"
  by (simp add: keeps_def)

text \<open>Storing the vote in the entry of its block, before the majority is looked at.\<close>

lemma store_inv:
  fixes vs env i v bv'
  defines "k \<equiv> Key (vBlockID v)"
  defines "vs1 \<equiv> vs\<lparr>vsValSet := (vsValSet vs)\<lparr>totalVotingPower := sumPower (Validators (vsValSet vs))\<rparr>,
     vsByBlock := (vsByBlock vs)(k \<mapsto> bv')\<rparr>"
  assumes inv: "vs_inv env vs" and bv': "okBlock env vs k bv'" "bvVotes bv' = (bvVotes (entryFor vs k))[i := Some v]"
    and none: "bvVotes (entryFor vs k) ! i = None"
  shows "okPrimary env vs1" and "\<forall>k' bv. vsByBlock vs1 k' = Some bv \<longrightarrow> okBlock env vs1 k' bv" and "keeps vs vs1"
proof -
  have same: "okVote env vs1 j w = okVote env vs j w" for j w unfolding vs1_def by (rule okVote_cong) simp_all
  have power: "votesPower (vsValSet vs1) ps = votesPower (vsValSet vs) ps" for ps
    by (simp add: votesPower_def vs1_def)
  have blk: "okBlock env vs1 k' bv = okBlock env vs k' bv" for k' bv
    unfolding okBlock_def same power by (simp add: vs1_def)
  show "okPrimary env vs1"
    using inv unfolding vs_inv_def okPrimary_def same power by (auto simp: vs1_def wf_vals_def)
  show "\<forall>k' bv. vsByBlock vs1 k' = Some bv \<longrightarrow> okBlock env vs1 k' bv"
    unfolding blk using inv bv'(1) by (auto simp: vs1_def vs_inv_def)
  have "bvVotes bv' ! j = Some w" if "vsByBlock vs k = Some bv" "bvVotes bv ! j = Some w" for bv j w
  proof -
    have "entryFor vs k = bv" using that(1) by (simp add: entryFor_def)
    then show ?thesis using that none bv'(2) by (cases "j = i") simp_all
  qed
  then show "keeps vs vs1" by (auto simp: keeps_def vs1_def)
qed

lemma promote_inv:
  assumes p: "okPrimary env vs" and b: "\<forall>k bv. vsByBlock vs k = Some bv \<longrightarrow> okBlock env vs k bv"
    and bv: "vsByBlock vs (Key (vBlockID v)) = Some bv" "2 * sumPower (Validators (vsValSet vs)) < 3 * bvSum bv"
    and v: "Vote_ValidateBasic v = Inr ()" and maj: "vsMaj23 vs = None"
  obtains votes where "copyVotes 0 (bvVotes bv) (vsVotes vs) = (Inr votes :: 'e fault + _)"
    and "vs_inv env (vs\<lparr>vsMaj23 := Some (vBlockID v), vsVotes := votes\<rparr>)"
    and "keeps vs (vs\<lparr>vsMaj23 := Some (vBlockID v), vsVotes := votes\<rparr>)"
proof -
  let ?votes = "map (\<lambda>j. if bvVotes bv ! j \<noteq> None then bvVotes bv ! j else vsVotes vs ! j) [0..<length (vsVotes vs)]"
  let ?vs' = "vs\<lparr>vsMaj23 := Some (vBlockID v), vsVotes := ?votes\<rparr>"
  have ok: "okBlock env vs (Key (vBlockID v)) bv" using b bv(1) by blast
  have len: "length (bvVotes bv) = length (vsVotes vs)" using ok p by (simp add: okBlock_def okPrimary_def)
  have same: "okVote env ?vs' j w = okVote env vs j w" for j w by (rule okVote_cong) simp_all
  have voted: "(?votes ! j = None) = (vsVotes vs ! j = None)" if "j < length (vsVotes vs)" for j
    using ok that len by (auto simp: okBlock_def)
  have zc: "zeroOrComplete (vBlockID v)" using v by (rule Vote_ValidateBasic_zeroOrComplete)
  have eq: "vBlockID w = vBlockID v" if "j < length (vsVotes vs)" "bvVotes bv ! j = Some w" for j w
  proof -
    have "okVote env vs j w" "Key (vBlockID w) = Key (vBlockID v)"
      using ok that len by (auto simp: okBlock_def)
    then show ?thesis
      using zc by (intro Key_inj_aux) (auto simp: okVote_def intro: Vote_ValidateBasic_zeroOrComplete)
  qed
  have power: "votesPower (vsValSet vs) ?votes = votesPower (vsValSet vs) (vsVotes vs)"
    using voted by (intro votesPower_cong) auto
  have bits: "bitsMatch (vsBitArray vs) ?votes"
    using p voted by (auto simp: okPrimary_def bitsMatch_def split: option.splits)
  have "okPrimary env ?vs'"
    unfolding okPrimary_def same using p power bits ok len by (auto simp: okPrimary_def okBlock_def)
  moreover have "\<forall>k bv. vsByBlock ?vs' k = Some bv \<longrightarrow> okBlock env ?vs' k bv"
    unfolding okBlock_def same using b voted p by (auto simp: okBlock_def okPrimary_def)
  moreover have "okMaj ?vs'"
    using bv zc eq len by (auto simp: okMaj_def)
  ultimately have "vs_inv env ?vs'" by (simp add: vs_inv_def)
  moreover have "keeps vs ?vs'" using maj voted p by (auto simp: keeps_def okPrimary_def)
  moreover have "copyVotes 0 (bvVotes bv) (vsVotes vs) = (Inr ?votes :: 'e fault + _)"
    using len by (rule copyVotes_all)
  ultimately show ?thesis by (intro that)
qed

lemma keeps_trans:
  assumes "keeps a b" and "keeps b c"
  shows "keeps a c"
proof -
  have "\<exists>bv'. vsByBlock c k = Some bv' \<and> bvVotes bv' ! i = Some v"
    if "i < length (Validators (vsValSet a))" "vsByBlock a k = Some bv" "bvVotes bv ! i = Some v" for i k bv v
    using assms that unfolding keeps_def by metis
  with assms show ?thesis by (simp add: keeps_def)
qed

definition inBlock :: "vote_set \<Rightarrow> nat \<Rightarrow> vote \<Rightarrow> bool" where
  "inBlock vs i v \<longleftrightarrow> (\<exists>bv. vsByBlock vs (Key (vBlockID v)) = Some bv \<and> bvVotes bv ! i = Some v)"

lemma okMaj_store:
  fixes vs env i v bv'
  defines "k \<equiv> Key (vBlockID v)"
  assumes inv: "vs_inv env vs" and votes: "bvVotes bv' = (bvVotes (entryFor vs k))[i := Some v]"
    and sum: "bvSum (entryFor vs k) \<le> bvSum bv'"
    and none: "bvVotes (entryFor vs k) ! i = None"
    and maj: "\<And>b. vsMaj23 vs = Some b \<Longrightarrow> Key b = k \<Longrightarrow> \<exists>w. vsVotes vs ! i = Some w \<and> vBlockID w = b"
    and small: "\<not> (2 * sumPower (Validators (vsValSet vs)) < 3 * bvSum bv' \<and>
      \<not> 2 * sumPower (Validators (vsValSet vs)) < 3 * bvSum (entryFor vs k) \<and> vsMaj23 vs = None)"
  shows "okMaj (vs\<lparr>vsValSet := (vsValSet vs)\<lparr>totalVotingPower := t\<rparr>, vsByBlock := (vsByBlock vs)(k \<mapsto> bv')\<rparr>)"
proof (cases "vsMaj23 vs")
  case None
  have "0 \<le> sumPower (Validators (vsValSet vs))"
    using inv wf_list_sum by (auto simp: vs_inv_def okPrimary_def wf_vals_def)
  then have "3 * bvSum (entryFor vs k) \<le> 2 * sumPower (Validators (vsValSet vs))"
    using inv None by (auto simp: entryFor_def vs_inv_def okMaj_def newBlockVotes_def split: option.splits)
  then have "3 * bvSum bv' \<le> 2 * sumPower (Validators (vsValSet vs))" using small None by simp
  then show ?thesis using inv None by (simp add: okMaj_def vs_inv_def)
next
  case (Some b)
  then obtain bv where b: "zeroOrComplete b" "vsByBlock vs (Key b) = Some bv"
    "2 * sumPower (Validators (vsValSet vs)) < 3 * bvSum bv"
    "\<forall>i < length (bvVotes bv). bvVotes bv ! i \<noteq> None \<longrightarrow> (\<exists>w. vsVotes vs ! i = Some w \<and> vBlockID w = b)"
    using inv by (auto simp: vs_inv_def okMaj_def)
  show ?thesis
  proof (cases "Key b = k")
    case True
    then have e: "entryFor vs k = bv" using b(2) by (simp add: entryFor_def)
    have "\<forall>j < length (bvVotes bv'). bvVotes bv' ! j \<noteq> None \<longrightarrow> (\<exists>w. vsVotes vs ! j = Some w \<and> vBlockID w = b)"
    proof (intro allI impI)
      fix j assume j: "j < length (bvVotes bv')" "bvVotes bv' ! j \<noteq> None"
      show "\<exists>w. vsVotes vs ! j = Some w \<and> vBlockID w = b"
        using j b(4) maj [OF Some True] unfolding votes e by (cases "j = i") auto
    qed
    then show ?thesis using Some True b(1,3) sum e by (auto simp: okMaj_def)
  next
    case False
    then show ?thesis using Some b by (auto simp: okMaj_def)
  qed
qed

lemma addToBlock_ok:
  assumes inv: "vs_inv env vs" and v: "okVote env vs i v"
    and none: "bvVotes (entryFor vs (Key (vBlockID v))) ! i = None" and voted: "vsVotes vs ! i \<noteq> None"
    and maj: "\<And>b. vsMaj23 vs = Some b \<Longrightarrow> Key b = Key (vBlockID v) \<Longrightarrow> \<exists>w. vsVotes vs ! i = Some w \<and> vBlockID w = b"
  obtains vs' where "addToBlock vs (entryFor vs (Key (vBlockID v))) v (Key (vBlockID v))
      (VotingPower (Validators (vsValSet vs) ! i)) c = (Inr (vs', True, c) :: 'e fault + _)"
    and "vs_inv env vs'" and "keeps vs vs'" and "inBlock vs' i v"
proof -
  let ?k = "Key (vBlockID v)" and ?vals = "vsValSet vs" and ?t = "sumPower (Validators (vsValSet vs))"
  let ?bv = "entryFor vs (Key (vBlockID v))" and ?p = "VotingPower (Validators (vsValSet vs) ! i)"
  have wf: "wf_vals ?vals" and n: "i < length (Validators ?vals)"
    using inv v by (auto simp: vs_inv_def okPrimary_def okVote_def)
  have okb: "okBlock env vs ?k ?bv" using inv by (rule entryFor_ok)
  obtain ba where add: "blockVotes_addVerifiedVote ?bv v ?p =
      (Inr (?bv\<lparr>bvBitArray := ba, bvVotes := (bvVotes ?bv)[i := Some v], bvSum := bvSum ?bv + ?p\<rparr>) :: 'e fault + _)"
    and okb': "okBlock env vs ?k (?bv\<lparr>bvBitArray := ba, bvVotes := (bvVotes ?bv)[i := Some v], bvSum := bvSum ?bv + ?p\<rparr>)"
    using okb v refl wf none voted by (rule blockVotes_add_ok)
  let ?bv' = "?bv\<lparr>bvBitArray := ba, bvVotes := (bvVotes ?bv)[i := Some v], bvSum := bvSum ?bv + ?p\<rparr>"
  let ?vs1 = "vs\<lparr>vsValSet := ?vals\<lparr>totalVotingPower := ?t\<rparr>, vsByBlock := (vsByBlock vs)(?k \<mapsto> ?bv')\<rparr>"
  have st: "okPrimary env ?vs1" "\<forall>k bv. vsByBlock ?vs1 k = Some bv \<longrightarrow> okBlock env ?vs1 k bv" "keeps vs ?vs1"
    using store_inv [OF inv okb' _ none] by simp_all
  have tvp: "TotalVotingPower ?vals = (Inr (?vals\<lparr>totalVotingPower := ?t\<rparr>, ?t) :: 'e fault + _)"
    using wf by (rule TotalVotingPower_wf)
  have len: "length (bvVotes ?bv) = length (Validators ?vals)" using okb by (simp add: okBlock_def)
  have inb: "inBlock ?vs1 i v" using n len by (simp add: inBlock_def)
  note q = quorum_iff [OF wf]
  show ?thesis
  proof (cases "2 * ?t < 3 * bvSum ?bv' \<and> \<not> 2 * ?t < 3 * bvSum ?bv \<and> vsMaj23 vs = None")
    case True
    have byk: "vsByBlock ?vs1 (Key (vBlockID v)) = Some ?bv'"
      and sum: "2 * sumPower (Validators (vsValSet ?vs1)) < 3 * bvSum ?bv'" and m: "vsMaj23 ?vs1 = None"
      and val: "Vote_ValidateBasic v = Inr ()"
      using True v by (simp_all add: okVote_def)
    obtain votes where pr: "copyVotes 0 (bvVotes ?bv') (vsVotes ?vs1) = (Inr votes :: 'e fault + _)"
      "vs_inv env (?vs1\<lparr>vsMaj23 := Some (vBlockID v), vsVotes := votes\<rparr>)"
      "keeps ?vs1 (?vs1\<lparr>vsMaj23 := Some (vBlockID v), vsVotes := votes\<rparr>)"
      using st(1,2) byk sum val m by (rule promote_inv)
    have "addToBlock vs ?bv v ?k ?p c =
        (Inr (?vs1\<lparr>vsMaj23 := Some (vBlockID v), vsVotes := votes\<rparr>, True, c) :: 'e fault + _)"
      using True pr(1) by (simp add: addToBlock_def tvp add Let_def q not_le [symmetric])
    then show ?thesis using pr(2) keeps_trans [OF st(3) pr(3)]
      by (rule that) (use inb in \<open>simp add: inBlock_def\<close>)
  next
    case False
    then have "addToBlock vs ?bv v ?k ?p c = (Inr (?vs1, True, c) :: 'e fault + _)"
      by (auto simp: addToBlock_def tvp add Let_def q not_le [symmetric])
    moreover have "okMaj ?vs1"
      by (rule okMaj_store [OF inv _ _ none maj]) (use False wf_list_power(1) wf n in \<open>auto simp: wf_vals_def intro: less_imp_le\<close>)
    then have "vs_inv env ?vs1" using st by (simp add: vs_inv_def)
    ultimately show ?thesis using st(3) inb by (intro that)
  qed
qed

section \<open>Adding a vote\<close>

lemma getVote_None:
  assumes "vs_inv env vs" and "i < length (Validators (vsValSet vs))"
    and "getVote vs (int i) k = (Inr None :: 'e fault + _)"
  shows "bvVotes (entryFor vs k) ! i = None" and "\<And>ex. vsVotes vs ! i = Some ex \<Longrightarrow> Key (vBlockID ex) \<noteq> k"
proof -
  have len: "i < length (vsVotes vs)" using assms(1,2) by (simp add: vs_inv_def okPrimary_def)
  have get: "getByIndex (vsByBlock vs k) (int i) = (Inr None :: 'e fault + _)"
    and no: "\<And>ex. vsVotes vs ! i = Some ex \<Longrightarrow> Key (vBlockID ex) \<noteq> k"
    using assms(3) len by (auto simp: getVote_def split: option.splits if_splits)
  then show "\<And>ex. vsVotes vs ! i = Some ex \<Longrightarrow> Key (vBlockID ex) \<noteq> k" by blast
  show "bvVotes (entryFor vs k) ! i = None"
    using get assms(2) entryFor_ok [OF assms(1), of k]
    by (auto simp: getByIndex_def entryFor_def newBlockVotes_def okBlock_def ValidatorSet_Size_def
        goIndex_Inr_iff split: option.splits if_splits)
qed

lemma getVote_ok:
  assumes "vs_inv env vs" and "i < length (Validators (vsValSet vs))"
  obtains r where "getVote vs (int i) k = (Inr r :: 'e fault + _)"
    and "\<And>ex. r = Some ex \<Longrightarrow> okVote env vs i ex \<and> Key (vBlockID ex) = k"
proof -
  have p: "i < length (vsVotes vs)" "\<And>v. vsVotes vs ! i = Some v \<Longrightarrow> okVote env vs i v"
    using assms by (auto simp: vs_inv_def okPrimary_def)
  have b: "i < length (bvVotes bv)" "\<And>v. bvVotes bv ! i = Some v \<Longrightarrow> okVote env vs i v \<and> Key (vBlockID v) = k"
    if "vsByBlock vs k = Some bv" for bv
    using assms that by (auto simp: vs_inv_def okBlock_def)
  obtain r where r: "getByIndex (vsByBlock vs k) (int i) = (Inr r :: 'e fault + _)"
    "\<And>ex. r = Some ex \<Longrightarrow> okVote env vs i ex \<and> Key (vBlockID ex) = k"
    using b by (cases "vsByBlock vs k") (auto simp: getByIndex_def)
  show ?thesis
  proof (cases "\<exists>ex. vsVotes vs ! i = Some ex \<and> Key (vBlockID ex) = k")
    case True
    then obtain ex where "vsVotes vs ! i = Some ex" "Key (vBlockID ex) = k" by blast
    then show ?thesis using that [of "Some ex"] p by (simp add: getVote_def)
  next
    case False
    then have "getVote vs (int i) k = (Inr r :: 'e fault + _)"
      using p(1) r(1) by (auto simp: getVote_def split: option.splits)
    then show ?thesis using that [of r] r(2) by blast
  qed
qed

lemma addVerifiedVote_fresh:
  assumes inv: "vs_inv env vs" and v: "okVote env vs i v"
    and none: "bvVotes (entryFor vs (Key (vBlockID v))) ! i = None" and new: "vsVotes vs ! i = None"
  obtains vs' where "addVerifiedVote vs v (Key (vBlockID v)) (VotingPower (Validators (vsValSet vs) ! i)) =
      (Inr (vs', True, None) :: 'e fault + _)"
    and "vs_inv env vs'" and "keeps vs vs'" and "inBlock vs' i v" and "vsVotes vs' ! i \<noteq> None"
proof -
  let ?k = "Key (vBlockID v)" and ?p = "VotingPower (Validators (vsValSet vs) ! i)"
  have p: "okPrimary env vs" using inv by (simp add: vs_inv_def)
  have i: "i < length (vsVotes vs)" "vIndex v = int i" using v p by (auto simp: okVote_def okPrimary_def)
  obtain ba where ba: "setPrimary vs v = (Inr (vs\<lparr>vsVotes := (vsVotes vs)[i := Some v], vsBitArray := ba\<rparr>) :: 'e fault + _)"
    and inv1: "vs_inv env (vs\<lparr>vsVotes := (vsVotes vs)[i := Some v], vsBitArray := ba,
       vsSum := votesPower (vsValSet vs) ((vsVotes vs)[i := Some v])\<rparr>)"
    using setPrimary_ok [OF inv v] new by metis
  let ?vs1 = "vs\<lparr>vsVotes := (vsVotes vs)[i := Some v], vsBitArray := ba,
       vsSum := votesPower (vsValSet vs) ((vsVotes vs)[i := Some v])\<rparr>"
  have sum: "wrap64 (vsSum vs + ?p) = votesPower (vsValSet vs) ((vsVotes vs)[i := Some v])"
    using votesPower_new [OF i(1) new] p votesPower_in64 [of "vsValSet vs" "(vsVotes vs)[i := Some v]"]
    by (simp add: okPrimary_def)
  have v1: "okVote env ?vs1 i v" using v okVote_cong [of ?vs1 vs env i v] by simp
  have e1: "entryFor ?vs1 ?k = entryFor vs ?k" by (simp add: entryFor_def split: option.splits)
  have none1: "bvVotes (entryFor ?vs1 (Key (vBlockID v))) ! i = None" using none e1 by simp
  have voted: "vsVotes ?vs1 ! i = Some v" using i(1) by simp
  have maj: "\<exists>w. vsVotes ?vs1 ! i = Some w \<and> vBlockID w = b" if "vsMaj23 ?vs1 = Some b" "Key b = ?k" for b
  proof -
    have "zeroOrComplete b" using inv that(1) by (auto simp: vs_inv_def okMaj_def)
    then have "vBlockID v = b"
      using v that(2) by (intro Key_inj_aux) (auto simp: okVote_def intro: Vote_ValidateBasic_zeroOrComplete)
    then show ?thesis using voted by simp
  qed
  obtain vs' where vs': "addToBlock ?vs1 (entryFor ?vs1 ?k) v ?k
      (VotingPower (Validators (vsValSet ?vs1) ! i)) None = (Inr (vs', True, None) :: 'e fault + _)"
    "vs_inv env vs'" "keeps ?vs1 vs'" "inBlock vs' i v"
    using inv1 v1 none1 _ maj by (rule addToBlock_ok) (use voted in auto)
  have k1: "keeps vs ?vs1" using i(1) by (auto simp: keeps_def nth_list_update)
  have "addVerifiedVote vs v ?k ?p = (Inr (vs', True, None) :: 'e fault + _)"
    using i new ba sum vs'(1)
    by (cases "vsByBlock vs ?k") (simp_all add: addVerifiedVote_def entryFor_def)
  moreover have "vsVotes vs' ! i \<noteq> None"
    using vs'(3) voted v by (simp add: keeps_def okVote_def)
  ultimately show ?thesis using vs'(2,4) keeps_trans [OF k1 vs'(3)] by (intro that)
qed

lemma maj_block_of_key:
  assumes "vs_inv env vs" and "vsMaj23 vs = Some b" and "Key b = Key (vBlockID v)" and "Vote_ValidateBasic v = Inr ()"
  shows "vBlockID v = b"
proof -
  have "zeroOrComplete b" using assms(1,2) by (auto simp: vs_inv_def okMaj_def)
  then show ?thesis
    using assms(3,4) by (intro Key_inj_aux) (auto intro: Vote_ValidateBasic_zeroOrComplete)
qed

text \<open>The set after the first half of \<open>addVerifiedVote\<close> on a conflicting vote: the primary vote is
  replaced when the new vote is for the block with the majority.\<close>

lemma conflict_primary:
  assumes inv: "vs_inv env vs" and v: "okVote env vs i v" and ex: "vsVotes vs ! i = Some ex"
  obtains vs1 where "(if isMaj23Key vs (Key (vBlockID v)) then bindR (setPrimary vs v) (\<lambda>vs'. Inr (vs', Some ex))
      else Inr (vs, Some ex)) = (Inr (vs1, Some ex) :: 'e fault + _)"
    and "vs_inv env vs1" and "keeps vs vs1" and "vsByBlock vs1 = vsByBlock vs" and "vsValSet vs1 = vsValSet vs"
    and "okVote env vs1 i v" and "vsVotes vs1 ! i \<noteq> None" and "vsMaj23 vs1 = vsMaj23 vs"
    and "isMaj23Key vs (Key (vBlockID v)) \<longrightarrow> vsVotes vs1 ! i = Some v"
proof (cases "isMaj23Key vs (Key (vBlockID v))")
  case False
  then show ?thesis using that [of vs] inv v ex by simp
next
  case True
  then obtain b where b: "vsMaj23 vs = Some b" "Key b = Key (vBlockID v)"
    by (auto simp: isMaj23Key_def split: option.splits)
  have "Vote_ValidateBasic v = Inr ()" using v by (simp add: okVote_def)
  then have vb: "vBlockID v = b" using inv b by (rule_tac maj_block_of_key)
  have p: "okPrimary env vs" using inv by (simp add: vs_inv_def)
  have i: "i < length (vsVotes vs)" using v p by (auto simp: okVote_def okPrimary_def)
  obtain ba where ba: "setPrimary vs v = (Inr (vs\<lparr>vsVotes := (vsVotes vs)[i := Some v], vsBitArray := ba\<rparr>) :: 'e fault + _)"
    and inv1: "vs_inv env (vs\<lparr>vsVotes := (vsVotes vs)[i := Some v], vsBitArray := ba,
       vsSum := votesPower (vsValSet vs) ((vsVotes vs)[i := Some v])\<rparr>)"
    using setPrimary_ok [OF inv v] b(1) vb by (metis option.inject)
  let ?vs1 = "vs\<lparr>vsVotes := (vsVotes vs)[i := Some v], vsBitArray := ba\<rparr>"
  have sum: "votesPower (vsValSet vs) ((vsVotes vs)[i := Some v]) = vsSum vs"
    using votesPower_same [OF i] ex p by (simp add: okPrimary_def)
  have "vs\<lparr>vsVotes := (vsVotes vs)[i := Some v], vsBitArray := ba,
       vsSum := votesPower (vsValSet vs) ((vsVotes vs)[i := Some v])\<rparr> = ?vs1"
    unfolding sum by simp
  then have "vs_inv env ?vs1" using inv1 by simp
  moreover have "okVote env ?vs1 i v" using v okVote_cong [of ?vs1 vs env i v] by simp
  moreover have "keeps vs ?vs1" using i by (auto simp: keeps_def nth_list_update)
  ultimately show ?thesis using that [of ?vs1] True ba i by simp
qed

lemma addVerifiedVote_conflict:
  assumes inv: "vs_inv env vs" and v: "okVote env vs i v"
    and none: "bvVotes (entryFor vs (Key (vBlockID v))) ! i = None"
    and ex: "vsVotes vs ! i = Some ex" "vBlockID ex \<noteq> vBlockID v"
  obtains vs' added where "addVerifiedVote vs v (Key (vBlockID v)) (VotingPower (Validators (vsValSet vs) ! i)) =
      (Inr (vs', added, Some ex) :: 'e fault + _)"
    and "vs_inv env vs'" and "keeps vs vs'" and "added \<longrightarrow> inBlock vs' i v"
proof -
  let ?k = "Key (vBlockID v)"
  have i: "i < length (vsVotes vs)" "vIndex v = int i" using v inv by (auto simp: okVote_def vs_inv_def okPrimary_def)
  obtain vs1 where v1: "(if isMaj23Key vs ?k then bindR (setPrimary vs v) (\<lambda>vs'. Inr (vs', Some ex))
      else Inr (vs, Some ex)) = (Inr (vs1, Some ex) :: 'e fault + _)"
    "vs_inv env vs1" "keeps vs vs1" "vsByBlock vs1 = vsByBlock vs" "vsValSet vs1 = vsValSet vs"
    "okVote env vs1 i v" "vsVotes vs1 ! i \<noteq> None" "vsMaj23 vs1 = vsMaj23 vs"
    "isMaj23Key vs ?k \<longrightarrow> vsVotes vs1 ! i = Some v"
    using inv v ex(1) by (rule conflict_primary)
  have none1: "bvVotes (entryFor vs1 ?k) ! i = None" using none unfolding entryFor_def v1(4,5) .
  have maj: "\<exists>w. vsVotes vs1 ! i = Some w \<and> vBlockID w = b" if "vsMaj23 vs1 = Some b" "Key b = ?k" for b
  proof -
    have "isMaj23Key vs ?k" using that v1(8) by (simp add: isMaj23Key_def)
    moreover have "vBlockID v = b" using v1(2) that v by (intro maj_block_of_key) (auto simp: okVote_def)
    ultimately show ?thesis using v1(9) by simp
  qed
  obtain vs' where vs': "addToBlock vs1 (entryFor vs1 ?k) v ?k
      (VotingPower (Validators (vsValSet vs1) ! i)) (Some ex) = (Inr (vs', True, Some ex) :: 'e fault + _)"
    "vs_inv env vs'" "keeps vs1 vs'" "inBlock vs' i v"
    using v1(2) v1(6) none1 v1(7) maj by (rule addToBlock_ok)
  have run: "addVerifiedVote vs v ?k (VotingPower (Validators (vsValSet vs) ! i)) =
      (case vsByBlock vs1 ?k of
         Some bv \<Rightarrow> if \<not> bvPeerMaj23 bv then Inr (vs1, False, Some ex)
                    else addToBlock vs1 bv v ?k (VotingPower (Validators (vsValSet vs) ! i)) (Some ex)
       | None \<Rightarrow> (Inr (vs1, False, Some ex) :: 'e fault + _))"
    using i ex v1(1) by (simp add: addVerifiedVote_def split: option.splits)
  show ?thesis
  proof (cases "\<exists>bv. vsByBlock vs1 ?k = Some bv \<and> bvPeerMaj23 bv")
    case True
    then have "addVerifiedVote vs v ?k (VotingPower (Validators (vsValSet vs) ! i)) = (Inr (vs', True, Some ex) :: 'e fault + _)"
      using run vs'(1) v1(5) by (auto simp: entryFor_def)
    then show ?thesis by (rule that [OF _ vs'(2) keeps_trans [OF v1(3) vs'(3)]]) (simp add: vs'(4))
  next
    case False
    then have "addVerifiedVote vs v ?k (VotingPower (Validators (vsValSet vs) ! i)) = (Inr (vs1, False, Some ex) :: 'e fault + _)"
      using run by (auto split: option.splits)
    then show ?thesis by (rule that [OF _ v1(2,3)]) simp
  qed
qed

definition goodKeys :: "vote_set \<Rightarrow> bool" where
  "goodKeys vs \<longleftrightarrow> (\<forall>val \<in> set (Validators (vsValSet vs)). PubKey val \<noteq> None)"

lemma Vote_Verify_cases:
  assumes "zeroOrComplete (vBlockID v)"
  shows "Vote_Verify env chainID (Some pk) v = Inr () \<or>
    Vote_Verify env chainID (Some pk) v = Inl (Err ErrVoteInvalidValidatorAddress) \<or>
    Vote_Verify env chainID (Some pk) v = Inl (Err ErrVoteInvalidSignature)"
  using VoteSignBytes_valid [OF assms, of env chainID, where 'a = vote_error] by (simp add: Vote_Verify_def)

text \<open>The conditions \<open>addVote\<close> checks of a vote before it looks at what it has stored.\<close>

lemma addVote_checked:
  assumes "vs_inv env vs" and "Vote_ValidateBasic v = Inr ()" and "goodKeys vs"
  shows "(\<exists>e. addVote env vs (Some v) = (Inr (vs, False, Some e) :: 'e fault + _) \<and> (\<forall>c d. e \<noteq> ErrVoteConflictingVotes c d)) \<or>
    addVote env vs (Some v) = (Inr (vs, False, None) :: 'e fault + _) \<or>
    (\<exists>i. okVote env vs i v \<and> getVote vs (int i) (Key (vBlockID v)) = (Inr None :: 'e fault + _) \<and>
       addVote env vs (Some v) =
         bindR (addVerifiedVote vs v (Key (vBlockID v)) (VotingPower (Validators (vsValSet vs) ! i))) (\<lambda>(vs', added, conflicting).
           case conflicting of
             Some c \<Rightarrow> Inr (vs', added, Some (NewConflictingVoteError c v))
           | None \<Rightarrow> if \<not> added then (Inl (Panic ''Expected to add non-conflicting vote'') :: 'e fault + _)
                     else Inr (vs', added, None)))"
proof (cases "0 \<le> vIndex v \<and> length (vAddress v) \<noteq> 0 \<and> vHeight v = vsHeight vs \<and> vRound v = vsRound vs \<and>
    vType v = vsType vs \<and> nat (vIndex v) < length (Validators (vsValSet vs)) \<and>
    vAddress v = Address (Validators (vsValSet vs) ! nat (vIndex v))")
  case False
  then show ?thesis by (auto simp: addVote_def GetByIndex_def Let_def)
next
  case True
  define i where "i = nat (vIndex v)"
  let ?val = "Validators (vsValSet vs) ! i"
  have i: "i < length (Validators (vsValSet vs))" "vIndex v = int i" "vAddress v = Address ?val"
    using True by (auto simp: i_def)
  obtain pk where pk: "PubKey ?val = Some pk" using assms(3) nth_mem [OF i(1)] unfolding goodKeys_def by blast
  obtain r where r: "getVote vs (int i) (Key (vBlockID v)) = (Inr r :: 'e fault + _)"
    using assms(1) i(1) by (rule getVote_ok)
  have zc: "zeroOrComplete (vBlockID v)" using assms(2) by (rule Vote_ValidateBasic_zeroOrComplete)
  have start: "addVote env vs (Some v) = (case r of
      Some ex \<Rightarrow> if vSignature ex = vSignature v then Inr (vs, False, None)
                 else Inr (vs, False, Some ErrVoteNonDeterministicSignature)
    | None \<Rightarrow> (case Vote_Verify env (vsChainID vs) (PubKey ?val) v of
         Inl (Panic s) \<Rightarrow> Inl (Panic s)
       | Inl (Err e) \<Rightarrow> Inr (vs, False, Some e)
       | Inr _ \<Rightarrow> bindR (addVerifiedVote vs v (Key (vBlockID v)) (VotingPower ?val)) (\<lambda>(vs', added, conflicting).
           case conflicting of
             Some c \<Rightarrow> Inr (vs', added, Some (NewConflictingVoteError c v))
           | None \<Rightarrow> if \<not> added then (Inl (Panic ''Expected to add non-conflicting vote'') :: 'e fault + _)
                     else Inr (vs', added, None))))"
    using True i r by (simp add: addVote_def GetByIndex_def Let_def)
  show ?thesis
  proof (cases r)
    case (Some ex)
    then show ?thesis using start by auto
  next
    case None
    show ?thesis
    proof (cases "Vote_Verify env (vsChainID vs) (PubKey ?val) v = Inr ()")
      case ok: True
      then have "okVote env vs i v" using True i assms(2) by (simp add: okVote_def)
      then show ?thesis using start None ok r by auto
    next
      case False
      then show ?thesis using start None Vote_Verify_cases [OF zc, of env "vsChainID vs" pk] pk by auto
    qed
  qed
qed

lemma addVote_ok:
  assumes inv: "vs_inv env vs" and "Vote_ValidateBasic v = Inr ()" and "goodKeys vs"
  shows "\<exists>vs' added err. addVote env vs (Some v) = (Inr (vs', added, err) :: 'e fault + _) \<and>
    vs_inv env vs' \<and> keeps vs vs' \<and>
    (added \<longrightarrow> inBlock vs' (nat (vIndex v)) v) \<and>
    (\<forall>c d. err = Some (ErrVoteConflictingVotes c d) \<longrightarrow> d = v \<and> vBlockID c \<noteq> vBlockID v \<and>
       okVote env vs (nat (vIndex v)) c \<and> okVote env vs (nat (vIndex v)) v)"
proof -
  consider (err) e where "addVote env vs (Some v) = (Inr (vs, False, Some e) :: 'e fault + _)" "\<forall>c d. e \<noteq> ErrVoteConflictingVotes c d"
    | (dup) "addVote env vs (Some v) = (Inr (vs, False, None) :: 'e fault + _)"
    | (new) i where "okVote env vs i v" "getVote vs (int i) (Key (vBlockID v)) = (Inr None :: 'e fault + _)"
       "addVote env vs (Some v) =
         bindR (addVerifiedVote vs v (Key (vBlockID v)) (VotingPower (Validators (vsValSet vs) ! i))) (\<lambda>(vs', added, conflicting).
           case conflicting of
             Some c \<Rightarrow> Inr (vs', added, Some (NewConflictingVoteError c v))
           | None \<Rightarrow> if \<not> added then (Inl (Panic ''Expected to add non-conflicting vote'') :: 'e fault + _)
                     else Inr (vs', added, None))"
    using addVote_checked [OF assms, where 'e = 'e] by blast
  then show ?thesis
  proof cases
    case new
    have i: "i < length (Validators (vsValSet vs))" "nat (vIndex v) = i" using new(1) by (auto simp: okVote_def)
    note g = getVote_None [OF inv i(1) new(2)]
    show ?thesis
    proof (cases "vsVotes vs ! i")
      case None
      obtain vs' where "addVerifiedVote vs v (Key (vBlockID v)) (VotingPower (Validators (vsValSet vs) ! i)) =
          (Inr (vs', True, None) :: 'e fault + _)" "vs_inv env vs'" "keeps vs vs'" "inBlock vs' i v"
        using inv new(1) g(1) None by (rule addVerifiedVote_fresh)
      then show ?thesis using new(3) i(2) by auto
    next
      case (Some ex)
      have ne: "vBlockID ex \<noteq> vBlockID v" using g(2) [OF Some] by auto
      obtain vs' added where "addVerifiedVote vs v (Key (vBlockID v)) (VotingPower (Validators (vsValSet vs) ! i)) =
          (Inr (vs', added, Some ex) :: 'e fault + _)" "vs_inv env vs'" "keeps vs vs'" "added \<longrightarrow> inBlock vs' i v"
        using inv new(1) g(1) Some ne by (rule addVerifiedVote_conflict)
      moreover have "okVote env vs i ex" using inv Some i(1) by (simp add: vs_inv_def okPrimary_def)
      ultimately show ?thesis using new(1,3) i(2) ne by (simp add: NewConflictingVoteError_def)
    qed
  qed (use inv in auto)
qed

lemma SetPeerMaj23_ok:
  assumes "vs_inv env vs"
  shows "\<exists>vs' e. SetPeerMaj23 (Some vs) peer b = (Inr (vs', e) :: 'e fault + _) \<and> vs_inv env vs' \<and> keeps vs vs'"
proof (cases "vsPeerMaj23s vs peer")
  case (Some existing)
  then show ?thesis using assms by (simp add: SetPeerMaj23_def)
next
  case None
  let ?k = "Key b"
  define bv where "bv = (case vsByBlock vs ?k of Some bv \<Rightarrow> bv\<lparr>bvPeerMaj23 := True\<rparr>
    | None \<Rightarrow> newBlockVotes True (ValidatorSet_Size (vsValSet vs)))"
  let ?vs' = "vs\<lparr>vsPeerMaj23s := (vsPeerMaj23s vs)(peer \<mapsto> b), vsByBlock := (vsByBlock vs)(?k \<mapsto> bv)\<rparr>"
  have same: "okVote env ?vs' j w = okVote env vs j w" for j w by (rule okVote_cong) simp_all
  have blk: "okBlock env ?vs' k' c = okBlock env vs k' c" for k' c unfolding okBlock_def same by simp
  have bvok: "okBlock env vs ?k bv"
    using assms okBlock_new [of env vs ?k True]
    by (auto simp: bv_def vs_inv_def okBlock_def split: option.splits)
  have "okPrimary env ?vs'" using assms unfolding okPrimary_def same by (auto simp: vs_inv_def okPrimary_def)
  moreover have "\<forall>k c. vsByBlock ?vs' k = Some c \<longrightarrow> okBlock env ?vs' k c"
    unfolding blk using assms bvok by (simp add: vs_inv_def)
  moreover have "okMaj ?vs'"
  proof -
    have "0 \<le> sumPower (Validators (vsValSet vs))"
      using assms wf_list_sum by (auto simp: vs_inv_def okPrimary_def wf_vals_def)
    then show ?thesis
      using assms by (auto simp: vs_inv_def okMaj_def bv_def newBlockVotes_def split: option.splits)
  qed
  ultimately have inv: "vs_inv env ?vs'" by (simp add: vs_inv_def)
  have keep: "keeps vs ?vs'"
    by (auto simp: keeps_def bv_def split: option.splits)
  show ?thesis
  proof (cases "\<exists>c. vsByBlock vs ?k = Some c \<and> bvPeerMaj23 c")
    case True
    then have "bv\<lparr>bvPeerMaj23 := True\<rparr> = bv" "vsByBlock vs ?k = Some bv" by (auto simp: bv_def)
    then have "(vsByBlock vs)(?k \<mapsto> bv) = vsByBlock vs" by (simp add: fun_upd_idem)
    then have "?vs' = vs\<lparr>vsPeerMaj23s := (vsPeerMaj23s vs)(peer \<mapsto> b)\<rparr>" by simp
    with True inv keep None show ?thesis by (auto simp: SetPeerMaj23_def Let_def)
  next
    case False
    then have "SetPeerMaj23 (Some vs) peer b = (Inr (?vs', None) :: 'e fault + _)"
      using None by (auto simp: SetPeerMaj23_def Let_def bv_def split: option.splits)
    with inv keep show ?thesis by blast
  qed
qed

lemma total_cached_ok:
  assumes "vs_inv env vs"
  shows "vs_inv env (vs\<lparr>vsValSet := (vsValSet vs)\<lparr>totalVotingPower := sumPower (Validators (vsValSet vs))\<rparr>\<rparr>)"
    (is "vs_inv env ?vs'")
proof -
  have same: "okVote env ?vs' j w = okVote env vs j w" for j w by (rule okVote_cong) simp_all
  have power: "votesPower (vsValSet ?vs') ps = votesPower (vsValSet vs) ps" for ps by (simp add: votesPower_def)
  have blk: "okBlock env ?vs' k c = okBlock env vs k c" for k c
    unfolding okBlock_def same power by simp
  have "okPrimary env ?vs'" using assms unfolding okPrimary_def same power by (auto simp: vs_inv_def okPrimary_def wf_vals_def)
  moreover have "okMaj ?vs'" using assms by (auto simp: vs_inv_def okMaj_def split: option.splits)
  ultimately show ?thesis using assms unfolding vs_inv_def blk by simp
qed

section \<open>Reachable vote sets\<close>

text \<open>What the program does with a vote set: it creates it, adds votes that passed
  \<open>ValidateBasic\<close>, notes peers' claims and asks for the totals.\<close>

inductive vs_reach :: "crypto_env \<Rightarrow> vote_set \<Rightarrow> bool" for env where
  create: "wf_vals vals \<Longrightarrow> \<forall>val \<in> set (Validators vals). PubKey val \<noteq> None \<Longrightarrow>
    NewVoteSet chainID h r t vals = (Inr vs :: unit fault + _) \<Longrightarrow> vs_reach env vs"
| add: "vs_reach env vs \<Longrightarrow> Vote_ValidateBasic v = Inr () \<Longrightarrow>
    AddVote env (Some vs) (Some v) = (Inr (vs', added, err) :: unit fault + _) \<Longrightarrow> vs_reach env vs'"
| peer: "vs_reach env vs \<Longrightarrow> SetPeerMaj23 (Some vs) peerID b = (Inr (vs', e) :: unit fault + _) \<Longrightarrow> vs_reach env vs'"
| anyTwoThirds: "vs_reach env vs \<Longrightarrow> HasTwoThirdsAny (Some vs) = (Inr (Some vs', x) :: unit fault + _) \<Longrightarrow> vs_reach env vs'"
| hasAll: "vs_reach env vs \<Longrightarrow> HasAll vs = (Inr (vs', x) :: unit fault + _) \<Longrightarrow> vs_reach env vs'"

lemma goodKeys_keeps: "keeps vs vs' \<Longrightarrow> goodKeys vs \<Longrightarrow> goodKeys vs'"
  by (simp add: keeps_def goodKeys_def)

lemma vs_reach_inv: "vs_reach env vs \<Longrightarrow> vs_inv env vs \<and> goodKeys vs"
proof (induction rule: vs_reach.induct)
  case (create vals chainID h r t vs)
  then have h: "h \<noteq> 0" by (auto simp: NewVoteSet_def)
  obtain vs1 where "NewVoteSet chainID h r t vals = (Inr vs1 :: unit fault + _)" "vs_inv env vs1" "vsValSet vs1 = vals"
    using create(1) h by (rule NewVoteSet_inv)
  with create show ?case by (simp add: goodKeys_def)
next
  case (add vs v vs' added err)
  with addVote_ok [of env vs v, where 'e = unit] show ?case by (auto simp: AddVote_def intro: goodKeys_keeps)
next
  case (peer vs peerID b vs' e)
  with SetPeerMaj23_ok [of env vs peerID b, where 'e = unit] show ?case by (auto intro: goodKeys_keeps)
next
  case (anyTwoThirds vs vs' x)
  then have wf: "wf_vals (vsValSet vs)" by (simp add: vs_inv_def okPrimary_def)
  with anyTwoThirds total_cached_ok [of env vs] show ?case
    by (auto simp: HasTwoThirdsAny_def TotalVotingPower_wf goodKeys_def)
next
  case (hasAll vs vs' x)
  then have wf: "wf_vals (vsValSet vs)" by (simp add: vs_inv_def okPrimary_def)
  with hasAll total_cached_ok [of env vs] show ?case
    by (auto simp: HasAll_def TotalVotingPower_wf goodKeys_def)
qed

section \<open>A sample\<close>

definition voteVals :: validator_set where
  "voteVals = \<lparr>Validators =
     [\<lparr>Address = replicate 20 1, PubKey = Some (replicate 20 1), VotingPower = 10, ProposerPriority = 0\<rparr>],
     Proposer = None, totalVotingPower = 0\<rparr>"

lemma voteVals_wf: "wf_vals voteVals" "\<forall>val \<in> set (Validators voteVals). PubKey val \<noteq> None"
  by (simp_all add: wf_vals_def wf_list_def voteVals_def vp_bounds)

lemma sampleVote_ok: "Vote_ValidateBasic sampleVote = Inr ()"
  using sampleVote_valid [of "vTimestamp sampleVote"] by simp

definition sampleRun :: "bool" where
  "sampleRun =
     (case NewVoteSet ''c'' 5 0 PrecommitType voteVals of
        Inl (_ :: unit fault) \<Rightarrow> False
      | Inr vs0 \<Rightarrow>
          (case AddVote sampleEnv (Some vs0) (Some sampleVote) of
             Inl (_ :: unit fault) \<Rightarrow> False
           | Inr (vs1, added, err) \<Rightarrow>
               added \<and> err = None \<and> vsMaj23 vs1 = Some (vBlockID sampleVote) \<and> Validators (vsValSet vs1) = Validators voteVals \<and>
               vsType vs1 = PrecommitType \<and> vsHeight vs1 = 5 \<and> vsChainID vs1 = ''c''))"

lemma sampleRun_True: "sampleRun"
  by code_simp

lemma sample_reach:
  obtains vs where "vs_reach sampleEnv vs" and "vsMaj23 vs = Some (vBlockID sampleVote)"
    and "Validators (vsValSet vs) = Validators voteVals" and "vsType vs = PrecommitType" and "vsHeight vs = 5"
    and "vsChainID vs = ''c''"
proof -
  obtain vs0 where vs0: "NewVoteSet ''c'' 5 0 PrecommitType voteVals = (Inr vs0 :: unit fault + _)"
    by (auto simp: NewVoteSet_def)
  have r0: "vs_reach sampleEnv vs0" using voteVals_wf vs0 by (rule vs_reach.create)
  obtain vs1 added err where vs1: "AddVote sampleEnv (Some vs0) (Some sampleVote) = (Inr (vs1, added, err) :: unit fault + _)"
    "vsMaj23 vs1 = Some (vBlockID sampleVote)" "Validators (vsValSet vs1) = Validators voteVals"
    "vsType vs1 = PrecommitType" "vsHeight vs1 = 5" "vsChainID vs1 = ''c''"
    using sampleRun_True vs0 by (auto simp: sampleRun_def split: sum.splits)
  have "vs_reach sampleEnv vs1" using r0 sampleVote_ok vs1(1) by (rule vs_reach.add)
  then show ?thesis using vs1(2-) by (rule that)
qed

section \<open>Properties\<close>

text \<open>The indices whose stored vote for the block is genuine: right height, round and type, the
  validator's address, and a signature that verifies under its key.\<close>

definition votersFor :: "crypto_env \<Rightarrow> vote_set \<Rightarrow> block_id \<Rightarrow> nat set" where
  "votersFor env vs b = {i. i < length (Validators (vsValSet vs)) \<and>
     (\<exists>v. vsVotes vs ! i = Some v \<and> vBlockID v = b \<and> okVote env vs i v)}"

lemma int_sum_nat:
  assumes "wf_vals vals" and "S \<subseteq> {..<length (Validators vals)}"
  shows "int (\<Sum>i \<in> S. nat (VotingPower (Validators vals ! i))) = (\<Sum>i \<in> S. VotingPower (Validators vals ! i))"
proof -
  have "\<forall>v \<in> set (Validators vals). 0 \<le> VotingPower v"
    using assms(1) by (fastforce simp: wf_vals_def wf_list_def)
  then show ?thesis using assms(2) by (auto intro!: sum.cong)
qed

lemma maj_quorum:
  assumes "vs_inv env vs" and "vsMaj23 vs = Some b"
  shows "2 * sumPower (Validators (vsValSet vs)) < 3 * (\<Sum>i \<in> votersFor env vs b. VotingPower (Validators (vsValSet vs) ! i))"
proof -
  let ?vals = "vsValSet vs"
  obtain bv where bv: "vsByBlock vs (Key b) = Some bv" "2 * sumPower (Validators ?vals) < 3 * bvSum bv"
    "\<forall>i < length (bvVotes bv). bvVotes bv ! i \<noteq> None \<longrightarrow> (\<exists>w. vsVotes vs ! i = Some w \<and> vBlockID w = b)"
    using assms by (auto simp: vs_inv_def okMaj_def)
  have ok: "okBlock env vs (Key b) bv" and p: "okPrimary env vs" using assms(1) bv(1) by (auto simp: vs_inv_def)
  have nn: "\<forall>v \<in> set (Validators ?vals). 0 \<le> VotingPower v"
    using p by (fastforce simp: okPrimary_def wf_vals_def wf_list_def)
  have sub: "{i. i < length (bvVotes bv) \<and> bvVotes bv ! i \<noteq> None} \<subseteq> votersFor env vs b"
  proof
    fix i assume "i \<in> {i. i < length (bvVotes bv) \<and> bvVotes bv ! i \<noteq> None}"
    then obtain w where "i < length (bvVotes bv)" "vsVotes vs ! i = Some w" "vBlockID w = b" using bv(3) by auto
    then show "i \<in> votersFor env vs b" using ok p by (auto simp: votersFor_def okBlock_def okPrimary_def)
  qed
  have "bvSum bv \<le> (\<Sum>i \<in> votersFor env vs b. VotingPower (Validators ?vals ! i))"
    using ok sub nn unfolding okBlock_def votesPower_def by (auto simp: votersFor_def intro!: sum_mono2)
  with bv(2) show ?thesis by linarith
qed

text \<open>C3: A vote set never panics on validated votes, and what it reports is true: in every reachable
  vote set, when \<open>TwoThirdsMajority\<close> returns a block, validators with more than two thirds of the
  power have a genuine vote for that block in \<open>votes\<close>.\<close>

theorem majority_is_genuine:
  assumes "vs_reach env vs" and "TwoThirdsMajority (Some vs) = (b, True)"
  shows "2 * sumPower (Validators (vsValSet vs)) < 3 * (\<Sum>i \<in> votersFor env vs b. VotingPower (Validators (vsValSet vs) ! i))"
  using vs_reach_inv [OF assms(1)] assms(2) by (intro maj_quorum) (auto simp: TwoThirdsMajority_def split: option.splits)

theorem majority_is_genuine_witness:
  "\<exists>vs. vs_reach sampleEnv vs \<and> TwoThirdsMajority (Some vs) = (vBlockID sampleVote, True) \<and>
     20 < 3 * (\<Sum>i \<in> votersFor sampleEnv vs (vBlockID sampleVote). VotingPower (Validators voteVals ! i))"
proof -
  obtain vs where vs: "vs_reach sampleEnv vs" "vsMaj23 vs = Some (vBlockID sampleVote)"
    "Validators (vsValSet vs) = Validators voteVals" by (rule sample_reach)
  have t: "TwoThirdsMajority (Some vs) = (vBlockID sampleVote, True)" using vs(2) by (simp add: TwoThirdsMajority_def)
  have "sumPower (Validators voteVals) = 10" by (simp add: voteVals_def)
  with majority_is_genuine [OF vs(1) t] vs t show ?thesis by auto
qed

text \<open>Adding a validated vote to a reachable vote set never panics. The set keeps its
  invariant, a majority once found stays the same, no validator's vote disappears, and a vote
  reported as added is stored for its block. A reported conflict is evidence: two genuine votes of
  one validator for different blocks.\<close>

theorem AddVote_correct:
  assumes "vs_reach env vs" and "Vote_ValidateBasic v = Inr ()"
  shows "\<exists>vs' added err. AddVote env (Some vs) (Some v) = (Inr (vs', added, err) :: 'e fault + _) \<and>
    vs_inv env vs' \<and> keeps vs vs' \<and>
    (added \<longrightarrow> inBlock vs' (nat (vIndex v)) v) \<and>
    (\<forall>c d. err = Some (ErrVoteConflictingVotes c d) \<longrightarrow> d = v \<and> vBlockID c \<noteq> vBlockID v \<and>
       okVote env vs (nat (vIndex v)) c \<and> okVote env vs (nat (vIndex v)) v)"
  using addVote_ok [of env vs v] vs_reach_inv [OF assms(1)] assms(2) by (simp add: AddVote_def)

theorem AddVote_correct_witness:
  "\<exists>vs. vs_reach sampleEnv vs \<and> Vote_ValidateBasic sampleVote = Inr () \<and>
     isOk (AddVote sampleEnv (Some vs) (Some sampleVote) :: unit fault + _)"
proof -
  obtain vs where vs: "vs_reach sampleEnv vs" by (rule sample_reach)
  from AddVote_correct [OF vs sampleVote_ok, where 'e = unit] vs sampleVote_ok show ?thesis
    by (auto simp: isOk_iff)
qed

text \<open>The sums a vote set reports are those of its votes: \<open>HasTwoThirdsAny\<close> holds exactly when
  the validators that have voted have more than two thirds of the power, and \<open>HasAll\<close> exactly when
  all of them have voted; the bit array has the bit of each of them and no other.\<close>

theorem vote_sums_correct:
  assumes "vs_reach env vs"
  shows "(\<exists>r. HasTwoThirdsAny (Some vs) = (Inr (r, 2 * sumPower (Validators (vsValSet vs)) < 3 * votesPower (vsValSet vs) (vsVotes vs)) :: 'e fault + _)) \<and>
    (\<exists>r. HasAll vs = (Inr (r, \<forall>i < length (Validators (vsValSet vs)). vsVotes vs ! i \<noteq> None) :: 'e fault + _)) \<and>
    bitsMatch (VoteSet_BitArray (Some vs)) (vsVotes vs)"
proof -
  let ?vals = "vsValSet vs" and ?t = "sumPower (Validators (vsValSet vs))"
  have p: "okPrimary env vs" using vs_reach_inv [OF assms] by (simp add: vs_inv_def)
  then have wf: "wf_vals ?vals" and len: "length (vsVotes vs) = length (Validators ?vals)"
    and sum: "vsSum vs = votesPower ?vals (vsVotes vs)" by (auto simp: okPrimary_def)
  have two: "(wrap64 (?t * 2) sdiv 3 < vsSum vs) = (2 * ?t < 3 * votesPower ?vals (vsVotes vs))"
    using total_two_thirds(1) [OF wf] got_needed [of "vsSum vs" ?t] sum by (simp add: not_le [symmetric])
  have all: "(vsSum vs = ?t) = (\<forall>i < length (Validators ?vals). vsVotes vs ! i \<noteq> None)"
    unfolding sum using wf len by (rule votesPower_full)
  have "BA_Copy p = p" for p by (auto simp: BA_Copy_def split: option.splits)
  then have "bitsMatch (VoteSet_BitArray (Some vs)) (vsVotes vs)"
    using p by (simp add: VoteSet_BitArray_def okPrimary_def)
  then show ?thesis by (auto simp: HasTwoThirdsAny_def HasAll_def TotalVotingPower_wf [OF wf] two all)
qed

theorem vote_sums_correct_witness:
  "\<exists>vs. vs_reach sampleEnv vs \<and> bitsMatch (VoteSet_BitArray (Some vs)) (vsVotes vs)"
proof -
  obtain vs where vs: "vs_reach sampleEnv vs" by (rule sample_reach)
  from vote_sums_correct [OF vs, where 'e = unit] vs show ?thesis by blast
qed

end
