(* ===== verification/VoteSetCommit.thy ===== *)
theory VoteSetCommit
  imports VoteSetInvariant
begin

text \<open>
  The commit a vote set makes (\<open>MakeCommit\<close>, \<open>CommitToVoteSet\<close>): from a reachable set of precommits
  with a majority for a block, \<open>MakeCommit\<close> gives a commit that \<open>VerifyCommit\<close> accepts.
\<close>

section \<open>The signatures of a commit\<close>

definition sigOf :: "block_id \<Rightarrow> vote option \<Rightarrow> commit_sig" where
  "sigOf b p = (case p of None \<Rightarrow> NewCommitSigAbsent | Some v \<Rightarrow>
      if BlockID_IsComplete (vBlockID v) \<and> vBlockID v \<noteq> b then NewCommitSigAbsent
      else \<lparr>csFlag = (if BlockID_IsComplete (vBlockID v) then BlockIDFlagCommit else BlockIDFlagNil),
            csAddress = vAddress v, csTimestamp = vTimestamp v, csSignature = vSignature v\<rparr>)"

lemma commitSigsOf_map:
  "\<forall>p \<in> set ps. \<forall>v. p = Some v \<longrightarrow> zeroOrComplete (vBlockID v) \<Longrightarrow> commitSigsOf b ps = Inr (map (sigOf b) ps)"
proof (induction ps)
  case Nil
  then show ?case by simp
next
  case (Cons p ps)
  then show ?case
    by (auto simp: sigOf_def Vote_CommitSig_def NewCommitSigAbsent_def ForBlock_def zeroOrComplete_def
        split: option.splits)
qed

lemma sigOf_present:
  assumes "\<not> Absent (sigOf b p)"
  obtains v where "p = Some v" and "BlockID_IsComplete (vBlockID v) \<longrightarrow> vBlockID v = b"
  using assms by (auto simp: sigOf_def Absent_def NewCommitSigAbsent_def split: option.splits if_splits)

lemma sigOf_vote:
  assumes "zeroOrComplete (vBlockID v)" and "BlockID_IsComplete (vBlockID v) \<longrightarrow> vBlockID v = b"
  shows "Vote_CommitSig (Some v) = Inr (sigOf b (Some v))" and "csSignature (sigOf b (Some v)) = vSignature v"
    and "\<not> Absent (sigOf b (Some v))" and "ForBlock (sigOf b (Some v)) \<longleftrightarrow> BlockID_IsComplete (vBlockID v)"
  using assms by (auto simp: sigOf_def Vote_CommitSig_def Absent_def ForBlock_def zeroOrComplete_def)

section \<open>Making a commit\<close>

lemma MakeCommit_run:
  assumes "vs_inv env vs" and "vsType vs = PrecommitType" and "vsMaj23 vs = Some b"
  shows "MakeCommit vs = Inr (NewCommit (vsHeight vs) (vsRound vs) b (map (sigOf b) (vsVotes vs)))"
proof -
  have "\<forall>p \<in> set (vsVotes vs). \<forall>v. p = Some v \<longrightarrow> zeroOrComplete (vBlockID v)"
  proof (intro ballI allI impI)
    fix p v assume "p \<in> set (vsVotes vs)" "p = Some v"
    then obtain i where "i < length (vsVotes vs)" "vsVotes vs ! i = Some v" by (auto simp: in_set_conv_nth)
    then have "okVote env vs i v" using assms(1) by (simp add: vs_inv_def okPrimary_def)
    then show "zeroOrComplete (vBlockID v)" by (auto simp: okVote_def intro: Vote_ValidateBasic_zeroOrComplete)
  qed
  then show ?thesis using assms(2,3) by (simp add: MakeCommit_def commitSigsOf_map)
qed

lemma commit_sig_valid:
  assumes inv: "vs_inv env vs" and pre: "vsType vs = PrecommitType"
    and small: "int (length (Validators (vsValSet vs))) \<le> MaxInt32"
    and i: "i < length (vsVotes vs)" and v: "vsVotes vs ! i = Some v"
    and b: "BlockID_IsComplete (vBlockID v) \<longrightarrow> vBlockID v = b"
  shows "sigValid env (vsChainID vs) (NewCommit (vsHeight vs) (vsRound vs) b (map (sigOf b) (vsVotes vs)))
    (Validators (vsValSet vs)) i"
proof -
  let ?c = "NewCommit (vsHeight vs) (vsRound vs) b (map (sigOf b) (vsVotes vs))"
  have ok: "okVote env vs i v" and len: "length (vsVotes vs) = length (Validators (vsValSet vs))"
    using inv i v by (auto simp: vs_inv_def okPrimary_def)
  have zc: "zeroOrComplete (vBlockID v)" using ok by (auto simp: okVote_def intro: Vote_ValidateBasic_zeroOrComplete)
  note s = sigOf_vote [OF zc b]
  have nth: "cmSignatures ?c ! i = sigOf b (Some v)" "i < length (cmSignatures ?c)"
    using i v by (simp_all add: NewCommit_def)
  have sig: "Vote_CommitSig (Some v) = (Inr (cmSignatures ?c ! i) :: commit_error fault + _)"
    using s(1) nth(1) by simp
  have get: "GetVote ?c (int i) = (Inr v :: commit_error fault + _)"
    using ok pre b by (intro GetVote_of_CommitSig [OF sig nth(2) refl]) (auto simp: okVote_def NewCommit_def)
  have w: "wrap32 (int i) = int i" using i len small by (intro wrap32_id) (simp add: int_range)
  obtain pk where pk: "PubKey (Validators (vsValSet vs) ! i) = Some pk"
    using ok by (auto simp: okVote_def Vote_Verify_def split: option.splits)
  obtain sb where sb: "VoteSignBytes env (vsChainID vs) v = (Inr sb :: vote_error fault + _)"
    "VoteSignBytes env (vsChainID vs) v = (Inr sb :: commit_error fault + _)"
    using VoteSignBytes_valid [OF zc, of env "vsChainID vs", where 'a = vote_error]
      VoteSignBytes_valid [OF zc, of env "vsChainID vs", where 'a = commit_error] by simp
  have "pkVerify env pk sb (vSignature v)"
    using ok pk sb(1) by (auto simp: okVote_def Vote_Verify_def split: if_splits)
  then show ?thesis
    using w get sb(2) pk nth s(2) by (simp add: sigValid_def checkSig_def Commit_VoteSignBytes_def)
qed

lemma forPower_commit:
  assumes inv: "vs_inv env vs" and b: "BlockID_IsComplete b"
  shows "forPower (NewCommit h r b (map (sigOf b) (vsVotes vs))) (Validators (vsValSet vs)) 0 (length (Validators (vsValSet vs)))
    = (\<Sum>i \<in> votersFor env vs b. VotingPower (Validators (vsValSet vs) ! i))"
proof -
  have "{i \<in> {0..<length (Validators (vsValSet vs))}. ForBlock (cmSignatures (NewCommit h r b (map (sigOf b) (vsVotes vs))) ! i)}
      = votersFor env vs b"
    using inv b
    by (auto simp: NewCommit_def votersFor_def vs_inv_def okPrimary_def sigOf_def ForBlock_def NewCommitSigAbsent_def
        split: option.splits if_splits)
  then show ?thesis by (simp add: forPower_def)
qed

lemma made_commit_verifies:
  assumes inv: "vs_inv env vs" and "vsType vs = PrecommitType" and maj: "vsMaj23 vs = Some b"
    and "BlockID_IsComplete b" and "int (length (Validators (vsValSet vs))) \<le> MaxInt32"
  shows "snd (VerifyCommit env (vsValSet vs) (vsChainID vs) b (vsHeight vs)
    (Some (NewCommit (vsHeight vs) (vsRound vs) b (map (sigOf b) (vsVotes vs))))) = Inr ()"
proof -
  let ?c = "NewCommit (vsHeight vs) (vsRound vs) b (map (sigOf b) (vsVotes vs))"
  have wf: "wf_vals (vsValSet vs)" and len: "length (vsVotes vs) = length (Validators (vsValSet vs))"
    using inv by (auto simp: vs_inv_def okPrimary_def)
  have sigs: "sigValid env (vsChainID vs) ?c (Validators (vsValSet vs)) i"
    if "i < length (Validators (vsValSet vs))" "\<not> Absent (cmSignatures ?c ! i)" for i
  proof -
    have i: "i < length (vsVotes vs)" "\<not> Absent (sigOf b (vsVotes vs ! i))" using that len by (simp_all add: NewCommit_def)
    from i(2) obtain v where "vsVotes vs ! i = Some v" "BlockID_IsComplete (vBlockID v) \<longrightarrow> vBlockID v = b"
      by (rule sigOf_present)
    then show ?thesis using inv assms(2,5) i(1) by (rule_tac commit_sig_valid)
  qed
  have "2 * sumPower (Validators (vsValSet vs)) < 3 * forPower ?c (Validators (vsValSet vs)) 0 (length (Validators (vsValSet vs)))"
    using maj_quorum [OF inv maj] forPower_commit [OF inv assms(4)] by simp
  then have "commitOk env (vsValSet vs) (vsChainID vs) b (vsHeight vs) ?c"
    using sigs len by (auto simp: commitOk_def NewCommit_def)
  then show ?thesis using VerifyCommit_iff [OF wf] by blast
qed

section \<open>Properties\<close>

text \<open>C8: In every reachable set of precommits with a two-thirds majority for a block,
  \<open>MakeCommit\<close> does not panic, and the commit it makes is one that \<open>VerifyCommit\<close> accepts for that
  block, height and validator set.\<close>

theorem MakeCommit_verifies:
  assumes "vs_reach env vs" and "vsType vs = PrecommitType" and "TwoThirdsMajority (Some vs) = (b, True)"
    and "BlockID_IsComplete b" and "int (length (Validators (vsValSet vs))) \<le> MaxInt32"
  shows "\<exists>c. MakeCommit vs = (Inr c :: 'e fault + _) \<and>
    snd (VerifyCommit env (vsValSet vs) (vsChainID vs) b (vsHeight vs) (Some c)) = Inr ()"
proof -
  have inv: "vs_inv env vs" using vs_reach_inv [OF assms(1)] by simp
  have maj: "vsMaj23 vs = Some b" using assms(3) by (auto simp: TwoThirdsMajority_def split: option.splits)
  show ?thesis
    using made_commit_verifies [OF inv assms(2) maj assms(4,5)] MakeCommit_run [OF inv assms(2) maj, where 'a = 'e] by blast
qed

theorem MakeCommit_verifies_witness:
  "\<exists>vs c. MakeCommit vs = (Inr c :: unit fault + _) \<and>
     snd (VerifyCommit sampleEnv (vsValSet vs) ''c'' (vBlockID sampleVote) 5 (Some c)) = Inr ()"
proof -
  obtain vs where vs: "vs_reach sampleEnv vs" "vsMaj23 vs = Some (vBlockID sampleVote)"
    "Validators (vsValSet vs) = Validators voteVals" "vsType vs = PrecommitType" "vsHeight vs = 5" "vsChainID vs = ''c''"
    by (rule sample_reach)
  have t: "TwoThirdsMajority (Some vs) = (vBlockID sampleVote, True)" using vs(2) by (simp add: TwoThirdsMajority_def)
  have b: "BlockID_IsComplete (vBlockID sampleVote)"
    by (simp add: sampleVote_def BlockID_IsComplete_def hashSize_def word_gt_0)
  have n: "int (length (Validators (vsValSet vs))) \<le> MaxInt32" using vs(3) by (simp add: voteVals_def int_range)
  from MakeCommit_verifies [OF vs(1,4) t b n, where 'e = unit] vs(5,6) show ?thesis by metis
qed

end
