(* ===== verification/Merkle.thy ===== *)
theory Merkle
  imports Prelude
begin

text \<open>
  \<open>crypto/merkle\<close> (\<open>hash.go\<close>, \<open>tree.go\<close>, \<open>proof.go\<close>): the RFC 6962 hash tree over a list of byte
  slices, its iterative variant, and inclusion proofs.

  \<open>tmhash.Sum\<close> (SHA-256) is the parameter \<open>H\<close>. The iterative routine rewrites one array in place and
  is modelled with its read and write positions; the proof trails are heap nodes that are linked after
  they were handed out, and are modelled in an explicit store of nodes addressed by position. A nil
  hash is \<open>None\<close>.
\<close>

section \<open>Hashing a list\<close>

type_synonym hash_fun = "bytes \<Rightarrow> bytes"

definition emptyHash :: "hash_fun \<Rightarrow> bytes" where
  "emptyHash H = H []"

definition leafHash :: "hash_fun \<Rightarrow> bytes \<Rightarrow> bytes" where
  "leafHash H leaf = H (0 # leaf)"

definition innerHash :: "hash_fun \<Rightarrow> bytes \<Rightarrow> bytes \<Rightarrow> bytes" where
  "innerHash H left right = H (1 # left @ right)"

text \<open>\<open>bits.Len\<close>, and the split point for a length that is known to be positive.\<close>

fun bitsLen :: "nat \<Rightarrow> nat" where
  "bitsLen n = (if n = 0 then 0 else Suc (bitsLen (n div 2)))"

declare bitsLen.simps [simp del]

definition splitPoint :: "nat \<Rightarrow> nat" where
  "splitPoint n = (let k = 2 ^ (bitsLen n - 1) in if k = n then k div 2 else k)"

definition getSplitPoint :: "int \<Rightarrow> 'e fault + int" where
  "getSplitPoint n =
     (if n < 1 then Inl (Panic ''Trying to split a tree with size < 1'') else Inr (int (splitPoint (nat n))))"

lemma bitsLen_bounds: "0 < n \<Longrightarrow> 2 ^ (bitsLen n - 1) \<le> n \<and> n < 2 ^ bitsLen n"
proof (induction n rule: bitsLen.induct)
  case (1 n)
  show ?case
  proof (cases "n = 1")
    case True
    then show ?thesis by (simp add: bitsLen.simps)
  next
    case False
    with 1 have m: "0 < n div 2" by linarith
    with 1 have IH: "2 ^ (bitsLen (n div 2) - 1) \<le> n div 2" "n div 2 < 2 ^ bitsLen (n div 2)" by auto
    have "0 < bitsLen (n div 2)" using m by (subst bitsLen.simps) simp
    then have "bitsLen (n div 2) = Suc (bitsLen (n div 2) - 1)" by simp
    then have pow: "(2::nat) ^ bitsLen (n div 2) = 2 * 2 ^ (bitsLen (n div 2) - 1)" by (metis power_Suc)
    then have "2 ^ bitsLen (n div 2) \<le> n" "n < 2 * 2 ^ bitsLen (n div 2)" using IH by linarith+
    moreover have "bitsLen n = Suc (bitsLen (n div 2))" using 1 by (subst bitsLen.simps) simp
    ultimately show ?thesis by simp
  qed
qed

text \<open>The split point of \<open>n\<close> is the largest power of two below \<open>n\<close>.\<close>

lemma splitPoint_power:
  assumes "2 \<le> n"
  obtains j where "splitPoint n = 2 ^ j" and "2 ^ j < n" and "n \<le> 2 ^ Suc j"
proof -
  define b where "b = bitsLen n - 1"
  have "0 < bitsLen n" using assms by (subst bitsLen.simps) simp
  then have "bitsLen n = Suc b" by (simp add: b_def)
  then have b: "2 ^ b \<le> n" "n < 2 ^ Suc b" using bitsLen_bounds [of n] assms by (simp_all add: b_def)
  show ?thesis
  proof (cases "2 ^ b = n")
    case True
    have "b \<noteq> 0" using True assms by (cases b) auto
    then obtain c where "b = Suc c" by (cases b) auto
    then have "splitPoint n = 2 ^ c" using True \<open>bitsLen n = Suc b\<close> by (auto simp: splitPoint_def Let_def)
    then show ?thesis using True \<open>b = Suc c\<close> that [of c] by auto
  next
    case False
    then have "splitPoint n = 2 ^ b" using \<open>bitsLen n = Suc b\<close> by (auto simp: splitPoint_def Let_def)
    then show ?thesis using False b that [of b] by auto
  qed
qed

lemma splitPoint_bounds: "2 \<le> n \<Longrightarrow> 0 < splitPoint n \<and> splitPoint n < n"
  by (metis splitPoint_power zero_less_numeral zero_less_power)

lemma power2_unique:
  fixes n :: nat
  assumes "2 ^ i < n" and "n \<le> 2 ^ Suc i" and "2 ^ j < n" and "n \<le> 2 ^ Suc j"
  shows "i = j"
proof -
  have "(2::nat) ^ i < 2 ^ Suc j" "(2::nat) ^ j < 2 ^ Suc i" using assms by linarith+
  then have "i < Suc j" "j < Suc i" by (metis power_strict_increasing_iff one_less_numeral_iff semiring_norm(76))+
  then show ?thesis by simp
qed

lemma splitPoint_unique: "2 ^ j < n \<Longrightarrow> n \<le> 2 ^ Suc j \<Longrightarrow> splitPoint n = 2 ^ j"
proof -
  assume j: "2 ^ j < n" "n \<le> 2 ^ Suc j"
  then have "2 \<le> n" using one_le_power [of "2::nat" j] by linarith
  then obtain i where "splitPoint n = 2 ^ i" "2 ^ i < n" "n \<le> 2 ^ Suc i" by (rule splitPoint_power)
  with j show ?thesis using power2_unique by metis
qed

function HashFromByteSlices :: "hash_fun \<Rightarrow> bytes list \<Rightarrow> bytes" where
  "HashFromByteSlices H items =
     (if length items = 0 then emptyHash H
      else if length items = 1 then leafHash H (items ! 0)
      else (let k = splitPoint (length items) in
            innerHash H (HashFromByteSlices H (take k items)) (HashFromByteSlices H (drop k items))))"
  by pat_completeness auto

termination
proof (relation "measure (\<lambda>(H, items). length items)")
  fix H :: hash_fun and items :: "bytes list" and k
  assume "length items \<noteq> 0" "length items \<noteq> 1" "k = splitPoint (length items)"
  moreover from this have "2 \<le> length items" by linarith
  ultimately have "0 < k" "k < length items" using splitPoint_bounds [of "length items"] by auto
  then show "((H, take k items), (H, items)) \<in> measure (\<lambda>(H, items). length items)"
    "((H, drop k items), (H, items)) \<in> measure (\<lambda>(H, items). length items)"
    by auto
qed simp

declare HashFromByteSlices.simps [simp del]

text \<open>The iterative routine. One pass of the inner loop from read position \<open>rp\<close> and write position
  \<open>wp\<close>, on the first \<open>sz\<close> elements of the array.\<close>

function iterPass :: "hash_fun \<Rightarrow> nat \<Rightarrow> nat \<Rightarrow> nat \<Rightarrow> bytes list \<Rightarrow> 'e fault + (bytes list \<times> nat)" where
  "iterPass H sz rp wp items =
     (if rp < sz then
        (if rp + 1 < sz then
           bindR (goIndex items (int rp)) (\<lambda>a. bindR (goIndex items (int (rp + 1))) (\<lambda>b.
           bindR (goUpdate items (int wp) (innerHash H a b)) (\<lambda>items'. iterPass H sz (rp + 2) (wp + 1) items')))
         else
           bindR (goIndex items (int rp)) (\<lambda>a.
           bindR (goUpdate items (int wp) a) (\<lambda>items'. iterPass H sz (rp + 1) (wp + 1) items')))
      else Inr (items, wp))"
  by pat_completeness auto
termination by (relation "measure (\<lambda>(H, sz, rp, wp, items). sz - rp)") auto

declare iterPass.simps [simp del]

lemma iterPass_stop: "sz \<le> rp \<Longrightarrow> iterPass H sz rp wp items = Inr (items, wp)"
  by (simp add: iterPass.simps [of H sz rp wp items])

lemma iterPass_pair:
  "rp + 1 < sz \<Longrightarrow> iterPass H sz rp wp items =
     bindR (goIndex items (int rp)) (\<lambda>a. bindR (goIndex items (int (rp + 1))) (\<lambda>b.
       bindR (goUpdate items (int wp) (innerHash H a b)) (iterPass H sz (rp + 2) (wp + 1))))"
  by (simp add: iterPass.simps [of H sz rp wp items])

lemma iterPass_last:
  "rp + 1 = sz \<Longrightarrow> iterPass H sz rp wp items =
     bindR (goIndex items (int rp)) (\<lambda>a. bindR (goUpdate items (int wp) a) (iterPass H sz (rp + 1) (wp + 1)))"
  by (simp add: iterPass.simps [of H sz rp wp items])

lemma iterPass_wp:
  "iterPass H sz rp wp items = (Inr (items', wp') :: 'e fault + _) \<Longrightarrow> wp' = wp + (sz - rp + 1) div 2"
proof (induction "sz - rp" arbitrary: rp wp items rule: less_induct)
  case less
  consider "sz \<le> rp" | "rp + 1 < sz" | "rp + 1 = sz" by linarith
  then show ?case
  proof cases
    case 1
    then show ?thesis using less.prems by (simp add: iterPass_stop)
  next
    case 2
    obtain items1 where "iterPass H sz (rp + 2) (wp + 1) items1 = (Inr (items', wp') :: 'e fault + _)"
      using less.prems unfolding iterPass_pair [OF 2] by (elim bindR_InrE)
    then have "wp' = wp + 1 + (sz - (rp + 2) + 1) div 2" using 2 by (intro less.hyps) auto
    then show ?thesis using 2 by linarith
  next
    case 3
    obtain items1 where "iterPass H sz (rp + 1) (wp + 1) items1 = (Inr (items', wp') :: 'e fault + _)"
      using less.prems unfolding iterPass_last [OF 3] by (elim bindR_InrE)
    then have "wp' = wp + 1 + (sz - (rp + 1) + 1) div 2" using 3 by (intro less.hyps) auto
    then show ?thesis using 3 by auto
  qed
qed

function iterLoop :: "hash_fun \<Rightarrow> bytes list \<Rightarrow> nat \<Rightarrow> 'e fault + bytes" where
  "iterLoop H items sz =
     (if sz = 0 then Inr (emptyHash H)
      else if sz = 1 then goIndex items 0
      else (case iterPass H sz 0 0 items of
              Inl e \<Rightarrow> Inl e
            | Inr (items', wp) \<Rightarrow> iterLoop H items' wp))"
  by pat_completeness auto

termination
proof (relation "measure (\<lambda>(H, items, sz). sz)")
  fix H :: hash_fun and items items' :: "bytes list" and sz wp :: nat and x :: "bytes list \<times> nat"
  assume "sz \<noteq> 0" "sz \<noteq> 1" "iterPass H sz 0 0 items = (Inr x :: 'e fault + _)" "(items', wp) = x"
  moreover from this have "wp = 0 + (sz - 0 + 1) div 2" using iterPass_wp by blast
  ultimately show "((H, items', wp), (H, items, sz)) \<in> measure (\<lambda>(H, items, sz). sz)" by auto
qed simp

declare iterLoop.simps [simp del]

definition HashFromByteSlicesIterative :: "hash_fun \<Rightarrow> bytes list \<Rightarrow> 'e fault + bytes" where
  "HashFromByteSlicesIterative H input = iterLoop H (map (leafHash H) input) (length input)"

section \<open>The iterative routine computes the same hash\<close>

text \<open>The tree over a list of hashes, and one level of it as the iterative routine computes it.\<close>

lemma split_decreases:
  assumes "length xs \<noteq> 0" and "length xs \<noteq> 1"
  shows "0 < splitPoint (length xs)" and "splitPoint (length xs) < length xs"
proof -
  from assms have "2 \<le> length xs" by linarith
  then show "0 < splitPoint (length xs)" "splitPoint (length xs) < length xs" by (simp_all add: splitPoint_bounds)
qed

function hashTree :: "hash_fun \<Rightarrow> bytes list \<Rightarrow> bytes" where
  "hashTree H hs =
     (if length hs = 0 then emptyHash H
      else if length hs = 1 then hs ! 0
      else (let k = splitPoint (length hs) in innerHash H (hashTree H (take k hs)) (hashTree H (drop k hs))))"
  by pat_completeness auto

termination by (relation "measure (\<lambda>(H, hs). length hs)") (auto simp: split_decreases)

declare hashTree.simps [simp del]

lemma hashTree_small [simp]: "hashTree H [] = emptyHash H" "hashTree H [h] = h"
  by (simp_all add: hashTree.simps)

lemma hashTree_split:
  "2 \<le> length hs \<Longrightarrow> hashTree H hs =
     innerHash H (hashTree H (take (splitPoint (length hs)) hs)) (hashTree H (drop (splitPoint (length hs)) hs))"
  by (subst hashTree.simps) (auto simp: Let_def)

lemma HashFromByteSlices_tree: "HashFromByteSlices H items = hashTree H (map (leafHash H) items)"
proof (induction "length items" arbitrary: items rule: less_induct)
  case less
  show ?case
  proof (cases "length items = 0 \<or> length items = 1")
    case True
    then show ?thesis by (auto simp: HashFromByteSlices.simps [of H items] length_Suc_conv)
  next
    case False
    let ?k = "splitPoint (length items)"
    have k: "0 < ?k" "?k < length items" using split_decreases [of items] False by auto
    then have "HashFromByteSlices H (take ?k items) = hashTree H (map (leafHash H) (take ?k items))"
      "HashFromByteSlices H (drop ?k items) = hashTree H (map (leafHash H) (drop ?k items))"
      by (intro less; simp)+
    moreover have "2 \<le> length items" using False by linarith
    ultimately show ?thesis using False
      by (simp add: HashFromByteSlices.simps [of H items] hashTree_split Let_def take_map drop_map)
  qed
qed

fun pairUp :: "hash_fun \<Rightarrow> bytes list \<Rightarrow> bytes list" where
  "pairUp H [] = []"
| "pairUp H [x] = [x]"
| "pairUp H (a # b # xs) = innerHash H a b # pairUp H xs"

lemma length_pairUp: "length (pairUp H xs) = (length xs + 1) div 2"
  by (induction H xs rule: pairUp.induct) auto

lemma pairUp_append: "even (length xs) \<Longrightarrow> pairUp H (xs @ ys) = pairUp H xs @ pairUp H ys"
  by (induction H xs rule: pairUp.induct) auto

lemma splitPoint_half:
  assumes "3 \<le> n"
  shows "even (splitPoint n)" and "splitPoint ((n + 1) div 2) = splitPoint n div 2"
proof -
  obtain j where j: "splitPoint n = 2 ^ j" "2 ^ j < n" "n \<le> 2 ^ Suc j" using assms by (elim splitPoint_power [of n, rotated]) auto
  have "j \<noteq> 0" using j(3) assms by (cases j) auto
  then obtain i where i: "j = Suc i" by (cases j) auto
  then show "even (splitPoint n)" using j(1) by simp
  have "2 ^ i < (n + 1) div 2" "(n + 1) div 2 \<le> 2 ^ Suc i" using j(2,3) i by auto
  then show "splitPoint ((n + 1) div 2) = splitPoint n div 2" using j(1) i by (simp add: splitPoint_unique)
qed

lemma hashTree_pairUp: "hs \<noteq> [] \<Longrightarrow> hashTree H (pairUp H hs) = hashTree H hs"
proof (induction "length hs" arbitrary: hs rule: less_induct)
  case less
  consider x where "hs = [x]" | a b where "hs = [a, b]" | "3 \<le> length hs"
  proof (cases "3 \<le> length hs")
    case False
    moreover have "length hs \<noteq> 0" using less.prems by simp
    ultimately have "length hs = Suc 0 \<or> length hs = Suc (Suc 0)" by linarith
    with that show ?thesis by (auto simp: length_Suc_conv)
  qed (use that in blast)
  then show ?case
  proof cases
    case 2
    have "splitPoint 2 = 1" using splitPoint_unique [of 0 2] by simp
    then show ?thesis using 2 hashTree_split [of hs H] by (simp add: numeral_2_eq_2)
  next
    case 3
    let ?k = "splitPoint (length hs)"
    have k: "0 < ?k" "?k < length hs" using splitPoint_bounds [of "length hs"] 3 by auto
    note half = splitPoint_half [OF 3]
    have eq: "pairUp H hs = pairUp H (take ?k hs) @ pairUp H (drop ?k hs)"
      using pairUp_append [of "take ?k hs" H "drop ?k hs"] half(1) k(2) by simp
    have len: "length (pairUp H (take ?k hs)) = ?k div 2" using half(1) k(2) by (simp add: length_pairUp)
    have "hashTree H (pairUp H (take ?k hs)) = hashTree H (take ?k hs)"
      "hashTree H (pairUp H (drop ?k hs)) = hashTree H (drop ?k hs)"
      by (intro less; use k in auto)+
    moreover have "splitPoint (length (pairUp H hs)) = ?k div 2" using half(2) by (simp add: length_pairUp)
    then have "take (splitPoint (length (pairUp H hs))) (pairUp H hs) = pairUp H (take ?k hs)"
      "drop (splitPoint (length (pairUp H hs))) (pairUp H hs) = pairUp H (drop ?k hs)"
      using len by (simp_all add: eq)
    moreover have "2 \<le> length (pairUp H hs)" "2 \<le> length hs" using 3 by (simp_all add: length_pairUp)
    ultimately show ?thesis by (simp add: hashTree_split)
  qed simp
qed

lemma goIndex_Suc: "goIndex xs (1 + int i) = (if Suc i < length xs then Inr (xs ! Suc i) else Inl (Panic ''index out of range''))"
  using goIndex_nat [of xs "Suc i"] by simp

lemma iterPass_spec:
  assumes "sz \<le> length items" and "wp \<le> rp"
  shows "\<exists>items'. iterPass H sz rp wp items = (Inr (items', wp + length (pairUp H (drop rp (take sz items)))) :: 'e fault + _) \<and>
    length items' = length items \<and>
    take (wp + length (pairUp H (drop rp (take sz items)))) items' = take wp items @ pairUp H (drop rp (take sz items))"
  using assms
proof (induction "sz - rp" arbitrary: rp wp items rule: less_induct)
  case less
  consider "sz \<le> rp" | "rp + 1 < sz" | "rp + 1 = sz" by linarith
  then show ?case
  proof cases
    case 1
    then show ?thesis using less.prems by (simp add: iterPass_stop)
  next
    case 2
    let ?h = "innerHash H (items ! rp) (items ! (rp + 1))" and ?items = "items[wp := innerHash H (items ! rp) (items ! (rp + 1))]"
    have tail: "drop (rp + 2) (take sz ?items) = drop (rp + 2) (take sz items)" using less.prems(2) by (simp add: drop_take)
    have xs: "drop rp (take sz items) = items ! rp # items ! (rp + 1) # drop (rp + 2) (take sz items)"
      using 2 less.prems(1) by (simp add: Cons_nth_drop_Suc [symmetric])
    have dec: "sz - (rp + 2) < sz - rp" using 2 by linarith
    have sz: "sz \<le> length ?items" and wp: "wp + 1 \<le> rp + 2" using less.prems by simp_all
    obtain items' where o: "iterPass H sz (rp + 2) (wp + 1) ?items = (Inr (items', wp + 1 + length (pairUp H (drop (rp + 2) (take sz ?items)))) :: 'e fault + _)"
      "length items' = length ?items"
      "take (wp + 1 + length (pairUp H (drop (rp + 2) (take sz ?items)))) items' = take (wp + 1) ?items @ pairUp H (drop (rp + 2) (take sz ?items))"
      using less.hyps [OF dec sz wp] by (elim exE conjE) (rule that)
    have "take (wp + 1) ?items = take wp items @ [?h]" using less.prems 2 by (simp add: take_Suc_conv_app_nth)
    then show ?thesis using o 2 less.prems unfolding tail xs
      by (intro exI [of _ items']) (simp add: iterPass_pair goIndex_Suc)
  next
    case 3
    let ?items = "items[wp := items ! rp]"
    have xs: "drop rp (take sz items) = [items ! rp]" using 3 less.prems(1) by (auto simp: take_Suc_conv_app_nth)
    have "take (wp + 1) ?items = take wp items @ [items ! rp]" using less.prems 3 by (simp add: take_Suc_conv_app_nth)
    then show ?thesis using 3 less.prems
      by (intro exI [of _ ?items]) (simp add: iterPass_last iterPass_stop xs)
  qed
qed

lemma iterLoop_spec: "sz \<le> length items \<Longrightarrow> iterLoop H items sz = (Inr (hashTree H (take sz items)) :: 'e fault + _)"
proof (induction sz arbitrary: items rule: less_induct)
  case (less sz)
  consider "sz = 0" | "sz = 1" | "2 \<le> sz" by linarith
  then show ?case
  proof cases
    case 2
    then show ?thesis using less.prems by (cases items) (simp_all add: iterLoop.simps [of H _ "Suc 0"] goIndex_def)
  next
    case 3
    let ?xs = "pairUp H (take sz items)"
    obtain items' where o: "iterPass H sz 0 0 items = (Inr (items', length ?xs) :: 'e fault + _)"
      "length items' = length items" "take (length ?xs) items' = ?xs"
      using iterPass_spec [OF less.prems, of 0 0 H] by auto
    have len: "length ?xs < sz" "length ?xs \<le> length items'" using 3 less.prems o(2) by (auto simp: length_pairUp)
    have "iterLoop H items sz = (iterLoop H items' (length ?xs) :: 'e fault + _)"
      using 3 o(1) by (simp add: iterLoop.simps [of H items sz])
    also have "\<dots> = Inr (hashTree H ?xs)" using less.IH [OF len] o(3) by simp
    also have "hashTree H ?xs = hashTree H (take sz items)" using 3 less.prems by (intro hashTree_pairUp) auto
    finally show ?thesis .
  qed (simp add: iterLoop.simps)
qed

text \<open>C36: The iterative hash terminates without an index panic and computes the RFC 6962 hash of the
  recursive routine, for every list of byte slices.\<close>

theorem iterative_is_recursive:
  "HashFromByteSlicesIterative H input = (Inr (HashFromByteSlices H input) :: 'e fault + _)"
  by (simp add: HashFromByteSlicesIterative_def iterLoop_spec HashFromByteSlices_tree)

end
