(* ===== verification/MerkleProof.thy ===== *)
theory MerkleProof
  imports Merkle "HOL-Library.Monad_Syntax"
begin

text \<open>
  \<open>crypto/merkle/proof.go\<close>: inclusion proofs. \<open>trailsFromByteSlices\<close> hands out one heap node per leaf
  and links the nodes of a subtree to their parent only after the subtree is built, so the nodes live
  in a store, a list addressed by position; \<open>FlattenAunts\<close> follows the parent pointers. A nil hash is
  \<open>None\<close>; the nil-able slices \<open>LeafHash\<close> and \<open>Aunts\<close> are only compared and concatenated, where nil is
  the empty list.
\<close>

section \<open>Building proofs\<close>

record Proof =
  pfTotal :: int
  pfIndex :: int
  pfLeafHash :: bytes
  pfAunts :: "bytes list"

record ProofNode =
  pnHash :: bytes
  pnParent :: "nat option"
  pnLeft :: "nat option"
  pnRight :: "nat option"

definition newNode :: "bytes \<Rightarrow> ProofNode" where
  "newNode h = \<lparr>pnHash = h, pnParent = None, pnLeft = None, pnRight = None\<rparr>"

text \<open>Linking two subtrees below a new root.\<close>

definition linkRoots :: "hash_fun \<Rightarrow> nat \<Rightarrow> nat \<Rightarrow> ProofNode list \<Rightarrow> ProofNode list" where
  "linkRoots H leftRoot rightRoot st =
     (let root = length st;
          st1 = st @ [newNode (innerHash H (pnHash (st ! leftRoot)) (pnHash (st ! rightRoot)))];
          st2 = st1[leftRoot := (st1 ! leftRoot)\<lparr>pnParent := Some root, pnRight := Some rightRoot\<rparr>]
      in st2[rightRoot := (st2 ! rightRoot)\<lparr>pnParent := Some root, pnLeft := Some leftRoot\<rparr>])"

function trailsFromByteSlices :: "hash_fun \<Rightarrow> bytes list \<Rightarrow> ProofNode list \<Rightarrow> nat list \<times> nat \<times> ProofNode list" where
  "trailsFromByteSlices H items st =
     (if length items = 0 then ([], length st, st @ [newNode (emptyHash H)])
      else if length items = 1 then ([length st], length st, st @ [newNode (leafHash H (items ! 0))])
      else (let k = splitPoint (length items);
                (lefts, leftRoot, st1) = trailsFromByteSlices H (take k items) st;
                (rights, rightRoot, st2) = trailsFromByteSlices H (drop k items) st1
            in (lefts @ rights, length st2, linkRoots H leftRoot rightRoot st2)))"
  by pat_completeness auto
termination by (relation "measure (\<lambda>(H, items, st). length items)") (auto simp: split_decreases)

declare trailsFromByteSlices.simps [simp del]

partial_function (option) flattenLoop :: "ProofNode list \<Rightarrow> nat option \<Rightarrow> bytes list \<Rightarrow> bytes list option" where
  "flattenLoop st spn innerHashes =
     (case spn of
        None \<Rightarrow> Some innerHashes
      | Some a \<Rightarrow>
          flattenLoop st (pnParent (st ! a))
            (innerHashes @ (case pnLeft (st ! a) of
               Some l \<Rightarrow> [pnHash (st ! l)]
             | None \<Rightarrow> (case pnRight (st ! a) of Some r \<Rightarrow> [pnHash (st ! r)] | None \<Rightarrow> []))))"

declare flattenLoop.simps [code]

definition FlattenAunts :: "ProofNode list \<Rightarrow> nat \<Rightarrow> bytes list option" where
  "FlattenAunts st a = flattenLoop st (Some a) []"

fun proofLoop :: "ProofNode list \<Rightarrow> nat \<Rightarrow> nat \<Rightarrow> nat list \<Rightarrow> Proof list option" where
  "proofLoop st tot i [] = Some []"
| "proofLoop st tot i (trail # trails) = do {
     aunts \<leftarrow> FlattenAunts st trail;
     rest \<leftarrow> proofLoop st tot (Suc i) trails;
     Some (\<lparr>pfTotal = int tot, pfIndex = int i, pfLeafHash = pnHash (st ! trail), pfAunts = aunts\<rparr> # rest)
   }"

definition ProofsFromByteSlices :: "hash_fun \<Rightarrow> bytes list \<Rightarrow> (bytes \<times> Proof list) option" where
  "ProofsFromByteSlices H items =
     (let (trails, rootSPN, st) = trailsFromByteSlices H items [] in
      do { proofs \<leftarrow> proofLoop st (length items) 0 trails; Some (pnHash (st ! rootSPN), proofs) })"

section \<open>Checking proofs\<close>

lemma splitPoint_nat: "2 \<le> (n::int) \<Longrightarrow> 0 < splitPoint (nat n) \<and> int (splitPoint (nat n)) < n"
  using splitPoint_bounds [of "nat n"] by linarith

function computeHashFromAunts :: "hash_fun \<Rightarrow> int \<Rightarrow> int \<Rightarrow> bytes \<Rightarrow> bytes list \<Rightarrow> bytes option" where
  "computeHashFromAunts H index tot leaf innerHashes =
     (if index \<ge> tot \<or> index < 0 \<or> tot \<le> 0 then None
      else if tot = 1 then (if length innerHashes \<noteq> 0 then None else Some leaf)
      else if length innerHashes = 0 then None
      else (let numLeft = int (splitPoint (nat tot)) in
            if index < numLeft then
              (case computeHashFromAunts H index numLeft leaf (butlast innerHashes) of
                 None \<Rightarrow> None | Some leftHash \<Rightarrow> Some (innerHash H leftHash (last innerHashes)))
            else
              (case computeHashFromAunts H (index - numLeft) (tot - numLeft) leaf (butlast innerHashes) of
                 None \<Rightarrow> None | Some rightHash \<Rightarrow> Some (innerHash H (last innerHashes) rightHash))))"
  by pat_completeness auto

termination
proof (relation "measure (\<lambda>(H, index, tot, leaf, innerHashes). nat tot)", goal_cases)
  case (2 H index tot leaf innerHashes numLeft)
  then have "2 \<le> tot" by linarith
  with 2 show ?case using splitPoint_nat [of tot] by simp
next
  case (3 H index tot leaf innerHashes numLeft)
  then have "2 \<le> tot" by linarith
  with 3 show ?case using splitPoint_nat [of tot] by simp
qed simp

declare computeHashFromAunts.simps [simp del]

definition ComputeRootHash :: "hash_fun \<Rightarrow> Proof \<Rightarrow> bytes option" where
  "ComputeRootHash H sp = computeHashFromAunts H (pfIndex sp) (pfTotal sp) (pfLeafHash sp) (pfAunts sp)"

datatype proof_error =
    NegativeTotal | NegativeProofIndex | InvalidLeafHash | InvalidRootHash | WrongLeafHashSize | TooManyAunts
  | WrongAuntSize | NilProof

definition Proof_Verify :: "hash_fun \<Rightarrow> Proof \<Rightarrow> bytes \<Rightarrow> bytes \<Rightarrow> proof_error + unit" where
  "Proof_Verify H sp rootHash leaf =
     (if pfTotal sp < 0 then Inl NegativeTotal
      else if pfIndex sp < 0 then Inl NegativeProofIndex
      else if pfLeafHash sp \<noteq> leafHash H leaf then Inl InvalidLeafHash
      else if (case ComputeRootHash H sp of None \<Rightarrow> [] | Some h \<Rightarrow> h) \<noteq> rootHash then Inl InvalidRootHash
      else Inr ())"

definition MaxAunts :: nat where "MaxAunts = 100"

definition Proof_ValidateBasic :: "Proof \<Rightarrow> proof_error + unit" where
  "Proof_ValidateBasic sp =
     (if pfTotal sp < 0 then Inl NegativeTotal
      else if pfIndex sp < 0 then Inl NegativeProofIndex
      else if length (pfLeafHash sp) \<noteq> 32 then Inl WrongLeafHashSize
      else if length (pfAunts sp) > MaxAunts then Inl TooManyAunts
      else if \<exists>a \<in> set (pfAunts sp). length a \<noteq> 32 then Inl WrongAuntSize
      else Inr ())"

definition ProofFromProto :: "Proof option \<Rightarrow> proof_error + Proof" where
  "ProofFromProto pb =
     (case pb of None \<Rightarrow> Inl NilProof | Some sp \<Rightarrow> bindR (Proof_ValidateBasic sp) (\<lambda>_. Inr sp))"

section \<open>The trails\<close>

text \<open>The sibling hashes of leaf \<open>i\<close>, from the leaf up.\<close>

function auntsOf :: "hash_fun \<Rightarrow> bytes list \<Rightarrow> nat \<Rightarrow> bytes list" where
  "auntsOf H items i =
     (if length items = 0 then []
      else if length items = 1 then []
      else (let k = splitPoint (length items) in
            if i < k then auntsOf H (take k items) i @ [HashFromByteSlices H (drop k items)]
            else auntsOf H (drop k items) (i - k) @ [HashFromByteSlices H (take k items)]))"
  by pat_completeness auto
termination by (relation "measure (\<lambda>(H, items, i). length items)") (auto simp: split_decreases)

declare auntsOf.simps [simp del]

lemma auntsOf_split:
  "2 \<le> length items \<Longrightarrow> auntsOf H items i =
     (let k = splitPoint (length items) in
      if i < k then auntsOf H (take k items) i @ [HashFromByteSlices H (drop k items)]
      else auntsOf H (drop k items) (i - k) @ [HashFromByteSlices H (take k items)])"
  by (subst auntsOf.simps) auto

lemma HashFromByteSlices_split:
  "2 \<le> length items \<Longrightarrow> HashFromByteSlices H items =
     innerHash H (HashFromByteSlices H (take (splitPoint (length items)) items))
       (HashFromByteSlices H (drop (splitPoint (length items)) items))"
  by (subst HashFromByteSlices.simps) (auto simp: Let_def)

definition siblingOf :: "ProofNode list \<Rightarrow> nat \<Rightarrow> nat option" where
  "siblingOf st a = (case pnLeft (st ! a) of Some l \<Rightarrow> Some l | None \<Rightarrow> pnRight (st ! a))"

text \<open>\<open>path st lo a hs r\<close>: following the parents from \<open>a\<close> leads to \<open>r\<close> past the siblings with hashes
  \<open>hs\<close>, within the nodes from position \<open>lo\<close> on.\<close>

inductive path :: "ProofNode list \<Rightarrow> nat \<Rightarrow> nat \<Rightarrow> bytes list \<Rightarrow> nat \<Rightarrow> bool" for st lo where
  here: "lo \<le> r \<Longrightarrow> r < length st \<Longrightarrow> path st lo r [] r"
| up: "lo \<le> a \<Longrightarrow> a < length st \<Longrightarrow> pnParent (st ! a) = Some p \<Longrightarrow> siblingOf st a = Some s \<Longrightarrow>
    s < length st \<Longrightarrow> path st lo p hs r \<Longrightarrow> path st lo a (pnHash (st ! s) # hs) r"

lemma path_extend:
  assumes "path st lo a hs r" and "lo \<le> r" "r < length st" "pnParent (st ! r) = Some p" "siblingOf st r = Some s"
    "s < length st" "lo \<le> p" "p < length st"
  shows "path st lo a (hs @ [pnHash (st ! s)]) p"
  using assms
proof (induction rule: path.induct)
  case (here r)
  then show ?case using path.up [OF here.prems(1-5) path.here] by simp
next
  case (up a p s hs r)
  then show ?case using path.up [of lo a st] by simp
qed

text \<open>A path survives changes of the store that keep every hash and every node but its end.\<close>

lemma path_transfer:
  assumes "path st lo a hs r" and "pnParent (st ! r) = None" and "length st \<le> length st'"
    and "\<And>b. b < length st \<Longrightarrow> pnHash (st' ! b) = pnHash (st ! b)"
    and "\<And>b. lo \<le> b \<Longrightarrow> b < length st \<Longrightarrow> b \<noteq> r \<Longrightarrow> st' ! b = st ! b"
  shows "path st' lo a hs r"
  using assms
proof (induction rule: path.induct)
  case (here r)
  then show ?case by (intro path.here) auto
next
  case (up a p s hs r)
  have "a \<noteq> r" using up.hyps(3) up.prems(1) by auto
  then have "st' ! a = st ! a" using up.hyps up.prems by auto
  moreover from this have "siblingOf st' a = Some s" using up.hyps(4) by (simp add: siblingOf_def split: option.splits)
  ultimately have "path st' lo a (pnHash (st' ! s) # hs) r"
    using up by (intro path.up) auto
  then show ?case using up.prems(3) up.hyps(5) by simp
qed

lemma flattenLoop_path:
  assumes "path st lo a hs r" and "pnParent (st ! r) = None" and "siblingOf st r = None"
  shows "flattenLoop st (Some a) acc = Some (acc @ hs)"
  using assms
proof (induction arbitrary: acc rule: path.induct)
  case (here r)
  then show ?case by (simp add: flattenLoop.simps [of st "Some r"] flattenLoop.simps [of st None] siblingOf_def split: option.splits)
next
  case (up a p s hs r)
  then show ?case by (simp add: flattenLoop.simps [of st "Some a"] siblingOf_def split: option.splits)
qed

lemma linkRoots_facts:
  assumes "l < length st" "r < length st" "l \<noteq> r"
  shows "length (linkRoots H l r st) = Suc (length st)"
    and "b < length st \<Longrightarrow> pnHash (linkRoots H l r st ! b) = pnHash (st ! b)"
    and "b < length st \<Longrightarrow> b \<noteq> l \<Longrightarrow> b \<noteq> r \<Longrightarrow> linkRoots H l r st ! b = st ! b"
    and "pnParent (linkRoots H l r st ! l) = Some (length st)"
    and "pnParent (linkRoots H l r st ! r) = Some (length st)"
    and "pnLeft (st ! l) = None \<Longrightarrow> siblingOf (linkRoots H l r st) l = Some r"
    and "siblingOf (linkRoots H l r st) r = Some l"
    and "linkRoots H l r st ! length st = newNode (innerHash H (pnHash (st ! l)) (pnHash (st ! r)))"
  using assms by (auto simp: linkRoots_def Let_def nth_append nth_list_update siblingOf_def)

text \<open>What a call of \<open>trailsFromByteSlices\<close> returns: the trails of the items, in new nodes.\<close>

definition isRoot :: "ProofNode list \<Rightarrow> nat \<Rightarrow> bool" where
  "isRoot st r \<longleftrightarrow> r < length st \<and> pnParent (st ! r) = None \<and> pnLeft (st ! r) = None \<and> pnRight (st ! r) = None"

definition trailOk :: "hash_fun \<Rightarrow> bytes list \<Rightarrow> ProofNode list \<Rightarrow> nat \<Rightarrow> nat \<Rightarrow> nat \<Rightarrow> nat \<Rightarrow> bool" where
  "trailOk H items st lo r i a \<longleftrightarrow>
     a < length st \<and> pnHash (st ! a) = leafHash H (items ! i) \<and> path st lo a (auntsOf H items i) r"

definition trailsOk :: "hash_fun \<Rightarrow> bytes list \<Rightarrow> ProofNode list \<Rightarrow> nat list \<times> nat \<times> ProofNode list \<Rightarrow> bool" where
  "trailsOk H items st res \<longleftrightarrow>
     (case res of (trails, root, st') \<Rightarrow>
        length st \<le> root \<and> isRoot st' root \<and> take (length st) st' = st \<and>
        pnHash (st' ! root) = HashFromByteSlices H items \<and> length trails = length items \<and>
        (\<forall>i < length items. trailOk H items st' (length st) root i (trails ! i)))"

lemma path_weaken: "path st lo a hs r \<Longrightarrow> lo' \<le> lo \<Longrightarrow> path st lo' a hs r"
  by (induction rule: path.induct) (auto intro: path.intros)

lemma trail_transfer:
  assumes "trailOk H items st lo r i a" and "isRoot st r" and "length st \<le> length st'" and "lo' \<le> lo"
    and "\<And>b. b < length st \<Longrightarrow> pnHash (st' ! b) = pnHash (st ! b)"
    and "\<And>b. lo \<le> b \<Longrightarrow> b < length st \<Longrightarrow> b \<noteq> r \<Longrightarrow> st' ! b = st ! b"
  shows "trailOk H items st' lo' r i a"
proof -
  have "path st lo a (auntsOf H items i) r" "pnParent (st ! r) = None"
    using assms(1,2) by (simp_all add: trailOk_def isRoot_def)
  then have "path st' lo a (auntsOf H items i) r" using assms(3,5,6) by (rule path_transfer)
  then have "path st' lo' a (auntsOf H items i) r" using assms(4) by (rule path_weaken)
  moreover have "a < length st" "pnHash (st ! a) = leafHash H (items ! i)" using assms(1) by (simp_all add: trailOk_def)
  ultimately show ?thesis using assms(3,5) by (simp add: trailOk_def)
qed

lemma trail_up:
  assumes "trailOk H sub st lo r j a" and "lo \<le> r" "r < length st" "pnParent (st ! r) = Some p" "siblingOf st r = Some s"
    "s < length st" "lo \<le> p" "p < length st"
    and "auntsOf H items i = auntsOf H sub j @ [pnHash (st ! s)]" and "sub ! j = items ! i"
  shows "trailOk H items st lo p i a"
proof -
  have "path st lo a (auntsOf H sub j) r" using assms(1) by (simp add: trailOk_def)
  then have "path st lo a (auntsOf H sub j @ [pnHash (st ! s)]) p" using assms(2-8) by (rule path_extend)
  then show ?thesis using assms(1,9,10) by (simp add: trailOk_def)
qed

text \<open>The trails of both halves are trails of the whole once their roots are linked.\<close>

lemma trailsOk_link:
  assumes n: "2 \<le> length items" and k: "k = splitPoint (length items)"
    and l: "trailsOk H (take k items) st (lefts, leftRoot, st1)"
    and r: "trailsOk H (drop k items) st1 (rights, rightRoot, st2)"
  shows "trailsOk H items st (lefts @ rights, length st2, linkRoots H leftRoot rightRoot st2)"
proof -
  let ?st = "linkRoots H leftRoot rightRoot st2"
  have kb: "0 < k" "k < length items" using splitPoint_bounds [OF n] k by auto
  have st1: "take (length st1) st2 = st1" "length st1 \<le> rightRoot" "isRoot st2 rightRoot" using r by (auto simp: trailsOk_def)
  then have len: "length st1 \<le> length st2" by (metis length_take min.cobounded1 nat_le_linear take_all)
  have same1: "st2 ! b = st1 ! b" if "b < length st1" for b using st1(1) that by (metis nth_take)
  have l1: "leftRoot < length st1" "length st \<le> leftRoot" "isRoot st1 leftRoot" using l by (auto simp: trailsOk_def isRoot_def)
  have roots: "leftRoot < length st2" "rightRoot < length st2" "leftRoot \<noteq> rightRoot"
    using l1 st1 len by (auto simp: isRoot_def)
  note link = linkRoots_facts [OF roots, where H = H]
  have "pnLeft (st2 ! leftRoot) = None" using l1 same1 by (simp add: isRoot_def)
  note sib = link(6) [OF this] link(7)
  have hashes: "pnHash (st2 ! leftRoot) = HashFromByteSlices H (take k items)"
    "pnHash (st2 ! rightRoot) = HashFromByteSlices H (drop k items)"
    using l r l1(1) same1 by (auto simp: trailsOk_def)
  have bounds: "leftRoot < length ?st" "rightRoot < length ?st" "length st2 < length ?st" "length st \<le> length st2" "length st \<le> rightRoot"
    using roots link(1) l1 st1(2) by auto
  have left: "trailOk H items ?st (length st) (length st2) i (lefts ! i)" if "i < k" for i
  proof -
    have "trailOk H (take k items) st1 (length st) leftRoot i (lefts ! i)" using l that kb by (simp add: trailsOk_def)
    then have tr: "trailOk H (take k items) ?st (length st) leftRoot i (lefts ! i)"
      by (rule trail_transfer) (use l1 same1 len link st1 in auto)
    have au: "auntsOf H items i = auntsOf H (take k items) i @ [pnHash (?st ! rightRoot)]"
      using that n k hashes(2) link(2) [OF roots(2)] by (simp add: auntsOf_split Let_def)
    show ?thesis
      by (rule trail_up [OF tr l1(2) bounds(1) link(4) sib(1) bounds(2,4,3) au]) (use that in simp)
  qed
  have right: "trailOk H items ?st (length st) (length st2) (k + i) (rights ! i)" if "k + i < length items" for i
  proof -
    have "trailOk H (drop k items) st2 (length st1) rightRoot i (rights ! i)" using r that by (simp add: trailsOk_def)
    then have tr: "trailOk H (drop k items) ?st (length st) rightRoot i (rights ! i)"
      by (rule trail_transfer) (use l1 same1 len link st1 in auto)
    have au: "auntsOf H items (k + i) = auntsOf H (drop k items) i @ [pnHash (?st ! leftRoot)]"
      using n k hashes(1) link(2) [OF roots(1)] by (simp add: auntsOf_split Let_def)
    show ?thesis
      by (rule trail_up [OF tr bounds(5,2) link(5) sib(2) bounds(1,4,3) au]) (use that in simp)
  qed
  have lens: "length lefts = k" "length rights = length items - k" using l r kb by (auto simp: trailsOk_def)
  have all: "trailOk H items ?st (length st) (length st2) i ((lefts @ rights) ! i)" if "i < length items" for i
    using left [of i] right [of "i - k"] that lens by (cases "i < k") (auto simp: nth_append)
  have "take (length st) ?st = st"
  proof (rule nth_equalityI)
    show "length (take (length st) ?st) = length st" using l1 roots link(1) by simp
    fix b assume b: "b < length (take (length st) ?st)"
    then have "b < length st" by simp
    moreover have "take (length st) st1 = st" using l by (simp add: trailsOk_def)
    ultimately have "st1 ! b = st ! b" by (metis nth_take)
    then show "take (length st) ?st ! b = st ! b" using \<open>b < length st\<close> l1 st1 same1 link(3) roots by auto
  qed
  then show ?thesis using all lens kb link(1,8) hashes l1 roots n k
    by (auto simp: trailsOk_def isRoot_def newNode_def HashFromByteSlices_split [OF n])
qed

lemma trailsFromByteSlices_ok: "trailsOk H items st (trailsFromByteSlices H items st)"
proof (induction "length items" arbitrary: items st rule: less_induct)
  case less
  consider "items = []" | x where "items = [x]" | "2 \<le> length items"
    by (cases items; cases "tl items") auto
  then show ?case
  proof cases
    case 1
    then show ?thesis by (simp add: trailsFromByteSlices.simps trailsOk_def isRoot_def newNode_def HashFromByteSlices.simps)
  next
    case 2
    then show ?thesis
      by (simp add: trailsFromByteSlices.simps trailsOk_def isRoot_def newNode_def HashFromByteSlices.simps [of H "[x]"]
          trailOk_def auntsOf.simps path.here)
  next
    case 3
    define k where "k = splitPoint (length items)"
    obtain lefts leftRoot st1 where l: "trailsFromByteSlices H (take k items) st = (lefts, leftRoot, st1)" by (rule prod_cases3)
    obtain rights rightRoot st2 where r: "trailsFromByteSlices H (drop k items) st1 = (rights, rightRoot, st2)" by (rule prod_cases3)
    have k: "0 < k" "k < length items" using splitPoint_bounds [OF 3] by (auto simp: k_def)
    have "trailsOk H (take k items) st (lefts, leftRoot, st1)" using less [of "take k items" st] k l by simp
    moreover have "trailsOk H (drop k items) st1 (rights, rightRoot, st2)" using less [of "drop k items" st1] k r by simp
    ultimately have "trailsOk H items st (lefts @ rights, length st2, linkRoots H leftRoot rightRoot st2)"
      using 3 k_def by (intro trailsOk_link)
    moreover have "trailsFromByteSlices H items st = (lefts @ rights, length st2, linkRoots H leftRoot rightRoot st2)"
      using 3 l r k_def by (subst trailsFromByteSlices.simps) (auto simp: Let_def)
    ultimately show ?thesis by simp
  qed
qed

section \<open>Completeness\<close>

definition proofOf :: "hash_fun \<Rightarrow> bytes list \<Rightarrow> nat \<Rightarrow> Proof" where
  "proofOf H items i =
     \<lparr>pfTotal = int (length items), pfIndex = int i, pfLeafHash = leafHash H (items ! i), pfAunts = auntsOf H items i\<rparr>"

lemma proofLoop_eq:
  assumes "\<And>j. j < length trails \<Longrightarrow> FlattenAunts st (trails ! j) = Some (f (i + j))"
  shows "proofLoop st n i trails =
    Some (map (\<lambda>j. \<lparr>pfTotal = int n, pfIndex = int (i + j), pfLeafHash = pnHash (st ! (trails ! j)), pfAunts = f (i + j)\<rparr>)
      [0..<length trails])"
  using assms
proof (induction trails arbitrary: i)
  case (Cons t ts)
  have "FlattenAunts st (ts ! j) = Some (f (Suc i + j))" if "j < length ts" for j
    using Cons.prems [of "Suc j"] that by simp
  from Cons.IH [OF this] show ?case
    using Cons.prems [of 0] by (simp add: upt_conv_Cons map_Suc_upt [symmetric] comp_def del: upt_Suc)
qed simp

lemma ProofsFromByteSlices_eq:
  "ProofsFromByteSlices H items = Some (HashFromByteSlices H items, map (proofOf H items) [0..<length items])"
proof -
  obtain trails r st where t: "trailsFromByteSlices H items [] = (trails, r, st)" by (rule prod_cases3)
  have ok: "trailsOk H items [] (trails, r, st)" using trailsFromByteSlices_ok [of H items "[]"] t by simp
  then have len: "length trails = length items" and root: "pnHash (st ! r) = HashFromByteSlices H items" "isRoot st r"
    by (simp_all add: trailsOk_def)
  have tr: "trailOk H items st 0 r j (trails ! j)" if "j < length items" for j using ok that by (simp add: trailsOk_def)
  have "FlattenAunts st (trails ! j) = Some (auntsOf H items j)" if "j < length items" for j
    using tr [OF that] root(2) flattenLoop_path [of st 0 "trails ! j" "auntsOf H items j" r "[]"]
    by (simp add: FlattenAunts_def trailOk_def isRoot_def siblingOf_def)
  then have "proofLoop st (length items) 0 trails = Some (map (\<lambda>j. \<lparr>pfTotal = int (length items), pfIndex = int j,
      pfLeafHash = pnHash (st ! (trails ! j)), pfAunts = auntsOf H items j\<rparr>) [0..<length items])"
    using proofLoop_eq [of trails st "auntsOf H items" 0 "length items"] len by simp
  also have "map (\<lambda>j. \<lparr>pfTotal = int (length items), pfIndex = int j,
      pfLeafHash = pnHash (st ! (trails ! j)), pfAunts = auntsOf H items j\<rparr>) [0..<length items] =
      map (proofOf H items) [0..<length items]"
    using tr by (intro map_cong) (auto simp: proofOf_def trailOk_def)
  finally show ?thesis using t root(1) by (simp add: ProofsFromByteSlices_def)
qed

lemma compute_step:
  assumes "2 \<le> n" and "0 \<le> i" and "i < n"
  shows "computeHashFromAunts H i n leaf (hs @ [h]) =
    (let m = int (splitPoint (nat n)) in
     if i < m then map_option (\<lambda>l. innerHash H l h) (computeHashFromAunts H i m leaf hs)
     else map_option (\<lambda>r. innerHash H h r) (computeHashFromAunts H (i - m) (n - m) leaf hs))"
  using assms by (subst computeHashFromAunts.simps) (auto simp: Let_def split: option.splits)

lemma compute_one: "computeHashFromAunts H i n leaf hs = Some x \<Longrightarrow> n = 1 \<Longrightarrow> hs = [] \<and> x = leaf \<and> i = 0"
  by (subst (asm) computeHashFromAunts.simps) (auto split: if_splits)

lemma compute_auntsOf:
  "i < length items \<Longrightarrow>
   computeHashFromAunts H (int i) (int (length items)) (leafHash H (items ! i)) (auntsOf H items i) =
     Some (HashFromByteSlices H items)"
proof (induction "length items" arbitrary: items i rule: less_induct)
  case less
  show ?case
  proof (cases "2 \<le> length items")
    case False
    then have "length items = 1" using less.prems by linarith
    then show ?thesis using less.prems
      by (simp add: computeHashFromAunts.simps auntsOf.simps [of H items] HashFromByteSlices.simps [of H items])
  next
    case True
    let ?k = "splitPoint (length items)"
    have k: "0 < ?k" "?k < length items" using splitPoint_bounds [OF True] by auto
    show ?thesis
    proof (cases "i < ?k")
      case lt: True
      then show ?thesis using less(1) [of "take ?k items" i] k True less.prems
        by (simp add: auntsOf_split compute_step HashFromByteSlices_split Let_def min_def)
    next
      case False
      then show ?thesis using less(1) [of "drop ?k items" "i - ?k"] k True less.prems
        by (simp add: auntsOf_split compute_step HashFromByteSlices_split Let_def of_nat_diff)
    qed
  qed
qed

text \<open>C37: \<open>ProofsFromByteSlices\<close> returns (its pointer walks end) the tree's root hash and one proof for
  every item, and each proof is accepted for its item under that root.\<close>

theorem proofs_verify:
  "\<exists>root proofs. ProofsFromByteSlices H items = Some (root, proofs) \<and> root = HashFromByteSlices H items \<and>
     length proofs = length items \<and>
     list_all2 (\<lambda>sp item. Proof_Verify H sp root item = Inr ()) proofs items"
  by (simp add: ProofsFromByteSlices_eq list_all2_conv_all_nth Proof_Verify_def ComputeRootHash_def proofOf_def compute_auntsOf)

section \<open>Soundness\<close>

text \<open>The inputs the hash function gets when the root of \<open>items\<close> is computed, and when a proof is
  checked.\<close>

function treeInputs :: "hash_fun \<Rightarrow> bytes list \<Rightarrow> bytes list" where
  "treeInputs H items =
     (if length items = 0 then [[]]
      else if length items = 1 then [0 # items ! 0]
      else (let k = splitPoint (length items) in
            (1 # HashFromByteSlices H (take k items) @ HashFromByteSlices H (drop k items)) #
              treeInputs H (take k items) @ treeInputs H (drop k items)))"
  by pat_completeness auto
termination by (relation "measure (\<lambda>(H, items). length items)") (auto simp: split_decreases)

declare treeInputs.simps [simp del]

function auntInputs :: "hash_fun \<Rightarrow> int \<Rightarrow> int \<Rightarrow> bytes \<Rightarrow> bytes list \<Rightarrow> bytes list" where
  "auntInputs H i n leaf hs =
     (if i < 0 \<or> n \<le> i \<or> n \<le> 1 \<or> hs = [] then []
      else (let m = int (splitPoint (nat n)) in
            if i < m then
              (case computeHashFromAunts H i m leaf (butlast hs) of None \<Rightarrow> [] | Some l \<Rightarrow> [1 # l @ last hs]) @
                auntInputs H i m leaf (butlast hs)
            else
              (case computeHashFromAunts H (i - m) (n - m) leaf (butlast hs) of None \<Rightarrow> [] | Some r \<Rightarrow> [1 # last hs @ r]) @
                auntInputs H (i - m) (n - m) leaf (butlast hs)))"
  by pat_completeness auto
termination by (relation "measure (\<lambda>(H, i, n, leaf, hs). length hs)") auto

declare auntInputs.simps [simp del]

definition hashedInputs :: "hash_fun \<Rightarrow> bytes list \<Rightarrow> Proof \<Rightarrow> bytes \<Rightarrow> bytes set" where
  "hashedInputs H items sp leaf =
     set (treeInputs H items) \<union> set (auntInputs H (pfIndex sp) (pfTotal sp) (pfLeafHash sp) (pfAunts sp)) \<union> {0 # leaf}"

lemma compute_length:
  assumes "\<And>x. length (H x) = 32" and "computeHashFromAunts H i n leaf hs = Some x" and "length leaf = 32"
  shows "length x = 32"
  using assms(2,3)
  by (subst (asm) computeHashFromAunts.simps)
    (auto simp: Let_def innerHash_def assms(1) split: if_splits option.splits)

lemma tree_length: "(\<And>x. length (H x) = 32) \<Longrightarrow> length (HashFromByteSlices H items) = 32"
  by (subst HashFromByteSlices.simps) (simp add: emptyHash_def leafHash_def innerHash_def Let_def)

lemma treeInputs_split:
  "2 \<le> length items \<Longrightarrow> treeInputs H items =
     (1 # HashFromByteSlices H (take (splitPoint (length items)) items) @ HashFromByteSlices H (drop (splitPoint (length items)) items)) #
       treeInputs H (take (splitPoint (length items)) items) @ treeInputs H (drop (splitPoint (length items)) items)"
  by (subst treeInputs.simps) (auto simp: Let_def)

lemma auntInputs_step:
  assumes "2 \<le> n" and "0 \<le> i" and "i < n"
  shows "auntInputs H i n leaf (hs @ [h]) =
    (let m = int (splitPoint (nat n)) in
     if i < m then
       (case computeHashFromAunts H i m leaf hs of None \<Rightarrow> [] | Some l \<Rightarrow> [1 # l @ h]) @ auntInputs H i m leaf hs
     else
       (case computeHashFromAunts H (i - m) (n - m) leaf hs of None \<Rightarrow> [] | Some r \<Rightarrow> [1 # h @ r]) @
         auntInputs H (i - m) (n - m) leaf hs)"
  using assms by (subst auntInputs.simps) (simp add: Let_def split: option.splits)

lemma inner_inj:
  assumes "inj_on H A" and "1 # a @ b \<in> A" and "1 # c @ d \<in> A" and "innerHash H a b = innerHash H c d"
    and "length a = length c \<or> length b = length d"
  shows "a = c" and "b = d"
proof -
  have "1 # a @ b = 1 # c @ d" using assms(1-4) by (auto simp: innerHash_def dest: inj_onD)
  then show "a = c" "b = d" using assms(5) by auto
qed

lemma compute_range: "computeHashFromAunts H i n leaf hs = Some x \<Longrightarrow> 0 \<le> i \<and> i < n"
  by (subst (asm) computeHashFromAunts.simps) (auto split: if_splits)

lemma compute_nil: "2 \<le> n \<Longrightarrow> computeHashFromAunts H i n leaf [] = None"
  by (subst computeHashFromAunts.simps) auto

lemma compute_sound:
  assumes len: "\<And>x. length (H x) = 32" and leaf: "length leaf = 32"
    and "computeHashFromAunts H i (int (length items)) leaf hs = Some (HashFromByteSlices H items)"
    and "inj_on H (set (treeInputs H items) \<union> set (auntInputs H i (int (length items)) leaf hs))"
  shows "leaf = leafHash H (items ! nat i)"
  using assms(3,4)
proof (induction "length items" arbitrary: items i hs rule: less_induct)
  case less
  have i: "0 \<le> i" "i < int (length items)" using compute_range [OF less.prems(1)] by auto
  show ?case
  proof (cases "2 \<le> length items")
    case False
    then have "length items = 1" using i by linarith
    then show ?thesis using compute_one [OF less.prems(1)] by (simp add: HashFromByteSlices.simps [of H items])
  next
    case True
    let ?k = "splitPoint (length items)" and ?A = "set (treeInputs H items) \<union> set (auntInputs H i (int (length items)) leaf hs)"
    have k: "0 < ?k" "?k < length items" using splitPoint_bounds [OF True] by auto
    have "hs \<noteq> []" using less.prems(1) True compute_nil by force
    then obtain bs h where hs: "hs = bs @ [h]" by (metis append_butlast_last_id)
    have n: "2 \<le> int (length items)" using True by simp
    note c = less.prems(1) [unfolded hs compute_step [OF n i], folded hs]
    note a = auntInputs_step [OF n i, of H leaf bs h, folded hs]
    have root: "1 # HashFromByteSlices H (take ?k items) @ HashFromByteSlices H (drop ?k items) \<in> ?A"
      using True by (simp add: treeInputs_split)
    note lens = tree_length [OF len]
    show ?thesis
    proof (cases "i < int ?k")
      case lt: True
      then obtain l where l: "computeHashFromAunts H i (int ?k) leaf bs = Some l"
        "innerHash H l h = innerHash H (HashFromByteSlices H (take ?k items)) (HashFromByteSlices H (drop ?k items))"
        using c HashFromByteSlices_split [OF True] by (auto simp: Let_def)
      have "1 # l @ h \<in> ?A" using a lt l(1) by (simp add: Let_def)
      from inner_inj(1) [OF less.prems(2) this root l(2)] have eq: "l = HashFromByteSlices H (take ?k items)"
        using compute_length [OF len l(1) leaf] lens by simp
      have "inj_on H (set (treeInputs H (take ?k items)) \<union> set (auntInputs H i (int ?k) leaf bs))"
        using less.prems(2) by (rule inj_on_subset) (use a lt True in \<open>auto simp: Let_def treeInputs_split\<close>)
      then show ?thesis using less(1) [of "take ?k items" i bs] k l(1) eq lt i by (simp add: min_def)
    next
      case ge: False
      then obtain r where r: "computeHashFromAunts H (i - int ?k) (int (length items) - int ?k) leaf bs = Some r"
        "innerHash H h r = innerHash H (HashFromByteSlices H (take ?k items)) (HashFromByteSlices H (drop ?k items))"
        using c HashFromByteSlices_split [OF True] by (auto simp: Let_def)
      have "1 # h @ r \<in> ?A" using a ge r(1) by (simp add: Let_def)
      from inner_inj(2) [OF less.prems(2) this root r(2)] have eq: "r = HashFromByteSlices H (drop ?k items)"
        using compute_length [OF len r(1) leaf] lens by simp
      have "inj_on H (set (treeInputs H (drop ?k items)) \<union> set (auntInputs H (i - int ?k) (int (length items) - int ?k) leaf bs))"
        using less.prems(2) by (rule inj_on_subset) (use a ge True in \<open>auto simp: Let_def treeInputs_split\<close>)
      then show ?thesis using less(1) [of "drop ?k items" "i - int ?k" bs] k r(1) eq ge i
        by (simp add: of_nat_diff nat_diff_distrib)
    qed
  qed
qed

lemma leaf_input: "i < length items \<Longrightarrow> 0 # items ! i \<in> set (treeInputs H items)"
proof (induction "length items" arbitrary: items i rule: less_induct)
  case less
  show ?case
  proof (cases "2 \<le> length items")
    case False
    then have "length items = 1" "i = 0" using less.prems by linarith+
    then show ?thesis by (simp add: treeInputs.simps [of H items])
  next
    case True
    let ?k = "splitPoint (length items)"
    have k: "0 < ?k" "?k < length items" using splitPoint_bounds [OF True] by auto
    show ?thesis
    proof (cases "i < ?k")
      case lt: True
      then show ?thesis using less(1) [of "take ?k items" i] k True by (simp add: treeInputs_split)
    next
      case False
      then show ?thesis using less(1) [of "drop ?k items" "i - ?k"] k True less.prems by (simp add: treeInputs_split)
    qed
  qed
qed

text \<open>C38: Soundness of inclusion proofs. For a hash with 32 byte outputs that has no collision among the
  inputs hashed for the tree and for the proof, a proof that is accepted under the root of \<open>items\<close> and
  states their number is a proof for the item at its index.\<close>

theorem proof_sound:
  assumes len: "\<And>x. length (H x) = 32" and inj: "inj_on H (hashedInputs H items sp leaf)"
    and ok: "Proof_Verify H sp (HashFromByteSlices H items) leaf = Inr ()" and n: "pfTotal sp = int (length items)"
  shows "pfIndex sp < int (length items) \<and> leaf = items ! nat (pfIndex sp)"
proof -
  have lh: "pfLeafHash sp = leafHash H leaf" using ok by (auto simp: Proof_Verify_def split: if_splits)
  have c: "computeHashFromAunts H (pfIndex sp) (int (length items)) (pfLeafHash sp) (pfAunts sp) = Some (HashFromByteSlices H items)"
    using ok n tree_length [of H items, OF len]
    by (auto simp: Proof_Verify_def ComputeRootHash_def split: if_splits option.splits)
  have i: "0 \<le> pfIndex sp" "pfIndex sp < int (length items)" using compute_range [OF c] by auto
  have "pfLeafHash sp = leafHash H (items ! nat (pfIndex sp))"
    by (rule compute_sound [OF len _ c]) (use inj n lh len in \<open>auto simp: hashedInputs_def leafHash_def intro: inj_on_subset\<close>)
  moreover have "0 # items ! nat (pfIndex sp) \<in> hashedInputs H items sp leaf" "0 # leaf \<in> hashedInputs H items sp leaf"
    using leaf_input [of "nat (pfIndex sp)" items] i by (auto simp: hashedInputs_def)
  ultimately show ?thesis using lh inj i by (auto simp: leafHash_def dest: inj_onD)
qed

text \<open>A hash with 32 byte outputs for the witnesses: the input, cut or padded.\<close>

definition padHash :: hash_fun where
  "padHash x = take 32 (x @ replicate 32 255)"

lemma padHash_length: "length (padHash x) = 32"
  by (simp add: padHash_def)

theorem proof_sound_witness:
  "pfIndex (proofOf padHash [[1], [2]] 1) < 2 \<and> ([2] :: bytes) = [[1], [2]] ! nat (pfIndex (proofOf padHash [[1], [2]] 1))"
proof -
  let ?sp = "proofOf padHash [[1], [2]] 1"
  have "hashedInputs padHash [[1], [2]] ?sp [2] = set (treeInputs padHash [[1], [2]] @
    auntInputs padHash (pfIndex ?sp) (pfTotal ?sp) (pfLeafHash ?sp) (pfAunts ?sp) @ [[0, 2]])"
    by (auto simp: hashedInputs_def)
  moreover have "distinct (map padHash (remdups (treeInputs padHash [[1], [2]] @
    auntInputs padHash (pfIndex ?sp) (pfTotal ?sp) (pfLeafHash ?sp) (pfAunts ?sp) @ [[0, 2]])))"
    by code_simp
  ultimately have "inj_on padHash (hashedInputs padHash [[1], [2]] ?sp [2])"
    by (metis distinct_map set_remdups)
  moreover have "Proof_Verify padHash ?sp (HashFromByteSlices padHash [[1], [2]]) [2] = Inr ()" by code_simp
  moreover have "pfTotal ?sp = int (length [[1], [2] :: bytes])" by (simp add: proofOf_def)
  ultimately show ?thesis using proof_sound [OF padHash_length] by fastforce
qed

end
