(* ===== verification/PartSet.thy ===== *)
theory PartSet
  imports MerkleProof BitArray BlockTypes
begin

text \<open>
  \<open>types/part_set.go\<close>: a block cut into parts that are gossiped one by one, each with a Merkle proof
  under the hash in the part set header. Go's \<open>uint32\<close> counters are \<open>32 word\<close>; a nil part is \<open>None\<close>;
  the reader of a complete set is its position, the remaining bytes of the current part and the parts.
\<close>

section \<open>Part sets\<close>

datatype part_error = ErrPartSetUnexpectedIndex | ErrPartSetInvalidProof | PartTooBig | WrongProof proof_error | NilPart

record part =
  partIndex :: "32 word"
  partBytes :: bytes
  partProof :: Proof

definition BlockPartSizeBytes :: nat where "BlockPartSizeBytes = 65536"

definition Part_ValidateBasic :: "part \<Rightarrow> part_error + unit" where
  "Part_ValidateBasic p =
     (if length (partBytes p) > BlockPartSizeBytes then Inl PartTooBig
      else case Proof_ValidateBasic (partProof p) of Inl e \<Rightarrow> Inl (WrongProof e) | Inr _ \<Rightarrow> Inr ())"

definition PartFromProto :: "part option \<Rightarrow> part_error + part" where
  "PartFromProto pb =
     (case pb of None \<Rightarrow> Inl NilPart
      | Some p \<Rightarrow> (case ProofFromProto (Some (partProof p)) of
                     Inl e \<Rightarrow> Inl (WrongProof e)
                   | Inr _ \<Rightarrow> bindR (Part_ValidateBasic p) (\<lambda>_. Inr p)))"

record part_set =
  psTotal :: "32 word"
  psHash :: bytes
  psParts :: "part option list"
  psBitArray :: "bit_array option"
  psCount :: "32 word"
  psByteSize :: int

text \<open>Go's slice expression \<open>data[lo:hi]\<close>.\<close>

definition goSlice :: "'a list \<Rightarrow> nat \<Rightarrow> nat \<Rightarrow> 'e fault + 'a list" where
  "goSlice xs lo hi =
     (if lo \<le> hi \<and> hi \<le> length xs then Inr (take (hi - lo) (drop lo xs)) else Inl (Panic ''slice bounds out of range''))"

definition emptyProof :: Proof where
  "emptyProof = \<lparr>pfTotal = 0, pfIndex = 0, pfLeafHash = [], pfAunts = []\<rparr>"

text \<open>The loop that cuts the data, for the indices \<open>i, \<dots>, tot - 1\<close>.\<close>

fun cutLoop ::
  "bytes \<Rightarrow> 32 word \<Rightarrow> nat list \<Rightarrow> bit_array option \<Rightarrow> 'e fault + (part list \<times> bit_array option)"
where
  "cutLoop data partSize [] ba = Inr ([], ba)"
| "cutLoop data partSize (i # rest) ba =
     bindR (goSlice data (unat (of_nat i * partSize)) (min (length data) (unat ((of_nat i + 1) * partSize)))) (\<lambda>bz.
     bindR (SetIndex ba (int i) True) (\<lambda>(ba', _).
     bindR (cutLoop data partSize rest ba') (\<lambda>(parts, ba'').
       Inr (\<lparr>partIndex = of_nat i, partBytes = bz, partProof = emptyProof\<rparr> # parts, ba''))))"

definition NewPartSetFromData :: "hash_fun \<Rightarrow> bytes \<Rightarrow> 32 word \<Rightarrow> 'e fault + part_set" where
  "NewPartSetFromData H data partSize =
     (if partSize = 0 then Inl (Panic ''integer divide by zero'')
      else
        let tot = (of_nat (length data) + partSize - 1) div partSize in
        bindR (cutLoop data partSize [0..<unat tot] (NewBitArray (int (unat tot)))) (\<lambda>(parts, ba).
          case ProofsFromByteSlices H (map partBytes parts) of
            None \<Rightarrow> Inl (Panic ''unreachable: the proof trails are finite'')
          | Some (root, proofs) \<Rightarrow>
              Inr \<lparr>psTotal = tot, psHash = root,
                   psParts = map2 (\<lambda>p pf. Some (p\<lparr>partProof := pf\<rparr>)) parts proofs,
                   psBitArray = ba, psCount = tot, psByteSize = int (length data)\<rparr>))"

definition NewPartSetFromHeader :: "part_set_header \<Rightarrow> part_set" where
  "NewPartSetFromHeader h =
     \<lparr>psTotal = pshTotal h, psHash = pshHash h, psParts = replicate (unat (pshTotal h)) None,
      psBitArray = NewBitArray (int (unat (pshTotal h))), psCount = 0, psByteSize = 0\<rparr>"

definition PS_Header :: "part_set option \<Rightarrow> part_set_header" where
  "PS_Header ps = (case ps of None \<Rightarrow> \<lparr>pshTotal = 0, pshHash = []\<rparr> | Some p \<Rightarrow> \<lparr>pshTotal = psTotal p, pshHash = psHash p\<rparr>)"

definition HasHeader :: "part_set option \<Rightarrow> part_set_header \<Rightarrow> bool" where
  "HasHeader ps h = (case ps of None \<Rightarrow> False | Some _ \<Rightarrow> PSH_Equals (PS_Header ps) h)"

definition PS_BitArray :: "part_set \<Rightarrow> bit_array option" where
  "PS_BitArray ps = BA_Copy (psBitArray ps)"

definition PS_Hash :: "hash_fun \<Rightarrow> part_set option \<Rightarrow> bytes" where
  "PS_Hash H ps = (case ps of None \<Rightarrow> HashFromByteSlices H [] | Some p \<Rightarrow> psHash p)"

definition PS_HashesTo :: "part_set option \<Rightarrow> bytes \<Rightarrow> bool" where
  "PS_HashesTo ps h = (case ps of None \<Rightarrow> False | Some p \<Rightarrow> psHash p = h)"

definition PS_Count :: "part_set option \<Rightarrow> 32 word" where
  "PS_Count ps = (case ps of None \<Rightarrow> 0 | Some p \<Rightarrow> psCount p)"

definition PS_ByteSize :: "part_set option \<Rightarrow> int" where
  "PS_ByteSize ps = (case ps of None \<Rightarrow> 0 | Some p \<Rightarrow> psByteSize p)"

definition PS_Total :: "part_set option \<Rightarrow> 32 word" where
  "PS_Total ps = (case ps of None \<Rightarrow> 0 | Some p \<Rightarrow> psTotal p)"

definition AddPart :: "hash_fun \<Rightarrow> part_set option \<Rightarrow> part \<Rightarrow> 'e fault + (part_set option \<times> bool \<times> part_error option)" where
  "AddPart H ps p =
     (case ps of None \<Rightarrow> Inr (None, False, None)
      | Some s \<Rightarrow>
          if partIndex p \<ge> psTotal s then Inr (ps, False, Some ErrPartSetUnexpectedIndex)
          else bindR (goIndex (psParts s) (int (unat (partIndex p)))) (\<lambda>old.
            if old \<noteq> None then Inr (ps, False, None)
            else if Proof_Verify H (partProof p) (PS_Hash H ps) (partBytes p) \<noteq> Inr ()
            then Inr (ps, False, Some ErrPartSetInvalidProof)
            else bindR (goUpdate (psParts s) (int (unat (partIndex p))) (Some p)) (\<lambda>parts.
                 bindR (SetIndex (psBitArray s) (int (unat (partIndex p))) True) (\<lambda>(ba, _).
                   Inr (Some (s\<lparr>psParts := parts, psBitArray := ba, psCount := psCount s + 1,
                                psByteSize := wrap64 (psByteSize s + int (length (partBytes p)))\<rparr>), True, None)))))"

definition GetPart :: "part_set \<Rightarrow> int \<Rightarrow> 'e fault + part option" where
  "GetPart ps i = goIndex (psParts ps) i"

definition IsComplete :: "part_set \<Rightarrow> bool" where
  "IsComplete ps \<longleftrightarrow> psCount ps = psTotal ps"

section \<open>Reading a complete set\<close>

record PartSetReader =
  psrI :: nat
  psrParts :: "part option list"
  psrReader :: bytes

text \<open>Reading the bytes of a part that is nil panics.\<close>

definition partBytesAt :: "part option list \<Rightarrow> nat \<Rightarrow> 'e fault + bytes" where
  "partBytesAt parts i =
     bindR (goIndex parts (int i)) (\<lambda>p. case p of None \<Rightarrow> Inl (Panic ''nil pointer dereference'') | Some q \<Rightarrow> Inr (partBytes q))"

definition NewPartSetReader :: "part option list \<Rightarrow> 'e fault + PartSetReader" where
  "NewPartSetReader parts = bindR (partBytesAt parts 0) (\<lambda>bz. Inr \<lparr>psrI = 0, psrParts = parts, psrReader = bz\<rparr>)"

definition GetReader :: "part_set \<Rightarrow> 'e fault + PartSetReader" where
  "GetReader ps =
     (if \<not> IsComplete ps then Inl (Panic ''Cannot GetReader() on incomplete PartSet'') else NewPartSetReader (psParts ps))"

text \<open>\<open>Read\<close> into a slice of length \<open>n\<close>: the bytes read, whether it returned \<open>io.EOF\<close>, and the reader
  after it. The first of its two nested reads is for exactly the bytes that are left of the part.\<close>

function PSR_Read :: "PartSetReader \<Rightarrow> nat \<Rightarrow> 'e fault + (bytes \<times> bool \<times> PartSetReader)" where
  "PSR_Read psr n =
     (let rem = psrReader psr in
      if length rem \<ge> n then
        (if rem = [] then Inr ([], True, psr) else Inr (take n rem, False, psr\<lparr>psrReader := drop n rem\<rparr>))
      else if length rem > 0 then
        bindR (PSR_Read (psr\<lparr>psrReader := []\<rparr>) (n - length rem)) (\<lambda>(bz, eof, psr'). Inr (rem @ bz, eof, psr'))
      else if psrI psr + 1 \<ge> length (psrParts psr) then Inr ([], True, psr\<lparr>psrI := psrI psr + 1\<rparr>)
      else (case partBytesAt (psrParts psr) (psrI psr + 1) of
              Inl e \<Rightarrow> Inl e
            | Inr bz \<Rightarrow> PSR_Read (psr\<lparr>psrI := psrI psr + 1, psrReader := bz\<rparr>) n))"
  by pat_completeness auto
termination
  by (relation "measures [\<lambda>(psr, n). length (psrParts psr) - psrI psr, \<lambda>(psr, n). length (psrReader psr)]") auto

declare PSR_Read.simps [simp del]

text \<open>What is left to read, a nil part counting as empty.\<close>

definition restOf :: "PartSetReader \<Rightarrow> bytes" where
  "restOf psr = psrReader psr @
     concat (map (\<lambda>p. case p of None \<Rightarrow> [] | Some q \<Rightarrow> partBytes q) (drop (psrI psr + 1) (psrParts psr)))"

lemma partBytesAt_Inr:
  "partBytesAt parts i = Inr bz \<longleftrightarrow> i < length parts \<and> (\<exists>q. parts ! i = Some q \<and> bz = partBytes q)"
  by (auto simp: partBytesAt_def split: option.splits)

lemma restOf_next:
  assumes "partBytesAt (psrParts psr) (psrI psr + 1) = Inr bz" and "psrReader psr = []"
  shows "restOf psr = restOf (psr\<lparr>psrI := psrI psr + 1, psrReader := bz\<rparr>)"
proof -
  obtain q where q: "psrI psr + 1 < length (psrParts psr)" "psrParts psr ! (psrI psr + 1) = Some q" "bz = partBytes q"
    using assms(1) by (auto simp: partBytesAt_Inr)
  then have "drop (psrI psr + 1) (psrParts psr) = Some q # drop (psrI psr + 2) (psrParts psr)"
    by (metis Cons_nth_drop_Suc Suc_eq_plus1 add_2_eq_Suc')
  then show ?thesis using assms(2) q(3) by (simp add: restOf_def)
qed

lemma PSR_Read_rest:
  assumes "PSR_Read psr n = (Inr (bz, eof, psr') :: 'e fault + _)" and "0 < n"
  shows "restOf psr = bz @ restOf psr' \<and> psrParts psr' = psrParts psr \<and> (if eof then restOf psr' = [] else length bz = n)"
  using assms
proof (induction psr n arbitrary: bz eof psr' rule: PSR_Read.induct [where 'a = 'e])
  case (1 psr n)
  let ?rem = "psrReader psr"
  consider "length ?rem \<ge> n" | "length ?rem < n" "?rem \<noteq> []" | "?rem = []" "psrI psr + 1 \<ge> length (psrParts psr)"
    | "?rem = []" "psrI psr + 1 < length (psrParts psr)" by linarith
  then show ?case
  proof cases
    case 1
    then have "?rem \<noteq> []" using "1.prems"(2) by auto
    then show ?thesis using 1 "1.prems" by (subst (asm) PSR_Read.simps) (auto simp: Let_def restOf_def)
  next
    case 2
    then obtain bz' where r: "PSR_Read (psr\<lparr>psrReader := []\<rparr>) (n - length ?rem) = (Inr (bz', eof, psr') :: 'e fault + _)" "bz = ?rem @ bz'"
      using "1.prems"(1) by (subst (asm) PSR_Read.simps) (auto simp: Let_def bindR_Inr_iff)
    from "1.IH"(1) [OF refl _ _ r(1)] 2
    have "restOf (psr\<lparr>psrReader := []\<rparr>) = bz' @ restOf psr' \<and> psrParts psr' = psrParts psr \<and>
      (if eof then restOf psr' = [] else length bz' = n - length ?rem)" by auto
    then show ?thesis using 2 r(2) by (auto simp: restOf_def)
  next
    case 3
    then show ?thesis using "1.prems" by (subst (asm) PSR_Read.simps) (auto simp: Let_def restOf_def)
  next
    case 4
    then obtain x where x: "partBytesAt (psrParts psr) (psrI psr + 1) = (Inr x :: 'e fault + _)"
      "PSR_Read (psr\<lparr>psrI := psrI psr + 1, psrReader := x\<rparr>) n = (Inr (bz, eof, psr') :: 'e fault + _)"
      using "1.prems" by (subst (asm) PSR_Read.simps) (auto simp: Let_def split: sum.splits)
    from "1.IH"(2) [OF refl _ _ _ x] 4 "1.prems"(2) restOf_next [OF x(1) 4(1)] show ?thesis by auto
  qed
qed

text \<open>\<open>ioutil.ReadAll\<close>: it calls \<open>Read\<close> on free space of some positive size (\<open>Suc (sizes k)\<close> for call
  \<open>k\<close>) until end of file.\<close>

function readAll :: "(nat \<Rightarrow> nat) \<Rightarrow> nat \<Rightarrow> PartSetReader \<Rightarrow> 'e fault + bytes" where
  "readAll sizes k psr =
     (case PSR_Read psr (Suc (sizes k)) of
        Inl e \<Rightarrow> Inl e
      | Inr (bz, eof, psr') \<Rightarrow> if eof then Inr bz else bindR (readAll sizes (Suc k) psr') (\<lambda>r. Inr (bz @ r)))"
  by pat_completeness auto
termination
proof (relation "measure (\<lambda>(sizes, k, psr). length (restOf psr))", goal_cases)
  case (2 sizes k psr x bz y eof psr')
  then have "PSR_Read psr (Suc (sizes k)) = (Inr (bz, eof, psr') :: 'a fault + _)" "\<not> eof" by simp_all
  from PSR_Read_rest [OF this(1)] this(2) have "restOf psr = bz @ restOf psr'" "length bz = Suc (sizes k)" by auto
  then show ?case by simp
qed simp

declare readAll.simps [simp del]

lemma PSR_Read_total:
  "\<forall>i < length (psrParts psr). psrParts psr ! i \<noteq> None \<Longrightarrow> \<exists>r. PSR_Read psr n = (Inr r :: 'e fault + _)"
proof (induction psr n rule: PSR_Read.induct [where 'a = 'e])
  case (1 psr n)
  let ?rem = "psrReader psr"
  consider "length ?rem \<ge> n" | "length ?rem < n" "?rem \<noteq> []" | "?rem = []" "psrI psr + 1 \<ge> length (psrParts psr)"
    | "?rem = []" "psrI psr + 1 < length (psrParts psr)" by linarith
  then show ?case
  proof cases
    case 2
    with "1.IH"(1) [OF refl] "1.prems" obtain r where "PSR_Read (psr\<lparr>psrReader := []\<rparr>) (n - length ?rem) = (Inr r :: 'e fault + _)" by auto
    then show ?thesis using 2 by (subst PSR_Read.simps) (auto simp: Let_def split: prod.splits)
  next
    case 4
    then obtain x where x: "partBytesAt (psrParts psr) (psrI psr + 1) = (Inr x :: 'e fault + _)"
      using "1.prems" by (auto simp: partBytesAt_Inr)
    show ?thesis
    proof (cases "n = 0")
      case True
      then show ?thesis by (subst PSR_Read.simps) (auto simp: Let_def)
    next
      case False
      with "1.IH"(2) [OF refl _ _ _ x] 4 "1.prems" obtain r where
        "PSR_Read (psr\<lparr>psrI := psrI psr + 1, psrReader := x\<rparr>) n = (Inr r :: 'e fault + _)" by auto
      then show ?thesis using 4 x False by (subst PSR_Read.simps) (cases r; auto simp: Let_def)
    qed
  qed (subst PSR_Read.simps; auto simp: Let_def)+
qed

lemma readAll_rest:
  "\<forall>i < length (psrParts psr). psrParts psr ! i \<noteq> None \<Longrightarrow> readAll sizes k psr = (Inr (restOf psr) :: 'e fault + _)"
proof (induction "length (restOf psr)" arbitrary: k psr rule: less_induct)
  case less
  obtain bz eof psr' where r: "PSR_Read psr (Suc (sizes k)) = (Inr (bz, eof, psr') :: 'e fault + _)"
    using PSR_Read_total [OF less.prems] by (metis prod_cases3)
  note rest = PSR_Read_rest [OF r]
  show ?case
  proof (cases eof)
    case True
    then show ?thesis using r rest by (simp add: readAll.simps [of sizes k psr])
  next
    case False
    then have "readAll sizes (Suc k) psr' = (Inr (restOf psr') :: 'e fault + _)"
      using rest less.prems by (intro less.hyps) auto
    then show ?thesis using False r rest by (simp add: readAll.simps [of sizes k psr])
  qed
qed

section \<open>Cutting and reassembling\<close>

definition chunk :: "bytes \<Rightarrow> nat \<Rightarrow> nat \<Rightarrow> bytes" where
  "chunk data p i = take p (drop (i * p) data)"

definition numChunks :: "bytes \<Rightarrow> nat \<Rightarrow> nat" where
  "numChunks data p = (length data + p - 1) div p"

lemma concat_chunks_take: "0 < p \<Longrightarrow> concat (map (chunk data p) [0..<n]) = take (n * p) data"
proof (induction n)
  case (Suc n)
  then show ?case using take_add [of "n * p" p data] by (simp add: chunk_def add.commute)
qed simp

lemma numChunks_covers: "0 < p \<Longrightarrow> length data \<le> numChunks data p * p"
proof -
  assume p: "0 < p"
  have "(length data + p - 1) mod p < p" using p by simp
  moreover have "(length data + p - 1) div p * p + (length data + p - 1) mod p = length data + p - 1" by simp
  ultimately show ?thesis using p unfolding numChunks_def by linarith
qed

lemma concat_chunks: "0 < p \<Longrightarrow> concat (map (chunk data p) [0..<numChunks data p]) = data"
  using numChunks_covers [of p data] by (simp add: concat_chunks_take)

lemma chunk_start: "0 < p \<Longrightarrow> i < numChunks data p \<Longrightarrow> i * p < length data \<and> (i + 1) * p < length data + p"
proof -
  assume p: "0 < p" and i: "i < numChunks data p"
  then have "(i + 1) * p \<le> numChunks data p * p" by (intro mult_le_mono1) simp
  also have "\<dots> \<le> length data + p - 1" unfolding numChunks_def by (rule div_times_less_eq_dividend)
  finally show ?thesis using p by simp
qed

text \<open>No index computation of the code wraps when the data and one part fit in 32 bits.\<close>

definition fits32 :: "bytes \<Rightarrow> 32 word \<Rightarrow> bool" where
  "fits32 data partSize \<longleftrightarrow> 0 < unat partSize \<and> length data + unat partSize \<le> 2 ^ 32"

lemma unat_of_nat32: "n < 2 ^ 32 \<Longrightarrow> unat (of_nat n :: 32 word) = n"
  by (simp add: unat_of_nat)

lemma unat_total:
  assumes "fits32 data partSize"
  shows "unat ((of_nat (length data) + partSize - 1) div partSize) = numChunks data (unat partSize)"
proof -
  have b: "length data < 2 ^ 32" "0 < unat partSize" "length data + unat partSize - 1 < 2 ^ 32"
    using assms by (auto simp: fits32_def)
  have "(of_nat (length data) + partSize - 1 :: 32 word) = of_nat (length data + unat partSize - 1)"
    using b(2) by (simp add: of_nat_diff)
  then have "unat (of_nat (length data) + partSize - 1) = length data + unat partSize - 1"
    using unat_of_nat32 [OF b(3)] by simp
  then show ?thesis by (simp add: unat_div numChunks_def)
qed

lemma unat_offset:
  assumes "fits32 data partSize" and "i < numChunks data (unat partSize)"
  shows "unat (of_nat i * partSize) = i * unat partSize" and "unat ((of_nat i + 1) * partSize) = (i + 1) * unat partSize"
proof -
  have c: "i * unat partSize < 2 ^ 32" "(i + 1) * unat partSize < 2 ^ 32"
    using chunk_start [of "unat partSize" i data] assms by (auto simp: fits32_def)
  have e: "(of_nat i * partSize :: 32 word) = of_nat (i * unat partSize)"
    "((of_nat i + 1) * partSize :: 32 word) = of_nat ((i + 1) * unat partSize)" by (simp_all add: algebra_simps)
  show "unat (of_nat i * partSize) = i * unat partSize" "unat ((of_nat i + 1) * partSize) = (i + 1) * unat partSize"
    unfolding e using c by (simp_all only: unat_of_nat32)
qed

definition cutPart :: "bytes \<Rightarrow> nat \<Rightarrow> nat \<Rightarrow> part" where
  "cutPart data p i = \<lparr>partIndex = of_nat i, partBytes = chunk data p i, partProof = emptyProof\<rparr>"

lemma cutLoop_eq:
  assumes "fits32 data partSize" and "bitsMatch ba slots" and "\<forall>i \<in> set is. i < numChunks data (unat partSize)"
    and "length slots = numChunks data (unat partSize)"
  obtains ba' where "cutLoop data partSize is ba = (Inr (map (cutPart data (unat partSize)) is, ba') :: 'e fault + _)"
    and "bitsMatch ba' (fold (\<lambda>i s. s[i := Some ()]) is slots)"
  using assms(2-4)
proof (induction "is" arbitrary: ba slots thesis)
  case Nil
  then show ?case by simp
next
  case (Cons i rest)
  let ?p = "unat partSize"
  have i: "i < numChunks data ?p" "i < length slots" using Cons.prems by auto
  have b: "i * ?p < length data" "(i + 1) * ?p < length data + ?p" using chunk_start [of ?p i data] i assms(1) by (auto simp: fits32_def)
  have sl: "goSlice data (i * ?p) (min (length data) ((i + 1) * ?p)) = (Inr (chunk data ?p i) :: 'e fault + _)"
    using b by (auto simp: goSlice_def chunk_def min_def)
  obtain ba1 r where s: "SetIndex ba (int i) True = (Inr (ba1, r) :: 'e fault + _)" "bitsMatch ba1 (slots[i := Some ()])"
    using Cons.prems(2) i(2) by (rule SetIndex_match)
  obtain ba' where "cutLoop data partSize rest ba1 = (Inr (map (cutPart data ?p) rest, ba') :: 'e fault + _)"
    "bitsMatch ba' (fold (\<lambda>i s. s[i := Some ()]) rest (slots[i := Some ()]))"
    using Cons.IH [of ba1 "slots[i := Some ()]"] s(2) Cons.prems by auto
  then show ?case using Cons.prems(1) sl s(1) unat_offset [OF assms(1) i(1)] by (simp add: cutPart_def)
qed

text \<open>The chunks of the data, and the part set that \<open>NewPartSetFromData\<close> makes of them.\<close>

definition chunks :: "bytes \<Rightarrow> nat \<Rightarrow> bytes list" where
  "chunks data p = map (chunk data p) [0..<numChunks data p]"

definition dataPart :: "hash_fun \<Rightarrow> bytes \<Rightarrow> nat \<Rightarrow> nat \<Rightarrow> part" where
  "dataPart H data p i = \<lparr>partIndex = of_nat i, partBytes = chunk data p i, partProof = proofOf H (chunks data p) i\<rparr>"

lemma length_chunks [simp]: "length (chunks data p) = numChunks data p"
  by (simp add: chunks_def)

lemma chunks_nth [simp]: "i < numChunks data p \<Longrightarrow> chunks data p ! i = chunk data p i"
  by (simp add: chunks_def)

lemma NewPartSetFromData_eq:
  assumes "fits32 data partSize"
  obtains ps where "NewPartSetFromData H data partSize = (Inr ps :: 'e fault + _)"
    and "psTotal ps = of_nat (numChunks data (unat partSize))" and "unat (psTotal ps) = numChunks data (unat partSize)"
    and "psHash ps = HashFromByteSlices H (chunks data (unat partSize))"
    and "psParts ps = map (Some \<circ> dataPart H data (unat partSize)) [0..<numChunks data (unat partSize)]"
proof -
  let ?p = "unat partSize" and ?tot = "(of_nat (length data) + partSize - 1) div partSize :: 32 word"
  note tot = unat_total [OF assms]
  obtain ba where cut: "cutLoop data partSize [0..<numChunks data ?p] (NewBitArray (int (numChunks data ?p))) =
      (Inr (map (cutPart data ?p) [0..<numChunks data ?p], ba) :: 'e fault + _)"
    using cutLoop_eq [OF assms bitsMatch_new, of "[0..<numChunks data ?p]" "numChunks data ?p"] by auto
  have bz: "map partBytes (map (cutPart data ?p) [0..<numChunks data ?p]) = chunks data ?p"
    by (simp add: chunks_def cutPart_def comp_def)
  have parts: "map2 (\<lambda>q pf. Some (q\<lparr>partProof := pf\<rparr>)) (map (cutPart data ?p) [0..<numChunks data ?p])
      (map (proofOf H (chunks data ?p)) [0..<numChunks data ?p]) =
      map (Some \<circ> dataPart H data ?p) [0..<numChunks data ?p]"
    by (simp add: map2_map_map cutPart_def dataPart_def comp_def)
  have "partSize \<noteq> 0" using assms by (auto simp: fits32_def)
  then have "NewPartSetFromData H data partSize = (Inr \<lparr>psTotal = ?tot, psHash = HashFromByteSlices H (chunks data ?p),
      psParts = map (Some \<circ> dataPart H data ?p) [0..<numChunks data ?p],
      psBitArray = ba, psCount = ?tot, psByteSize = int (length data)\<rparr> :: 'e fault + _)"
    unfolding NewPartSetFromData_def Let_def tot by (simp add: cut ProofsFromByteSlices_eq bz parts del: map_map)
  moreover have "?tot = of_nat (numChunks data ?p)" unfolding tot [symmetric] by simp
  ultimately show ?thesis using that tot by simp
qed

text \<open>The receiving side: parts arrive in any order, some of them more than once.\<close>

fun addAll :: "hash_fun \<Rightarrow> part_set \<Rightarrow> part list \<Rightarrow> 'e fault + part_set" where
  "addAll H ps [] = Inr ps"
| "addAll H ps (p # rest) =
     bindR (AddPart H (Some ps) p) (\<lambda>(ps', added, err).
       case (ps', err) of (Some s, None) \<Rightarrow> addAll H s rest | _ \<Rightarrow> Inl (Panic ''part refused''))"

definition received :: "hash_fun \<Rightarrow> bytes \<Rightarrow> nat \<Rightarrow> nat set \<Rightarrow> part_set \<Rightarrow> bool" where
  "received H data p S ps \<longleftrightarrow>
     S \<subseteq> {..<numChunks data p} \<and> unat (psTotal ps) = numChunks data p \<and> psHash ps = HashFromByteSlices H (chunks data p) \<and>
     psParts ps = map (\<lambda>i. if i \<in> S then Some (dataPart H data p i) else None) [0..<numChunks data p] \<and>
     bitsMatch (psBitArray ps) (psParts ps) \<and> psCount ps = of_nat (card S)"

lemma Verify_dataPart:
  "i < numChunks data p \<Longrightarrow>
   Proof_Verify H (partProof (dataPart H data p i)) (HashFromByteSlices H (chunks data p)) (partBytes (dataPart H data p i)) = Inr ()"
  using compute_auntsOf [of i "chunks data p" H]
  by (simp add: dataPart_def Proof_Verify_def proofOf_def ComputeRootHash_def)

lemma map_insert_slot:
  "i < n \<Longrightarrow> (map (\<lambda>j. if j \<in> S then f j else None) [0..<n])[i := f i] = map (\<lambda>j. if j \<in> insert i S then f j else None) [0..<n]"
  by (rule nth_equalityI) (auto simp: nth_list_update)

lemma AddPart_received:
  assumes "received H data p S ps" and i: "i < numChunks data p"
  obtains ps' added where "AddPart H (Some ps) (dataPart H data p i) = (Inr (Some ps', added, None) :: 'e fault + _)"
    and "received H data p (insert i S) ps'"
proof -
  have r: "S \<subseteq> {..<numChunks data p}" "unat (psTotal ps) = numChunks data p" "psHash ps = HashFromByteSlices H (chunks data p)"
    "psParts ps = map (\<lambda>i. if i \<in> S then Some (dataPart H data p i) else None) [0..<numChunks data p]"
    "bitsMatch (psBitArray ps) (psParts ps)" "psCount ps = of_nat (card S)"
    using assms(1) unfolding received_def by blast+
  have "numChunks data p < 2 ^ 32" using r(2) unsigned_less [of "psTotal ps", where 'a = nat] by simp
  then have idx: "unat (partIndex (dataPart H data p i)) = i" using i by (simp add: dataPart_def unat_of_nat32)
  then have lt: "\<not> psTotal ps \<le> partIndex (dataPart H data p i)" using i r(2) by (simp add: word_le_nat_alt)
  show ?thesis
  proof (cases "i \<in> S")
    case True
    then have "AddPart H (Some ps) (dataPart H data p i) = (Inr (Some ps, False, None) :: 'e fault + _)"
      using i lt idx r(4) by (simp add: AddPart_def)
    moreover have "received H data p (insert i S) ps" using assms(1) True by (simp add: insert_absorb)
    ultimately show ?thesis by (rule that)
  next
    case False
    have len: "i < length (psParts ps)" using r(4) i by simp
    obtain ba r' where s: "SetIndex (psBitArray ps) (int i) True = (Inr (ba, r') :: 'e fault + _)"
      "bitsMatch ba ((psParts ps)[i := Some (dataPart H data p i)])" using r(5) len by (rule SetIndex_match)
    define ps' where "ps' = ps\<lparr>psParts := (psParts ps)[i := Some (dataPart H data p i)], psBitArray := ba, psCount := psCount ps + 1,
       psByteSize := wrap64 (psByteSize ps + int (length (partBytes (dataPart H data p i))))\<rparr>"
    have "AddPart H (Some ps) (dataPart H data p i) = (Inr (Some ps', True, None) :: 'e fault + _)"
      using i lt idx r(3,4) False s(1) Verify_dataPart [OF i, of H]
      by (simp add: AddPart_def PS_Hash_def ps'_def)
    moreover have "finite S" using r(1) by (rule finite_subset) simp
    then have "received H data p (insert i S) ps'"
      using r False i s(2) map_insert_slot [OF i, of S "\<lambda>j. Some (dataPart H data p j)"]
      by (simp add: received_def ps'_def add.commute)
    ultimately show ?thesis using that by blast
  qed
qed

lemma addAll_received:
  assumes "received H data p S ps" and "\<forall>i \<in> set is. i < numChunks data p"
  obtains ps' where "addAll H ps (map (dataPart H data p) is) = (Inr ps' :: 'e fault + _)" and "received H data p (S \<union> set is) ps'"
  using assms
proof (induction "is" arbitrary: S ps thesis)
  case Nil
  then show ?case by simp
next
  case (Cons i rest)
  have i: "i < numChunks data p" using Cons.prems(3) by simp
  obtain ps1 added where a: "AddPart H (Some ps) (dataPart H data p i) = (Inr (Some ps1, added, None) :: 'e fault + _)"
    "received H data p (insert i S) ps1" using Cons.prems(2) i by (rule AddPart_received)
  obtain ps' where "addAll H ps1 (map (dataPart H data p) rest) = (Inr ps' :: 'e fault + _)" "received H data p (insert i S \<union> set rest) ps'"
    using Cons.IH [OF _ a(2)] Cons.prems(3) by auto
  then show ?case using a(1) by (intro Cons.prems(1) [of ps']) simp_all
qed

lemma received_start:
  "unat (psTotal ps) = numChunks data p \<Longrightarrow> psHash ps = HashFromByteSlices H (chunks data p) \<Longrightarrow>
   received H data p {} (NewPartSetFromHeader (PS_Header (Some ps)))"
  using bitsMatch_new [of "numChunks data p"]
  by (simp add: received_def NewPartSetFromHeader_def PS_Header_def map_replicate_const del: of_nat_unat)

lemma received_all:
  assumes "received H data p {..<numChunks data p} ps" and "0 < p" and "data \<noteq> []"
  shows "IsComplete ps" and "\<exists>psr. GetReader ps = (Inr psr :: 'e fault + _) \<and> readAll sizes 0 psr = (Inr data :: 'e fault + _)"
proof -
  let ?n = "numChunks data p"
  have r: "unat (psTotal ps) = ?n" "psParts ps = map (Some \<circ> dataPart H data p) [0..<?n]" "psCount ps = of_nat ?n"
    using assms(1) by (auto simp: received_def comp_def)
  show c: "IsComplete ps" unfolding IsComplete_def r(3) r(1) [symmetric] by simp
  have "0 < ?n" using numChunks_covers [of p data] assms(2,3) by (cases ?n) auto
  then have d: "[0..<?n] = 0 # [1..<?n]" by (simp add: upt_conv_Cons)
  define psr where "psr = \<lparr>psrI = 0, psrParts = psParts ps, psrReader = chunk data p 0\<rparr>"
  have g: "GetReader ps = (Inr psr :: 'e fault + _)"
    using c r(2) \<open>0 < ?n\<close> by (simp add: GetReader_def NewPartSetReader_def partBytesAt_def psr_def dataPart_def goIndex_def)
  have "restOf psr = concat (map (chunk data p) [0..<?n])"
    unfolding d using \<open>0 < ?n\<close> by (simp add: restOf_def psr_def r(2) drop_map dataPart_def comp_def)
  then have "restOf psr = data" using assms(2) by (simp add: concat_chunks)
  moreover have "readAll sizes 0 psr = (Inr (restOf psr) :: 'e fault + _)"
    by (rule readAll_rest) (simp add: psr_def r(2))
  ultimately show "\<exists>psr. GetReader ps = (Inr psr :: 'e fault + _) \<and> readAll sizes 0 psr = (Inr data :: 'e fault + _)"
    using g by auto
qed

section \<open>Properties\<close>

text \<open>C39: A block cut into parts is reassembled from them. Cutting non-empty data whose size fits the
  counters succeeds; a set created from the header of the cut accepts the parts in every order, also
  repeated, without an error, is complete once every part arrived, and its reader returns the data.\<close>

theorem part_set_roundtrip:
  assumes "fits32 data partSize" and "data \<noteq> []" and "set is = {..<numChunks data (unat partSize)}"
  shows "\<exists>ps ps' psr. NewPartSetFromData H data partSize = (Inr ps :: 'e fault + _) \<and>
    addAll H (NewPartSetFromHeader (PS_Header (Some ps))) (map (\<lambda>i. the (psParts ps ! i)) is) = (Inr ps' :: 'e fault + _) \<and>
    IsComplete ps' \<and> GetReader ps' = (Inr psr :: 'e fault + _) \<and> readAll sizes 0 psr = (Inr data :: 'e fault + _)"
proof -
  let ?p = "unat partSize"
  obtain ps where ps: "NewPartSetFromData H data partSize = (Inr ps :: 'e fault + _)"
    "unat (psTotal ps) = numChunks data ?p" "psHash ps = HashFromByteSlices H (chunks data ?p)"
    "psParts ps = map (Some \<circ> dataPart H data ?p) [0..<numChunks data ?p]"
    using assms(1) by (rule NewPartSetFromData_eq)
  have parts: "map (\<lambda>i. the (psParts ps ! i)) is = map (dataPart H data ?p) is"
    using assms(3) ps(4) by (intro map_cong) auto
  obtain ps' where a: "addAll H (NewPartSetFromHeader (PS_Header (Some ps))) (map (dataPart H data ?p) is) = (Inr ps' :: 'e fault + _)"
    "received H data ?p ({} \<union> set is) ps'"
    using received_start [OF ps(2,3)] _ by (rule addAll_received) (use assms(3) in auto)
  have "received H data ?p {..<numChunks data ?p} ps'" using a(2) assms(3) by simp
  moreover have "0 < ?p" using assms(1) by (simp add: fits32_def)
  ultimately have "IsComplete ps'" "\<exists>psr. GetReader ps' = (Inr psr :: 'e fault + _) \<and> readAll sizes 0 psr = (Inr data :: 'e fault + _)"
    using assms(2) received_all by blast+
  then show ?thesis using ps(1) a(1) unfolding parts [symmetric] by blast
qed

theorem part_set_roundtrip_witness:
  "\<exists>ps ps' psr. NewPartSetFromData padHash [1, 2, 3, 4, 5] 2 = (Inr ps :: unit fault + _) \<and>
    addAll padHash (NewPartSetFromHeader (PS_Header (Some ps))) (map (\<lambda>i. the (psParts ps ! i)) [2, 0, 2, 1]) = (Inr ps' :: unit fault + _) \<and>
    IsComplete ps' \<and> GetReader ps' = (Inr psr :: unit fault + _) \<and> readAll (\<lambda>_. 3) 0 psr = (Inr [1, 2, 3, 4, 5] :: unit fault + _)"
proof -
  have "fits32 [1, 2, 3, 4, 5] 2" by (simp add: fits32_def)
  moreover have "set [2, 0, 2, 1] = {..<numChunks [1, 2, 3, 4, 5] (unat (2 :: 32 word))}" by (auto simp: numChunks_def)
  ultimately show ?thesis by (intro part_set_roundtrip) simp_all
qed

text \<open>\<open>AddPart\<close> does not compare the index of a part with the index its proof is for: the set for
  the data 1 2 3 4, cut in two, accepts its first part also at index 1, is then complete, and its
  reader returns 1 2 1 2.\<close>

theorem AddPart_ignores_proof_index:
  "\<exists>ps ps' psr. NewPartSetFromData padHash [1, 2, 3, 4] 2 = (Inr ps :: unit fault + _) \<and>
    addAll padHash (NewPartSetFromHeader (PS_Header (Some ps)))
      [the (psParts ps ! 0), (the (psParts ps ! 0))\<lparr>partIndex := 1\<rparr>] = (Inr ps' :: unit fault + _) \<and>
    IsComplete ps' \<and> PS_Header (Some ps') = PS_Header (Some ps) \<and>
    GetReader ps' = (Inr psr :: unit fault + _) \<and> readAll (\<lambda>_. 9) 0 psr = (Inr [1, 2, 1, 2] :: unit fault + _)"
proof -
  define ps :: part_set where "ps = (case NewPartSetFromData padHash [1, 2, 3, 4] 2 of Inr s \<Rightarrow> s | Inl (_ :: unit fault) \<Rightarrow> NewPartSetFromHeader \<lparr>pshTotal = 0, pshHash = []\<rparr>)"
  define ps' :: part_set where "ps' = (case addAll padHash (NewPartSetFromHeader (PS_Header (Some ps)))
      [the (psParts ps ! 0), (the (psParts ps ! 0))\<lparr>partIndex := 1\<rparr>] of Inr s \<Rightarrow> s | Inl (_ :: unit fault) \<Rightarrow> ps)"
  define psr where "psr = (case GetReader ps' of Inr r \<Rightarrow> r | Inl (_ :: unit fault) \<Rightarrow> \<lparr>psrI = 0, psrParts = [], psrReader = []\<rparr>)"
  have "NewPartSetFromData padHash [1, 2, 3, 4] 2 = (Inr ps :: unit fault + _)" unfolding ps_def by code_simp
  moreover have "addAll padHash (NewPartSetFromHeader (PS_Header (Some ps)))
      [the (psParts ps ! 0), (the (psParts ps ! 0))\<lparr>partIndex := 1\<rparr>] = (Inr ps' :: unit fault + _)" unfolding ps'_def ps_def by code_simp
  moreover have "IsComplete ps'" "PS_Header (Some ps') = PS_Header (Some ps)" "GetReader ps' = (Inr psr :: unit fault + _)"
    "readAll (\<lambda>_. 9) 0 psr = (Inr [1, 2, 1, 2] :: unit fault + _)" unfolding psr_def ps'_def ps_def by code_simp+
  ultimately show ?thesis by blast
qed

end
