(* ===== verification/SampleCodec.thy ===== *)
theory SampleCodec
  imports BlockTypes
begin

text \<open>
  A concrete self-delimiting encoding of canonical votes and proposals. The code takes the encoding
  from the generated protobuf package, a parameter here; theorems that rely on decoding inverting
  encoding are applied to this one in their witnesses. Numbers are in unary, lists have their length
  first, and the law \<open>prefixCodec\<close> carries over to pairs, lists and mapped types.
\<close>

definition prefixCodec :: "('a \<Rightarrow> bytes) \<Rightarrow> (bytes \<Rightarrow> 'a \<times> bytes) \<Rightarrow> bool" where
  "prefixCodec enc dec \<longleftrightarrow> (\<forall>x rest. dec (enc x @ rest) = (x, rest))"

lemma dec_enc: "prefixCodec enc dec \<Longrightarrow> dec (enc x @ rest) = (x, rest)"
  by (simp add: prefixCodec_def)

lemma dec_enc_end: "prefixCodec enc dec \<Longrightarrow> dec (enc x) = (x, [])"
  using dec_enc [of enc dec x "[]"] by simp

lemma prefixCodecI: "(\<And>x rest. dec (enc x @ rest) = (x, rest)) \<Longrightarrow> prefixCodec enc dec"
  by (simp add: prefixCodec_def)

definition encNat :: "nat \<Rightarrow> bytes" where
  "encNat n = replicate n 1 @ [0]"

fun decNat :: "bytes \<Rightarrow> nat \<times> bytes" where
  "decNat [] = (0, [])"
| "decNat (b # bs) = (if b = 1 then (let (n, r) = decNat bs in (Suc n, r)) else (0, bs))"

definition encList :: "('a \<Rightarrow> bytes) \<Rightarrow> 'a list \<Rightarrow> bytes" where
  "encList enc xs = encNat (length xs) @ concat (map enc xs)"

fun decMany :: "(bytes \<Rightarrow> 'a \<times> bytes) \<Rightarrow> nat \<Rightarrow> bytes \<Rightarrow> 'a list \<times> bytes" where
  "decMany dec 0 bs = ([], bs)"
| "decMany dec (Suc n) bs = (let (x, r) = dec bs; (xs, r') = decMany dec n r in (x # xs, r'))"

definition decList :: "(bytes \<Rightarrow> 'a \<times> bytes) \<Rightarrow> bytes \<Rightarrow> 'a list \<times> bytes" where
  "decList dec bs = (let (n, r) = decNat bs in decMany dec n r)"

definition encPair :: "('a \<Rightarrow> bytes) \<Rightarrow> ('b \<Rightarrow> bytes) \<Rightarrow> 'a \<times> 'b \<Rightarrow> bytes" where
  "encPair f g xy = f (fst xy) @ g (snd xy)"

definition decPair :: "(bytes \<Rightarrow> 'a \<times> bytes) \<Rightarrow> (bytes \<Rightarrow> 'b \<times> bytes) \<Rightarrow> bytes \<Rightarrow> ('a \<times> 'b) \<times> bytes" where
  "decPair f g bs = (let (x, r) = f bs; (y, r') = g r in ((x, y), r'))"

definition decMap :: "('a \<Rightarrow> 'b) \<Rightarrow> (bytes \<Rightarrow> 'a \<times> bytes) \<Rightarrow> bytes \<Rightarrow> 'b \<times> bytes" where
  "decMap f d bs = (let (x, r) = d bs in (f x, r))"

lemma codec_nat: "prefixCodec encNat decNat"
proof (rule prefixCodecI)
  show "decNat (encNat n @ rest) = (n, rest)" for n rest by (induction n) (simp_all add: encNat_def)
qed

lemma codec_list:
  assumes "prefixCodec enc dec"
  shows "prefixCodec (encList enc) (decList dec)"
proof (rule prefixCodecI)
  have "decMany dec (length xs) (concat (map enc xs) @ rest) = (xs, rest)" for xs rest
    by (induction xs) (simp_all add: dec_enc [OF assms])
  then show "decList dec (encList enc xs @ rest) = (xs, rest)" for xs rest
    by (simp add: decList_def encList_def dec_enc [OF codec_nat])
qed

lemma codec_pair:
  assumes "prefixCodec f df" and "prefixCodec g dg"
  shows "prefixCodec (encPair f g) (decPair df dg)"
  by (rule prefixCodecI)
    (simp add: encPair_def decPair_def dec_enc [OF assms(1)] dec_enc [OF assms(2)])

lemma codec_map:
  assumes "prefixCodec e d" and "\<And>x. f (g x) = x"
  shows "prefixCodec (\<lambda>x. e (g x)) (decMap f d)"
  by (rule prefixCodecI) (simp add: decMap_def dec_enc [OF assms(1)] assms(2))

definition encInt :: "int \<Rightarrow> bytes" where
  "encInt i = encPair encNat encNat (nat i, nat (- i))"

definition decInt :: "bytes \<Rightarrow> int \<times> bytes" where
  "decInt = decMap (\<lambda>(a, b). int a - int b) (decPair decNat decNat)"

definition encByte :: "8 word \<Rightarrow> bytes" where "encByte b = [b]"

fun decByte :: "bytes \<Rightarrow> 8 word \<times> bytes" where
  "decByte [] = (0, [])"
| "decByte (b # bs) = (b, bs)"

definition typeNum :: "SignedMsgType \<Rightarrow> nat" where
  "typeNum t = (case t of UnknownType \<Rightarrow> 0 | PrevoteType \<Rightarrow> 1 | PrecommitType \<Rightarrow> 2 | ProposalType \<Rightarrow> 3)"

definition numType :: "nat \<Rightarrow> SignedMsgType" where
  "numType n = (if n = 0 then UnknownType else if n = 1 then PrevoteType else if n = 2 then PrecommitType else ProposalType)"

type_synonym bid_tuple = "(bytes \<times> int \<times> bytes) list"

definition bidTuple :: "block_id option \<Rightarrow> bid_tuple" where
  "bidTuple b = (case b of None \<Rightarrow> [] | Some x \<Rightarrow> [(bidHash x, uint (pshTotal (bidParts x)), pshHash (bidParts x))])"

definition tupleBid :: "bid_tuple \<Rightarrow> block_id option" where
  "tupleBid t = (case t of [] \<Rightarrow> None | (h, n, ph) # _ \<Rightarrow> Some \<lparr>bidHash = h, bidParts = \<lparr>pshTotal = word_of_int n, pshHash = ph\<rparr>\<rparr>)"

definition encBytes :: "bytes \<Rightarrow> bytes" where "encBytes = encList encByte"

definition decBytes :: "bytes \<Rightarrow> bytes \<times> bytes" where "decBytes = decList decByte"

definition encStr :: "string \<Rightarrow> bytes" where "encStr x = encList encNat (map of_char x)"

definition decStr :: "bytes \<Rightarrow> string \<times> bytes" where "decStr = decMap (map char_of) (decList decNat)"

definition encBid :: "block_id option \<Rightarrow> bytes" where
  "encBid b = encList (encPair encBytes (encPair encInt encBytes)) (bidTuple b)"

definition decBid :: "bytes \<Rightarrow> block_id option \<times> bytes" where
  "decBid = decMap tupleBid (decList (decPair decBytes (decPair decInt decBytes)))"

definition encType :: "SignedMsgType \<Rightarrow> bytes" where "encType t = encNat (typeNum t)"

definition decType :: "bytes \<Rightarrow> SignedMsgType \<times> bytes" where "decType = decMap numType decNat"

lemma codec_int: "prefixCodec encInt decInt"
  using codec_map [OF codec_pair [OF codec_nat codec_nat], of "\<lambda>(a, b). int a - int b" "\<lambda>i. (nat i, nat (- i))"]
  by (simp add: encInt_def [abs_def] decInt_def)

lemma codec_bytes: "prefixCodec encBytes decBytes"
  unfolding encBytes_def decBytes_def by (intro codec_list) (rule prefixCodecI, simp add: encByte_def)

lemma codec_str: "prefixCodec encStr decStr"
  using codec_map [OF codec_list [OF codec_nat], of "map char_of" "map of_char"]
  by (simp add: encStr_def [abs_def] decStr_def comp_def)

lemma codec_type: "prefixCodec encType decType"
  using codec_map [OF codec_nat, of numType typeNum]
  by (simp add: encType_def [abs_def] decType_def numType_def typeNum_def split: SignedMsgType.splits)

lemma codec_bid: "prefixCodec encBid decBid"
  using codec_map [OF codec_list [OF codec_pair [OF codec_bytes codec_pair [OF codec_int codec_bytes]]], of tupleBid bidTuple]
  by (simp add: encBid_def [abs_def] decBid_def tupleBid_def bidTuple_def split: option.splits)

definition voteTuple :: "canonical_vote \<Rightarrow> SignedMsgType \<times> int \<times> int \<times> block_id option \<times> time \<times> string" where
  "voteTuple c = (cvType c, cvHeight c, cvRound c, cvBlockID c, cvTimestamp c, cvChainID c)"

fun tupleVote :: "SignedMsgType \<times> int \<times> int \<times> block_id option \<times> time \<times> string \<Rightarrow> canonical_vote" where
  "tupleVote (t, h, r, b, ts, ch) =
     \<lparr>cvType = t, cvHeight = h, cvRound = r, cvBlockID = b, cvTimestamp = ts, cvChainID = ch\<rparr>"

definition encVote :: "canonical_vote \<Rightarrow> bytes" where
  "encVote c = encPair encType (encPair encInt (encPair encInt (encPair encBid (encPair encInt encStr)))) (voteTuple c)"

definition decVote :: "bytes \<Rightarrow> canonical_vote \<times> bytes" where
  "decVote = decMap tupleVote (decPair decType (decPair decInt (decPair decInt (decPair decBid (decPair decInt decStr)))))"

lemma codec_vote: "prefixCodec encVote decVote"
proof -
  have "tupleVote (voteTuple c) = c" for c by (cases c) (simp add: voteTuple_def)
  from codec_map [OF codec_pair [OF codec_type codec_pair [OF codec_int codec_pair [OF codec_int
    codec_pair [OF codec_bid codec_pair [OF codec_int codec_str]]]]] this]
  show ?thesis by (simp add: encVote_def [abs_def] decVote_def)
qed

definition proposalTuple :: "canonical_proposal \<Rightarrow> SignedMsgType \<times> int \<times> int \<times> int \<times> block_id option \<times> time \<times> string" where
  "proposalTuple c = (cpType c, cpHeight c, cpRound c, cpPOLRound c, cpBlockID c, cpTimestamp c, cpChainID c)"

fun tupleProposal :: "SignedMsgType \<times> int \<times> int \<times> int \<times> block_id option \<times> time \<times> string \<Rightarrow> canonical_proposal" where
  "tupleProposal (t, h, r, p, b, ts, ch) =
     \<lparr>cpType = t, cpHeight = h, cpRound = r, cpPOLRound = p, cpBlockID = b, cpTimestamp = ts, cpChainID = ch\<rparr>"

definition encProposal :: "canonical_proposal \<Rightarrow> bytes" where
  "encProposal c = encPair encType (encPair encInt (encPair encInt (encPair encInt (encPair encBid (encPair encInt encStr)))))
     (proposalTuple c)"

definition decProposal :: "bytes \<Rightarrow> canonical_proposal \<times> bytes" where
  "decProposal = decMap tupleProposal
     (decPair decType (decPair decInt (decPair decInt (decPair decInt (decPair decBid (decPair decInt decStr))))))"

lemma codec_proposal: "prefixCodec encProposal decProposal"
proof -
  have "tupleProposal (proposalTuple c) = c" for c by (cases c) (simp add: proposalTuple_def)
  from codec_map [OF codec_pair [OF codec_type codec_pair [OF codec_int codec_pair [OF codec_int
    codec_pair [OF codec_int codec_pair [OF codec_bid codec_pair [OF codec_int codec_str]]]]]] this]
  show ?thesis by (simp add: encProposal_def [abs_def] decProposal_def)
qed

end
