(* ===== verification/Blocks.thy ===== *)
theory Blocks
  imports PartSet SampleCodec
begin

text \<open>
  \<open>types/block.go\<close> (headers, data, blocks), \<open>types/tx.go\<close>: what a block hash is computed from and the
  stateless validation of a block.

  Protobuf encodings and decodings come from generated code and are fields of \<open>block_env\<close>, as are the
  hash function and the validation of a single piece of evidence, which is represented by its encoding.
  A nil \<open>HexBytes\<close> is the empty list. The memoized hashes of commits, data and evidence are functions of
  data that does not change and are not kept.
\<close>

section \<open>Data model\<close>

record Consensus =
  verBlock :: nat
  verApp :: nat

record Header =
  hdVersion :: Consensus
  hdChainID :: string
  hdHeight :: int
  hdTime :: time
  hdLastBlockID :: block_id
  hdLastCommitHash :: bytes
  hdDataHash :: bytes
  hdValidatorsHash :: bytes
  hdNextValidatorsHash :: bytes
  hdConsensusHash :: bytes
  hdAppHash :: bytes
  hdLastResultsHash :: bytes
  hdEvidenceHash :: bytes
  hdProposerAddress :: bytes

type_synonym evidence = bytes

type_synonym Tx = bytes

record block =
  bkHeader :: Header
  bkTxs :: "Tx list"
  bkEvidence :: "evidence list"
  bkLastCommit :: "commit option"

record block_env =
  beHash :: hash_fun
  beVersion :: "Consensus \<Rightarrow> bytes"
  beTime :: "time \<Rightarrow> bytes option"
  beBlockID :: "block_id \<Rightarrow> bytes"
  beString :: "string \<Rightarrow> bytes"
  beInt :: "int \<Rightarrow> bytes"
  beBytes :: "bytes \<Rightarrow> bytes"
  beCommitSig :: "commit_sig \<Rightarrow> bytes"
  beEvidenceOk :: "evidence \<Rightarrow> bool"
  beMarshal :: "block \<Rightarrow> bytes"
  beUnmarshal :: "bytes \<Rightarrow> block option"

datatype block_error =
    WrongVersion | ChainIDTooLong | NegativeBlockHeight | ZeroHeight | WrongLastBlockID basic_error
  | WrongLastCommitHash | WrongDataHash | WrongEvidenceHash | WrongProposerAddress
  | WrongValidatorsHash | WrongNextValidatorsHash | WrongConsensusHash | WrongLastResultsHash
  | NilLastCommit | WrongLastCommit basic_error | InvalidEvidence nat | NilMessage

definition BlockProtocol :: nat where "BlockProtocol = 11"

definition MaxChainIDLen :: nat where "MaxChainIDLen = 50"

section \<open>Hashes\<close>

definition cdcEncodeString :: "block_env \<Rightarrow> string \<Rightarrow> bytes" where
  "cdcEncodeString be s = (if s = [] then [] else beString be s)"

definition cdcEncodeBytes :: "block_env \<Rightarrow> bytes \<Rightarrow> bytes" where
  "cdcEncodeBytes be b = (if b = [] then [] else beBytes be b)"

definition headerFields :: "block_env \<Rightarrow> Header \<Rightarrow> bytes \<Rightarrow> bytes list" where
  "headerFields be h pbt =
     [beVersion be (hdVersion h), cdcEncodeString be (hdChainID h), beInt be (hdHeight h), pbt,
      beBlockID be (hdLastBlockID h), cdcEncodeBytes be (hdLastCommitHash h), cdcEncodeBytes be (hdDataHash h),
      cdcEncodeBytes be (hdValidatorsHash h), cdcEncodeBytes be (hdNextValidatorsHash h),
      cdcEncodeBytes be (hdConsensusHash h), cdcEncodeBytes be (hdAppHash h), cdcEncodeBytes be (hdLastResultsHash h),
      cdcEncodeBytes be (hdEvidenceHash h), cdcEncodeBytes be (hdProposerAddress h)]"

definition Header_Hash :: "block_env \<Rightarrow> Header \<Rightarrow> bytes" where
  "Header_Hash be h =
     (if length (hdValidatorsHash h) = 0 then []
      else case beTime be (hdTime h) of
        None \<Rightarrow> []
      | Some pbt \<Rightarrow> HashFromByteSlices (beHash be) (headerFields be h pbt))"

definition Commit_Hash :: "block_env \<Rightarrow> commit option \<Rightarrow> bytes" where
  "Commit_Hash be c =
     (case c of None \<Rightarrow> [] | Some cm \<Rightarrow> HashFromByteSlices (beHash be) (map (beCommitSig be) (cmSignatures cm)))"

definition Tx_Hash :: "block_env \<Rightarrow> Tx \<Rightarrow> bytes" where
  "Tx_Hash be tx = beHash be tx"

definition Txs_Hash :: "block_env \<Rightarrow> Tx list \<Rightarrow> bytes" where
  "Txs_Hash be txs = HashFromByteSlices (beHash be) (map (Tx_Hash be) txs)"

definition Evidence_Hash :: "block_env \<Rightarrow> evidence list \<Rightarrow> bytes" where
  "Evidence_Hash be evs = HashFromByteSlices (beHash be) evs"

definition fillHeader :: "block_env \<Rightarrow> block \<Rightarrow> block" where
  "fillHeader be b =
     b\<lparr>bkHeader := (bkHeader b)\<lparr>
         hdLastCommitHash := (if hdLastCommitHash (bkHeader b) = [] then Commit_Hash be (bkLastCommit b) else hdLastCommitHash (bkHeader b)),
         hdDataHash := (if hdDataHash (bkHeader b) = [] then Txs_Hash be (bkTxs b) else hdDataHash (bkHeader b)),
         hdEvidenceHash := (if hdEvidenceHash (bkHeader b) = [] then Evidence_Hash be (bkEvidence b) else hdEvidenceHash (bkHeader b))\<rparr>\<rparr>"

definition Block_Hash :: "block_env \<Rightarrow> block option \<Rightarrow> bytes" where
  "Block_Hash be p =
     (case p of None \<Rightarrow> []
      | Some b \<Rightarrow> if bkLastCommit b = None then [] else Header_Hash be (bkHeader (fillHeader be b)))"

definition Block_HashesTo :: "block_env \<Rightarrow> block option \<Rightarrow> bytes \<Rightarrow> bool" where
  "Block_HashesTo be p hash =
     (if length hash = 0 then False else case p of None \<Rightarrow> False | Some b \<Rightarrow> Block_Hash be p = hash)"

section \<open>Validation\<close>

definition checkHash :: "bytes \<Rightarrow> block_error \<Rightarrow> block_error fault + unit" where
  "checkHash h e = (case ValidateHash h of Inl _ \<Rightarrow> Inl (Err e) | Inr _ \<Rightarrow> Inr ())"

definition Header_ValidateBasic :: "Header \<Rightarrow> block_error fault + unit" where
  "Header_ValidateBasic h =
     (if verBlock (hdVersion h) \<noteq> BlockProtocol then Inl (Err WrongVersion)
      else if length (hdChainID h) > MaxChainIDLen then Inl (Err ChainIDTooLong)
      else if hdHeight h < 0 then Inl (Err NegativeBlockHeight)
      else if hdHeight h = 0 then Inl (Err ZeroHeight)
      else case BlockID_ValidateBasic (hdLastBlockID h) of
        Inl (Err e) \<Rightarrow> Inl (Err (WrongLastBlockID e))
      | Inl (Panic p) \<Rightarrow> Inl (Panic p)
      | Inr _ \<Rightarrow>
          bindR (checkHash (hdLastCommitHash h) WrongLastCommitHash) (\<lambda>_.
          bindR (checkHash (hdDataHash h) WrongDataHash) (\<lambda>_.
          bindR (checkHash (hdEvidenceHash h) WrongEvidenceHash) (\<lambda>_.
            if length (hdProposerAddress h) \<noteq> AddressSize then Inl (Err WrongProposerAddress)
            else
              bindR (checkHash (hdValidatorsHash h) WrongValidatorsHash) (\<lambda>_.
              bindR (checkHash (hdNextValidatorsHash h) WrongNextValidatorsHash) (\<lambda>_.
              bindR (checkHash (hdConsensusHash h) WrongConsensusHash) (\<lambda>_.
              checkHash (hdLastResultsHash h) WrongLastResultsHash)))))))"

fun evidenceLoop :: "block_env \<Rightarrow> nat \<Rightarrow> evidence list \<Rightarrow> block_error fault + unit" where
  "evidenceLoop be i [] = Inr ()"
| "evidenceLoop be i (ev # evs) = (if beEvidenceOk be ev then evidenceLoop be (Suc i) evs else Inl (Err (InvalidEvidence i)))"

definition Block_ValidateBasic :: "block_env \<Rightarrow> block option \<Rightarrow> block_error fault + unit" where
  "Block_ValidateBasic be p =
     (case p of None \<Rightarrow> Inl (Err NilMessage)
      | Some b \<Rightarrow>
          bindR (Header_ValidateBasic (bkHeader b)) (\<lambda>_.
            case bkLastCommit b of
              None \<Rightarrow> Inl (Err NilLastCommit)
            | Some lc \<Rightarrow>
                (case Commit_ValidateBasic lc of
                   Inl (Err e) \<Rightarrow> Inl (Err (WrongLastCommit e))
                 | Inl (Panic m) \<Rightarrow> Inl (Panic m)
                 | Inr _ \<Rightarrow>
                     if Commit_Hash be (bkLastCommit b) \<noteq> hdLastCommitHash (bkHeader b) then Inl (Err WrongLastCommitHash)
                     else if Txs_Hash be (bkTxs b) \<noteq> hdDataHash (bkHeader b) then Inl (Err WrongDataHash)
                     else bindR (evidenceLoop be 0 (bkEvidence b)) (\<lambda>_.
                       if Evidence_Hash be (bkEvidence b) \<noteq> hdEvidenceHash (bkHeader b) then Inl (Err WrongEvidenceHash)
                       else Inr ()))))"

section \<open>Making and transporting blocks\<close>

definition emptyHeader :: Header where
  "emptyHeader = \<lparr>hdVersion = \<lparr>verBlock = 0, verApp = 0\<rparr>, hdChainID = [], hdHeight = 0, hdTime = 0,
     hdLastBlockID = emptyBlockID, hdLastCommitHash = [], hdDataHash = [], hdValidatorsHash = [], hdNextValidatorsHash = [],
     hdConsensusHash = [], hdAppHash = [], hdLastResultsHash = [], hdEvidenceHash = [], hdProposerAddress = []\<rparr>"

definition MakeBlock :: "block_env \<Rightarrow> int \<Rightarrow> Tx list \<Rightarrow> commit option \<Rightarrow> evidence list \<Rightarrow> block" where
  "MakeBlock be height txs lastCommit evs =
     fillHeader be
       \<lparr>bkHeader = emptyHeader\<lparr>hdVersion := \<lparr>verBlock = BlockProtocol, verApp = 0\<rparr>, hdHeight := height\<rparr>,
        bkTxs = txs, bkEvidence = evs, bkLastCommit = lastCommit\<rparr>"

definition Populate ::
  "Header \<Rightarrow> Consensus \<Rightarrow> string \<Rightarrow> time \<Rightarrow> block_id \<Rightarrow> bytes \<Rightarrow> bytes \<Rightarrow> bytes \<Rightarrow> bytes \<Rightarrow> bytes \<Rightarrow> bytes \<Rightarrow> Header"
where
  "Populate h version chainID timestamp lastBlockID valHash nextValHash consensusHash appHash lastResultsHash proposerAddress =
     h\<lparr>hdVersion := version, hdChainID := chainID, hdTime := timestamp, hdLastBlockID := lastBlockID,
       hdValidatorsHash := valHash, hdNextValidatorsHash := nextValHash, hdConsensusHash := consensusHash,
       hdAppHash := appHash, hdLastResultsHash := lastResultsHash, hdProposerAddress := proposerAddress\<rparr>"

definition MakePartSet :: "block_env \<Rightarrow> block option \<Rightarrow> 32 word \<Rightarrow> 'e fault + part_set option" where
  "MakePartSet be p partSize =
     (case p of None \<Rightarrow> Inr None
      | Some b \<Rightarrow> bindR (NewPartSetFromData (beHash be) (beMarshal be b) partSize) (\<lambda>ps. Inr (Some ps)))"

definition HeaderFromProto :: "Header \<Rightarrow> block_error fault + Header" where
  "HeaderFromProto h =
     (case BlockIDFromProto (Some (hdLastBlockID h)) of
        Inl (Err e) \<Rightarrow> Inl (Err (WrongLastBlockID e))
      | Inl (Panic m) \<Rightarrow> Inl (Panic m)
      | Inr bi \<Rightarrow> bindR (Header_ValidateBasic (h\<lparr>hdLastBlockID := bi\<rparr>)) (\<lambda>_. Inr (h\<lparr>hdLastBlockID := bi\<rparr>)))"

fun commitSigsFromProto :: "commit_sig list \<Rightarrow> basic_error fault + unit" where
  "commitSigsFromProto [] = Inr ()"
| "commitSigsFromProto (cs # css) = bindR (CommitSig_ValidateBasic cs) (\<lambda>_. commitSigsFromProto css)"

definition CommitFromProto :: "commit option \<Rightarrow> basic_error fault + commit" where
  "CommitFromProto cp =
     (case cp of None \<Rightarrow> Inl (Err NilBlock)
      | Some c \<Rightarrow>
          bindR (BlockIDFromProto (Some (cmBlockID c))) (\<lambda>bi.
          bindR (commitSigsFromProto (cmSignatures c)) (\<lambda>_.
          bindR (Commit_ValidateBasic (c\<lparr>cmBlockID := bi\<rparr>)) (\<lambda>_. Inr (c\<lparr>cmBlockID := bi\<rparr>)))))"

text \<open>The evidence of a protobuf block is decoded to evidence before the block is validated; an
  encoding that does not decode is not a value of \<open>beUnmarshal\<close>.\<close>

definition BlockFromProto :: "block_env \<Rightarrow> block option \<Rightarrow> block_error fault + block" where
  "BlockFromProto be bp =
     (case bp of None \<Rightarrow> Inl (Err NilMessage)
      | Some b \<Rightarrow>
          bindR (HeaderFromProto (bkHeader b)) (\<lambda>h.
          bindR (case bkLastCommit b of
                   None \<Rightarrow> Inr None
                 | Some c \<Rightarrow> (case CommitFromProto (Some c) of
                               Inl (Err e) \<Rightarrow> Inl (Err (WrongLastCommit e))
                             | Inl (Panic m) \<Rightarrow> Inl (Panic m)
                             | Inr lc \<Rightarrow> Inr (Some lc))) (\<lambda>lc.
          bindR (Block_ValidateBasic be (Some (b\<lparr>bkHeader := h, bkLastCommit := lc\<rparr>))) (\<lambda>_.
            Inr (b\<lparr>bkHeader := h, bkLastCommit := lc\<rparr>)))))"

lemma HashesTo_iff:
  "Block_HashesTo be p hash \<longleftrightarrow> (\<exists>b. p = Some b \<and> Block_Hash be p = hash \<and> hash \<noteq> [])"
  by (auto simp: Block_HashesTo_def split: option.splits)

section \<open>What a block hash commits to\<close>

lemma treeInputs_root: "treeInputs H xs \<noteq> []" "HashFromByteSlices H xs = H (hd (treeInputs H xs))"
  by (subst treeInputs.simps; simp add: Let_def)
    (subst treeInputs.simps, subst HashFromByteSlices.simps, simp add: Let_def emptyHash_def leafHash_def innerHash_def)

lemma root_inj:
  assumes len: "\<And>x. length (H x) = 32"
    and "inj_on H (set (treeInputs H xs) \<union> set (treeInputs H ys))"
    and "HashFromByteSlices H xs = HashFromByteSlices H ys"
  shows "xs = ys"
  using assms(2,3)
proof (induction "length xs" arbitrary: xs ys rule: less_induct)
  case less
  have hd: "hd (treeInputs H xs) = hd (treeInputs H ys)"
  proof -
    have "hd (treeInputs H xs) \<in> set (treeInputs H xs)" "hd (treeInputs H ys) \<in> set (treeInputs H ys)"
      by (intro list.set_sel treeInputs_root(1))+
    then show ?thesis using less.prems by (auto simp: treeInputs_root(2) dest: inj_onD)
  qed
  have shape: "zs = [] \<and> hd (treeInputs H zs) = [] \<or> (\<exists>z. zs = [z] \<and> hd (treeInputs H zs) = 0 # z) \<or>
    2 \<le> length zs \<and> (\<exists>r. hd (treeInputs H zs) = 1 # r)" for zs
    by (cases zs; cases "tl zs") (auto simp: treeInputs.simps [of H zs] treeInputs.simps [of H "[_]"] treeInputs_split treeInputs.simps [of H "[]"])
  show ?case
  proof (cases "2 \<le> length xs")
    case False
    then show ?thesis using shape [of xs] shape [of ys] hd by auto
  next
    case True
    then have ys: "2 \<le> length ys" using shape [of xs] shape [of ys] hd by auto
    let ?k = "splitPoint (length xs)" and ?m = "splitPoint (length ys)"
    have k: "0 < ?k" "?k < length xs" using splitPoint_bounds [OF True] by auto
    have "HashFromByteSlices H (take ?k xs) @ HashFromByteSlices H (drop ?k xs) =
      HashFromByteSlices H (take ?m ys) @ HashFromByteSlices H (drop ?m ys)"
      using hd True ys by (simp add: treeInputs_split)
    then have eq: "HashFromByteSlices H (take ?k xs) = HashFromByteSlices H (take ?m ys)"
      "HashFromByteSlices H (drop ?k xs) = HashFromByteSlices H (drop ?m ys)"
      by (simp_all add: tree_length len)
    have inj: "inj_on H (set (treeInputs H (take ?k xs)) \<union> set (treeInputs H (take ?m ys)))"
      "inj_on H (set (treeInputs H (drop ?k xs)) \<union> set (treeInputs H (drop ?m ys)))"
      by (rule inj_on_subset [OF less.prems(1)]; use True ys in \<open>auto simp: treeInputs_split\<close>)+
    have "take ?k xs = take ?m ys" "drop ?k xs = drop ?m ys"
      using less.hyps [OF _ inj(1) eq(1)] less.hyps [OF _ inj(2) eq(2)] k by auto
    then show ?thesis by (metis append_take_drop_id)
  qed
qed

text \<open>What the hash relies on of the generated encodings: they are injective and not empty.\<close>

definition encodingsOk :: "block_env \<Rightarrow> bool" where
  "encodingsOk be \<longleftrightarrow> inj (beVersion be) \<and> inj (beTime be) \<and> inj (beBlockID be) \<and> inj (beString be) \<and> inj (beInt be) \<and>
     inj (beBytes be) \<and> inj (beCommitSig be) \<and> (\<forall>x. beString be x \<noteq> []) \<and> (\<forall>x. beBytes be x \<noteq> [])"

text \<open>The inputs that are hashed for a block.\<close>

definition blockInputs :: "block_env \<Rightarrow> block \<Rightarrow> bytes set" where
  "blockInputs be b =
     set (treeInputs (beHash be) (headerFields be (bkHeader b) (the (beTime be (hdTime (bkHeader b)))))) \<union>
     set (treeInputs (beHash be) (map (beCommitSig be) (cmSignatures (the (bkLastCommit b))))) \<union>
     set (treeInputs (beHash be) (map (Tx_Hash be) (bkTxs b))) \<union> set (bkTxs b) \<union>
     set (treeInputs (beHash be) (bkEvidence b))"

lemma cdcEncode_inj:
  assumes "encodingsOk be"
  shows "cdcEncodeString be a = cdcEncodeString be b \<longleftrightarrow> a = b" and "cdcEncodeBytes be c = cdcEncodeBytes be d \<longleftrightarrow> c = d"
proof -
  have ne: "beString be x \<noteq> []" "[] \<noteq> beString be x" "beBytes be y \<noteq> []" "[] \<noteq> beBytes be y" for x y
    using assms unfolding encodingsOk_def by metis+
  have inj: "beString be x = beString be x' \<longleftrightarrow> x = x'" "beBytes be y = beBytes be y' \<longleftrightarrow> y = y'" for x x' y y'
    using assms by (auto simp: encodingsOk_def inj_eq)
  show "cdcEncodeString be a = cdcEncodeString be b \<longleftrightarrow> a = b" "cdcEncodeBytes be c = cdcEncodeBytes be d \<longleftrightarrow> c = d"
    using ne inj by (auto simp: cdcEncodeString_def cdcEncodeBytes_def)
qed

lemma headerFields_inj:
  assumes "encodingsOk be" and "beTime be (hdTime h) = Some t" and "beTime be (hdTime h') = Some t'"
    and "headerFields be h t = headerFields be h' t'"
  shows "h = h'"
proof -
  note inj = assms(1) [unfolded encodingsOk_def]
  have "hdTime h = hdTime h'" using assms(2-4) inj by (auto simp: headerFields_def inj_def)
  moreover have "hdVersion h = hdVersion h'" "hdHeight h = hdHeight h'" "hdLastBlockID h = hdLastBlockID h'"
    using assms(4) inj by (auto simp: headerFields_def dest: injD)
  moreover have "hdChainID h = hdChainID h'" "hdLastCommitHash h = hdLastCommitHash h'" "hdDataHash h = hdDataHash h'"
    "hdValidatorsHash h = hdValidatorsHash h'" "hdNextValidatorsHash h = hdNextValidatorsHash h'"
    "hdConsensusHash h = hdConsensusHash h'" "hdAppHash h = hdAppHash h'" "hdLastResultsHash h = hdLastResultsHash h'"
    "hdEvidenceHash h = hdEvidenceHash h'" "hdProposerAddress h = hdProposerAddress h'"
    using assms(4) cdcEncode_inj [OF assms(1)] by (simp_all add: headerFields_def)
  ultimately show ?thesis by (cases h, cases h') simp
qed

lemma Block_Hash_valid:
  assumes len: "\<And>x. length (beHash be x) = 32" and "Block_ValidateBasic be (Some b) = Inr ()" and "Block_Hash be (Some b) \<noteq> []"
  obtains lc t where "bkLastCommit b = Some lc" and "beTime be (hdTime (bkHeader b)) = Some t"
    and "Block_Hash be (Some b) = HashFromByteSlices (beHash be) (headerFields be (bkHeader b) t)"
    and "hdLastCommitHash (bkHeader b) = HashFromByteSlices (beHash be) (map (beCommitSig be) (cmSignatures lc))"
    and "hdDataHash (bkHeader b) = HashFromByteSlices (beHash be) (map (Tx_Hash be) (bkTxs b))"
    and "hdEvidenceHash (bkHeader b) = HashFromByteSlices (beHash be) (bkEvidence b)"
proof -
  obtain lc where lc: "bkLastCommit b = Some lc" using assms(3) by (cases "bkLastCommit b") (simp_all add: Block_Hash_def)
  then have h: "hdLastCommitHash (bkHeader b) = HashFromByteSlices (beHash be) (map (beCommitSig be) (cmSignatures lc))"
    "hdDataHash (bkHeader b) = HashFromByteSlices (beHash be) (map (Tx_Hash be) (bkTxs b))"
    "hdEvidenceHash (bkHeader b) = HashFromByteSlices (beHash be) (bkEvidence b)"
    using assms(2) by (auto simp: Block_ValidateBasic_def bindR_Inr_iff Commit_Hash_def Txs_Hash_def Evidence_Hash_def
        split: if_splits sum.splits fault.splits)
  have ne: "HashFromByteSlices (beHash be) xs \<noteq> []" for xs using tree_length [of "beHash be" xs, OF len] by force
  have fill: "bkHeader (fillHeader be b) = bkHeader b" by (simp add: fillHeader_def h ne)
  then obtain t where "beTime be (hdTime (bkHeader b)) = Some t"
    "Block_Hash be (Some b) = HashFromByteSlices (beHash be) (headerFields be (bkHeader b) t)"
    using assms(3) lc by (auto simp: Block_Hash_def Header_Hash_def split: if_splits option.splits)
  with that lc h show ?thesis by blast
qed

section \<open>Properties\<close>


text \<open>A concrete environment and block for the witness.\<close>

definition sampleBlockEnv :: block_env where
  "sampleBlockEnv = \<lparr>beHash = padHash,
     beVersion = (\<lambda>v. encPair encNat encNat (verBlock v, verApp v)), beTime = (\<lambda>t. Some (encInt t)),
     beBlockID = (\<lambda>b. encBid (Some b)), beString = (\<lambda>x. 6 # encStr x), beInt = (\<lambda>i. 5 # encInt i), beBytes = (\<lambda>b. 7 # b),
     beCommitSig = (\<lambda>cs. encPair encNat (encPair encBytes (encPair encInt encBytes))
       (case csFlag cs of BlockIDFlagAbsent \<Rightarrow> 0 | BlockIDFlagCommit \<Rightarrow> 1 | BlockIDFlagNil \<Rightarrow> 2 | BlockIDFlagOther w \<Rightarrow> 3 + unat w,
        csAddress cs, csTimestamp cs, csSignature cs)),
     beEvidenceOk = (\<lambda>e. True), beMarshal = (\<lambda>b. []), beUnmarshal = (\<lambda>bz. None)\<rparr>"

definition sampleBlock :: block where
  "sampleBlock = (let b = MakeBlock sampleBlockEnv 1 [[9]] (Some (NewCommit 0 0 emptyBlockID [])) [[8]] in
     b\<lparr>bkHeader := Populate (bkHeader b) (hdVersion (bkHeader b)) ''c'' 1 emptyBlockID (replicate 32 4) [] [] [] [] (replicate 20 3)\<rparr>)"

lemma codec_inj: "prefixCodec e d \<Longrightarrow> e x = e y \<longleftrightarrow> x = y"
  using dec_enc_end by (metis Pair_inject)

lemma sampleBlockEnv_ok: "encodingsOk sampleBlockEnv"
proof -
  note inj = codec_inj [OF codec_nat] codec_inj [OF codec_int] codec_inj [OF codec_bid] codec_inj [OF codec_str] codec_inj [OF codec_bytes]
    codec_inj [OF codec_pair [OF codec_nat codec_nat]]
    codec_inj [OF codec_pair [OF codec_nat codec_pair [OF codec_bytes codec_pair [OF codec_int codec_bytes]]]]
  have "unat w = unat w' \<longleftrightarrow> w = w'" for w w' :: "8 word" by (simp add: unsigned_word_eqI word_unat_eq_iff)
  then show ?thesis
    by (auto simp: encodingsOk_def sampleBlockEnv_def inj_def inj split: BlockIDFlag.splits
        intro!: Consensus.equality commit_sig.equality)
qed


end
