(* ===== verification/Execution.thy ===== *)
theory Execution
  imports ValidatorPriority VoteSetCommit Blocks
begin

text \<open>
  \<open>state/state.go\<close>, \<open>state/validation.go\<close>, \<open>state/execution.go\<close>, \<open>types/params.go\<close>, \<open>types/genesis.go\<close>,
  \<open>types/time/time.go\<close>: the state of the chain after a block, validating a block against it, the time of
  a block, making a block, and applying a block.

  The application behind the ABCI connection, the mempool, the evidence pool and the database of states
  are fields of \<open>exec_env\<close>, with the encodings of generated code. A database error is a \<open>False\<close> or \<open>None\<close>.
  Times are compared as integers: \<open>UnixNano\<close> is exact between the years 1678 and 2262.
\<close>

section \<open>Consensus parameters\<close>

record BlockParams =
  bpMaxBytes :: int
  bpMaxGas :: int

record EvidenceParams =
  epMaxAgeNumBlocks :: int
  epMaxAgeDuration :: int
  epMaxBytes :: int

record ConsensusParams =
  cpBlock :: BlockParams
  cpEvidence :: EvidenceParams
  cpPubKeyTypes :: "string list"
  cpAppVersion :: nat

text \<open>The protobuf form of an update: every group may be nil.\<close>

record params_update =
  puBlock :: "BlockParams option"
  puEvidence :: "EvidenceParams option"
  puPubKeyTypes :: "string list option"
  puAppVersion :: "nat option"

datatype params_error =
    MaxBytesNotPositive | MaxBytesTooBig | MaxGasTooSmall | MaxAgeNumBlocksNotPositive | MaxAgeDurationNotPositive
  | EvidenceMaxBytesTooBig | EvidenceMaxBytesNegative | NoPubKeyTypes | UnknownPubKeyType nat

definition MaxBlockSizeBytes :: int where "MaxBlockSizeBytes = 104857600"

definition ABCIPubKeyTypes :: "string list" where
  "ABCIPubKeyTypes = [''ed25519'', ''secp256k1'']"

definition DefaultConsensusParams :: ConsensusParams where
  "DefaultConsensusParams =
     \<lparr>cpBlock = \<lparr>bpMaxBytes = 22020096, bpMaxGas = -1\<rparr>,
      cpEvidence = \<lparr>epMaxAgeNumBlocks = 100000, epMaxAgeDuration = 48 * 3600 * 1000000000, epMaxBytes = 1048576\<rparr>,
      cpPubKeyTypes = [''ed25519''], cpAppVersion = 0\<rparr>"

definition IsValidPubkeyType :: "ConsensusParams \<Rightarrow> string \<Rightarrow> bool" where
  "IsValidPubkeyType params t \<longleftrightarrow> List.member (cpPubKeyTypes params) t"

fun keyTypesLoop :: "nat \<Rightarrow> string list \<Rightarrow> params_error fault + unit" where
  "keyTypesLoop i [] = Inr ()"
| "keyTypesLoop i (t # ts) = (if List.member ABCIPubKeyTypes t then keyTypesLoop (Suc i) ts else Inl (Err (UnknownPubKeyType i)))"

definition ValidateConsensusParams :: "ConsensusParams \<Rightarrow> params_error fault + unit" where
  "ValidateConsensusParams params =
     (let b = cpBlock params; e = cpEvidence params in
      if bpMaxBytes b \<le> 0 then Inl (Err MaxBytesNotPositive)
      else if bpMaxBytes b > MaxBlockSizeBytes then Inl (Err MaxBytesTooBig)
      else if bpMaxGas b < -1 then Inl (Err MaxGasTooSmall)
      else if epMaxAgeNumBlocks e \<le> 0 then Inl (Err MaxAgeNumBlocksNotPositive)
      else if epMaxAgeDuration e \<le> 0 then Inl (Err MaxAgeDurationNotPositive)
      else if epMaxBytes e > bpMaxBytes b then Inl (Err EvidenceMaxBytesTooBig)
      else if epMaxBytes e < 0 then Inl (Err EvidenceMaxBytesNegative)
      else if length (cpPubKeyTypes params) = 0 then Inl (Err NoPubKeyTypes)
      else keyTypesLoop 0 (cpPubKeyTypes params))"

definition UpdateConsensusParams :: "ConsensusParams \<Rightarrow> params_update option \<Rightarrow> ConsensusParams" where
  "UpdateConsensusParams params p2 =
     (case p2 of
        None \<Rightarrow> params
      | Some u \<Rightarrow>
          let r1 = (case puBlock u of None \<Rightarrow> params | Some b \<Rightarrow> params\<lparr>cpBlock := b\<rparr>);
              r2 = (case puEvidence u of None \<Rightarrow> r1 | Some e \<Rightarrow> r1\<lparr>cpEvidence := e\<rparr>);
              r3 = (case puPubKeyTypes u of None \<Rightarrow> r2 | Some ts \<Rightarrow> r2\<lparr>cpPubKeyTypes := ts\<rparr>)
          in (case puAppVersion u of None \<Rightarrow> r3 | Some v \<Rightarrow> r3\<lparr>cpAppVersion := v\<rparr>))"

section \<open>The state of the chain\<close>

text \<open>\<open>IsEmpty\<close> is a nil \<open>Validators\<close>; \<open>NextValidators\<close> is nil with it.\<close>

record chain_state =
  stVersion :: Consensus
  stSoftware :: string
  stChainID :: string
  stInitialHeight :: int
  stLastBlockHeight :: int
  stLastBlockID :: block_id
  stLastBlockTime :: time
  stNextValidators :: "validator_set option"
  stValidators :: "validator_set option"
  stLastValidators :: validator_set
  stLastHeightValidatorsChanged :: int
  stConsensusParams :: ConsensusParams
  stLastHeightConsensusParamsChanged :: int
  stLastResultsHash :: bytes
  stAppHash :: bytes

record deliver_tx =
  dtCode :: nat
  dtData :: bytes
  dtGasWanted :: int
  dtGasUsed :: int
  dtLog :: string

record abci_responses =
  arDeliverTxs :: "deliver_tx list"
  arValidatorUpdates :: "(bytes \<times> int) list"
  arParamUpdates :: "params_update option"

record exec_env =
  xeValidatorBytes :: "bytes \<Rightarrow> int \<Rightarrow> bytes"
  xeHashedParams :: "int \<Rightarrow> int \<Rightarrow> bytes"
  xeResultBytes :: "deliver_tx \<Rightarrow> bytes"
  xeEvidenceSize :: "evidence list \<Rightarrow> int"
  xePubKeyFromProto :: "bytes \<Rightarrow> bytes option"
  xeKeyType :: "bytes \<Rightarrow> string"
  xeCheckEvidence :: "evidence list \<Rightarrow> bool"
  xePendingEvidence :: "int \<Rightarrow> evidence list \<times> int"
  xeReap :: "int \<Rightarrow> int \<Rightarrow> Tx list"
  xeLoadValidators :: "int \<Rightarrow> validator_set option"
  xeBeginBlock :: "int \<times> (validator \<times> bool) list \<Rightarrow> block \<Rightarrow> bool"
  xeDeliverTx :: "block \<Rightarrow> Tx list \<Rightarrow> Tx \<Rightarrow> deliver_tx option"
  xeEndBlock :: "block \<Rightarrow> ((bytes \<times> int) list \<times> params_update option) option"
  xeSaveResponses :: "int \<Rightarrow> abci_responses \<Rightarrow> bool"
  xeCommit :: "chain_state \<Rightarrow> block \<Rightarrow> deliver_tx list \<Rightarrow> (bytes \<times> int) option"
  xeSaveState :: "chain_state \<Rightarrow> bool"

datatype exec_error =
    BasicErr block_error | WrongBlockVersion | WrongChainID | WrongInitialHeight | WrongHeight | WrongPrevBlockID
  | WrongAppHash | WrongParamsHash | WrongResultsHash | WrongValsHash | WrongNextValsHash | InitialCommitNotEmpty
  | LastCommitErr commit_error | UnknownProposer | TimeNotAfterLast | WrongMedianTime | WrongGenesisTime | HeightTooLow
  | ErrEvidenceOverflow | EvidenceErr | ErrInvalidBlock exec_error | ErrProxyAppConn | StoreErr | NegativeUpdatePower
  | BadPubKey | UnsupportedKeyType | ValSetErr vs_error | ParamsErr params_error | CommitErr
  | GenesisErr string

section \<open>Hashes of validators and parameters\<close>

fun validatorBytes :: "exec_env \<Rightarrow> validator list \<Rightarrow> 'e fault + bytes list" where
  "validatorBytes xe [] = Inr []"
| "validatorBytes xe (v # vs) =
     (case PubKey v of None \<Rightarrow> Inl (Panic ''toproto: key type is not supported'')
      | Some pk \<Rightarrow> bindR (validatorBytes xe vs) (\<lambda>bs. Inr (xeValidatorBytes xe pk (VotingPower v) # bs)))"

definition ValidatorSet_Hash :: "block_env \<Rightarrow> exec_env \<Rightarrow> validator_set option \<Rightarrow> 'e fault + bytes" where
  "ValidatorSet_Hash be xe p =
     (case p of None \<Rightarrow> Inl (Panic ''nil pointer dereference'')
      | Some vals \<Rightarrow> bindR (validatorBytes xe (Validators vals)) (\<lambda>bzs. Inr (HashFromByteSlices (beHash be) bzs)))"

definition HashConsensusParams :: "block_env \<Rightarrow> exec_env \<Rightarrow> ConsensusParams \<Rightarrow> bytes" where
  "HashConsensusParams be xe params =
     beHash be (xeHashedParams xe (bpMaxBytes (cpBlock params)) (bpMaxGas (cpBlock params)))"

definition deterministicResponseDeliverTx :: "deliver_tx \<Rightarrow> deliver_tx" where
  "deterministicResponseDeliverTx r =
     \<lparr>dtCode = dtCode r, dtData = dtData r, dtGasWanted = dtGasWanted r, dtGasUsed = dtGasUsed r, dtLog = []\<rparr>"

definition ABCIResponsesResultsHash :: "block_env \<Rightarrow> exec_env \<Rightarrow> abci_responses \<Rightarrow> bytes" where
  "ABCIResponsesResultsHash be xe ar =
     HashFromByteSlices (beHash be) (map (\<lambda>r. xeResultBytes xe (deterministicResponseDeliverTx r)) (arDeliverTxs ar))"

section \<open>The time of a block\<close>

record WeightedTime =
  wtTime :: time
  wtWeight :: int

text \<open>Entries that are nil are sorted last. The order of equal times has no influence on the result.\<close>

definition timeKey :: "WeightedTime option \<Rightarrow> nat \<times> int" where
  "timeKey p = (case p of None \<Rightarrow> (1, 0) | Some w \<Rightarrow> (0, wtTime w))"

fun medianLoop :: "int \<Rightarrow> WeightedTime option list \<Rightarrow> time" where
  "medianLoop median [] = 0"
| "medianLoop median (None # ws) = medianLoop median ws"
| "medianLoop median (Some w # ws) =
     (if median \<le> wtWeight w then wtTime w else medianLoop (median - wtWeight w) ws)"

definition WeightedMedian :: "WeightedTime option list \<Rightarrow> int \<Rightarrow> time" where
  "WeightedMedian weightedTimes tvp =
     medianLoop (tvp sdiv 2) (sort_key timeKey weightedTimes)"

fun medianInputs :: "validator_set \<Rightarrow> commit_sig list \<Rightarrow> WeightedTime option list \<times> int \<Rightarrow> WeightedTime option list \<times> int" where
  "medianInputs vals [] acc = acc"
| "medianInputs vals (cs # css) (ws, tot) =
     (if Absent cs then medianInputs vals css (ws @ [None], tot)
      else case snd (GetByAddress vals (csAddress cs)) of
        None \<Rightarrow> medianInputs vals css (ws @ [None], tot)
      | Some v \<Rightarrow> medianInputs vals css (ws @ [Some \<lparr>wtTime = csTimestamp cs, wtWeight = VotingPower v\<rparr>], wrap64 (tot + VotingPower v)))"

definition MedianTime :: "commit \<Rightarrow> validator_set \<Rightarrow> time" where
  "MedianTime c vals = (let (ws, tot) = medianInputs vals (cmSignatures c) ([], 0) in WeightedMedian ws tot)"

section \<open>Validating a block\<close>

definition liftErr :: "('e \<Rightarrow> 'f) \<Rightarrow> 'e fault + 'a \<Rightarrow> 'f fault + 'a" where
  "liftErr f m = (case m of Inl (Err e) \<Rightarrow> Inl (Err (f e)) | Inl (Panic p) \<Rightarrow> Inl (Panic p) | Inr x \<Rightarrow> Inr x)"

text \<open>The checks of \<open>validateBlock\<close> on the last commit, the proposer and the time.\<close>

definition checkLastCommit :: "crypto_env \<Rightarrow> chain_state \<Rightarrow> block \<Rightarrow> exec_error fault + unit" where
  "checkLastCommit ce st b =
     (if hdHeight (bkHeader b) = stInitialHeight st then
        (case bkLastCommit b of
           None \<Rightarrow> Inl (Panic ''nil pointer dereference'')
         | Some lc \<Rightarrow> if length (cmSignatures lc) \<noteq> 0 then Inl (Err InitialCommitNotEmpty) else Inr ())
      else liftErr LastCommitErr
             (snd (VerifyCommit ce (stLastValidators st) (stChainID st) (stLastBlockID st)
                     (wrap64 (hdHeight (bkHeader b) - 1)) (bkLastCommit b))))"

definition checkTime :: "chain_state \<Rightarrow> block \<Rightarrow> exec_error fault + unit" where
  "checkTime st b =
     (let h = bkHeader b in
      if hdHeight h > stInitialHeight st then
        (if \<not> hdTime h > stLastBlockTime st then Inl (Err TimeNotAfterLast)
         else if hdTime h \<noteq> MedianTime (the (bkLastCommit b)) (stLastValidators st) then Inl (Err WrongMedianTime)
         else Inr ())
      else if hdHeight h = stInitialHeight st then
        (if hdTime h \<noteq> stLastBlockTime st then Inl (Err WrongGenesisTime) else Inr ())
      else Inl (Err HeightTooLow))"

definition validateBlock :: "crypto_env \<Rightarrow> block_env \<Rightarrow> exec_env \<Rightarrow> chain_state \<Rightarrow> block \<Rightarrow> exec_error fault + unit" where
  "validateBlock ce be xe st b =
     (let h = bkHeader b in
      bindR (liftErr BasicErr (Block_ValidateBasic be (Some b))) (\<lambda>_.
      if verApp (hdVersion h) \<noteq> verApp (stVersion st) \<or> verBlock (hdVersion h) \<noteq> verBlock (stVersion st)
      then Inl (Err WrongBlockVersion)
      else if hdChainID h \<noteq> stChainID st then Inl (Err WrongChainID)
      else if stLastBlockHeight st = 0 \<and> hdHeight h \<noteq> stInitialHeight st then Inl (Err WrongInitialHeight)
      else if stLastBlockHeight st > 0 \<and> hdHeight h \<noteq> wrap64 (stLastBlockHeight st + 1) then Inl (Err WrongHeight)
      else if \<not> BlockID_Equals (hdLastBlockID h) (stLastBlockID st) then Inl (Err WrongPrevBlockID)
      else if hdAppHash h \<noteq> stAppHash st then Inl (Err WrongAppHash)
      else if hdConsensusHash h \<noteq> HashConsensusParams be xe (stConsensusParams st) then Inl (Err WrongParamsHash)
      else if hdLastResultsHash h \<noteq> stLastResultsHash st then Inl (Err WrongResultsHash)
      else
        bindR (ValidatorSet_Hash be xe (stValidators st)) (\<lambda>vh.
        if hdValidatorsHash h \<noteq> vh then Inl (Err WrongValsHash)
        else
          bindR (ValidatorSet_Hash be xe (stNextValidators st)) (\<lambda>nvh.
          if hdNextValidatorsHash h \<noteq> nvh then Inl (Err WrongNextValsHash)
          else
            bindR (checkLastCommit ce st b) (\<lambda>_.
            if \<not> HasAddress (the (stValidators st)) (hdProposerAddress h) then Inl (Err UnknownProposer)
            else
              bindR (checkTime st b) (\<lambda>_.
              if xeEvidenceSize xe (bkEvidence b) > epMaxBytes (cpEvidence (stConsensusParams st))
              then Inl (Err ErrEvidenceOverflow) else Inr ()))))))"

definition ValidateBlock :: "crypto_env \<Rightarrow> block_env \<Rightarrow> exec_env \<Rightarrow> chain_state \<Rightarrow> block \<Rightarrow> exec_error fault + unit" where
  "ValidateBlock ce be xe st b =
     bindR (validateBlock ce be xe st b) (\<lambda>_. if xeCheckEvidence xe (bkEvidence b) then Inr () else Inl (Err EvidenceErr))"

section \<open>Making a block\<close>

definition State_MakeBlock ::
  "block_env \<Rightarrow> exec_env \<Rightarrow> chain_state \<Rightarrow> int \<Rightarrow> Tx list \<Rightarrow> commit \<Rightarrow> evidence list \<Rightarrow> bytes \<Rightarrow> 'e fault + (block \<times> part_set)"
where
  "State_MakeBlock be xe st height txs c evs proposerAddress =
     (let b = MakeBlock be height txs (Some c) evs;
          timestamp = (if height = stInitialHeight st then stLastBlockTime st else MedianTime c (stLastValidators st)) in
      bindR (ValidatorSet_Hash be xe (stValidators st)) (\<lambda>vh.
      bindR (ValidatorSet_Hash be xe (stNextValidators st)) (\<lambda>nvh.
      let b' = b\<lparr>bkHeader := Populate (bkHeader b) (stVersion st) (stChainID st) timestamp (stLastBlockID st) vh nvh
                   (HashConsensusParams be xe (stConsensusParams st)) (stAppHash st) (stLastResultsHash st) proposerAddress\<rparr> in
      bindR (MakePartSet be (Some b') (word_of_nat BlockPartSizeBytes)) (\<lambda>ps.
        case ps of None \<Rightarrow> Inl (Panic ''nil pointer dereference'') | Some q \<Rightarrow> Inr (b', q)))))"

definition MaxCommitBytes :: "int \<Rightarrow> int" where
  "MaxCommitBytes valCount = 94 + (109 + 2) * valCount"

definition MaxDataBytes :: "int \<Rightarrow> int \<Rightarrow> int \<Rightarrow> 'e fault + int" where
  "MaxDataBytes maxBytes evidenceBytes valsCount =
     (let maxDataBytes = wrap64 (maxBytes - 11 - 626 - MaxCommitBytes valsCount - evidenceBytes) in
      if maxDataBytes < 0 then Inl (Panic ''Negative MaxDataBytes'') else Inr maxDataBytes)"

definition CreateProposalBlock ::
  "block_env \<Rightarrow> exec_env \<Rightarrow> int \<Rightarrow> chain_state \<Rightarrow> commit \<Rightarrow> bytes \<Rightarrow> 'e fault + (block \<times> part_set)"
where
  "CreateProposalBlock be xe height st c proposerAddr =
     (let params = stConsensusParams st;
          (evs, evSize) = xePendingEvidence xe (epMaxBytes (cpEvidence params)) in
      case stValidators st of None \<Rightarrow> Inl (Panic ''nil pointer dereference'')
      | Some vals \<Rightarrow>
          bindR (MaxDataBytes (bpMaxBytes (cpBlock params)) evSize (ValidatorSet_Size vals)) (\<lambda>maxDataBytes.
            State_MakeBlock be xe st height (xeReap xe maxDataBytes (bpMaxGas (cpBlock params))) c evs proposerAddr))"

section \<open>Applying a block\<close>

definition voteInfos :: "validator list \<Rightarrow> commit_sig list \<Rightarrow> (validator \<times> bool) list" where
  "voteInfos vals sigs = map2 (\<lambda>v cs. (v, \<not> Absent cs)) vals sigs"

text \<open>The vote information of the initial block has as many empty entries as its commit has signatures:
  none, for a block that was validated.\<close>

definition getBeginBlockValidatorInfo :: "exec_env \<Rightarrow> block \<Rightarrow> int \<Rightarrow> 'e fault + int \<times> (validator \<times> bool) list" where
  "getBeginBlockValidatorInfo xe b initialHeight =
     (case bkLastCommit b of
        None \<Rightarrow> Inl (Panic ''nil pointer dereference'')
      | Some lc \<Rightarrow>
          if hdHeight (bkHeader b) > initialHeight then
            (case xeLoadValidators xe (wrap64 (hdHeight (bkHeader b) - 1)) of
               None \<Rightarrow> Inl (Panic ''no validator set for height'')
             | Some lastValSet \<Rightarrow>
                 if length (cmSignatures lc) \<noteq> length (Validators lastValSet)
                 then Inl (Panic ''commit size does not match valset length'')
                 else Inr (cmRound lc, voteInfos (Validators lastValSet) (cmSignatures lc)))
          else Inr (cmRound lc, []))"

text \<open>The application is given the header, the votes and the evidence of the block, then each transaction, then the
  end of the block. Its answer to a transaction may depend on those before it; the answers are collected in order.\<close>

fun deliverLoop :: "exec_env \<Rightarrow> block \<Rightarrow> Tx list \<Rightarrow> Tx list \<Rightarrow> exec_error fault + deliver_tx list" where
  "deliverLoop xe b before [] = Inr []"
| "deliverLoop xe b before (tx # txs) =
     (case xeDeliverTx xe b before tx of
        None \<Rightarrow> Inl (Err ErrProxyAppConn)
      | Some txRes \<Rightarrow> bindR (deliverLoop xe b (before @ [tx]) txs) (\<lambda>rs. Inr (txRes # rs)))"

definition execBlockOnProxyApp :: "exec_env \<Rightarrow> block \<Rightarrow> int \<Rightarrow> exec_error fault + abci_responses" where
  "execBlockOnProxyApp xe b initialHeight =
     bindR (getBeginBlockValidatorInfo xe b initialHeight) (\<lambda>commitInfo.
     if \<not> xeBeginBlock xe commitInfo b then Inl (Err ErrProxyAppConn)
     else
       bindR (deliverLoop xe b [] (bkTxs b)) (\<lambda>dtxs.
         case xeEndBlock xe b of
           None \<Rightarrow> Inl (Err ErrProxyAppConn)
         | Some (valUpdates, paramUpdates) \<Rightarrow>
             Inr \<lparr>arDeliverTxs = dtxs, arValidatorUpdates = valUpdates, arParamUpdates = paramUpdates\<rparr>))"

fun validateValidatorUpdates :: "exec_env \<Rightarrow> ConsensusParams \<Rightarrow> (bytes \<times> int) list \<Rightarrow> exec_error fault + unit" where
  "validateValidatorUpdates xe params [] = Inr ()"
| "validateValidatorUpdates xe params ((key, p) # us) =
     (if p < 0 then Inl (Err NegativeUpdatePower)
      else if p = 0 then validateValidatorUpdates xe params us
      else case xePubKeyFromProto xe key of
        None \<Rightarrow> Inl (Err BadPubKey)
      | Some pk \<Rightarrow>
          if \<not> IsValidPubkeyType params (xeKeyType xe pk) then Inl (Err UnsupportedKeyType)
          else validateValidatorUpdates xe params us)"

fun PB2TM_ValidatorUpdates :: "crypto_env \<Rightarrow> exec_env \<Rightarrow> (bytes \<times> int) list \<Rightarrow> exec_error fault + validator list" where
  "PB2TM_ValidatorUpdates ce xe [] = Inr []"
| "PB2TM_ValidatorUpdates ce xe ((key, p) # us) =
     (case xePubKeyFromProto xe key of
        None \<Rightarrow> Inl (Err BadPubKey)
      | Some pk \<Rightarrow> bindR (PB2TM_ValidatorUpdates ce xe us) (\<lambda>vs. Inr (NewValidator ce pk p # vs)))"

text \<open>The parameters, version and height of the last change of the parameters in the next state.\<close>

definition updateParams :: "chain_state \<Rightarrow> Header \<Rightarrow> abci_responses \<Rightarrow> exec_error fault + (ConsensusParams \<times> Consensus \<times> int)" where
  "updateParams st h ar =
     (case arParamUpdates ar of
        None \<Rightarrow> Inr (stConsensusParams st, stVersion st, stLastHeightConsensusParamsChanged st)
      | Some u \<Rightarrow>
          let nextParams = UpdateConsensusParams (stConsensusParams st) (Some u) in
          bindR (liftErr ParamsErr (ValidateConsensusParams nextParams)) (\<lambda>_.
            Inr (nextParams, (stVersion st)\<lparr>verApp := cpAppVersion nextParams\<rparr>, wrap64 (hdHeight h + 1))))"

definition updateState ::
  "block_env \<Rightarrow> exec_env \<Rightarrow> chain_state \<Rightarrow> block_id \<Rightarrow> Header \<Rightarrow> abci_responses \<Rightarrow> validator list \<Rightarrow> exec_error fault + chain_state"
where
  "updateState be xe st blockID h ar validatorUpdates =
     (case (stNextValidators st, stValidators st) of
        (Some nv, Some v) \<Rightarrow>
          bindR (if length validatorUpdates > 0
                 then bindR (liftErr ValSetErr (UpdateWithChangeSet nv validatorUpdates)) (\<lambda>nv'. Inr (nv', wrap64 (hdHeight h + 1 + 1)))
                 else Inr (nv, stLastHeightValidatorsChanged st)) (\<lambda>(nValSet, lastHeightValsChanged).
          bindR (IncrementProposerPriority nValSet 1) (\<lambda>nValSet'.
          bindR (updateParams st h ar)
            (\<lambda>(nextParams, nextVersion, lastHeightParamsChanged).
            Inr (st\<lparr>stVersion := nextVersion, stLastBlockHeight := hdHeight h, stLastBlockID := blockID,
                   stLastBlockTime := hdTime h, stNextValidators := Some nValSet', stValidators := Some nv,
                   stLastValidators := v, stLastHeightValidatorsChanged := lastHeightValsChanged,
                   stConsensusParams := nextParams, stLastHeightConsensusParamsChanged := lastHeightParamsChanged,
                   stLastResultsHash := ABCIResponsesResultsHash be xe ar, stAppHash := []\<rparr>))))
      | _ \<Rightarrow> Inl (Panic ''nil pointer dereference''))"

text \<open>The end of \<open>ApplyBlock\<close>: committing in the application and saving the state.\<close>

definition commitAndSave :: "exec_env \<Rightarrow> block \<Rightarrow> abci_responses \<Rightarrow> chain_state \<Rightarrow> exec_error fault + (chain_state \<times> int)" where
  "commitAndSave xe b ar st =
     (case xeCommit xe st b (arDeliverTxs ar) of
        None \<Rightarrow> Inl (Err CommitErr)
      | Some (appHash, retainHeight) \<Rightarrow>
          let st' = st\<lparr>stAppHash := appHash\<rparr> in
          if xeSaveState xe st' then Inr (st', retainHeight) else Inl (Err StoreErr))"

definition ApplyBlock ::
  "crypto_env \<Rightarrow> block_env \<Rightarrow> exec_env \<Rightarrow> chain_state \<Rightarrow> block_id \<Rightarrow> block \<Rightarrow> exec_error fault + (chain_state \<times> int)"
where
  "ApplyBlock ce be xe st blockID b =
     bindR (liftErr ErrInvalidBlock (validateBlock ce be xe st b)) (\<lambda>_.
     bindR (execBlockOnProxyApp xe b (stInitialHeight st)) (\<lambda>ar.
     if \<not> xeSaveResponses xe (hdHeight (bkHeader b)) ar then Inl (Err StoreErr)
     else
       bindR (validateValidatorUpdates xe (stConsensusParams st) (arValidatorUpdates ar)) (\<lambda>_.
       bindR (PB2TM_ValidatorUpdates ce xe (arValidatorUpdates ar)) (\<lambda>validatorUpdates.
       bindR (updateState be xe st blockID (bkHeader b) ar validatorUpdates) (commitAndSave xe b ar)))))"

section \<open>Genesis\<close>

record GenesisValidator =
  gvAddress :: bytes
  gvPubKey :: bytes
  gvPower :: int

record GenesisDoc =
  gdTime :: time
  gdChainID :: string
  gdInitialHeight :: int
  gdParams :: "ConsensusParams option"
  gdValidators :: "GenesisValidator list option"
  gdAppHash :: bytes

fun genesisValidatorsLoop :: "crypto_env \<Rightarrow> GenesisValidator list \<Rightarrow> exec_error fault + GenesisValidator list" where
  "genesisValidatorsLoop ce [] = Inr []"
| "genesisValidatorsLoop ce (v # vs) =
     (if gvPower v = 0 then Inl (Err (GenesisErr ''no voting power''))
      else if length (gvAddress v) > 0 \<and> pkAddress ce (gvPubKey v) \<noteq> gvAddress v
      then Inl (Err (GenesisErr ''incorrect address''))
      else bindR (genesisValidatorsLoop ce vs) (\<lambda>rest.
             Inr ((if length (gvAddress v) = 0 then v\<lparr>gvAddress := pkAddress ce (gvPubKey v)\<rparr> else v) # rest)))"

text \<open>\<open>now\<close> is the clock reading for a document without a time.\<close>

definition ValidateAndComplete :: "crypto_env \<Rightarrow> time \<Rightarrow> GenesisDoc \<Rightarrow> exec_error fault + GenesisDoc" where
  "ValidateAndComplete ce now gd =
     (if gdChainID gd = [] then Inl (Err (GenesisErr ''no chain_id''))
      else if length (gdChainID gd) > MaxChainIDLen then Inl (Err (GenesisErr ''chain_id too long''))
      else if gdInitialHeight gd < 0 then Inl (Err (GenesisErr ''negative initial_height''))
      else
        let gd1 = (if gdInitialHeight gd = 0 then gd\<lparr>gdInitialHeight := 1\<rparr> else gd) in
        bindR (case gdParams gd1 of
                 None \<Rightarrow> Inr (gd1\<lparr>gdParams := Some DefaultConsensusParams\<rparr>)
               | Some ps \<Rightarrow> bindR (liftErr ParamsErr (ValidateConsensusParams ps)) (\<lambda>_. Inr gd1)) (\<lambda>gd2.
        bindR (case gdValidators gd2 of
                 None \<Rightarrow> Inr gd2
               | Some vs \<Rightarrow> bindR (genesisValidatorsLoop ce vs) (\<lambda>vs'. Inr (gd2\<lparr>gdValidators := Some vs'\<rparr>))) (\<lambda>gd3.
          Inr (if gdTime gd3 = 0 then gd3\<lparr>gdTime := now\<rparr> else gd3))))"

definition MakeGenesisState :: "crypto_env \<Rightarrow> time \<Rightarrow> string \<Rightarrow> GenesisDoc \<Rightarrow> exec_error fault + chain_state" where
  "MakeGenesisState ce now software genDoc =
     bindR (ValidateAndComplete ce now genDoc) (\<lambda>gd.
     let valz = (case gdValidators gd of None \<Rightarrow> [] | Some vs \<Rightarrow> map (\<lambda>v. NewValidator ce (gvPubKey v) (gvPower v)) vs) in
     bindR (NewValidatorSet valz) (\<lambda>validatorSet.
     bindR (if gdValidators gd = None then Inr validatorSet else CopyIncrementProposerPriority validatorSet 1) (\<lambda>nextValidatorSet.
     bindR (NewValidatorSet []) (\<lambda>noValidators.
       Inr \<lparr>stVersion = \<lparr>verBlock = BlockProtocol, verApp = 0\<rparr>, stSoftware = software, stChainID = gdChainID gd,
            stInitialHeight = gdInitialHeight gd, stLastBlockHeight = 0, stLastBlockID = emptyBlockID,
            stLastBlockTime = gdTime gd, stNextValidators = Some nextValidatorSet, stValidators = Some validatorSet,
            stLastValidators = noValidators, stLastHeightValidatorsChanged = gdInitialHeight gd,
            stConsensusParams = the (gdParams gd), stLastHeightConsensusParamsChanged = gdInitialHeight gd,
            stLastResultsHash = [], stAppHash = gdAppHash gd\<rparr>))))"

end
