(* ===== verification/BlockTime.thy ===== *)
theory BlockTime
  imports Execution "HOL-Library.Multiset"
begin

text \<open>
  The time of a block: what the weighted median of the timestamps of a commit promises, and what it does
  not promise because of its rounding and because the addresses in a commit are not checked.
\<close>

section \<open>The weighted median\<close>

definition weightOf :: "(WeightedTime \<Rightarrow> bool) \<Rightarrow> WeightedTime list \<Rightarrow> int" where
  "weightOf P ws = sum_list (map wtWeight (filter P ws))"

lemma weightOf_simps [simp]:
  "weightOf P [] = 0" "weightOf P (w # ws) = (if P w then wtWeight w else 0) + weightOf P ws"
  by (simp_all add: weightOf_def)

lemma weightOf_nonneg: "\<forall>w \<in> set ws. 0 < wtWeight w \<Longrightarrow> 0 \<le> weightOf P ws"
  by (induction ws) auto

lemma weightOf_none: "\<forall>w \<in> set ws. \<not> P w \<Longrightarrow> weightOf P ws = 0"
  by (induction ws) auto

lemma weightOf_mset: "mset ws = mset ws' \<Longrightarrow> weightOf P ws = weightOf P ws'"
  unfolding weightOf_def by (metis mset_filter mset_map sum_mset_sum_list)

lemma medianLoop_somes: "medianLoop m xs = medianLoop m (map Some (concat (map (\<lambda>p. case p of None \<Rightarrow> [] | Some w \<Rightarrow> [w]) xs)))"
  by (induction m xs rule: medianLoop.induct) auto

lemma medianLoop_spec:
  assumes "sorted (map wtTime ws)" and "\<forall>w \<in> set ws. 0 < wtWeight w" and "ws \<noteq> []" and "0 \<le> m"
    and "m \<le> weightOf (\<lambda>_. True) ws"
  shows "medianLoop m (map Some ws) \<in> wtTime ` set ws \<and>
    m \<le> weightOf (\<lambda>v. wtTime v \<le> medianLoop m (map Some ws)) ws \<and>
    (weightOf (\<lambda>v. wtTime v < medianLoop m (map Some ws)) ws < m \<or>
     weightOf (\<lambda>v. wtTime v < medianLoop m (map Some ws)) ws = 0)"
  using assms
proof (induction ws arbitrary: m)
  case Nil
  then show ?case by simp
next
  case (Cons w ws)
  note prems = Cons.prems
  show ?case
  proof (cases "m \<le> wtWeight w")
    case True
    have "weightOf (\<lambda>v. wtTime v < wtTime w) ws = 0" using prems(1) by (intro weightOf_none) auto
    moreover have "0 \<le> weightOf (\<lambda>v. wtTime v \<le> wtTime w) ws" using prems(2) by (intro weightOf_nonneg) simp
    ultimately show ?thesis using True by simp
  next
    case False
    let ?m = "m - wtWeight w"
    have ne: "ws \<noteq> []" using False prems(5) by auto
    have hyps: "sorted (map wtTime ws)" "\<forall>v \<in> set ws. 0 < wtWeight v" "0 \<le> ?m" "?m \<le> weightOf (\<lambda>_. True) ws"
      using prems False by simp_all
    note ih = Cons.IH [OF hyps(1,2) ne hyps(3,4)]
    obtain v where v: "v \<in> set ws" "wtTime v = medianLoop ?m (map Some ws)" using ih by (metis imageE)
    then have le: "wtTime w \<le> medianLoop ?m (map Some ws)" using prems(1) by (simp flip: v(2))
    have "0 < wtWeight w" using prems(2) by simp
    then show ?thesis using False ih le by auto
  qed
qed

lemma sorted_somes:
  "sorted (map timeKey xs) \<Longrightarrow> sorted (map wtTime (concat (map (\<lambda>p. case p of None \<Rightarrow> [] | Some w \<Rightarrow> [w]) xs)))"
proof (induction xs)
  case Nil
  then show ?case by simp
next
  case (Cons p xs)
  have "wtTime w \<le> wtTime v" if "p = Some w" "Some v \<in> set xs" for w v
    using Cons.prems that by (auto simp: timeKey_def less_eq_prod_def)
  then show ?case using Cons by (auto split: option.splits)
qed

lemma mset_concat_map: "mset (concat (map f xs)) = (\<Sum>p \<in># mset xs. mset (f p))"
  by (induction xs) simp_all

definition entries :: "WeightedTime option list \<Rightarrow> WeightedTime list" where
  "entries xs = concat (map (\<lambda>p. case p of None \<Rightarrow> [] | Some w \<Rightarrow> [w]) xs)"

lemma set_entries: "w \<in> set (entries xs) \<longleftrightarrow> Some w \<in> set xs"
  by (auto simp: entries_def split: option.splits)

text \<open>Half of the weight is at or before the median, rounded down, and less than that is before it.\<close>

lemma WeightedMedian_spec:
  assumes "\<forall>w \<in> set (entries xs). 0 < wtWeight w" and "entries xs \<noteq> []" and "tot = weightOf (\<lambda>_. True) (entries xs)"
  shows "WeightedMedian xs tot \<in> wtTime ` set (entries xs)"
    and "tot div 2 \<le> weightOf (\<lambda>w. wtTime w \<le> WeightedMedian xs tot) (entries xs)"
    and "weightOf (\<lambda>w. wtTime w < WeightedMedian xs tot) (entries xs) < tot div 2 \<or>
         weightOf (\<lambda>w. wtTime w < WeightedMedian xs tot) (entries xs) = 0"
proof -
  let ?ys = "entries (sort_key timeKey xs)"
  have m: "mset ?ys = mset (entries xs)" by (simp add: entries_def mset_concat_map)
  then have s: "set ?ys = set (entries xs)" by (metis mset_eq_setD)
  have t: "0 \<le> tot" unfolding assms(3) using assms(1) by (rule weightOf_nonneg)
  have r: "WeightedMedian xs tot = medianLoop (tot div 2) (map Some ?ys)"
    unfolding WeightedMedian_def entries_def using t by (subst medianLoop_somes) (simp add: sdiv_nonneg)
  have "sorted (map wtTime ?ys)" unfolding entries_def by (rule sorted_somes) simp
  moreover have "\<forall>w \<in> set ?ys. 0 < wtWeight w" "?ys \<noteq> []" using assms(1,2) s by (simp_all flip: set_empty)
  moreover have "0 \<le> tot div 2" "tot div 2 \<le> weightOf (\<lambda>_. True) ?ys"
    using t assms(3) weightOf_mset [OF m] by auto
  ultimately have "medianLoop (tot div 2) (map Some ?ys) \<in> wtTime ` set ?ys \<and>
    tot div 2 \<le> weightOf (\<lambda>w. wtTime w \<le> medianLoop (tot div 2) (map Some ?ys)) ?ys \<and>
    (weightOf (\<lambda>w. wtTime w < medianLoop (tot div 2) (map Some ?ys)) ?ys < tot div 2 \<or>
     weightOf (\<lambda>w. wtTime w < medianLoop (tot div 2) (map Some ?ys)) ?ys = 0)"
    by (rule medianLoop_spec)
  then show "WeightedMedian xs tot \<in> wtTime ` set (entries xs)"
    "tot div 2 \<le> weightOf (\<lambda>w. wtTime w \<le> WeightedMedian xs tot) (entries xs)"
    "weightOf (\<lambda>w. wtTime w < WeightedMedian xs tot) (entries xs) < tot div 2 \<or>
     weightOf (\<lambda>w. wtTime w < WeightedMedian xs tot) (entries xs) = 0"
    unfolding r s weightOf_mset [OF m] by auto
qed

section \<open>The median of a commit\<close>

definition entryOf :: "validator_set \<Rightarrow> commit_sig \<Rightarrow> WeightedTime option" where
  "entryOf vals cs =
     (if Absent cs then None
      else map_option (\<lambda>v. \<lparr>wtTime = csTimestamp cs, wtWeight = VotingPower v\<rparr>) (snd (GetByAddress vals (csAddress cs))))"

lemma entries_Cons [simp]:
  "entries [] = []" "entries (p # ps) = (case p of None \<Rightarrow> entries ps | Some w \<Rightarrow> w # entries ps)"
  by (auto simp: entries_def split: option.split)

lemma find_by_key: "distinct (map f xs) \<Longrightarrow> x \<in> set xs \<Longrightarrow> find (\<lambda>y. f y = f x) xs = Some x"
  by (induction xs) (auto simp: image_iff)

lemma entryOf_positive:
  assumes "wf_vals vals" and "w \<in> set (entries (map (entryOf vals) sigs))"
  shows "0 < wtWeight w"
proof -
  obtain cs where "entryOf vals cs = Some w" using assms(2) by (auto simp: set_entries dest: sym)
  then obtain v where "w = \<lparr>wtTime = csTimestamp cs, wtWeight = VotingPower v\<rparr>" "snd (GetByAddress vals (csAddress cs)) = Some v"
    by (auto simp: entryOf_def split: if_splits)
  then show ?thesis using assms(1) by (auto simp: wf_vals_def wf_list_def GetByAddress_find find_Some_iff)
qed

lemma medianInputs_run:
  assumes "wf_vals vals" and "0 \<le> tot" and "tot + weightOf (\<lambda>_. True) (entries (map (entryOf vals) sigs)) \<le> MaxInt64"
  shows "medianInputs vals sigs (ws, tot) =
    (ws @ map (entryOf vals) sigs, tot + weightOf (\<lambda>_. True) (entries (map (entryOf vals) sigs)))"
  using assms(2,3)
proof (induction sigs arbitrary: ws tot)
  case Nil
  then show ?case by simp
next
  case (Cons cs sigs)
  have rest: "0 \<le> weightOf (\<lambda>_. True) (entries (map (entryOf vals) sigs))"
    using entryOf_positive [OF assms(1)] by (intro weightOf_nonneg) blast
  show ?case
  proof (cases "entryOf vals cs")
    case None
    then have "medianInputs vals (cs # sigs) (ws, tot) = medianInputs vals sigs (ws @ [None], tot)"
      by (auto simp: entryOf_def split: if_splits)
    then show ?thesis using Cons None by simp
  next
    case (Some w)
    then have w: "medianInputs vals (cs # sigs) (ws, tot) = medianInputs vals sigs (ws @ [Some w], wrap64 (tot + wtWeight w))"
      by (auto simp: entryOf_def split: if_splits)
    have pos: "0 < wtWeight w" using entryOf_positive [OF assms(1), of w "[cs]"] Some by simp
    then have "in64 (tot + wtWeight w)" using Cons.prems rest Some by (simp add: int_range)
    then show ?thesis using Cons.IH [of "tot + wtWeight w" "ws @ [Some w]"] Cons.prems Some w pos by simp
  qed
qed

text \<open>A commit whose addresses are those of the validators at the same index.\<close>

definition aligned :: "commit \<Rightarrow> validator_set \<Rightarrow> bool" where
  "aligned c vals \<longleftrightarrow>
     list_all2 (\<lambda>cs v. Absent cs \<or> csAddress cs = Address v) (cmSignatures c) (Validators vals)"

definition present :: "commit \<Rightarrow> nat set" where
  "present c = {i. i < length (cmSignatures c) \<and> \<not> Absent (cmSignatures c ! i)}"

definition powerOn :: "validator_set \<Rightarrow> nat set \<Rightarrow> int" where
  "powerOn vals S = (\<Sum>i \<in> S. VotingPower (Validators vals ! i))"

lemma finite_present [simp]: "finite (present c)"
  by (simp add: present_def)

lemma weightOf_list:
  assumes "list_all2 (\<lambda>cs v. entryOf vals cs = (if Absent cs then None else Some \<lparr>wtTime = csTimestamp cs, wtWeight = VotingPower v\<rparr>)) sigs vs"
  shows "weightOf P (entries (map (entryOf vals) sigs)) =
    (\<Sum>i < length sigs. if \<not> Absent (sigs ! i) \<and> P \<lparr>wtTime = csTimestamp (sigs ! i), wtWeight = VotingPower (vs ! i)\<rparr>
       then VotingPower (vs ! i) else 0)"
  using assms
proof (induction rule: list_all2_induct)
  case Nil
  then show ?case by simp
next
  case (Cons cs sigs v vs)
  then show ?case by (simp add: sum.lessThan_Suc_shift del: sum.lessThan_Suc cong: if_cong)
qed

lemma weightOf_aligned:
  assumes "wf_vals vals" and "aligned c vals"
  shows "weightOf (\<lambda>w. P (wtTime w)) (entries (map (entryOf vals) (cmSignatures c))) =
    powerOn vals {i \<in> present c. P (csTimestamp (cmSignatures c ! i))}"
proof -
  let ?sigs = "cmSignatures c" and ?vs = "Validators vals"
  have d: "distinct (map Address ?vs)" using assms(1) by (simp add: wf_vals_def wf_list_def)
  have "entryOf vals cs = (if Absent cs then None else Some \<lparr>wtTime = csTimestamp cs, wtWeight = VotingPower v\<rparr>)"
    if "Absent cs \<or> csAddress cs = Address v" "v \<in> set ?vs" for cs v
  proof -
    have "find (\<lambda>x. Address x = Address v) ?vs = Some v"
      using d that(2) by (rule find_by_key)
    then show ?thesis using that(1) by (auto simp: entryOf_def GetByAddress_find)
  qed
  then have "list_all2 (\<lambda>cs v. entryOf vals cs = (if Absent cs then None else Some \<lparr>wtTime = csTimestamp cs, wtWeight = VotingPower v\<rparr>)) ?sigs ?vs"
    using assms(2) unfolding aligned_def list_all2_conv_all_nth by auto
  from weightOf_list [OF this, of "\<lambda>w. P (wtTime w)"]
  show ?thesis by (simp add: powerOn_def present_def sum.If_cases Int_def conj_ac lessThan_def)
qed

lemma powerOn_mono:
  assumes "wf_vals vals" and "A \<subseteq> B" and "finite B" and "\<forall>i \<in> B. i < length (Validators vals)"
  shows "powerOn vals A \<le> powerOn vals B"
proof -
  have "0 \<le> VotingPower (Validators vals ! i)" if "i < length (Validators vals)" for i
    using assms(1) nth_mem [OF that] by (fastforce simp: wf_vals_def wf_list_def)
  then show ?thesis unfolding powerOn_def using assms by (intro sum_mono2) auto
qed

lemma present_bound: "aligned c vals \<Longrightarrow> i \<in> present c \<Longrightarrow> i < length (Validators vals)"
  by (auto simp: aligned_def present_def dest: list_all2_lengthD)

lemma MedianTime_aligned:
  assumes "wf_vals vals" and "aligned c vals"
  shows "MedianTime c vals = WeightedMedian (map (entryOf vals) (cmSignatures c)) (powerOn vals (present c))"
    and "powerOn vals (present c) = weightOf (\<lambda>_. True) (entries (map (entryOf vals) (cmSignatures c)))"
proof -
  let ?w = "weightOf (\<lambda>_. True) (entries (map (entryOf vals) (cmSignatures c)))"
  show w: "powerOn vals (present c) = ?w" using weightOf_aligned [OF assms, of "\<lambda>_. True"] by simp
  have "powerOn vals (present c) \<le> powerOn vals {..<length (Validators vals)}"
    using present_bound [OF assms(2)] by (intro powerOn_mono [OF assms(1)]) auto
  also have "\<dots> = sumPower (Validators vals)" by (simp add: powerOn_def sumPower_nth)
  also have "\<dots> \<le> MaxInt64" using assms(1) by (simp add: wf_vals_def wf_list_def vp_bounds)
  finally have "0 + ?w \<le> MaxInt64" using w by simp
  from medianInputs_run [OF assms(1) order_refl this, of "[]"]
  show "MedianTime c vals = WeightedMedian (map (entryOf vals) (cmSignatures c)) (powerOn vals (present c))"
    by (simp add: MedianTime_def w)
qed


section \<open>A sample\<close>

definition timeVals :: validator_set where
  "timeVals = \<lparr>Validators =
     map (\<lambda>k. \<lparr>Address = replicate 20 k, PubKey = Some [k], VotingPower = 1, ProposerPriority = 0\<rparr>) [1, 2, 3, 4],
     Proposer = None, totalVotingPower = 0\<rparr>"

lemma timeVals_wf: "wf_vals timeVals"
  by (simp add: wf_vals_def wf_list_def timeVals_def vp_bounds sumPower_def)

text \<open>The first two validators are correct, the third is faulty, the fourth did not sign or signed too.\<close>

definition timeCommit :: "commit_sig \<Rightarrow> commit" where
  "timeCommit cs = NewCommit 5 0 (vBlockID sampleVote)
     [NewCommitSigForBlock [1] (replicate 20 1) 1000, NewCommitSigForBlock [1] (replicate 20 2) 1001,
      NewCommitSigForBlock [1] (replicate 20 3) 7, cs]"

definition timeCommitFull :: commit where
  "timeCommitFull = timeCommit (NewCommitSigForBlock [1] (replicate 20 4) 1002)"

lemma lessThan4: "{i. i < Suc (Suc (Suc (Suc 0)))} = {0, 1, 2, 3}"
  by (auto simp: less_Suc_eq)

lemma present_full: "present timeCommitFull = {0, 1, 2, 3}"
  by (auto simp: present_def timeCommitFull_def timeCommit_def NewCommit_def NewCommitSigForBlock_def Absent_def less_Suc_eq)


text \<open>C34: The half of the signing power is rounded down, and so one faulty validator among four of equal power
  can set the time of a block to any earlier time: of a commit with three signatures that is accepted, the
  median is the timestamp of the faulty signer, before every correct one.\<close>

theorem block_time_set_by_one_of_four:
  "snd (VerifyCommit sampleEnv timeVals ''c'' (vBlockID sampleVote) 5 (Some (timeCommit NewCommitSigAbsent))) = Inr () \<and>
   aligned (timeCommit NewCommitSigAbsent) timeVals \<and> powerOn timeVals {2} * 3 < powerOn timeVals {0, 1, 2, 3} \<and>
   MedianTime (timeCommit NewCommitSigAbsent) timeVals = 7 \<and>
   MedianTime (timeCommit NewCommitSigAbsent) timeVals < csTimestamp (cmSignatures (timeCommit NewCommitSigAbsent) ! 0) \<and>
   MedianTime (timeCommit NewCommitSigAbsent) timeVals < csTimestamp (cmSignatures (timeCommit NewCommitSigAbsent) ! 1)"
proof -
  have m: "MedianTime (timeCommit NewCommitSigAbsent) timeVals = 7" by code_simp
  have "snd (VerifyCommit sampleEnv timeVals ''c'' (vBlockID sampleVote) 5 (Some (timeCommit NewCommitSigAbsent))) = Inr ()"
    by code_simp
  moreover have "aligned (timeCommit NewCommitSigAbsent) timeVals" "powerOn timeVals {2} * 3 < powerOn timeVals {0, 1, 2, 3}"
    by (simp_all add: aligned_def timeCommit_def timeVals_def NewCommit_def NewCommitSigForBlock_def NewCommitSigAbsent_def Absent_def powerOn_def)
  ultimately show ?thesis unfolding m by (simp add: timeCommit_def NewCommit_def NewCommitSigForBlock_def)
qed

section \<open>The addresses in a commit are not bound\<close>

definition sameButAddress :: "commit_sig \<Rightarrow> commit_sig \<Rightarrow> bool" where
  "sameButAddress a b \<longleftrightarrow> b = a\<lparr>csAddress := csAddress b\<rparr>"

definition readdressed :: "commit \<Rightarrow> commit \<Rightarrow> bool" where
  "readdressed c c' \<longleftrightarrow> c' = c\<lparr>cmSignatures := cmSignatures c'\<rparr> \<and> list_all2 sameButAddress (cmSignatures c) (cmSignatures c')"

lemma sameButAddress_simps:
  assumes "sameButAddress a b"
  shows "csFlag b = csFlag a" "csTimestamp b = csTimestamp a" "csSignature b = csSignature a"
    "Absent b = Absent a" "ForBlock b = ForBlock a"
proof -
  obtain x where "b = a\<lparr>csAddress := x\<rparr>" using assms unfolding sameButAddress_def by blast
  then show "csFlag b = csFlag a" "csTimestamp b = csTimestamp a" "csSignature b = csSignature a"
    "Absent b = Absent a" "ForBlock b = ForBlock a" by (simp_all add: Absent_def ForBlock_def)
qed

lemma readdressed_sig:
  assumes "readdressed c c'" and "i < length (cmSignatures c)"
  shows "sameButAddress (cmSignatures c ! i) (cmSignatures c' ! i)"
  using assms by (simp add: readdressed_def list_all2_conv_all_nth)

lemma readdressed_fields:
  assumes "readdressed c c'"
  shows "length (cmSignatures c') = length (cmSignatures c)" "cmHeight c' = cmHeight c" "cmRound c' = cmRound c" "cmBlockID c' = cmBlockID c"
proof -
  show "length (cmSignatures c') = length (cmSignatures c)" using assms by (auto simp: readdressed_def dest: list_all2_lengthD)
  have "c' = c\<lparr>cmSignatures := cmSignatures c'\<rparr>" using assms by (simp add: readdressed_def)
  then show "cmHeight c' = cmHeight c" "cmRound c' = cmRound c" "cmBlockID c' = cmBlockID c"
    by (metis commit.select_convs commit.surjective commit.update_convs(4))+
qed

lemma readdressed_checkSig:
  assumes "readdressed c c'" and "i < length (cmSignatures c)"
  shows "checkSig env chainID c' v i (cmSignatures c' ! i) = checkSig env chainID c v i (cmSignatures c ! i)"
proof -
  have "Commit_VoteSignBytes env c' chainID k = (Commit_VoteSignBytes env c chainID k :: commit_error fault + _)" for k
  proof (cases "0 \<le> k \<and> nat k < length (cmSignatures c)")
    case True
    note f = sameButAddress_simps [OF readdressed_sig [OF assms(1), of "nat k"]]
    show ?thesis using True f readdressed_fields [OF assms(1)]
      by (simp add: Commit_VoteSignBytes_def GetVote_def goIndex_def CommitSig_BlockID_def VoteSignBytes_def CanonicalizeVote_def
          split: BlockIDFlag.split)
  next
    case False
    then have "\<not> (0 \<le> k \<and> nat k < length (cmSignatures c'))" by (simp add: readdressed_fields(1) [OF assms(1)])
    with False show ?thesis unfolding Commit_VoteSignBytes_def GetVote_def goIndex_def by (simp only: if_False bindR.simps)
  qed
  then show ?thesis using sameButAddress_simps [OF readdressed_sig [OF assms]] by (simp add: checkSig_def cong: option.case_cong)
qed

lemma readdressed_commitOk:
  assumes "readdressed c c'" and "commitOk env vals chainID bid h c"
  shows "commitOk env vals chainID bid h c'"
proof -
  note sig = sameButAddress_simps [OF readdressed_sig [OF assms(1)]]
  have len: "length (Validators vals) = length (cmSignatures c)" using assms(2) by (simp add: commitOk_def)
  have "forPower c' (Validators vals) 0 (length (cmSignatures c)) = forPower c (Validators vals) 0 (length (cmSignatures c))"
    unfolding forPower_def by (rule sum.cong) (auto simp: sig)
  then show ?thesis using assms(2) len readdressed_fields [OF assms(1)]
    by (simp add: commitOk_def sigValid_def readdressed_checkSig [OF assms(1)] sig)
qed

lemma validateSigs_ok: "validateSigs k sigs = Inr () \<longleftrightarrow> (\<forall>cs \<in> set sigs. CommitSig_ValidateBasic cs = Inr ())"
  by (induction k sigs rule: validateSigs.induct) (auto split: sum.splits fault.splits)

lemma readdressed_ValidateBasic:
  assumes "readdressed c c'" and "Commit_ValidateBasic c = Inr ()"
    and "\<And>i. i < length (cmSignatures c) \<Longrightarrow>
      if Absent (cmSignatures c ! i) then cmSignatures c' ! i = cmSignatures c ! i else length (csAddress (cmSignatures c' ! i)) = AddressSize"
  shows "Commit_ValidateBasic c' = Inr ()"
proof -
  note f = readdressed_fields [OF assms(1)]
  have ok: "CommitSig_ValidateBasic (cmSignatures c' ! i) = Inr ()"
    if "i < length (cmSignatures c)" "CommitSig_ValidateBasic (cmSignatures c ! i) = Inr ()" for i
    using sameButAddress_simps [OF readdressed_sig [OF assms(1) that(1)]] assms(3) [OF that(1)] that(2)
    by (auto simp: CommitSig_ValidateBasic_def Absent_def split: BlockIDFlag.splits if_splits)
  have "validateSigs 0 (cmSignatures c') = Inr ()" if "validateSigs 0 (cmSignatures c) = Inr ()"
    using that ok f(1) unfolding validateSigs_ok by (metis in_set_conv_nth)
  moreover have "cmSignatures c' = [] \<longleftrightarrow> cmSignatures c = []" using f(1) by (metis length_0_conv)
  ultimately show ?thesis using assms(2) f(2-4) by (simp add: Commit_ValidateBasic_def split: if_splits)
qed

text \<open>The same commit with the address of the validator at \<open>k\<close> kept and \<open>other\<close> for the others.\<close>

definition onlyAddress :: "validator_set \<Rightarrow> nat \<Rightarrow> bytes \<Rightarrow> commit \<Rightarrow> commit" where
  "onlyAddress vals k other c =
     c\<lparr>cmSignatures := map (\<lambda>i. let cs = cmSignatures c ! i in
         if Absent cs then cs else cs\<lparr>csAddress := (if i = k then Address (Validators vals ! k) else other)\<rparr>)
       [0..<length (cmSignatures c)]\<rparr>"

lemma onlyAddress_sig:
  "i < length (cmSignatures c) \<Longrightarrow> cmSignatures (onlyAddress vals k other c) ! i =
     (if Absent (cmSignatures c ! i) then cmSignatures c ! i
      else (cmSignatures c ! i)\<lparr>csAddress := (if i = k then Address (Validators vals ! k) else other)\<rparr>)"
  by (simp add: onlyAddress_def Let_def)

lemma onlyAddress_readdressed: "readdressed c (onlyAddress vals k other c)"
  by (auto simp: readdressed_def list_all2_conv_all_nth onlyAddress_sig sameButAddress_def) (simp_all add: onlyAddress_def)

lemma member_power:
  assumes "wf_vals vals" and "v \<in> set (Validators vals)"
  shows "0 < VotingPower v" and "VotingPower v \<le> MaxInt64"
proof -
  have wf: "\<forall>x \<in> set (Validators vals). 0 < VotingPower x" "sumPower (Validators vals) \<le> MaxInt64"
    using assms(1) by (auto simp: wf_vals_def wf_list_def vp_bounds)
  then show "0 < VotingPower v" using assms(2) by blast
  have "VotingPower v \<le> sumPower (Validators vals)"
    unfolding sumPower_def using wf(1) assms(2) by (intro sum_list_nonneg_le) (auto simp: less_imp_le)
  then show "VotingPower v \<le> MaxInt64" using wf(2) by linarith
qed

lemma onlyAddress_entries:
  assumes "wf_vals vals" and "k \<in> present c" and "k < length (Validators vals)" and "\<not> HasAddress vals other"
  shows "entries (map (entryOf vals) (cmSignatures (onlyAddress vals k other c))) =
    [\<lparr>wtTime = csTimestamp (cmSignatures c ! k), wtWeight = VotingPower (Validators vals ! k)\<rparr>]"
proof -
  let ?sigs = "cmSignatures (onlyAddress vals k other c)"
  let ?e = "\<lparr>wtTime = csTimestamp (cmSignatures c ! k), wtWeight = VotingPower (Validators vals ! k)\<rparr>"
  have d: "distinct (map Address (Validators vals))" using assms(1) by (simp add: wf_vals_def wf_list_def)
  have k: "k < length (cmSignatures c)" "\<not> Absent (cmSignatures c ! k)" using assms(2) by (simp_all add: present_def)
  have "snd (GetByAddress vals (Address (Validators vals ! k))) = Some (Validators vals ! k)"
    unfolding GetByAddress_find by (rule find_by_key [OF d]) (simp add: assms(3))
  moreover have "snd (GetByAddress vals other) = None"
    using assms(4) by (auto simp: GetByAddress_find find_None_iff HasAddress_def list_ex_iff)
  ultimately have e: "entryOf vals (?sigs ! i) = (if i = k then Some ?e else None)" if "i < length (cmSignatures c)" for i
    using that k(2) by (auto simp: onlyAddress_sig entryOf_def Absent_def)
  have len: "length ?sigs = length (cmSignatures c)" by (simp add: onlyAddress_def)
  have m: "map (entryOf vals) ?sigs = map (\<lambda>i. if i = k then Some ?e else None) [0..<length (cmSignatures c)]"
    by (rule nth_equalityI) (simp_all add: len e)
  have "entries (map (\<lambda>i. if i = k then Some ?e else None) [0..<n]) = (if k < n then [?e] else [])" for n
    by (induction n) (simp_all add: entries_def)
  then show ?thesis unfolding m using k(1) by simp
qed

text \<open>C35: The time of a block is not bound by the signatures of its commit: the addresses in a commit are not signed
  and not compared with the validators, but they select the weights of the median. Whoever assembles a block
  can rewrite the addresses of an accepted commit so that it is still valid and accepted and the
  median is the timestamp of any one signer, whatever its power.\<close>

theorem block_time_chosen_by_addresses:
  assumes "wf_vals vals" and "snd (VerifyCommit env vals chainID bid h (Some c)) = Inr ()" and "Commit_ValidateBasic c = Inr ()"
    and "k \<in> present c" and "\<not> HasAddress vals other" and "length other = AddressSize"
    and "length (Address (Validators vals ! k)) = AddressSize"
  shows "\<exists>c'. readdressed c c' \<and> Commit_ValidateBasic c' = Inr () \<and>
    snd (VerifyCommit env vals chainID bid h (Some c')) = Inr () \<and> MedianTime c' vals = csTimestamp (cmSignatures c ! k)"
proof (intro exI conjI)
  let ?c = "onlyAddress vals k other c" and ?v = "Validators vals ! k"
  have ok: "commitOk env vals chainID bid h c" using assms(1,2) by (simp add: VerifyCommit_iff)
  then have k: "k < length (Validators vals)" using assms(4) by (simp add: commitOk_def present_def)
  show "readdressed c ?c" by (rule onlyAddress_readdressed)
  show "Commit_ValidateBasic ?c = Inr ()"
    by (rule readdressed_ValidateBasic [OF onlyAddress_readdressed assms(3)]) (simp add: onlyAddress_sig assms(6,7))
  show "snd (VerifyCommit env vals chainID bid h (Some ?c)) = Inr ()"
    unfolding VerifyCommit_iff [OF assms(1)] using onlyAddress_readdressed ok by (rule readdressed_commitOk)
  note es = onlyAddress_entries [OF assms(1,4) k assms(5)]
  have v: "0 < VotingPower ?v" "VotingPower ?v \<le> MaxInt64" by (rule member_power [OF assms(1) nth_mem [OF k]])+
  have "0 + weightOf (\<lambda>_. True) (entries (map (entryOf vals) (cmSignatures ?c))) \<le> MaxInt64" unfolding es using v by simp
  from medianInputs_run [OF assms(1) order_refl this, of "[]"]
  have "MedianTime ?c vals = WeightedMedian (map (entryOf vals) (cmSignatures ?c)) (VotingPower ?v)"
    by (simp add: MedianTime_def es)
  also have "\<dots> \<in> wtTime ` set (entries (map (entryOf vals) (cmSignatures ?c)))"
    by (rule WeightedMedian_spec(1)) (simp_all add: es v)
  finally show "MedianTime ?c vals = csTimestamp (cmSignatures c ! k)" unfolding es by simp
qed

theorem block_time_chosen_by_addresses_witness:
  "snd (VerifyCommit sampleEnv timeVals ''c'' (vBlockID sampleVote) 5 (Some timeCommitFull)) = Inr () \<and>
   (\<exists>c'. readdressed timeCommitFull c' \<and>
      snd (VerifyCommit sampleEnv timeVals ''c'' (vBlockID sampleVote) 5 (Some c')) = Inr () \<and> MedianTime c' timeVals = 7)"
proof -
  have v: "snd (VerifyCommit sampleEnv timeVals ''c'' (vBlockID sampleVote) 5 (Some timeCommitFull)) = Inr ()" by code_simp
  have b: "Commit_ValidateBasic timeCommitFull = Inr ()" by code_simp
  have h: "\<not> HasAddress timeVals (replicate 20 9)" by code_simp
  have "2 \<in> present timeCommitFull" by (simp add: present_full)
  moreover have "length (replicate 20 9 :: bytes) = AddressSize" "length (Address (Validators timeVals ! 2)) = AddressSize"
    by (simp_all add: AddressSize_def timeVals_def)
  ultimately obtain c' where "readdressed timeCommitFull c'"
    "snd (VerifyCommit sampleEnv timeVals ''c'' (vBlockID sampleVote) 5 (Some c')) = Inr ()"
    "MedianTime c' timeVals = csTimestamp (cmSignatures timeCommitFull ! 2)"
    using block_time_chosen_by_addresses [OF timeVals_wf v b _ h] by blast
  moreover have "csTimestamp (cmSignatures timeCommitFull ! 2) = 7"
    by (simp add: timeCommitFull_def timeCommit_def NewCommit_def NewCommitSigForBlock_def)
  ultimately show ?thesis using v by auto
qed

end
