(* ===== verification/HeightVoteSet.thy ===== *)
theory HeightVoteSet
  imports VoteSetCommit
begin

text \<open>
  \<open>consensus/types/height_vote_set.go\<close>: the prevote and precommit sets of all rounds of a height,
  with at most two extra rounds per peer. Go's map of pairs of pointers is a map of pairs of sets;
  a method that changes a set through its pointer writes it back with \<open>putVoteSet\<close>. The vote sets
  share a pointer to one \<open>ValidatorSet\<close>; the only thing they change in it is its cached total, so
  each has its own copy here. The mutex makes every method one step.

  The locale \<open>vote_book\<close> is what this component relies on of a vote set: creation, adding a vote and
  noting a claim succeed and keep an invariant. It is interpreted on the vote sets of \<open>VoteSet\<close>.
\<close>

section \<open>Checked 32-bit arithmetic\<close>

definition SafeAddInt32 :: "int \<Rightarrow> int \<Rightarrow> 'e fault + int" where
  "SafeAddInt32 a b =
     (if b > 0 \<and> a > MaxInt32 - b then Inl (Panic ''int32 overflow'')
      else if b < 0 \<and> a < MinInt32 - b then Inl (Panic ''int32 overflow'')
      else Inr (wrap32 (a + b)))"

definition SafeSubInt32 :: "int \<Rightarrow> int \<Rightarrow> 'e fault + int" where
  "SafeSubInt32 a b =
     (if b > 0 \<and> a < MinInt32 + b then Inl (Panic ''int32 overflow'')
      else if b < 0 \<and> a > MaxInt32 + b then Inl (Panic ''int32 overflow'')
      else Inr (wrap32 (a - b)))"

section \<open>The votes of a height\<close>

record RoundVoteSet =
  Prevotes :: vote_set
  Precommits :: vote_set

record height_vote_set =
  hvChainID :: string
  hvHeight :: int
  hvValSet :: validator_set
  hvRound :: int
  hvSets :: "int \<rightharpoonup> RoundVoteSet"
  hvPeers :: "string \<rightharpoonup> int list"

definition addRound :: "height_vote_set \<Rightarrow> int \<Rightarrow> 'e fault + height_vote_set" where
  "addRound hvs round =
     (if \<not> Option.is_none (hvSets hvs round) then Inl (Panic ''addRound() for an existing round'')
      else
        bindR (NewVoteSet (hvChainID hvs) (hvHeight hvs) round PrevoteType (hvValSet hvs)) (\<lambda>prevotes.
        bindR (NewVoteSet (hvChainID hvs) (hvHeight hvs) round PrecommitType (hvValSet hvs)) (\<lambda>precommits.
          Inr (hvs\<lparr>hvSets := (hvSets hvs)(round \<mapsto> \<lparr>Prevotes = prevotes, Precommits = precommits\<rparr>)\<rparr>))))"

definition HVS_Reset :: "height_vote_set \<Rightarrow> int \<Rightarrow> validator_set \<Rightarrow> 'e fault + height_vote_set" where
  "HVS_Reset hvs height valSet =
     bindR (addRound (hvs\<lparr>hvHeight := height, hvValSet := valSet, hvSets := Map.empty, hvPeers := Map.empty\<rparr>) 0)
       (\<lambda>hvs'. Inr (hvs'\<lparr>hvRound := 0\<rparr>))"

definition NewHeightVoteSet :: "string \<Rightarrow> int \<Rightarrow> validator_set \<Rightarrow> 'e fault + height_vote_set" where
  "NewHeightVoteSet chainID height valSet =
     HVS_Reset \<lparr>hvChainID = chainID, hvHeight = 0, hvValSet = emptyValidatorSet, hvRound = 0,
                hvSets = Map.empty, hvPeers = Map.empty\<rparr> height valSet"

text \<open>The loop over the rounds \<open>r\<close>, \<open>r + 1\<close>, \<dots>; the first argument is how many are left. (Go's
  loop counter would wrap at \<open>MaxInt32\<close>, after two thousand million rounds.)\<close>

fun setRoundLoop :: "nat \<Rightarrow> int \<Rightarrow> height_vote_set \<Rightarrow> 'e fault + height_vote_set" where
  "setRoundLoop 0 r hvs = Inr hvs"
| "setRoundLoop (Suc n) r hvs =
     (if \<not> Option.is_none (hvSets hvs r) then setRoundLoop n (r + 1) hvs
      else bindR (addRound hvs r) (setRoundLoop n (r + 1)))"

definition SetRound :: "height_vote_set \<Rightarrow> int \<Rightarrow> 'e fault + height_vote_set" where
  "SetRound hvs round =
     bindR (SafeSubInt32 (hvRound hvs) 1) (\<lambda>newRound.
       if hvRound hvs \<noteq> 0 \<and> round < newRound then Inl (Panic ''SetRound() must increment hvs.round'')
       else bindR (setRoundLoop (nat (round - newRound + 1)) newRound hvs) (\<lambda>hvs'.
              Inr (hvs'\<lparr>hvRound := round\<rparr>)))"

definition getVoteSet :: "height_vote_set \<Rightarrow> int \<Rightarrow> SignedMsgType \<Rightarrow> 'e fault + vote_set option" where
  "getVoteSet hvs round voteType =
     (case hvSets hvs round of
        None \<Rightarrow> Inr None
      | Some rvs \<Rightarrow>
          (case voteType of
             PrevoteType \<Rightarrow> Inr (Some (Prevotes rvs))
           | PrecommitType \<Rightarrow> Inr (Some (Precommits rvs))
           | _ \<Rightarrow> Inl (Panic ''Unexpected vote type'')))"

definition putVoteSet :: "height_vote_set \<Rightarrow> int \<Rightarrow> SignedMsgType \<Rightarrow> vote_set \<Rightarrow> height_vote_set" where
  "putVoteSet hvs round voteType vs =
     (case hvSets hvs round of
        None \<Rightarrow> hvs
      | Some rvs \<Rightarrow>
          hvs\<lparr>hvSets := (hvSets hvs)(round \<mapsto>
            if voteType = PrevoteType then rvs\<lparr>Prevotes := vs\<rparr> else rvs\<lparr>Precommits := vs\<rparr>)\<rparr>)"

datatype hvs_error = VoteErr vote_error | ErrGotVoteFromUnwantedRound | InvalidVoteType | Maj23Err maj23_error

definition addVoteTo ::
  "crypto_env \<Rightarrow> height_vote_set \<Rightarrow> vote \<Rightarrow> vote_set option \<Rightarrow> 'e fault + (height_vote_set \<times> bool \<times> hvs_error option)"
where
  "addVoteTo env hvs v voteSet =
     bindR (AddVote env voteSet (Some v)) (\<lambda>(vs', added, err).
       Inr (putVoteSet hvs (vRound v) (vType v) vs', added, map_option VoteErr err))"

definition HVS_AddVote ::
  "crypto_env \<Rightarrow> height_vote_set \<Rightarrow> vote \<Rightarrow> string \<Rightarrow> 'e fault + (height_vote_set \<times> bool \<times> hvs_error option)"
where
  "HVS_AddVote env hvs v peerID =
     (if \<not> IsVoteTypeValid (vType v) then Inr (hvs, False, None)
      else bindR (getVoteSet hvs (vRound v) (vType v)) (\<lambda>voteSet.
        case voteSet of
          None \<Rightarrow>
          (let rndz = (case hvPeers hvs peerID of None \<Rightarrow> [] | Some rs \<Rightarrow> rs) in
           if length rndz < 2 then
             bindR (addRound hvs (vRound v)) (\<lambda>hvs1.
             bindR (getVoteSet hvs1 (vRound v) (vType v)) (\<lambda>voteSet1.
               addVoteTo env (hvs1\<lparr>hvPeers := (hvPeers hvs1)(peerID \<mapsto> rndz @ [vRound v])\<rparr>) v voteSet1))
           else Inr (hvs, False, Some ErrGotVoteFromUnwantedRound))
        | Some vs \<Rightarrow> addVoteTo env hvs v (Some vs)))"

definition HVS_Prevotes :: "height_vote_set \<Rightarrow> int \<Rightarrow> 'e fault + vote_set option" where
  "HVS_Prevotes hvs round = getVoteSet hvs round PrevoteType"

definition HVS_Precommits :: "height_vote_set \<Rightarrow> int \<Rightarrow> 'e fault + vote_set option" where
  "HVS_Precommits hvs round = getVoteSet hvs round PrecommitType"

text \<open>The loop over the rounds \<open>n - 1\<close>, \<dots>, 0.\<close>

fun polLoop :: "nat \<Rightarrow> height_vote_set \<Rightarrow> 'e fault + (int \<times> block_id)" where
  "polLoop 0 hvs = Inr (- 1, emptyBlockID)"
| "polLoop (Suc n) hvs =
     bindR (getVoteSet hvs (int n) PrevoteType) (\<lambda>rvs.
       let (polBlockID, ok) = TwoThirdsMajority rvs in
       if ok then Inr (int n, polBlockID) else polLoop n hvs)"

definition POLInfo :: "height_vote_set \<Rightarrow> 'e fault + (int \<times> block_id)" where
  "POLInfo hvs = polLoop (nat (hvRound hvs + 1)) hvs"

definition HVS_SetPeerMaj23 ::
  "height_vote_set \<Rightarrow> int \<Rightarrow> SignedMsgType \<Rightarrow> string \<Rightarrow> block_id \<Rightarrow> 'e fault + (height_vote_set \<times> hvs_error option)"
where
  "HVS_SetPeerMaj23 hvs round voteType peerID blockID =
     (if \<not> IsVoteTypeValid voteType then Inr (hvs, Some InvalidVoteType)
      else bindR (getVoteSet hvs round voteType) (\<lambda>voteSet.
        case voteSet of
          None \<Rightarrow> Inr (hvs, None)
        | Some vs \<Rightarrow>
            bindR (SetPeerMaj23 (Some vs) peerID blockID) (\<lambda>(vs', err).
              Inr (putVoteSet hvs round voteType vs', map_option Maj23Err err))))"

section \<open>What a round's vote sets promise\<close>

locale vote_book =
  fixes config :: "'cfg \<Rightarrow> bool" and inv :: "'cfg \<Rightarrow> 's \<Rightarrow> bool" and valid :: "'v \<Rightarrow> bool"
    and create :: "'cfg \<Rightarrow> unit fault + 's"
    and add :: "'s \<Rightarrow> 'v \<Rightarrow> unit fault + ('s \<times> bool \<times> 'err option)"
    and claim :: "'s \<Rightarrow> 'c \<Rightarrow> unit fault + ('s \<times> 'cerr option)"
  assumes create_ok: "config g \<Longrightarrow> \<exists>s. create g = Inr s \<and> inv g s"
    and add_ok: "inv g s \<Longrightarrow> valid v \<Longrightarrow> \<exists>s' a e. add s v = Inr (s', a, e) \<and> inv g s'"
    and claim_ok: "inv g s \<Longrightarrow> \<exists>s' e. claim s c = Inr (s', e) \<and> inv g s'"
begin

fun run :: "'s \<Rightarrow> ('v + 'c) list \<Rightarrow> unit fault + 's" where
  "run s [] = Inr s"
| "run s (Inl v # ops) = bindR (add s v) (\<lambda>(s', _, _). run s' ops)"
| "run s (Inr c # ops) = bindR (claim s c) (\<lambda>(s', _). run s' ops)"

lemma run_ok: "inv g s \<Longrightarrow> \<forall>v. Inl v \<in> set ops \<longrightarrow> valid v \<Longrightarrow> \<exists>s'. run s ops = Inr s' \<and> inv g s'"
proof (induction ops arbitrary: s)
  case Nil
  then show ?case by simp
next
  case (Cons op ops)
  show ?case
  proof (cases op)
    case (Inl v)
    then obtain s' a e where "add s v = Inr (s', a, e)" "inv g s'" using add_ok [OF Cons.prems(1)] Cons.prems(2) by force
    with Inl Cons.IH [of s'] Cons.prems(2) show ?thesis by simp
  next
    case (Inr c)
    obtain s' e where "claim s c = Inr (s', e)" "inv g s'" using claim_ok Cons.prems(1) by blast
    with Inr Cons.IH [of s'] Cons.prems(2) show ?thesis by simp
  qed
qed

lemma create_run_ok:
  assumes "config g" and "\<forall>v. Inl v \<in> set ops \<longrightarrow> valid v"
  shows "\<exists>s'. bindR (create g) (\<lambda>s. run s ops) = Inr s' \<and> inv g s'"
proof -
  obtain s where "create g = Inr s" "inv g s" using create_ok [OF assms(1)] by blast
  then show ?thesis using run_ok [OF _ assms(2)] by simp
qed

end

text \<open>A set for this chain, height, round, type and these validators, with its invariant.\<close>

definition setFor :: "crypto_env \<Rightarrow> string \<Rightarrow> int \<Rightarrow> int \<Rightarrow> SignedMsgType \<Rightarrow> validator list \<Rightarrow> vote_set \<Rightarrow> bool" where
  "setFor env chainID h r t vs s \<longleftrightarrow> vs_inv env s \<and> goodKeys s \<and> vsChainID s = chainID \<and> vsHeight s = h \<and>
     vsRound s = r \<and> vsType s = t \<and> Validators (vsValSet s) = vs"

lemma setFor_keeps:
  "setFor env chainID h r t vs s \<Longrightarrow> vs_inv env s' \<Longrightarrow> keeps s s' \<Longrightarrow> setFor env chainID h r t vs s'"
  by (simp add: setFor_def keeps_def goodKeys_def)

lemma NewVoteSet_setFor:
  assumes "wf_vals vals" and "\<forall>val \<in> set (Validators vals). PubKey val \<noteq> None" and "h \<noteq> 0"
  shows "\<exists>s. NewVoteSet chainID h r t vals = (Inr s :: 'e fault + _) \<and> setFor env chainID h r t (Validators vals) s"
proof -
  obtain s where "NewVoteSet chainID h r t vals = (Inr s :: 'e fault + _)" "vs_inv env s"
    "vsValSet s = vals" "vsHeight s = h" "vsRound s = r" "vsType s = t" "vsChainID s = chainID"
    using assms(1,3) by (rule NewVoteSet_inv)
  with assms(2) show ?thesis by (auto simp: setFor_def goodKeys_def)
qed

lemma AddVote_setFor:
  assumes "setFor env chainID h r t vs s" and "Vote_ValidateBasic v = Inr ()"
  shows "\<exists>s' a e. AddVote env (Some s) (Some v) = (Inr (s', a, e) :: 'e fault + _) \<and> setFor env chainID h r t vs s'"
proof -
  have "vs_inv env s" "goodKeys s" using assms(1) by (simp_all add: setFor_def)
  with assms(2) obtain s' a e where "addVote env s (Some v) = (Inr (s', a, e) :: 'e fault + _)" "vs_inv env s'" "keeps s s'"
    using addVote_ok [of env s v, where 'e = 'e] by blast
  then show ?thesis using setFor_keeps [OF assms(1)] by (simp add: AddVote_def)
qed

lemma SetPeerMaj23_setFor:
  assumes "setFor env chainID h r t vs s"
  shows "\<exists>s' e. SetPeerMaj23 (Some s) peerID b = (Inr (s', e) :: 'e fault + _) \<and> setFor env chainID h r t vs s'"
proof -
  have "vs_inv env s" using assms by (simp add: setFor_def)
  then obtain s' e where "SetPeerMaj23 (Some s) peerID b = (Inr (s', e) :: 'e fault + _)" "vs_inv env s'" "keeps s s'"
    using SetPeerMaj23_ok [of env s peerID b, where 'e = 'e] by blast
  then show ?thesis using setFor_keeps [OF assms] by simp
qed

type_synonym set_config = "string \<times> int \<times> int \<times> SignedMsgType \<times> validator_set"

definition configOk :: "set_config \<Rightarrow> bool" where
  "configOk = (\<lambda>(chainID, h, r, t, vals). wf_vals vals \<and> h \<noteq> 0 \<and> (\<forall>val \<in> set (Validators vals). PubKey val \<noteq> None))"

interpretation vb: vote_book configOk
  "\<lambda>(chainID, h, r, t, vals). setFor env chainID h r t (Validators vals)"
  "\<lambda>v. Vote_ValidateBasic v = Inr ()"
  "\<lambda>(chainID, h, r, t, vals). NewVoteSet chainID h r t vals"
  "\<lambda>s v. AddVote env (Some s) (Some v)"
  "\<lambda>s (peerID, b). SetPeerMaj23 (Some s) peerID b" for env
proof (unfold_locales, goal_cases)
  case (1 g)
  then show ?case
    by (cases g) (auto simp: configOk_def intro!: NewVoteSet_setFor)
next
  case (2 g s v)
  then show ?case using AddVote_setFor [where 'e = unit] by (cases g) fastforce
next
  case (3 g s c)
  then show ?case using SetPeerMaj23_setFor [where 'e = unit] by (cases g; cases c) fastforce
qed

section \<open>The invariant of a height\<close>

definition roundOkAt :: "crypto_env \<Rightarrow> height_vote_set \<Rightarrow> int \<Rightarrow> RoundVoteSet \<Rightarrow> bool" where
  "roundOkAt env hvs r rvs \<longleftrightarrow>
     setFor env (hvChainID hvs) (hvHeight hvs) r PrevoteType (Validators (hvValSet hvs)) (Prevotes rvs) \<and>
     setFor env (hvChainID hvs) (hvHeight hvs) r PrecommitType (Validators (hvValSet hvs)) (Precommits rvs)"

definition catchup :: "height_vote_set \<Rightarrow> int set" where
  "catchup hvs = {r. \<exists>p rs. hvPeers hvs p = Some rs \<and> r \<in> set rs}"

definition hv_inv :: "crypto_env \<Rightarrow> height_vote_set \<Rightarrow> bool" where
  "hv_inv env hvs \<longleftrightarrow> wf_vals (hvValSet hvs) \<and> (\<forall>val \<in> set (Validators (hvValSet hvs)). PubKey val \<noteq> None) \<and>
     hvHeight hvs \<noteq> 0 \<and> 0 \<le> hvRound hvs \<and> in32 (hvRound hvs) \<and>
     (\<forall>r rvs. hvSets hvs r = Some rvs \<longrightarrow> roundOkAt env hvs r rvs) \<and>
     {0..hvRound hvs} \<subseteq> dom (hvSets hvs) \<and> dom (hvSets hvs) \<subseteq> {-1..hvRound hvs} \<union> catchup hvs \<and>
     (\<forall>p rs. hvPeers hvs p = Some rs \<longrightarrow> length rs \<le> 2) \<and> finite (dom (hvPeers hvs))"

lemma addRound_ok:
  assumes "wf_vals (hvValSet hvs)" and "\<forall>val \<in> set (Validators (hvValSet hvs)). PubKey val \<noteq> None"
    and "hvHeight hvs \<noteq> 0" and "hvSets hvs r = None"
  obtains rvs where "addRound hvs r = (Inr (hvs\<lparr>hvSets := (hvSets hvs)(r \<mapsto> rvs)\<rparr>) :: 'e fault + _)"
    and "roundOkAt env hvs r rvs"
proof -
  obtain p q where
    "NewVoteSet (hvChainID hvs) (hvHeight hvs) r PrevoteType (hvValSet hvs) = (Inr p :: 'e fault + _)"
    "setFor env (hvChainID hvs) (hvHeight hvs) r PrevoteType (Validators (hvValSet hvs)) p"
    "NewVoteSet (hvChainID hvs) (hvHeight hvs) r PrecommitType (hvValSet hvs) = (Inr q :: 'e fault + _)"
    "setFor env (hvChainID hvs) (hvHeight hvs) r PrecommitType (Validators (hvValSet hvs)) q"
    using NewVoteSet_setFor [OF assms(1-3)] by metis
  then show ?thesis using that [of "\<lparr>Prevotes = p, Precommits = q\<rparr>"] assms(4)
    by (simp add: addRound_def roundOkAt_def)
qed

lemma roundOkAt_cong:
  "hvChainID h' = hvChainID h \<Longrightarrow> hvHeight h' = hvHeight h \<Longrightarrow> hvValSet h' = hvValSet h \<Longrightarrow>
   roundOkAt env h' r rvs = roundOkAt env h r rvs"
  by (simp add: roundOkAt_def)

lemma NewHeightVoteSet_inv:
  assumes "wf_vals vals" and "\<forall>val \<in> set (Validators vals). PubKey val \<noteq> None" and "h \<noteq> 0"
  obtains hvs where "NewHeightVoteSet chainID h vals = (Inr hvs :: 'e fault + _)" and "hv_inv env hvs"
    and "hvRound hvs = 0" and "hvValSet hvs = vals" and "hvHeight hvs = h" and "hvChainID hvs = chainID"
proof -
  let ?h0 = "\<lparr>hvChainID = chainID, hvHeight = h, hvValSet = vals, hvRound = 0, hvSets = Map.empty, hvPeers = Map.empty\<rparr>"
  let ?h1 = "\<lambda>rvs. \<lparr>hvChainID = chainID, hvHeight = h, hvValSet = vals, hvRound = 0, hvSets = [0 \<mapsto> rvs], hvPeers = Map.empty\<rparr>"
  have h0: "wf_vals (hvValSet ?h0)" "\<forall>val \<in> set (Validators (hvValSet ?h0)). PubKey val \<noteq> None" "hvHeight ?h0 \<noteq> 0"
    "hvSets ?h0 0 = None" using assms by simp_all
  obtain rvs where rvs: "addRound ?h0 0 = (Inr (?h0\<lparr>hvSets := (hvSets ?h0)(0 \<mapsto> rvs)\<rparr>) :: 'e fault + _)" "roundOkAt env ?h0 0 rvs"
    using h0 by (rule addRound_ok)
  have i: "hv_inv env (?h1 rvs)"
    unfolding hv_inv_def using assms rvs(2) by (simp add: roundOkAt_def int_range)
  have n: "NewHeightVoteSet chainID h vals = (Inr (?h1 rvs) :: 'e fault + _)"
    using rvs(1) by (simp add: NewHeightVoteSet_def HVS_Reset_def)
  show ?thesis by (rule that [OF n i]) simp_all
qed

text \<open>What the loop of \<open>SetRound\<close> does: every round in its range exists afterwards.\<close>

lemma setRoundLoop_ok:
  assumes "wf_vals (hvValSet hvs)" and "\<forall>val \<in> set (Validators (hvValSet hvs)). PubKey val \<noteq> None"
    and "hvHeight hvs \<noteq> 0" and "\<forall>r rvs. hvSets hvs r = Some rvs \<longrightarrow> roundOkAt env hvs r rvs"
  shows "\<exists>m. setRoundLoop n r hvs = (Inr (hvs\<lparr>hvSets := m\<rparr>) :: 'e fault + _) \<and>
    (\<forall>r rvs. m r = Some rvs \<longrightarrow> roundOkAt env hvs r rvs) \<and> dom m = dom (hvSets hvs) \<union> {r..<r + int n}"
  using assms
proof (induction n arbitrary: r hvs)
  case 0
  then show ?case by (intro exI [of _ "hvSets hvs"]) auto
next
  case (Suc n)
  have range: "{r..<r + int (Suc n)} = insert r {r + 1..<r + 1 + int n}" by auto
  show ?case
  proof (cases "hvSets hvs r")
    case None
    obtain rvs where a: "addRound hvs r = (Inr (hvs\<lparr>hvSets := (hvSets hvs)(r \<mapsto> rvs)\<rparr>) :: 'e fault + _)"
      "roundOkAt env hvs r rvs" using Suc.prems(1-3) None by (rule addRound_ok)
    let ?h = "hvs\<lparr>hvSets := (hvSets hvs)(r \<mapsto> rvs)\<rparr>"
    have same: "roundOkAt env ?h k w = roundOkAt env hvs k w" for k w by (rule roundOkAt_cong) simp_all
    have "\<exists>m. setRoundLoop n (r + 1) ?h = (Inr (?h\<lparr>hvSets := m\<rparr>) :: 'e fault + _) \<and>
        (\<forall>r rvs. m r = Some rvs \<longrightarrow> roundOkAt env ?h r rvs) \<and> dom m = dom (hvSets ?h) \<union> {r + 1..<r + 1 + int n}"
      using Suc.prems a(2) by (intro Suc.IH) (auto simp: same)
    then show ?thesis using a(1) None unfolding range same by auto
  next
    case (Some rvs)
    obtain m where m: "setRoundLoop n (r + 1) hvs = (Inr (hvs\<lparr>hvSets := m\<rparr>) :: 'e fault + _)"
      "\<forall>r rvs. m r = Some rvs \<longrightarrow> roundOkAt env hvs r rvs" "dom m = dom (hvSets hvs) \<union> {r + 1..<r + 1 + int n}"
      using Suc.IH [OF Suc.prems, of "r + 1"] by blast
    moreover have "r \<in> dom m" using Some m(3) by auto
    ultimately show ?thesis using Some unfolding range by (intro exI [of _ m]) auto
  qed
qed

lemma SetRound_ok:
  assumes inv: "hv_inv env hvs" and r: "hvRound hvs \<le> r" "in32 r"
  obtains m where "SetRound hvs r = (Inr (hvs\<lparr>hvSets := m, hvRound := r\<rparr>) :: 'e fault + _)"
    and "hv_inv env (hvs\<lparr>hvSets := m, hvRound := r\<rparr>)" and "dom m = dom (hvSets hvs) \<union> {hvRound hvs - 1..r}"
proof -
  have b: "0 \<le> hvRound hvs" "in32 (hvRound hvs)" using inv by (auto simp: hv_inv_def)
  have sub: "SafeSubInt32 (hvRound hvs) 1 = (Inr (hvRound hvs - 1) :: 'e fault + _)"
    using b by (auto simp: SafeSubInt32_def int_range intro!: wrap32_id)
  obtain m where m: "setRoundLoop (nat (r - (hvRound hvs - 1) + 1)) (hvRound hvs - 1) hvs = (Inr (hvs\<lparr>hvSets := m\<rparr>) :: 'e fault + _)"
    "\<forall>k rvs. m k = Some rvs \<longrightarrow> roundOkAt env hvs k rvs"
    "dom m = dom (hvSets hvs) \<union> {hvRound hvs - 1..<hvRound hvs - 1 + int (nat (r - (hvRound hvs - 1) + 1))}"
    using inv setRoundLoop_ok [of hvs env "nat (r - (hvRound hvs - 1) + 1)" "hvRound hvs - 1", where 'e = 'e]
    by (auto simp: hv_inv_def)
  have dom: "dom m = dom (hvSets hvs) \<union> {hvRound hvs - 1..r}" using m(3) r(1) by auto
  let ?h = "hvs\<lparr>hvSets := m, hvRound := r\<rparr>"
  have same: "roundOkAt env ?h k w = roundOkAt env hvs k w" for k w by (rule roundOkAt_cong) simp_all
  have cat: "catchup ?h = catchup hvs" by (simp add: catchup_def)
  have "{0..r} \<subseteq> dom m"
  proof
    fix k assume k: "k \<in> {0..r}"
    show "k \<in> dom m"
    proof (cases "k \<le> hvRound hvs")
      case True
      then have "k \<in> dom (hvSets hvs)" using inv k unfolding hv_inv_def by auto
      then show ?thesis using dom by simp
    qed (use k dom in auto)
  qed
  moreover have "dom m \<subseteq> {-1..r} \<union> catchup hvs"
    using dom inv b r(1) unfolding hv_inv_def by auto
  ultimately have "hv_inv env ?h"
    using inv m(2) r b(1) unfolding hv_inv_def same cat by simp
  moreover have "SetRound hvs r = (Inr ?h :: 'e fault + _)"
    using r(1) sub m(1) by (simp add: SetRound_def)
  ultimately show ?thesis using that dom by blast
qed

lemma putVoteSet_inv:
  assumes inv: "hv_inv env hvs" and get: "getVoteSet hvs r t = (Inr (Some vs) :: 'e fault + _)"
    and new: "setFor env (hvChainID hvs) (hvHeight hvs) r t (Validators (hvValSet hvs)) vs'"
  shows "hv_inv env (putVoteSet hvs r t vs')"
proof -
  obtain rvs where rvs: "hvSets hvs r = Some rvs" "t = PrevoteType \<or> t = PrecommitType"
    using get by (auto simp: getVoteSet_def split: option.splits SignedMsgType.splits)
  let ?rvs' = "if t = PrevoteType then rvs\<lparr>Prevotes := vs'\<rparr> else rvs\<lparr>Precommits := vs'\<rparr>"
  let ?h = "hvs\<lparr>hvSets := (hvSets hvs)(r \<mapsto> ?rvs')\<rparr>"
  have put: "putVoteSet hvs r t vs' = ?h" using rvs(1) by (simp add: putVoteSet_def)
  have same: "roundOkAt env ?h k w = roundOkAt env hvs k w" for k w by (rule roundOkAt_cong) simp_all
  have cat: "catchup ?h = catchup hvs" by (simp add: catchup_def)
  have ok: "roundOkAt env hvs r ?rvs'"
    using inv rvs new by (auto simp: hv_inv_def roundOkAt_def)
  have dom: "dom (hvSets ?h) = dom (hvSets hvs)" using rvs(1) by auto
  show ?thesis
    unfolding put hv_inv_def same cat dom using inv ok by (auto simp: hv_inv_def)
qed

lemma getVoteSet_ok:
  assumes inv: "hv_inv env hvs" and t: "IsVoteTypeValid t"
  shows "\<exists>p. getVoteSet hvs r t = (Inr p :: 'e fault + _) \<and> (p = None \<longleftrightarrow> hvSets hvs r = None) \<and>
    (\<forall>vs. p = Some vs \<longrightarrow> setFor env (hvChainID hvs) (hvHeight hvs) r t (Validators (hvValSet hvs)) vs)"
proof (cases "hvSets hvs r")
  case None
  then show ?thesis by (simp add: getVoteSet_def)
next
  case (Some rvs)
  then have "roundOkAt env hvs r rvs" using inv by (simp add: hv_inv_def)
  then show ?thesis using Some t by (cases t) (auto simp: getVoteSet_def roundOkAt_def)
qed

lemma addVoteTo_ok:
  assumes inv: "hv_inv env hvs" and v: "Vote_ValidateBasic v = Inr ()"
    and get: "getVoteSet hvs (vRound v) (vType v) = (Inr (Some vs) :: unit fault + _)" and t: "IsVoteTypeValid (vType v)"
  shows "\<exists>hvs' a e. addVoteTo env hvs v (Some vs) = (Inr (hvs', a, e) :: unit fault + _) \<and> hv_inv env hvs' \<and>
    hvPeers hvs' = hvPeers hvs \<and> hvRound hvs' = hvRound hvs \<and> dom (hvSets hvs') = dom (hvSets hvs)"
proof -
  let ?g = "(hvChainID hvs, hvHeight hvs, vRound v, vType v, hvValSet hvs)"
  have "setFor env (hvChainID hvs) (hvHeight hvs) (vRound v) (vType v) (Validators (hvValSet hvs)) vs"
    using getVoteSet_ok [OF inv t, of "vRound v", where 'e = unit] get by auto
  then obtain vs' a e where add: "AddVote env (Some vs) (Some v) = (Inr (vs', a, e) :: unit fault + _)"
    and new: "setFor env (hvChainID hvs) (hvHeight hvs) (vRound v) (vType v) (Validators (hvValSet hvs)) vs'"
    using vb.add_ok [of env ?g vs v] v by auto
  have run: "addVoteTo env hvs v (Some vs) =
      (Inr (putVoteSet hvs (vRound v) (vType v) vs', a, map_option VoteErr e) :: unit fault + _)"
    using add by (simp add: addVoteTo_def)
  have "dom (hvSets (putVoteSet hvs (vRound v) (vType v) vs')) = dom (hvSets hvs)"
    by (auto simp: putVoteSet_def split: option.splits if_splits)
  moreover have "hvPeers (putVoteSet hvs (vRound v) (vType v) vs') = hvPeers hvs"
    "hvRound (putVoteSet hvs (vRound v) (vType v) vs') = hvRound hvs"
    by (simp_all add: putVoteSet_def split: option.splits)
  ultimately show ?thesis using run putVoteSet_inv [OF inv get new] by simp
qed

lemma newRound_inv:
  assumes inv: "hv_inv env hvs" and none: "hvSets hvs r = None"
    and peers: "length (case hvPeers hvs p of None \<Rightarrow> [] | Some rs \<Rightarrow> rs) < 2" and rvs: "roundOkAt env hvs r rvs"
  shows "hv_inv env (hvs\<lparr>hvSets := (hvSets hvs)(r \<mapsto> rvs),
    hvPeers := (hvPeers hvs)(p \<mapsto> (case hvPeers hvs p of None \<Rightarrow> [] | Some rs \<Rightarrow> rs) @ [r])\<rparr>)" (is "hv_inv env ?h")
proof -
  have same: "roundOkAt env ?h k w = roundOkAt env hvs k w" for k w by (rule roundOkAt_cong) simp_all
  have "insert r (catchup hvs) \<subseteq> catchup ?h"
  proof
    fix k assume k: "k \<in> insert r (catchup hvs)"
    let ?rs = "case hvPeers hvs p of None \<Rightarrow> [] | Some rs \<Rightarrow> rs"
    show "k \<in> catchup ?h"
    proof (cases "k = r \<or> k \<in> set ?rs")
      case True
      then show ?thesis by (auto simp: catchup_def intro!: exI [of _ p])
    next
      case False
      then obtain q rs where "hvPeers hvs q = Some rs" "k \<in> set rs" "q \<noteq> p" using k by (force simp: catchup_def)
      then show ?thesis by (auto simp: catchup_def intro!: exI [of _ q])
    qed
  qed
  moreover have "dom (hvSets ?h) = insert r (dom (hvSets hvs))" by simp
  ultimately have dom: "{0..hvRound ?h} \<subseteq> dom (hvSets ?h) \<and> dom (hvSets ?h) \<subseteq> {-1..hvRound ?h} \<union> catchup ?h"
    using inv unfolding hv_inv_def by auto
  have "\<forall>q rs. hvPeers ?h q = Some rs \<longrightarrow> length rs \<le> 2" using inv peers by (auto simp: hv_inv_def)
  moreover have "\<forall>k w. hvSets ?h k = Some w \<longrightarrow> roundOkAt env ?h k w"
    unfolding same using inv rvs by (simp add: hv_inv_def)
  ultimately show ?thesis using inv dom unfolding hv_inv_def by simp
qed

lemma HVS_AddVote_ok:
  assumes inv: "hv_inv env hvs" and v: "Vote_ValidateBasic v = Inr ()"
  shows "\<exists>hvs' a e. HVS_AddVote env hvs v peerID = (Inr (hvs', a, e) :: unit fault + _) \<and> hv_inv env hvs' \<and>
    hvRound hvs' = hvRound hvs"
proof (cases "IsVoteTypeValid (vType v)")
  case False
  then show ?thesis using inv by (auto simp: HVS_AddVote_def)
next
  case t: True
  obtain p where p: "getVoteSet hvs (vRound v) (vType v) = (Inr p :: unit fault + _)"
    "p = None \<longleftrightarrow> hvSets hvs (vRound v) = None"
    using getVoteSet_ok [OF inv t, of "vRound v", where 'e = unit] by (elim exE conjE) (rule that; assumption)
  show ?thesis
  proof (cases p)
    case (Some vs)
    then show ?thesis using addVoteTo_ok [OF inv v _ t] p(1) t by (auto simp: HVS_AddVote_def)
  next
    case None
    let ?rndz = "case hvPeers hvs peerID of None \<Rightarrow> [] | Some rs \<Rightarrow> rs"
    show ?thesis
    proof (cases "length ?rndz < 2")
      case False
      then show ?thesis using inv t p None by (auto simp: HVS_AddVote_def)
    next
      case True
      have none: "hvSets hvs (vRound v) = None" using None p(2) by simp
      have h: "wf_vals (hvValSet hvs)" "\<forall>val \<in> set (Validators (hvValSet hvs)). PubKey val \<noteq> None" "hvHeight hvs \<noteq> 0"
        using inv by (auto simp: hv_inv_def)
      obtain rvs where rvs: "addRound hvs (vRound v) = (Inr (hvs\<lparr>hvSets := (hvSets hvs)(vRound v \<mapsto> rvs)\<rparr>) :: unit fault + _)"
        "roundOkAt env hvs (vRound v) rvs" using h none by (rule addRound_ok)
      let ?h1 = "hvs\<lparr>hvSets := (hvSets hvs)(vRound v \<mapsto> rvs)\<rparr>"
      let ?h2 = "?h1\<lparr>hvPeers := (hvPeers hvs)(peerID \<mapsto> ?rndz @ [vRound v])\<rparr>"
      have inv2: "hv_inv env ?h2" using inv none True rvs(2) by (rule newRound_inv)
      obtain vs where vs: "getVoteSet ?h1 (vRound v) (vType v) = (Inr (Some vs) :: unit fault + _)"
        using t by (cases "vType v") (auto simp: getVoteSet_def)
      then have vs2: "getVoteSet ?h2 (vRound v) (vType v) = (Inr (Some vs) :: unit fault + _)" by (simp add: getVoteSet_def)
      have "HVS_AddVote env hvs v peerID = (addVoteTo env ?h2 v (Some vs) :: unit fault + _)"
        using True t p None rvs(1) vs by (simp add: HVS_AddVote_def)
      then show ?thesis using addVoteTo_ok [OF inv2 v vs2 t] by auto
    qed
  qed
qed

lemma HVS_SetPeerMaj23_ok:
  assumes inv: "hv_inv env hvs"
  shows "\<exists>hvs' e. HVS_SetPeerMaj23 hvs r t peerID b = (Inr (hvs', e) :: unit fault + _) \<and> hv_inv env hvs' \<and>
    hvRound hvs' = hvRound hvs"
proof (cases "IsVoteTypeValid t")
  case False
  then show ?thesis using inv by (simp add: HVS_SetPeerMaj23_def)
next
  case t: True
  obtain p where p: "getVoteSet hvs r t = (Inr p :: unit fault + _)"
    "\<forall>vs. p = Some vs \<longrightarrow> setFor env (hvChainID hvs) (hvHeight hvs) r t (Validators (hvValSet hvs)) vs"
    using getVoteSet_ok [OF inv t, of r, where 'e = unit] by (elim exE conjE) (rule that; assumption)
  show ?thesis
  proof (cases p)
    case None
    then show ?thesis using inv p t by (simp add: HVS_SetPeerMaj23_def)
  next
    case (Some vs)
    let ?g = "(hvChainID hvs, hvHeight hvs, r, t, hvValSet hvs)"
    obtain vs' e where c: "SetPeerMaj23 (Some vs) peerID b = (Inr (vs', e) :: unit fault + _)"
      "setFor env (hvChainID hvs) (hvHeight hvs) r t (Validators (hvValSet hvs)) vs'"
      using vb.claim_ok [of env ?g vs "(peerID, b)"] p(2) Some by auto
    have "hv_inv env (putVoteSet hvs r t vs')" using inv p(1) [unfolded Some] c(2) by (rule putVoteSet_inv)
    moreover have "hvRound (putVoteSet hvs r t vs') = hvRound hvs" by (simp add: putVoteSet_def split: option.splits)
    ultimately show ?thesis using c(1) p(1) Some t by (simp add: HVS_SetPeerMaj23_def)
  qed
qed

section \<open>Reachable states of a height\<close>

inductive hv_reach :: "crypto_env \<Rightarrow> height_vote_set \<Rightarrow> bool" for env where
  start: "wf_vals vals \<Longrightarrow> \<forall>val \<in> set (Validators vals). PubKey val \<noteq> None \<Longrightarrow>
    NewHeightVoteSet chainID h vals = (Inr hvs :: unit fault + _) \<Longrightarrow> hv_reach env hvs"
| setRound: "hv_reach env hvs \<Longrightarrow> hvRound hvs \<le> r \<Longrightarrow> in32 r \<Longrightarrow> SetRound hvs r = (Inr hvs' :: unit fault + _) \<Longrightarrow>
    hv_reach env hvs'"
| addVote: "hv_reach env hvs \<Longrightarrow> Vote_ValidateBasic v = Inr () \<Longrightarrow>
    HVS_AddVote env hvs v peerID = (Inr (hvs', added, err) :: unit fault + _) \<Longrightarrow> hv_reach env hvs'"
| peerMaj23: "hv_reach env hvs \<Longrightarrow> HVS_SetPeerMaj23 hvs r t peerID b = (Inr (hvs', e) :: unit fault + _) \<Longrightarrow>
    hv_reach env hvs'"

lemma hv_reach_inv: "hv_reach env hvs \<Longrightarrow> hv_inv env hvs"
proof (induction rule: hv_reach.induct)
  case (start vals chainID h hvs)
  then have "h \<noteq> 0" by (auto simp: NewHeightVoteSet_def HVS_Reset_def addRound_def NewVoteSet_def bindR_Inr_iff split: if_splits)
  then obtain hvs1 where "NewHeightVoteSet chainID h vals = (Inr hvs1 :: unit fault + _)" "hv_inv env hvs1"
    using start(1,2) by (rule_tac NewHeightVoteSet_inv)
  with start show ?case by simp
next
  case (setRound hvs r hvs')
  obtain m where "SetRound hvs r = (Inr (hvs\<lparr>hvSets := m, hvRound := r\<rparr>) :: unit fault + _)"
    "hv_inv env (hvs\<lparr>hvSets := m, hvRound := r\<rparr>)"
    using setRound.IH setRound.hyps(2,3) by (rule SetRound_ok)
  with setRound show ?case by simp
next
  case (addVote hvs v peerID hvs' added err)
  with HVS_AddVote_ok [of env hvs v peerID] show ?case by auto
next
  case (peerMaj23 hvs r t peerID b hvs' e)
  with HVS_SetPeerMaj23_ok [of env hvs r t peerID b] show ?case by auto
qed

section \<open>Properties\<close>

lemma card_catchup:
  assumes "hv_inv env hvs"
  shows "finite (catchup hvs)" and "card (catchup hvs) \<le> 2 * card (dom (hvPeers hvs))"
proof -
  let ?R = "\<lambda>p. case hvPeers hvs p of None \<Rightarrow> {} | Some rs \<Rightarrow> set rs"
  have eq: "catchup hvs = (\<Union>p \<in> dom (hvPeers hvs). ?R p)"
    by (auto simp: catchup_def split: option.splits) (metis domI option.simps(5))
  have fin: "finite (dom (hvPeers hvs))" using assms by (simp add: hv_inv_def)
  show "finite (catchup hvs)" unfolding eq using fin by (auto split: option.splits)
  have "card (?R p) \<le> 2" if p: "p \<in> dom (hvPeers hvs)" for p
  proof -
    obtain rs where "hvPeers hvs p = Some rs" using p by blast
    moreover from this have "length rs \<le> 2" using assms by (simp add: hv_inv_def)
    ultimately show ?thesis using card_length [of rs] by simp
  qed
  then have "(\<Sum>p \<in> dom (hvPeers hvs). card (?R p)) \<le> (\<Sum>p \<in> dom (hvPeers hvs). 2)" by (intro sum_mono)
  moreover have "card (catchup hvs) \<le> (\<Sum>p \<in> dom (hvPeers hvs). card (?R p))"
    unfolding eq using fin by (rule card_UN_le)
  ultimately show "card (catchup hvs) \<le> 2 * card (dom (hvPeers hvs))" by simp
qed

text \<open>C28: The votes kept for a height are bounded whatever the peers send: there are at most as
  many rounds with vote sets as rounds up to the tracked one, and the extra round -1, and two for each
  peer that sent a vote for an unknown round. Every tracked round has its two sets.\<close>

theorem tracked_rounds_bounded:
  assumes "hv_reach env hvs"
  shows "{0..hvRound hvs} \<subseteq> dom (hvSets hvs) \<and> finite (dom (hvSets hvs)) \<and>
    int (card (dom (hvSets hvs))) \<le> hvRound hvs + 2 + 2 * int (card (dom (hvPeers hvs)))"
proof -
  have inv: "hv_inv env hvs" using assms by (rule hv_reach_inv)
  have sub: "dom (hvSets hvs) \<subseteq> {-1..hvRound hvs} \<union> catchup hvs" and r: "0 \<le> hvRound hvs"
    and all: "{0..hvRound hvs} \<subseteq> dom (hvSets hvs)" using inv by (auto simp: hv_inv_def)
  have fin: "finite ({-1..hvRound hvs} \<union> catchup hvs)" using card_catchup(1) [OF inv] by simp
  have "card (dom (hvSets hvs)) \<le> card ({-1..hvRound hvs} \<union> catchup hvs)" using fin sub by (rule card_mono)
  also have "\<dots> \<le> card {-1..hvRound hvs} + card (catchup hvs)" by (rule card_Un_le)
  finally have "card (dom (hvSets hvs)) \<le> nat (hvRound hvs + 2) + 2 * card (dom (hvPeers hvs))"
    using card_catchup(2) [OF inv] by simp
  with r have "int (card (dom (hvSets hvs))) \<le> hvRound hvs + 2 + 2 * int (card (dom (hvPeers hvs)))" by linarith
  then show ?thesis using all finite_subset [OF sub fin] by blast
qed

lemma sample_hv_reach:
  obtains hvs where "hv_reach sampleEnv hvs" and "hvRound hvs = 0"
proof -
  obtain hvs where "NewHeightVoteSet ''c'' 5 voteVals = (Inr hvs :: unit fault + _)" "hvRound hvs = 0"
    by (rule NewHeightVoteSet_inv [OF voteVals_wf, of 5 "''c''" sampleEnv]) simp
  then show ?thesis using that hv_reach.start [OF voteVals_wf] by blast
qed

theorem tracked_rounds_bounded_witness:
  "\<exists>hvs. hv_reach sampleEnv hvs \<and> {0..hvRound hvs} \<subseteq> dom (hvSets hvs)"
proof -
  obtain hvs where hvs: "hv_reach sampleEnv hvs" by (rule sample_hv_reach)
  from tracked_rounds_bounded [OF hvs] hvs show ?thesis by blast
qed

lemma polLoop_spec:
  assumes inv: "hv_inv env hvs"
  shows "\<exists>r b. polLoop n hvs = (Inr (r, b) :: 'e fault + _) \<and>
    (r = - 1 \<and> b = emptyBlockID \<or> 0 \<le> r \<and> r < int n \<and> (\<exists>rvs. hvSets hvs r = Some rvs \<and> vsMaj23 (Prevotes rvs) = Some b)) \<and>
    (\<forall>k rvs. r < k \<and> k < int n \<and> 0 \<le> k \<and> hvSets hvs k = Some rvs \<longrightarrow> vsMaj23 (Prevotes rvs) = None)"
proof (induction n)
  case 0
  then show ?case by auto
next
  case (Suc n)
  show ?case
  proof (cases "\<exists>rvs b. hvSets hvs (int n) = Some rvs \<and> vsMaj23 (Prevotes rvs) = Some b")
    case True
    then show ?thesis by (auto simp: getVoteSet_def TwoThirdsMajority_def)
  next
    case False
    then have "polLoop (Suc n) hvs = (polLoop n hvs :: 'e fault + _)"
      by (auto simp: getVoteSet_def TwoThirdsMajority_def split: option.splits)
    moreover obtain r b where rb: "polLoop n hvs = (Inr (r, b) :: 'e fault + _)"
      "r = - 1 \<and> b = emptyBlockID \<or> 0 \<le> r \<and> r < int n \<and> (\<exists>rvs. hvSets hvs r = Some rvs \<and> vsMaj23 (Prevotes rvs) = Some b)"
      "\<forall>k rvs. r < k \<and> k < int n \<and> 0 \<le> k \<and> hvSets hvs k = Some rvs \<longrightarrow> vsMaj23 (Prevotes rvs) = None"
      using Suc.IH by blast
    moreover have "vsMaj23 (Prevotes rvs) = None"
      if "r < k" "k < int (Suc n)" "0 \<le> k" "hvSets hvs k = Some rvs" for k rvs
      using that rb(3) False by (cases "k = int n") (auto intro: rb(3) [rule_format])
    ultimately show ?thesis by (intro exI [of _ r] exI [of _ b]) auto
  qed
qed

text \<open>\<open>POLInfo\<close> never panics and finds the last proof of lock: it returns the highest tracked
  round whose prevotes have a two-thirds majority, with the block of that majority, for which
  validators with more than two thirds of the power have genuine prevotes; it returns -1 only when
  no tracked round has one.\<close>

theorem POLInfo_is_last_majority:
  assumes "hv_reach env hvs"
  shows "\<exists>r b. POLInfo hvs = (Inr (r, b) :: 'e fault + _) \<and>
    (r = - 1 \<and> b = emptyBlockID \<or>
     0 \<le> r \<and> r \<le> hvRound hvs \<and> (\<exists>rvs. hvSets hvs r = Some rvs \<and> vsMaj23 (Prevotes rvs) = Some b \<and>
       2 * sumPower (Validators (hvValSet hvs)) < 3 * (\<Sum>i \<in> votersFor env (Prevotes rvs) b. VotingPower (Validators (hvValSet hvs) ! i)))) \<and>
    (\<forall>k rvs. r < k \<and> k \<le> hvRound hvs \<and> 0 \<le> k \<and> hvSets hvs k = Some rvs \<longrightarrow> vsMaj23 (Prevotes rvs) = None)"
proof -
  have inv: "hv_inv env hvs" using assms by (rule hv_reach_inv)
  have n: "int (nat (hvRound hvs + 1)) = hvRound hvs + 1" using inv by (simp add: hv_inv_def)
  obtain r b where rb: "POLInfo hvs = (Inr (r, b) :: 'e fault + _)"
    "r = - 1 \<and> b = emptyBlockID \<or> 0 \<le> r \<and> r < hvRound hvs + 1 \<and> (\<exists>rvs. hvSets hvs r = Some rvs \<and> vsMaj23 (Prevotes rvs) = Some b)"
    "\<forall>k rvs. r < k \<and> k < hvRound hvs + 1 \<and> 0 \<le> k \<and> hvSets hvs k = Some rvs \<longrightarrow> vsMaj23 (Prevotes rvs) = None"
    using polLoop_spec [OF inv, of "nat (hvRound hvs + 1)", where 'e = 'e] n unfolding POLInfo_def by auto
  have q: "2 * sumPower (Validators (hvValSet hvs)) < 3 * (\<Sum>i \<in> votersFor env (Prevotes rvs) b. VotingPower (Validators (hvValSet hvs) ! i))"
    if "hvSets hvs r = Some rvs" "vsMaj23 (Prevotes rvs) = Some b" for rvs
  proof -
    have "roundOkAt env hvs r rvs" using inv that(1) by (simp add: hv_inv_def)
    then have "vs_inv env (Prevotes rvs)" "Validators (vsValSet (Prevotes rvs)) = Validators (hvValSet hvs)"
      by (auto simp: roundOkAt_def setFor_def)
    with maj_quorum [OF this(1) that(2)] show ?thesis by simp
  qed
  then show ?thesis using rb by (intro exI [of _ r] exI [of _ b]) auto
qed

theorem POLInfo_is_last_majority_witness:
  "\<exists>hvs r b. hv_reach sampleEnv hvs \<and> POLInfo hvs = (Inr (r, b) :: unit fault + _)"
proof -
  obtain hvs where hvs: "hv_reach sampleEnv hvs" by (rule sample_hv_reach)
  from POLInfo_is_last_majority [OF hvs, where 'e = unit] hvs show ?thesis by blast
qed

text \<open>The first \<open>SetRound\<close> of a height starts its loop one below round 0, so a fresh height
  always gets vote sets for round -1, which the comment on the map's keys rules out.\<close>

theorem SetRound_tracks_minus_one:
  assumes "wf_vals vals" and "\<forall>val \<in> set (Validators vals). PubKey val \<noteq> None" and "h \<noteq> 0" and "0 \<le> r" and "in32 r"
  shows "\<exists>hvs hvs'. NewHeightVoteSet chainID h vals = (Inr hvs :: 'e fault + _) \<and>
    SetRound hvs r = (Inr hvs' :: 'e fault + _) \<and> hvSets hvs' (- 1) \<noteq> None"
proof -
  obtain env :: crypto_env where True by simp
  obtain hvs where hvs: "NewHeightVoteSet chainID h vals = (Inr hvs :: 'e fault + _)" "hv_inv env hvs" "hvRound hvs = 0"
    using assms(1-3) by (rule NewHeightVoteSet_inv)
  have r: "hvRound hvs \<le> r" using hvs(3) assms(4) by simp
  obtain m where m: "SetRound hvs r = (Inr (hvs\<lparr>hvSets := m, hvRound := r\<rparr>) :: 'e fault + _)"
    "dom m = dom (hvSets hvs) \<union> {hvRound hvs - 1..r}"
    using hvs(2) r assms(5) by (rule SetRound_ok)
  have "- 1 \<in> dom m" unfolding m(2) using hvs(3) assms(4) by auto
  with hvs(1) m(1) show ?thesis by (auto simp: domIff)
qed

theorem SetRound_tracks_minus_one_witness:
  "\<exists>hvs hvs'. NewHeightVoteSet ''c'' 5 voteVals = (Inr hvs :: unit fault + _) \<and>
    SetRound hvs 1 = (Inr hvs' :: unit fault + _) \<and> hvSets hvs' (- 1) \<noteq> None"
  by (rule SetRound_tracks_minus_one [OF voteVals_wf]) (simp_all add: int_range)

text \<open>Any interleaving of validated votes and peers' claims, from a fresh vote set on, runs
  without a panic, and the set it ends in satisfies the invariant.\<close>

theorem vote_set_runs:
  assumes "configOk (chainID, h, r, t, vals)" and "\<forall>v. Inl v \<in> set ops \<longrightarrow> Vote_ValidateBasic v = Inr ()"
  shows "\<exists>vs. bindR (NewVoteSet chainID h r t vals) (\<lambda>s. vb.run env s ops) = Inr vs \<and> vs_inv env vs \<and>
    vsHeight vs = h \<and> vsRound vs = r \<and> vsType vs = t"
  using vb.create_run_ok [OF assms, of env] by (auto simp: setFor_def)

theorem vote_set_runs_witness:
  "\<exists>vs. bindR (NewVoteSet ''c'' 5 0 PrecommitType voteVals)
      (\<lambda>s. vb.run sampleEnv s [Inl sampleVote, Inr (''p'', vBlockID sampleVote), Inl sampleVote]) = Inr vs \<and> vs_inv sampleEnv vs \<and>
    vsHeight vs = 5 \<and> vsRound vs = 0 \<and> vsType vs = PrecommitType"
proof (rule vote_set_runs)
  show "configOk (''c'', 5, 0, PrecommitType, voteVals)" using voteVals_wf by (simp add: configOk_def)
qed (simp add: sampleVote_ok)

end
