(* ===== verification/PrivVal.thy ===== *)
theory PrivVal
  imports SampleCodec "HOL-Library.Product_Lexorder"
begin

text \<open>
  \<open>privval/file.go\<close>: the file-backed signer that must never sign two conflicting messages for one
  height, round and step, even when the process crashes between requests.

  A \<open>FilePV\<close> keeps the last sign state in memory and on disk: \<open>pvState\<close> is the memory,
  \<open>pvDisk\<close> what the last successful \<open>Save\<close> wrote, and a restart (\<open>loadFilePV\<close>) reads the disk back.
  The signing function of the private key, the decoders of the canonical messages and whether a
  write succeeds are fields of \<open>pv_env\<close>. The nil-able slices \<open>Signature\<close> and \<open>SignBytes\<close> are options.
\<close>

section \<open>The sign state\<close>

record pv_env =
  pvSign :: "bytes \<Rightarrow> bytes option"
  pvUnmarshalVote :: "bytes \<Rightarrow> canonical_vote option"
  pvUnmarshalProposal :: "bytes \<Rightarrow> canonical_proposal option"

datatype pv_error =
    HeightRegression | RoundRegression | StepRegression | NoSignBytes | ConflictingData | SignFailed

definition stepNone :: int where "stepNone = 0"

definition stepPropose :: int where "stepPropose = 1"

definition stepPrevote :: int where "stepPrevote = 2"

definition stepPrecommit :: int where "stepPrecommit = 3"

definition voteToStep :: "vote \<Rightarrow> 'e fault + int" where
  "voteToStep v =
     (case vType v of
        PrevoteType \<Rightarrow> Inr stepPrevote
      | PrecommitType \<Rightarrow> Inr stepPrecommit
      | _ \<Rightarrow> Inl (Panic ''Unknown vote type''))"

record FilePVLastSignState =
  lssHeight :: int
  lssRound :: int
  lssStep :: int
  lssSignature :: "bytes option"
  lssSignBytes :: "bytes option"
  lssFilePath :: string

record FilePV =
  pvState :: FilePVLastSignState
  pvDisk :: FilePVLastSignState

definition emptySignState :: "string \<Rightarrow> FilePVLastSignState" where
  "emptySignState path =
     \<lparr>lssHeight = 0, lssRound = 0, lssStep = stepNone, lssSignature = None, lssSignBytes = None, lssFilePath = path\<rparr>"

definition CheckHRS :: "FilePVLastSignState \<Rightarrow> int \<Rightarrow> int \<Rightarrow> int \<Rightarrow> pv_error fault + bool" where
  "CheckHRS lss height round step =
     (if lssHeight lss > height then Inl (Err HeightRegression)
      else if lssHeight lss = height then
        (if lssRound lss > round then Inl (Err RoundRegression)
         else if lssRound lss = round then
           (if lssStep lss > step then Inl (Err StepRegression)
            else if lssStep lss = step then
              (if lssSignBytes lss \<noteq> None then
                 (if lssSignature lss = None then Inl (Panic ''pv: Signature is nil but SignBytes is not!'')
                  else Inr True)
               else Inl (Err NoSignBytes))
            else Inr False)
         else Inr False)
      else Inr False)"

text \<open>\<open>Save\<close> writes the state to its file, atomically; without a path it panics. A failed write
  panics too, and then the process is gone and the disk is as it was: see \<open>restart\<close>.\<close>

definition LSS_Save :: "FilePV \<Rightarrow> 'e fault + FilePV" where
  "LSS_Save pv =
     (if lssFilePath (pvState pv) = [] then Inl (Panic ''cannot save FilePVLastSignState: filePath not set'')
      else Inr (pv\<lparr>pvDisk := pvState pv\<rparr>))"

definition NewFilePV :: "string \<Rightarrow> FilePVLastSignState \<Rightarrow> FilePV" where
  "NewFilePV stateFilePath disk = \<lparr>pvState = emptySignState stateFilePath, pvDisk = disk\<rparr>"

definition loadFilePV :: "FilePV \<Rightarrow> string \<Rightarrow> bool \<Rightarrow> FilePV" where
  "loadFilePV pv stateFilePath loadState =
     pv\<lparr>pvState := (if loadState then pvDisk pv else emptySignState [])\<lparr>lssFilePath := stateFilePath\<rparr>\<rparr>"

definition PV_Reset :: "FilePV \<Rightarrow> 'e fault + FilePV" where
  "PV_Reset pv =
     LSS_Save (pv\<lparr>pvState := (pvState pv)\<lparr>lssHeight := 0, lssRound := 0, lssStep := 0,
                                            lssSignature := None, lssSignBytes := None\<rparr>\<rparr>)"

section \<open>Signing\<close>

definition saveSigned :: "FilePV \<Rightarrow> int \<Rightarrow> int \<Rightarrow> int \<Rightarrow> bytes \<Rightarrow> bytes \<Rightarrow> 'e fault + FilePV" where
  "saveSigned pv height round step signBytes sig =
     LSS_Save (pv\<lparr>pvState := (pvState pv)\<lparr>lssHeight := height, lssRound := round, lssStep := step,
                                            lssSignature := Some sig, lssSignBytes := Some signBytes\<rparr>\<rparr>)"

text \<open>Both decoders panic on bytes they cannot read. The two messages are compared with their
  timestamps set to the same instant \<open>now\<close>.\<close>

definition checkVotesOnlyDifferByTimestamp :: "pv_env \<Rightarrow> bytes \<Rightarrow> bytes \<Rightarrow> 'e fault + (time \<times> bool)" where
  "checkVotesOnlyDifferByTimestamp pe lastSignBytes newSignBytes =
     (case pvUnmarshalVote pe lastSignBytes of
        None \<Rightarrow> Inl (Panic ''LastSignBytes cannot be unmarshalled into vote'')
      | Some lastVote \<Rightarrow>
          (case pvUnmarshalVote pe newSignBytes of
             None \<Rightarrow> Inl (Panic ''signBytes cannot be unmarshalled into vote'')
           | Some newVote \<Rightarrow>
               (let now = 0 in
                Inr (cvTimestamp lastVote, newVote\<lparr>cvTimestamp := now\<rparr> = lastVote\<lparr>cvTimestamp := now\<rparr>))))"

definition checkProposalsOnlyDifferByTimestamp :: "pv_env \<Rightarrow> bytes \<Rightarrow> bytes \<Rightarrow> 'e fault + (time \<times> bool)" where
  "checkProposalsOnlyDifferByTimestamp pe lastSignBytes newSignBytes =
     (case pvUnmarshalProposal pe lastSignBytes of
        None \<Rightarrow> Inl (Panic ''LastSignBytes cannot be unmarshalled into proposal'')
      | Some lastProposal \<Rightarrow>
          (case pvUnmarshalProposal pe newSignBytes of
             None \<Rightarrow> Inl (Panic ''signBytes cannot be unmarshalled into proposal'')
           | Some newProposal \<Rightarrow>
               (let now = 0 in
                Inr (cpTimestamp lastProposal,
                     newProposal\<lparr>cpTimestamp := now\<rparr> = lastProposal\<lparr>cpTimestamp := now\<rparr>))))"

definition signVote ::
  "crypto_env \<Rightarrow> pv_env \<Rightarrow> FilePV \<Rightarrow> string \<Rightarrow> vote \<Rightarrow> pv_error fault + (FilePV \<times> vote)"
where
  "signVote env pe pv chainID v =
     bindR (voteToStep v) (\<lambda>step.
     bindR (CheckHRS (pvState pv) (vHeight v) (vRound v) step) (\<lambda>sameHRS.
     bindR (VoteSignBytes env chainID v) (\<lambda>signBytes.
       if sameHRS then
         (let last = the (lssSignBytes (pvState pv)); sig = the (lssSignature (pvState pv)) in
          if signBytes = last then Inr (pv, v\<lparr>vSignature := sig\<rparr>)
          else bindR (checkVotesOnlyDifferByTimestamp pe last signBytes) (\<lambda>(timestamp, ok).
                 if ok then Inr (pv, v\<lparr>vTimestamp := timestamp, vSignature := sig\<rparr>)
                 else Inl (Err ConflictingData)))
       else (case pvSign pe signBytes of
               None \<Rightarrow> Inl (Err SignFailed)
             | Some sig \<Rightarrow>
                 bindR (saveSigned pv (vHeight v) (vRound v) step signBytes sig) (\<lambda>pv'.
                   Inr (pv', v\<lparr>vSignature := sig\<rparr>))))))"

definition signProposal ::
  "crypto_env \<Rightarrow> pv_env \<Rightarrow> FilePV \<Rightarrow> string \<Rightarrow> proposal \<Rightarrow> pv_error fault + (FilePV \<times> proposal)"
where
  "signProposal env pe pv chainID p =
     bindR (CheckHRS (pvState pv) (prHeight p) (prRound p) stepPropose) (\<lambda>sameHRS.
     bindR (ProposalSignBytes env chainID p) (\<lambda>signBytes.
       if sameHRS then
         (let last = the (lssSignBytes (pvState pv)); sig = the (lssSignature (pvState pv)) in
          if signBytes = last then Inr (pv, p\<lparr>prSignature := sig\<rparr>)
          else bindR (checkProposalsOnlyDifferByTimestamp pe last signBytes) (\<lambda>(timestamp, ok).
                 if ok then Inr (pv, p\<lparr>prTimestamp := timestamp, prSignature := sig\<rparr>)
                 else Inl (Err ConflictingData)))
       else (case pvSign pe signBytes of
               None \<Rightarrow> Inl (Err SignFailed)
             | Some sig \<Rightarrow>
                 bindR (saveSigned pv (prHeight p) (prRound p) stepPropose signBytes sig) (\<lambda>pv'.
                   Inr (pv', p\<lparr>prSignature := sig\<rparr>)))))"

section \<open>Runs of a signer\<close>

text \<open>A released message: its height, round and step, its sign bytes and its signature.\<close>

type_synonym released = "(int \<times> int \<times> int) \<times> bytes \<times> bytes"

definition restart :: "FilePV \<Rightarrow> FilePV" where
  "restart pv = loadFilePV pv (lssFilePath (pvDisk pv)) True"

text \<open>A run: the signer is created and saved, answers requests, refuses some (which changes
  nothing), and may crash and restart between requests or after saving and before the caller
  receives the answer. The list holds the messages the callers received.\<close>

inductive pv_reach :: "crypto_env \<Rightarrow> pv_env \<Rightarrow> FilePV \<Rightarrow> released list \<Rightarrow> bool" for env pe where
  init: "LSS_Save (NewFilePV path disk) = (Inr pv :: pv_error fault + _) \<Longrightarrow> pv_reach env pe pv []"
| signedVote: "pv_reach env pe pv hist \<Longrightarrow> signVote env pe pv chainID v = Inr (pv', v') \<Longrightarrow>
    VoteSignBytes env chainID v' = (Inr sb :: pv_error fault + _) \<Longrightarrow> voteToStep v' = (Inr step :: pv_error fault + _) \<Longrightarrow>
    pv_reach env pe pv' (((vHeight v', vRound v', step), sb, vSignature v') # hist)"
| signedProposal: "pv_reach env pe pv hist \<Longrightarrow> signProposal env pe pv chainID p = Inr (pv', p') \<Longrightarrow>
    ProposalSignBytes env chainID p' = (Inr sb :: pv_error fault + _) \<Longrightarrow>
    pv_reach env pe pv' (((prHeight p', prRound p', stepPropose), sb, prSignature p') # hist)"
| crash: "pv_reach env pe pv hist \<Longrightarrow> pv_reach env pe (restart pv) hist"
| crashVote: "pv_reach env pe pv hist \<Longrightarrow> signVote env pe pv chainID v = Inr (pv', v') \<Longrightarrow> pv_reach env pe (restart pv') hist"
| crashProposal: "pv_reach env pe pv hist \<Longrightarrow> signProposal env pe pv chainID p = Inr (pv', p') \<Longrightarrow>
    pv_reach env pe (restart pv') hist"

text \<open>What the signer relies on of the protobuf code: decoding inverts encoding.\<close>

definition codecOk :: "crypto_env \<Rightarrow> pv_env \<Rightarrow> bool" where
  "codecOk env pe \<longleftrightarrow> (\<forall>c. pvUnmarshalVote pe (marshalVote env c) = Some c) \<and>
     (\<forall>c. pvUnmarshalProposal pe (marshalProposal env c) = Some c)"

definition hrsOf :: "FilePVLastSignState \<Rightarrow> int \<times> int \<times> int" where
  "hrsOf lss = (lssHeight lss, lssRound lss, lssStep lss)"

lemma CheckHRS_cases:
  "CheckHRS lss h r s = Inr b \<Longrightarrow>
   (if b then hrsOf lss = (h, r, s) \<and> lssSignBytes lss \<noteq> None \<and> lssSignature lss \<noteq> None
    else hrsOf lss < (h, r, s))"
  by (auto simp: CheckHRS_def hrsOf_def less_prod_def split: if_splits)

text \<open>The sign bytes of a state were made for its step.\<close>

definition stateOk :: "crypto_env \<Rightarrow> pv_env \<Rightarrow> FilePVLastSignState \<Rightarrow> bool" where
  "stateOk env pe lss \<longleftrightarrow> lssFilePath lss \<noteq> [] \<and>
     (\<forall>sb. lssSignBytes lss = Some sb \<longrightarrow> (\<exists>sig. lssSignature lss = Some sig \<and> pvSign pe sb = Some sig) \<and>
        (if lssStep lss = stepPropose then \<exists>c. sb = marshalProposal env c else \<exists>c. sb = marshalVote env c))"

definition recOk :: "pv_env \<Rightarrow> FilePVLastSignState \<Rightarrow> released \<Rightarrow> bool" where
  "recOk pe lss x \<longleftrightarrow> fst x \<le> hrsOf lss \<and> pvSign pe (fst (snd x)) = Some (snd (snd x)) \<and>
     (fst x = hrsOf lss \<longrightarrow> lssSignBytes lss = Some (fst (snd x)))"

definition pv_inv :: "crypto_env \<Rightarrow> pv_env \<Rightarrow> FilePV \<Rightarrow> released list \<Rightarrow> bool" where
  "pv_inv env pe pv hist \<longleftrightarrow> pvState pv = pvDisk pv \<and> stateOk env pe (pvState pv) \<and>
     (\<forall>x \<in> set hist. recOk pe (pvState pv) x) \<and>
     (\<forall>a \<in> set hist. \<forall>b \<in> set hist. fst a = fst b \<longrightarrow> fst (snd a) = fst (snd b))"

lemma restart_id: "pv_inv env pe pv hist \<Longrightarrow> restart pv = pv"
  by (cases pv) (simp add: restart_def loadFilePV_def pv_inv_def)

text \<open>The two outcomes of a signing request: the message of the last state again, or a new one.\<close>

definition reSigned :: "FilePV \<Rightarrow> FilePV \<Rightarrow> int \<times> int \<times> int \<Rightarrow> bytes \<Rightarrow> bytes \<Rightarrow> bool" where
  "reSigned pv pv' hrs sb sig \<longleftrightarrow> pv' = pv \<and> hrsOf (pvState pv) = hrs \<and>
     lssSignBytes (pvState pv) = Some sb \<and> lssSignature (pvState pv) = Some sig"

definition newSigned :: "pv_env \<Rightarrow> FilePV \<Rightarrow> FilePV \<Rightarrow> int \<times> int \<times> int \<Rightarrow> bytes \<Rightarrow> bytes \<Rightarrow> bool" where
  "newSigned pe pv pv' hrs sb sig \<longleftrightarrow> hrsOf (pvState pv) < hrs \<and> pvSign pe sb = Some sig \<and>
     hrsOf (pvState pv') = hrs \<and> lssSignBytes (pvState pv') = Some sb \<and> lssSignature (pvState pv') = Some sig \<and>
     lssFilePath (pvState pv') = lssFilePath (pvState pv) \<and> pvDisk pv' = pvState pv'"

lemma pv_inv_Cons:
  assumes "pv_inv env pe pv hist" and "recOk pe (pvState pv) (hrs, sb, sig)"
    and "\<And>x. x \<in> set hist \<Longrightarrow> fst x = hrs \<Longrightarrow> fst (snd x) = sb"
  shows "pv_inv env pe pv ((hrs, sb, sig) # hist)"
proof -
  have "fst (snd a) = fst (snd b)"
    if "a \<in> set ((hrs, sb, sig) # hist)" "b \<in> set ((hrs, sb, sig) # hist)" "fst a = fst b" for a b
  proof -
    note in_hist = that(1,2)
    consider "a \<in> set hist" "b \<in> set hist" | "a = (hrs, sb, sig)" "b = (hrs, sb, sig)"
      | "a = (hrs, sb, sig)" "b \<in> set hist" | "b = (hrs, sb, sig)" "a \<in> set hist"
      using in_hist by (simp only: list.set insert_iff) blast
    then show ?thesis
    proof cases
      case 1
      then show ?thesis using assms(1) that(3) unfolding pv_inv_def by blast
    next
      case 2
      then show ?thesis by simp
    next
      case 3
      then show ?thesis using assms(3) [of b] that(3) by simp
    next
      case 4
      then show ?thesis using assms(3) [of a] that(3) by simp
    qed
  qed
  moreover have "recOk pe (pvState pv) x" if "x \<in> set ((hrs, sb, sig) # hist)" for x
    using that assms(1,2) unfolding pv_inv_def by auto
  moreover have "pvState pv = pvDisk pv" "stateOk env pe (pvState pv)"
    using assms(1) unfolding pv_inv_def by blast+
  ultimately show ?thesis unfolding pv_inv_def by blast
qed

lemma signed_inv:
  assumes inv: "pv_inv env pe pv hist"
    and out: "reSigned pv pv' hrs sb sig \<or> newSigned pe pv pv' hrs sb sig \<and>
      (if snd (snd hrs) = stepPropose then \<exists>c. sb = marshalProposal env c else \<exists>c. sb = marshalVote env c)"
  shows "pv_inv env pe pv' hist \<and> pv_inv env pe pv' ((hrs, sb, sig) # hist)"
  using out
proof
  assume r: "reSigned pv pv' hrs sb sig"
  have sig: "pvSign pe sb = Some sig" using inv r by (auto simp: pv_inv_def stateOk_def reSigned_def)
  have eq: "fst (snd x) = sb" if "x \<in> set hist" "fst x = hrs" for x
  proof -
    have "recOk pe (pvState pv) x" using inv that(1) unfolding pv_inv_def by blast
    then show ?thesis using that(2) r by (simp add: recOk_def reSigned_def)
  qed
  have h: "pv_inv env pe pv' hist" using inv r by (simp add: reSigned_def)
  have "recOk pe (pvState pv') (hrs, sb, sig)" using r sig by (simp add: recOk_def reSigned_def)
  with h have "pv_inv env pe pv' ((hrs, sb, sig) # hist)" using eq by (rule pv_inv_Cons)
  with h show ?thesis ..
next
  assume n: "newSigned pe pv pv' hrs sb sig \<and>
      (if snd (snd hrs) = stepPropose then \<exists>c. sb = marshalProposal env c else \<exists>c. sb = marshalVote env c)"
  have old: "recOk pe (pvState pv') x \<and> fst x \<noteq> hrs" if "x \<in> set hist" for x
  proof -
    have "recOk pe (pvState pv) x" using inv that unfolding pv_inv_def by blast
    moreover from this have "fst x < hrs" using n by (auto simp: recOk_def newSigned_def)
    ultimately show ?thesis using n by (auto simp: recOk_def newSigned_def)
  qed
  have "snd (snd hrs) = lssStep (pvState pv')" using n by (auto simp: newSigned_def hrsOf_def)
  then have st: "stateOk env pe (pvState pv')"
    using n inv by (auto simp: stateOk_def newSigned_def pv_inv_def)
  have "pvState pv' = pvDisk pv'" using n by (simp add: newSigned_def)
  then have h: "pv_inv env pe pv' hist" using inv st old unfolding pv_inv_def by blast
  have "recOk pe (pvState pv') (hrs, sb, sig)" using n by (simp add: recOk_def newSigned_def)
  with h have "pv_inv env pe pv' ((hrs, sb, sig) # hist)" by (rule pv_inv_Cons) (use old in blast)
  with h show ?thesis ..
qed

lemma saveSigned_Inr:
  "saveSigned pv h r s sb sig = Inr pv' \<Longrightarrow>
   hrsOf (pvState pv') = (h, r, s) \<and> lssSignBytes (pvState pv') = Some sb \<and> lssSignature (pvState pv') = Some sig \<and>
   lssFilePath (pvState pv') = lssFilePath (pvState pv) \<and> pvDisk pv' = pvState pv'"
  by (auto simp: saveSigned_def LSS_Save_def hrsOf_def split: if_splits)

lemma VoteSignBytes_Inr:
  "VoteSignBytes env chainID v = (Inr sb :: pv_error fault + _) \<longleftrightarrow> (\<exists>c. CanonicalizeVote chainID v = (Inr c :: pv_error fault + _) \<and> sb = marshalVote env c)"
  by (auto simp: VoteSignBytes_def bindR_Inr_iff)

lemma ProposalSignBytes_Inr:
  "ProposalSignBytes env chainID p = (Inr sb :: pv_error fault + _) \<longleftrightarrow> (\<exists>c. CanonicalizeProposal chainID p = (Inr c :: pv_error fault + _) \<and> sb = marshalProposal env c)"
  by (auto simp: ProposalSignBytes_def bindR_Inr_iff)

lemma CanonicalizeVote_time:
  assumes "CanonicalizeVote chainID v = (Inr c :: pv_error fault + _)"
  shows "CanonicalizeVote chainID (v\<lparr>vTimestamp := t, vSignature := sig\<rparr>) = (Inr (c\<lparr>cvTimestamp := t\<rparr>) :: pv_error fault + _)"
    and "CanonicalizeVote chainID (v\<lparr>vSignature := sig\<rparr>) = (Inr c :: pv_error fault + _)"
  using assms by (auto simp: CanonicalizeVote_def bindR_Inr_iff)

lemma CanonicalizeProposal_time:
  assumes "CanonicalizeProposal chainID p = (Inr c :: pv_error fault + _)"
  shows "CanonicalizeProposal chainID (p\<lparr>prTimestamp := t, prSignature := sig\<rparr>) = (Inr (c\<lparr>cpTimestamp := t\<rparr>) :: pv_error fault + _)"
    and "CanonicalizeProposal chainID (p\<lparr>prSignature := sig\<rparr>) = (Inr c :: pv_error fault + _)"
  using assms by (auto simp: CanonicalizeProposal_def bindR_Inr_iff)

lemma voteToStep_Inr: "voteToStep v = Inr s \<Longrightarrow> s \<noteq> stepPropose"
  by (auto simp: voteToStep_def stepPrevote_def stepPrecommit_def stepPropose_def split: SignedMsgType.splits)

lemma voteToStep_same [simp]:
  "voteToStep (v\<lparr>vTimestamp := t\<rparr>) = voteToStep v" "voteToStep (v\<lparr>vSignature := sig\<rparr>) = voteToStep v"
  by (simp_all add: voteToStep_def)

text \<open>A vote that is returned carries the signature of exactly the bytes it has.\<close>

lemma signVote_out:
  assumes codec: "codecOk env pe" and st: "stateOk env pe (pvState pv)"
    and run: "signVote env pe pv chainID v = Inr (pv', v')"
  obtains s sb where "voteToStep v' = (Inr s :: pv_error fault + _)" and "VoteSignBytes env chainID v' = (Inr sb :: pv_error fault + _)"
    and "vHeight v' = vHeight v" and "vRound v' = vRound v" and "vType v' = vType v" and "vBlockID v' = vBlockID v"
    and "reSigned pv pv' (vHeight v', vRound v', s) sb (vSignature v') \<or>
      newSigned pe pv pv' (vHeight v', vRound v', s) sb (vSignature v') \<and> s \<noteq> stepPropose \<and> (\<exists>c. sb = marshalVote env c)"
proof -
  obtain s b sb where s: "voteToStep v = (Inr s :: pv_error fault + _)"
    and b: "CheckHRS (pvState pv) (vHeight v) (vRound v) s = Inr b"
    and sb: "VoteSignBytes env chainID v = (Inr sb :: pv_error fault + _)"
    using run by (auto simp: signVote_def bindR_Inr_iff)
  obtain c where c: "CanonicalizeVote chainID v = (Inr c :: pv_error fault + _)" "sb = marshalVote env c"
    using sb by (auto simp: VoteSignBytes_Inr)
  note hrs = CheckHRS_cases [OF b]
  have step: "s \<noteq> stepPropose" using s by (rule voteToStep_Inr)
  show ?thesis
  proof (cases b)
    case True
    then obtain last sig where ls: "lssSignBytes (pvState pv) = Some last" "lssSignature (pvState pv) = Some sig"
      "hrsOf (pvState pv) = (vHeight v, vRound v, s)" using hrs by auto
    have "lssStep (pvState pv) = s" using ls(3) by (simp add: hrsOf_def)
    then obtain c0 where c0: "last = marshalVote env c0" using st ls(1) step by (auto simp: stateOk_def)
    show ?thesis
    proof (cases "sb = last")
      case eq: True
      then have "pv' = pv" "v' = v\<lparr>vSignature := sig\<rparr>" using run s b sb True ls by (auto simp: signVote_def)
      then show ?thesis
        using that [of s sb] s c CanonicalizeVote_time(2) [OF c(1)] ls eq by (simp add: VoteSignBytes_Inr reSigned_def)
    next
      case False
      then have v': "pv' = pv" "v' = v\<lparr>vTimestamp := cvTimestamp c0, vSignature := sig\<rparr>"
        and same: "c\<lparr>cvTimestamp := 0\<rparr> = c0\<lparr>cvTimestamp := 0\<rparr>"
        using run s b sb True ls codec c(2) c0
        by (auto simp: signVote_def checkVotesOnlyDifferByTimestamp_def codecOk_def split: if_splits)
      from same have "c\<lparr>cvTimestamp := cvTimestamp c0\<rparr> = c0" by (cases c, cases c0) simp
      then have "VoteSignBytes env chainID v' = (Inr last :: pv_error fault + _)"
        using CanonicalizeVote_time(1) [OF c(1), where t = "cvTimestamp c0" and sig = sig] v'(2) c0 by (simp add: VoteSignBytes_Inr)
      then show ?thesis using that [of s last] s v' ls by (simp add: reSigned_def)
    qed
  next
    case False
    then obtain sig where sig: "pvSign pe sb = Some sig" "saveSigned pv (vHeight v) (vRound v) s sb sig = (Inr pv' :: pv_error fault + _)"
      "v' = v\<lparr>vSignature := sig\<rparr>"
      using run s b sb by (auto simp: signVote_def bindR_Inr_iff split: option.splits)
    have "VoteSignBytes env chainID v' = (Inr sb :: pv_error fault + _)"
      using CanonicalizeVote_time(2) [OF c(1)] c(2) sig(3) by (simp add: VoteSignBytes_Inr)
    moreover have "newSigned pe pv pv' (vHeight v', vRound v', s) sb (vSignature v')"
      using sig saveSigned_Inr [OF sig(2)] hrs False by (simp add: newSigned_def)
    ultimately show ?thesis using that [of s sb] s sig(3) step c(2) by auto
  qed
qed

lemma signProposal_out:
  assumes codec: "codecOk env pe" and st: "stateOk env pe (pvState pv)"
    and run: "signProposal env pe pv chainID p = Inr (pv', p')"
  obtains sb where "ProposalSignBytes env chainID p' = (Inr sb :: pv_error fault + _)"
    and "prHeight p' = prHeight p" and "prRound p' = prRound p" and "prBlockID p' = prBlockID p"
    and "reSigned pv pv' (prHeight p', prRound p', stepPropose) sb (prSignature p') \<or>
      newSigned pe pv pv' (prHeight p', prRound p', stepPropose) sb (prSignature p') \<and> (\<exists>c. sb = marshalProposal env c)"
proof -
  obtain b sb where b: "CheckHRS (pvState pv) (prHeight p) (prRound p) stepPropose = Inr b"
    and sb: "ProposalSignBytes env chainID p = (Inr sb :: pv_error fault + _)"
    using run by (auto simp: signProposal_def bindR_Inr_iff)
  obtain c where c: "CanonicalizeProposal chainID p = (Inr c :: pv_error fault + _)" "sb = marshalProposal env c"
    using sb by (auto simp: ProposalSignBytes_Inr)
  note hrs = CheckHRS_cases [OF b]
  show ?thesis
  proof (cases b)
    case True
    then obtain last sig where ls: "lssSignBytes (pvState pv) = Some last" "lssSignature (pvState pv) = Some sig"
      "hrsOf (pvState pv) = (prHeight p, prRound p, stepPropose)" using hrs by auto
    have "lssStep (pvState pv) = stepPropose" using ls(3) by (simp add: hrsOf_def)
    then obtain c0 where c0: "last = marshalProposal env c0" using st ls(1) by (auto simp: stateOk_def)
    show ?thesis
    proof (cases "sb = last")
      case eq: True
      then have "pv' = pv" "p' = p\<lparr>prSignature := sig\<rparr>" using run b sb True ls by (auto simp: signProposal_def)
      then show ?thesis
        using that [of sb] c CanonicalizeProposal_time(2) [OF c(1)] ls eq by (simp add: ProposalSignBytes_Inr reSigned_def)
    next
      case False
      then have p': "pv' = pv" "p' = p\<lparr>prTimestamp := cpTimestamp c0, prSignature := sig\<rparr>"
        and same: "c\<lparr>cpTimestamp := 0\<rparr> = c0\<lparr>cpTimestamp := 0\<rparr>"
        using run b sb True ls codec c(2) c0
        by (auto simp: signProposal_def checkProposalsOnlyDifferByTimestamp_def codecOk_def split: if_splits)
      from same have "c\<lparr>cpTimestamp := cpTimestamp c0\<rparr> = c0" by (cases c, cases c0) simp
      then have "ProposalSignBytes env chainID p' = (Inr last :: pv_error fault + _)"
        using CanonicalizeProposal_time(1) [OF c(1), where t = "cpTimestamp c0" and sig = sig] p'(2) c0
        by (simp add: ProposalSignBytes_Inr)
      then show ?thesis using that [of last] p' ls by (simp add: reSigned_def)
    qed
  next
    case False
    then obtain sig where sig: "pvSign pe sb = Some sig" "saveSigned pv (prHeight p) (prRound p) stepPropose sb sig = (Inr pv' :: pv_error fault + _)"
      "p' = p\<lparr>prSignature := sig\<rparr>"
      using run b sb by (auto simp: signProposal_def bindR_Inr_iff split: option.splits)
    have "ProposalSignBytes env chainID p' = (Inr sb :: pv_error fault + _)"
      using CanonicalizeProposal_time(2) [OF c(1)] c(2) sig(3) by (simp add: ProposalSignBytes_Inr)
    moreover have "newSigned pe pv pv' (prHeight p', prRound p', stepPropose) sb (prSignature p')"
      using sig saveSigned_Inr [OF sig(2)] hrs False by (simp add: newSigned_def)
    ultimately show ?thesis using that [of sb] sig(3) c(2) by auto
  qed
qed

lemma signVote_inv:
  assumes "codecOk env pe" and "pv_inv env pe pv hist" and "signVote env pe pv chainID v = Inr (pv', v')"
  obtains s sb where "voteToStep v' = (Inr s :: pv_error fault + _)" and "VoteSignBytes env chainID v' = (Inr sb :: pv_error fault + _)"
    and "pv_inv env pe pv' (((vHeight v', vRound v', s), sb, vSignature v') # hist)" and "pv_inv env pe pv' hist"
proof -
  have st: "stateOk env pe (pvState pv)" using assms(2) unfolding pv_inv_def by blast
  obtain s sb where o: "voteToStep v' = (Inr s :: pv_error fault + _)" "VoteSignBytes env chainID v' = (Inr sb :: pv_error fault + _)"
    "reSigned pv pv' (vHeight v', vRound v', s) sb (vSignature v') \<or>
      newSigned pe pv pv' (vHeight v', vRound v', s) sb (vSignature v') \<and> s \<noteq> stepPropose \<and> (\<exists>c. sb = marshalVote env c)"
    using assms(1) st assms(3) by (rule signVote_out)
  have "pv_inv env pe pv' hist \<and> pv_inv env pe pv' (((vHeight v', vRound v', s), sb, vSignature v') # hist)"
    using assms(2) by (rule signed_inv) (use o(3) in auto)
  with o(1,2) show ?thesis using that by blast
qed

lemma signProposal_inv:
  assumes "codecOk env pe" and "pv_inv env pe pv hist" and "signProposal env pe pv chainID p = Inr (pv', p')"
  obtains sb where "ProposalSignBytes env chainID p' = (Inr sb :: pv_error fault + _)"
    and "pv_inv env pe pv' (((prHeight p', prRound p', stepPropose), sb, prSignature p') # hist)" and "pv_inv env pe pv' hist"
proof -
  have st: "stateOk env pe (pvState pv)" using assms(2) unfolding pv_inv_def by blast
  obtain sb where o: "ProposalSignBytes env chainID p' = (Inr sb :: pv_error fault + _)"
    "reSigned pv pv' (prHeight p', prRound p', stepPropose) sb (prSignature p') \<or>
      newSigned pe pv pv' (prHeight p', prRound p', stepPropose) sb (prSignature p') \<and> (\<exists>c. sb = marshalProposal env c)"
    using assms(1) st assms(3) by (rule signProposal_out)
  have "pv_inv env pe pv' hist \<and> pv_inv env pe pv' (((prHeight p', prRound p', stepPropose), sb, prSignature p') # hist)"
    using assms(2) by (rule signed_inv) (use o(2) in auto)
  with o(1) show ?thesis using that by blast
qed

lemma pv_reach_inv:
  assumes "codecOk env pe"
  shows "pv_reach env pe pv hist \<Longrightarrow> pv_inv env pe pv hist"
proof (induction rule: pv_reach.induct)
  case (init path disk pv)
  then show ?case
    by (auto simp: LSS_Save_def NewFilePV_def emptySignState_def pv_inv_def stateOk_def split: if_splits)
next
  case (signedVote pv hist chainID v pv' v' sb step)
  then show ?case using signVote_inv [OF assms signedVote.IH signedVote.hyps(2)] by (metis Inr_inject)
next
  case (signedProposal pv hist chainID p pv' p' sb)
  then show ?case using signProposal_inv [OF assms signedProposal.IH signedProposal.hyps(2)] by (metis Inr_inject)
next
  case (crash pv hist)
  then show ?case using restart_id [OF crash.IH] by simp
next
  case (crashVote pv hist chainID v pv' v')
  have "pv_inv env pe pv' hist" using assms crashVote.IH crashVote.hyps(2) by (rule signVote_inv)
  then show ?case using restart_id by metis
next
  case (crashProposal pv hist chainID p pv' p')
  have "pv_inv env pe pv' hist" using assms crashProposal.IH crashProposal.hyps(2) by (rule signProposal_inv)
  then show ?case using restart_id by metis
qed

section \<open>Properties\<close>

definition pvEnv :: crypto_env where
  "pvEnv = \<lparr>pkAddress = (\<lambda>pk. pk), pkVerify = (\<lambda>pk sb sig. sig = rev sb), marshalVote = encVote,
     marshalProposal = encProposal\<rparr>"

definition pvKey :: pv_env where
  "pvKey = \<lparr>pvSign = (\<lambda>sb. Some (rev sb)), pvUnmarshalVote = (\<lambda>bs. Some (fst (decVote bs))),
     pvUnmarshalProposal = (\<lambda>bs. Some (fst (decProposal bs)))\<rparr>"

lemma pvEnv_codecOk: "codecOk pvEnv pvKey"
  by (simp add: codecOk_def pvEnv_def pvKey_def dec_enc_end [OF codec_vote] dec_enc_end [OF codec_proposal])

lemma CanonicalizeBlockID_inj:
  assumes "CanonicalizeBlockID a = (Inr x :: pv_error fault + _)" and "CanonicalizeBlockID b = (Inr x :: pv_error fault + _)"
  shows "a = b"
proof -
  have from_proto: "rb = c" if "BlockIDFromProto (Some c) = Inr rb" for c rb
    using that by (auto simp: BlockIDFromProto_def bindR_Inr_iff)
  have "(if BlockID_IsZero c then x = None else x = Some c)" if "CanonicalizeBlockID c = (Inr x :: pv_error fault + _)" for c
    using that by (auto simp: CanonicalizeBlockID_def dest: from_proto split: sum.splits if_splits)
  from this [OF assms(1)] this [OF assms(2)] show ?thesis by (auto simp: BlockID_IsZero_iff split: if_splits)
qed

lemma same_sign_bytes:
  assumes codec: "codecOk env pe"
    and v: "VoteSignBytes env c1 v1 = (Inr sb :: pv_error fault + _)" "VoteSignBytes env c2 v2 = (Inr sb :: pv_error fault + _)"
  shows "vBlockID v1 = vBlockID v2" and "vType v1 = vType v2" and "c1 = c2"
    and "vHeight v1 = vHeight v2" and "vRound v1 = vRound v2" and "vTimestamp v1 = vTimestamp v2"
proof -
  obtain x1 x2 where x: "CanonicalizeVote c1 v1 = (Inr x1 :: pv_error fault + _)" "sb = marshalVote env x1"
    "CanonicalizeVote c2 v2 = (Inr x2 :: pv_error fault + _)" "sb = marshalVote env x2"
    using v by (auto simp: VoteSignBytes_Inr)
  have "Some x1 = Some x2" using codec x(2,4) by (metis codecOk_def)
  then have "x1 = x2" by simp
  moreover obtain b1 b2 where b: "CanonicalizeBlockID (vBlockID v1) = (Inr b1 :: pv_error fault + _)" "cvBlockID x1 = b1"
    "CanonicalizeBlockID (vBlockID v2) = (Inr b2 :: pv_error fault + _)" "cvBlockID x2 = b2"
    using x(1,3) by (auto simp: CanonicalizeVote_def bindR_Inr_iff)
  ultimately show "vBlockID v1 = vBlockID v2" using CanonicalizeBlockID_inj by metis
  show "vType v1 = vType v2" "c1 = c2" "vHeight v1 = vHeight v2" "vRound v1 = vRound v2" "vTimestamp v1 = vTimestamp v2"
    using x(1,3) \<open>x1 = x2\<close> by (auto simp: CanonicalizeVote_def bindR_Inr_iff)
qed

lemma pv_inv_unique:
  assumes "pv_inv env pe pv hist" and "(hrs, sb1, sig1) \<in> set hist" and "(hrs, sb2, sig2) \<in> set hist"
  shows "sb1 = sb2" and "sig1 = sig2"
proof -
  show "sb1 = sb2" using assms unfolding pv_inv_def by fastforce
  have "recOk pe (pvState pv) (hrs, sb1, sig1)" "recOk pe (pvState pv) (hrs, sb2, sig2)"
    using assms unfolding pv_inv_def by blast+
  then show "sig1 = sig2" using \<open>sb1 = sb2\<close> by (simp add: recOk_def)
qed

text \<open>A sample run: a nil prevote is signed, the process restarts, and the vote is asked for again
  with a later timestamp.\<close>

definition samplePV :: FilePV where
  "samplePV = \<lparr>pvState = emptySignState ''f'', pvDisk = emptySignState ''f''\<rparr>"

definition pvVote :: "time \<Rightarrow> vote" where
  "pvVote t = \<lparr>vType = PrevoteType, vHeight = 1, vRound = 0, vBlockID = emptyBlockID, vTimestamp = t,
     vAddress = [], vIndex = 0, vSignature = []\<rparr>"

definition sampleSigned :: "FilePV \<times> vote" where
  "sampleSigned = (case signVote pvEnv pvKey samplePV ''c'' (pvVote 1) of Inr x \<Rightarrow> x | Inl _ \<Rightarrow> (samplePV, pvVote 0))"

lemma sample_signs:
  "signVote pvEnv pvKey samplePV ''c'' (pvVote 1) = Inr sampleSigned"
  "signVote pvEnv pvKey (restart (fst sampleSigned)) ''c'' (pvVote 2) = Inr sampleSigned"
  by code_simp+

lemma sample_pv_reach:
  "pv_reach pvEnv pvKey (fst sampleSigned)
     [((1, 0, stepPrevote), rev (vSignature (snd sampleSigned)), vSignature (snd sampleSigned)),
      ((1, 0, stepPrevote), rev (vSignature (snd sampleSigned)), vSignature (snd sampleSigned))]"
proof -
  let ?v = "snd sampleSigned"
  have facts: "VoteSignBytes pvEnv ''c'' ?v = (Inr (rev (vSignature ?v)) :: pv_error fault + _)"
    "voteToStep ?v = (Inr stepPrevote :: pv_error fault + _)" "vHeight ?v = 1" "vRound ?v = 0"
    by code_simp+
  have "pv_reach pvEnv pvKey samplePV []"
    by (rule pv_reach.init [of "''f''" "emptySignState ''f''"])
      (simp add: LSS_Save_def NewFilePV_def samplePV_def emptySignState_def)
  from pv_reach.signedVote [OF this _ facts(1,2)] have
    "pv_reach pvEnv pvKey (fst sampleSigned) [((1, 0, stepPrevote), rev (vSignature ?v), vSignature ?v)]"
    using sample_signs(1) facts(3,4) by (metis prod.collapse)
  from pv_reach.signedVote [OF pv_reach.crash [OF this] _ facts(1,2)] show ?thesis
    using sample_signs(2) facts(3,4) by (metis prod.collapse)
qed

text \<open>C2: A signer never releases two different messages for one height, round and step, whatever the
  requests, refusals and crashes of its run, given that decoding inverts encoding: both releases have
  the same sign bytes and the same signature, and two votes that have those bytes agree in block,
  type, timestamp and chain.\<close>

theorem no_double_sign:
  assumes "codecOk env pe" and "pv_reach env pe pv hist"
    and "(hrs, sb1, sig1) \<in> set hist" and "(hrs, sb2, sig2) \<in> set hist"
  shows "sb1 = sb2 \<and> sig1 = sig2 \<and>
    (\<forall>c1 v1 c2 v2. VoteSignBytes env c1 v1 = (Inr sb1 :: pv_error fault + _) \<and> VoteSignBytes env c2 v2 = (Inr sb2 :: pv_error fault + _) \<longrightarrow>
       vBlockID v1 = vBlockID v2 \<and> vType v1 = vType v2 \<and> vTimestamp v1 = vTimestamp v2 \<and> c1 = c2)"
proof -
  have inv: "pv_inv env pe pv hist" using assms(1,2) by (rule pv_reach_inv)
  have eq: "sb1 = sb2" "sig1 = sig2" using pv_inv_unique [OF inv assms(3,4)] by blast+
  show ?thesis
  proof (intro conjI allI impI eq)
    fix c1 c2 v1 v2
    assume "VoteSignBytes env c1 v1 = (Inr sb1 :: pv_error fault + _) \<and> VoteSignBytes env c2 v2 = (Inr sb2 :: pv_error fault + _)"
    then have v: "VoteSignBytes env c1 v1 = (Inr sb1 :: pv_error fault + _)" "VoteSignBytes env c2 v2 = (Inr sb1 :: pv_error fault + _)"
      using eq(1) by simp_all
    show "vBlockID v1 = vBlockID v2" "vType v1 = vType v2" "vTimestamp v1 = vTimestamp v2" "c1 = c2"
      using same_sign_bytes [OF assms(1) v] by blast+
  qed
qed

theorem no_double_sign_witness:
  "pv_reach pvEnv pvKey (fst sampleSigned)
     [((1, 0, stepPrevote), rev (vSignature (snd sampleSigned)), vSignature (snd sampleSigned)),
      ((1, 0, stepPrevote), rev (vSignature (snd sampleSigned)), vSignature (snd sampleSigned))] \<and>
   vTimestamp (snd sampleSigned) = vTimestamp (pvVote 1)"
proof -
  let ?sb = "rev (vSignature (snd sampleSigned))" and ?sig = "vSignature (snd sampleSigned)"
  have "VoteSignBytes pvEnv ''c'' (snd sampleSigned) = (Inr ?sb :: pv_error fault + _)"
    "VoteSignBytes pvEnv ''c'' (pvVote 1) = (Inr ?sb :: pv_error fault + _)"
    by code_simp+
  with no_double_sign [OF pvEnv_codecOk sample_pv_reach, of "(1, 0, stepPrevote)" ?sb ?sig ?sb ?sig]
  show ?thesis using sample_pv_reach by (metis list.set_intros(1))
qed

lemma signVote_frame:
  "signVote env pe pv chainID v = Inr (pv', v') \<Longrightarrow> v' = v\<lparr>vTimestamp := vTimestamp v', vSignature := vSignature v'\<rparr>"
  by (auto simp: signVote_def bindR_Inr_iff Let_def split: if_splits option.splits)

lemma voteToStep_time: "voteToStep (v\<lparr>vTimestamp := t, vSignature := sig\<rparr>) = voteToStep v"
  by simp

text \<open>What a signing request leaves behind: the state holds the returned vote.\<close>

lemma signVote_remembers:
  assumes "codecOk env pe" and "stateOk env pe (pvState pv)" and "signVote env pe pv chainID v = Inr (pv', v')"
  obtains s sb where "voteToStep v' = (Inr s :: pv_error fault + _)" and "VoteSignBytes env chainID v' = (Inr sb :: pv_error fault + _)"
    and "hrsOf (pvState pv') = (vHeight v', vRound v', s)"
    and "lssSignBytes (pvState pv') = Some sb" and "lssSignature (pvState pv') = Some (vSignature v')"
proof -
  obtain s sb where "voteToStep v' = (Inr s :: pv_error fault + _)" "VoteSignBytes env chainID v' = (Inr sb :: pv_error fault + _)"
    "reSigned pv pv' (vHeight v', vRound v', s) sb (vSignature v') \<or>
      newSigned pe pv pv' (vHeight v', vRound v', s) sb (vSignature v') \<and> s \<noteq> stepPropose \<and> (\<exists>c. sb = marshalVote env c)"
    using assms by (rule signVote_out)
  then show ?thesis using that by (auto simp: reSigned_def newSigned_def)
qed

lemma CheckHRS_same:
  "hrsOf lss = (h, r, s) \<Longrightarrow> lssSignBytes lss = Some sb \<Longrightarrow> lssSignature lss = Some sig \<Longrightarrow> CheckHRS lss h r s = Inr True"
  by (simp add: CheckHRS_def hrsOf_def)

text \<open>C29: A validator that crashed after saving and before its caller had the vote can carry on: asking
  again for the same vote with any timestamp succeeds, and returns the vote first signed, with its
  timestamp and signature.\<close>

theorem retry_after_crash:
  assumes codec: "codecOk env pe" and reach: "pv_reach env pe pv hist"
    and run: "signVote env pe pv chainID v = Inr (pv', v')"
  shows "signVote env pe (restart pv') chainID (v\<lparr>vTimestamp := t\<rparr>) = Inr (pv', v')"
proof -
  have inv: "pv_inv env pe pv hist" using codec reach by (rule pv_reach_inv)
  then have st: "stateOk env pe (pvState pv)" unfolding pv_inv_def by blast
  obtain s sb where o: "voteToStep v' = (Inr s :: pv_error fault + _)" "VoteSignBytes env chainID v' = (Inr sb :: pv_error fault + _)"
    "hrsOf (pvState pv') = (vHeight v', vRound v', s)"
    "lssSignBytes (pvState pv') = Some sb" "lssSignature (pvState pv') = Some (vSignature v')"
    using codec st run by (rule signVote_remembers)
  have id: "restart pv' = pv'" using codec inv run by (metis signVote_inv restart_id)
  obtain c where c: "CanonicalizeVote chainID v' = (Inr c :: pv_error fault + _)" "sb = marshalVote env c"
    using o(2) by (auto simp: VoteSignBytes_Inr)
  define w where "w = v\<lparr>vTimestamp := t\<rparr>"
  have v': "v' = v\<lparr>vTimestamp := vTimestamp v', vSignature := vSignature v'\<rparr>" using run by (rule signVote_frame)
  have w: "w = v'\<lparr>vTimestamp := t, vSignature := vSignature v\<rparr>" unfolding w_def by (subst v') simp
  have cw: "VoteSignBytes env chainID w = (Inr (marshalVote env (c\<lparr>cvTimestamp := t\<rparr>)) :: pv_error fault + _)"
    using CanonicalizeVote_time(1) [OF c(1)] w by (auto simp: VoteSignBytes_Inr)
  have step: "voteToStep w = (Inr s :: pv_error fault + _)" using o(1) w by simp
  have hrs: "CheckHRS (pvState pv') (vHeight w) (vRound w) s = Inr True"
    using CheckHRS_same [OF o(3-5)] w by simp
  have ts: "cvTimestamp c = vTimestamp v'" using c(1) by (auto simp: CanonicalizeVote_def bindR_Inr_iff)
  have ret: "w\<lparr>vTimestamp := vTimestamp v', vSignature := vSignature v'\<rparr> = v'" using w by simp
  show ?thesis
  proof (cases "marshalVote env (c\<lparr>cvTimestamp := t\<rparr>) = sb")
    case True
    then have "c\<lparr>cvTimestamp := t\<rparr> = c" using codec c(2) unfolding codecOk_def by (metis option.inject)
    then have "t = vTimestamp v'" using ts by (metis canonical_vote.select_convs(5) canonical_vote.surjective canonical_vote.update_convs(5))
    then have "w\<lparr>vSignature := vSignature v'\<rparr> = v'" using ret w by simp
    then show ?thesis using step hrs cw True o(4,5) unfolding w_def [symmetric] id by (simp add: signVote_def)
  next
    case False
    then show ?thesis
      using step hrs cw o(4,5) codec c(2) ts ret unfolding w_def [symmetric] id
      by (simp add: signVote_def checkVotesOnlyDifferByTimestamp_def codecOk_def)
  qed
qed

theorem retry_after_crash_witness:
  "signVote pvEnv pvKey (restart (fst sampleSigned)) ''c'' ((pvVote 2)\<lparr>vTimestamp := 3\<rparr>) = Inr sampleSigned"
proof -
  have "pv_reach pvEnv pvKey samplePV []"
    by (rule pv_reach.init [of "''f''" "emptySignState ''f''"])
      (simp add: LSS_Save_def NewFilePV_def samplePV_def emptySignState_def)
  moreover have "signVote pvEnv pvKey samplePV ''c'' (pvVote 1) = Inr (fst sampleSigned, snd sampleSigned)"
    using sample_signs(1) by simp
  ultimately have "signVote pvEnv pvKey (restart (fst sampleSigned)) ''c'' ((pvVote 1)\<lparr>vTimestamp := 3\<rparr>) = Inr sampleSigned"
    using retry_after_crash [OF pvEnv_codecOk] by fastforce
  then show ?thesis by (simp add: pvVote_def)
qed

end
