(* ===== verification/ConsensusState.thy ===== *)
theory ConsensusState
  imports HeightVoteSet PrivVal Execution
begin

text \<open>
  \<open>consensus/state.go\<close> and \<open>consensus/types/round_state.go\<close>: the consensus state machine of a node.
  Every handler of the receive routine runs to completion before the next message is taken, under one
  lock, so a handler is a function of the whole state \<open>cs_state\<close>; a panic stops the routine and is
  \<open>Inl\<close>. Deferred functions run after the body, as in the code.

  Composed from the other components: the votes of the height (\<open>HeightVoteSet\<close>), the signer
  (\<open>PrivVal\<close>), part sets, blocks and the executor (\<open>Execution\<close>). Parameters (\<open>cs_env\<close>): the configuration, the clock reading of the
  step, what the executor uses (\<open>exec_env\<close>), whether the
  write-ahead log can be flushed and whether the event bus accepts an event. Logging, metrics, the
  instrumentation of the replica client and the log of messages itself change no state of the machine.

  Conventions: messages to the node itself are appended to \<open>csInternal\<close>, timeouts to \<open>csTimeouts\<close>,
  conflicting votes to \<open>csEvidence\<close>. Blocks and part sets are values: the code shares them by pointer, and a
  part set that is shared (\<open>LockedBlockParts\<close>, \<open>ValidBlockParts\<close>) is only ever read for its header and
  its parts once complete. The cached totals and proposers of validator sets are written back only where
  the code assigns the set.
\<close>

section \<open>Data\<close>

definition RoundStepNewHeight :: int where "RoundStepNewHeight = 1"
definition RoundStepNewRound :: int where "RoundStepNewRound = 2"
definition RoundStepPropose :: int where "RoundStepPropose = 3"
definition RoundStepPrevote :: int where "RoundStepPrevote = 4"
definition RoundStepPrevoteWait :: int where "RoundStepPrevoteWait = 5"
definition RoundStepPrecommit :: int where "RoundStepPrecommit = 6"
definition RoundStepPrecommitWait :: int where "RoundStepPrecommitWait = 7"
definition RoundStepCommit :: int where "RoundStepCommit = 8"

named_theorems round_steps \<open>the numbers of the round steps\<close>

declare RoundStepNewHeight_def [round_steps] RoundStepNewRound_def [round_steps] RoundStepPropose_def [round_steps]
  RoundStepPrevote_def [round_steps] RoundStepPrevoteWait_def [round_steps] RoundStepPrecommit_def [round_steps]
  RoundStepPrecommitWait_def [round_steps] RoundStepCommit_def [round_steps]

datatype message = ProposalMessage proposal | BlockPartMessage int int part | VoteMessage vote

type_synonym msgInfo = "message \<times> string"

record timeoutInfo =
  tiDuration :: int
  tiHeight :: int
  tiRound :: int
  tiStep :: int

record block_store =
  bsBase :: int
  bsHeight :: int
  bsBlocks :: "int \<rightharpoonup> block \<times> commit"

record cs_state =
  rsHeight :: int
  rsRound :: int
  rsStep :: int
  rsStartTime :: time
  rsCommitTime :: time
  rsValidators :: validator_set
  rsProposal :: "proposal option"
  rsProposalBlock :: "block option"
  rsProposalBlockParts :: "part_set option"
  rsLockedRound :: int
  rsLockedBlock :: "block option"
  rsLockedBlockParts :: "part_set option"
  rsValidRound :: int
  rsValidBlock :: "block option"
  rsValidBlockParts :: "part_set option"
  rsVotes :: height_vote_set
  rsCommitRound :: int
  rsLastCommit :: "vote_set option"
  rsLastValidators :: validator_set
  rsTriggeredTimeoutPrecommit :: bool
  csState :: chain_state
  csPV :: "FilePV option"
  csPubKey :: "bytes option"
  csStore :: block_store
  csInternal :: "message list"
  csTimeouts :: "timeoutInfo list"
  csEvidence :: "(vote \<times> vote) list"
  csNSteps :: nat

datatype bus_event = EventVote | EventUnlock | EventValidBlock

record cs_env =
  ceCrypto :: crypto_env
  ceBlock :: block_env
  cePV :: pv_env
  cePubKey :: bytes
  ceSkipTimeoutCommit :: bool
  ceCreateEmptyBlocks :: bool
  ceEmptyBlocksInterval :: int
  ceTimeoutPropose :: "int \<Rightarrow> int"
  ceTimeoutPrevote :: "int \<Rightarrow> int"
  ceTimeoutPrecommit :: "int \<Rightarrow> int"
  ceTimeoutCommit :: int
  ceNow :: time
  ceFlushOk :: bool
  cePublishOk :: "bus_event \<Rightarrow> bool"
  ceExec :: exec_env

datatype cs_error =
    ErrInvalidProposalPOLRound | ErrInvalidProposalSignature | ErrAddingVote | ErrPubKeyIsNotSet
  | AddVoteErr hvs_error | PartErr part_error | BlockTooBig | UnmarshalErr | BlockErr "block_error" | PublishErr

type_synonym cs_run = "unit fault + cs_state"

section \<open>Small operations\<close>

definition updateRoundStep :: "int \<Rightarrow> int \<Rightarrow> cs_state \<Rightarrow> cs_state" where
  "updateRoundStep round step cs = cs\<lparr>rsRound := round, rsStep := step\<rparr>"

definition newStep :: "cs_state \<Rightarrow> cs_state" where
  "newStep cs = cs\<lparr>csNSteps := csNSteps cs + 1\<rparr>"

definition scheduleTimeout :: "int \<Rightarrow> int \<Rightarrow> int \<Rightarrow> int \<Rightarrow> cs_state \<Rightarrow> cs_state" where
  "scheduleTimeout duration height round step cs =
     cs\<lparr>csTimeouts := csTimeouts cs @ [\<lparr>tiDuration = duration, tiHeight = height, tiRound = round, tiStep = step\<rparr>]\<rparr>"

definition scheduleRound0 :: "cs_env \<Rightarrow> cs_state \<Rightarrow> cs_state" where
  "scheduleRound0 env cs = scheduleTimeout (rsStartTime cs - ceNow env) (rsHeight cs) 0 RoundStepNewHeight cs"

definition sendInternalMessage :: "message \<Rightarrow> cs_state \<Rightarrow> cs_state" where
  "sendInternalMessage m cs = cs\<lparr>csInternal := csInternal cs @ [m]\<rparr>"

definition needProofBlock :: "cs_state \<Rightarrow> int \<Rightarrow> unit fault + bool" where
  "needProofBlock cs height =
     (if height = stInitialHeight (csState cs) then Inr True
      else case bsBlocks (csStore cs) (height - 1) of
        None \<Rightarrow> Inl (Panic ''needProofBlock: last block meta not found'')
      | Some (b, _) \<Rightarrow> Inr (stAppHash (csState cs) \<noteq> hdAppHash (bkHeader b)))"

definition twoThirdsAny :: "vote_set option \<Rightarrow> unit fault + bool" where
  "twoThirdsAny vs = bindR (HasTwoThirdsAny vs) (\<lambda>(_, b). Inr b)"

definition isProposalComplete :: "cs_state \<Rightarrow> unit fault + bool" where
  "isProposalComplete cs =
     (case (rsProposal cs, rsProposalBlock cs) of
        (Some p, Some _) \<Rightarrow>
          if prPOLRound p < 0 then Inr True
          else bindR (HVS_Prevotes (rsVotes cs) (prPOLRound p)) (\<lambda>vs. Inr (HasTwoThirdsMajority vs))
      | _ \<Rightarrow> Inr False)"

text \<open>\<open>blockExec.ValidateBlock(cs.state, block) != nil\<close>\<close>

definition blockInvalid :: "cs_env \<Rightarrow> cs_state \<Rightarrow> block \<Rightarrow> unit fault + bool" where
  "blockInvalid env cs b =
     (case ValidateBlock (ceCrypto env) (ceBlock env) (ceExec env) (csState cs) b of
        Inl (Panic p) \<Rightarrow> Inl (Panic p) | Inl (Err _) \<Rightarrow> Inr True | Inr _ \<Rightarrow> Inr False)"

section \<open>Signing\<close>

definition voteTime :: "cs_env \<Rightarrow> cs_state \<Rightarrow> time" where
  "voteTime env cs =
     (let now = ceNow env;
          minVoteTime = (case rsLockedBlock cs of
                           Some b \<Rightarrow> hdTime (bkHeader b) + 1000000
                         | None \<Rightarrow> (case rsProposalBlock cs of Some b \<Rightarrow> hdTime (bkHeader b) + 1000000 | None \<Rightarrow> now))
      in if now > minVoteTime then now else minVoteTime)"

text \<open>The signer may change the timestamp of the protobuf copy \<open>v\<close>; only its signature is copied back.
  The result is the vote, or nothing when an error was returned.\<close>

definition cs_signVote ::
  "cs_env \<Rightarrow> cs_state \<Rightarrow> SignedMsgType \<Rightarrow> bytes \<Rightarrow> part_set_header \<Rightarrow> unit fault + (cs_state \<times> vote option)"
where
  "cs_signVote env cs msgType hash header =
     (if \<not> ceFlushOk env then Inr (cs, None)
      else case (csPubKey cs, csPV cs) of
        (None, _) \<Rightarrow> Inr (cs, None)
      | (_, None) \<Rightarrow> Inl (Panic ''nil pointer dereference'')
      | (Some pk, Some pv) \<Rightarrow>
          let addr = pkAddress (ceCrypto env) pk;
              (valIdx, _) = GetByAddress (rsValidators cs) addr;
              vote = \<lparr>vType = msgType, vHeight = rsHeight cs, vRound = rsRound cs,
                      vBlockID = \<lparr>bidHash = hash, bidParts = header\<rparr>, vTimestamp = voteTime env cs,
                      vAddress = addr, vIndex = valIdx, vSignature = []\<rparr>
          in (case signVote (ceCrypto env) (cePV env) pv (stChainID (csState cs)) vote of
                Inl (Panic p) \<Rightarrow> Inl (Panic p)
              | Inl (Err _) \<Rightarrow> Inr (cs, None)
              | Inr (pv', v) \<Rightarrow> Inr (cs\<lparr>csPV := Some pv'\<rparr>, Some (vote\<lparr>vSignature := vSignature v\<rparr>))))"

definition signAddVote :: "cs_env \<Rightarrow> SignedMsgType \<Rightarrow> bytes \<Rightarrow> part_set_header \<Rightarrow> cs_state \<Rightarrow> cs_run" where
  "signAddVote env msgType hash header cs =
     (case (csPV cs, csPubKey cs) of
        (Some _, Some pk) \<Rightarrow>
          if \<not> HasAddress (rsValidators cs) (pkAddress (ceCrypto env) pk) then Inr cs
          else bindR (cs_signVote env cs msgType hash header) (\<lambda>(cs', vote).
                 case vote of None \<Rightarrow> Inr cs' | Some v \<Rightarrow> Inr (sendInternalMessage (VoteMessage v) cs'))
      | _ \<Rightarrow> Inr cs)"

section \<open>Proposing\<close>

definition createProposalBlock :: "cs_env \<Rightarrow> cs_state \<Rightarrow> unit fault + (block \<times> part_set) option" where
  "createProposalBlock env cs =
     (if csPV cs = None then Inl (Panic ''entered createProposalBlock with privValidator being nil'')
      else
        let create = (\<lambda>commit. case csPubKey cs of
                        None \<Rightarrow> Inr None
                      | Some pk \<Rightarrow> bindR (CreateProposalBlock (ceBlock env) (ceExec env) (rsHeight cs) (csState cs) commit
                                       (pkAddress (ceCrypto env) pk)) (\<lambda>r. Inr (Some r)))
        in if rsHeight cs = stInitialHeight (csState cs) then create (NewCommit 0 0 emptyBlockID [])
           else case rsLastCommit cs of
             None \<Rightarrow> Inr None
           | Some lc \<Rightarrow> if HasTwoThirdsMajority (Some lc) then bindR (MakeCommit lc) create else Inr None)"

text \<open>Sending the parts. (A part that is nil would be sent as such and panic when it is handled; the
  parts of a complete set are not nil.)\<close>

fun sendParts :: "part_set \<Rightarrow> nat list \<Rightarrow> cs_state \<Rightarrow> cs_run" where
  "sendParts ps [] cs = Inr cs"
| "sendParts ps (i # rest) cs =
     bindR (GetPart ps (int i)) (\<lambda>p.
       case p of None \<Rightarrow> Inl (Panic ''nil pointer dereference'')
       | Some q \<Rightarrow> sendParts ps rest (sendInternalMessage (BlockPartMessage (rsHeight cs) (rsRound cs) q) cs))"

definition signAndSend :: "cs_env \<Rightarrow> int \<Rightarrow> int \<Rightarrow> block \<Rightarrow> part_set \<Rightarrow> cs_state \<Rightarrow> cs_run" where
  "signAndSend env height round b ps cs =
     (case csPV cs of
        None \<Rightarrow> Inl (Panic ''nil pointer dereference'')
      | Some pv \<Rightarrow>
          let propBlockID = \<lparr>bidHash = Block_Hash (ceBlock env) (Some b), bidParts = PS_Header (Some ps)\<rparr>;
              proposal = NewProposal (ceNow env) height round (rsValidRound cs) propBlockID
          in (case signProposal (ceCrypto env) (cePV env) pv (stChainID (csState cs)) proposal of
                Inl (Panic p) \<Rightarrow> Inl (Panic p)
              | Inl (Err _) \<Rightarrow> Inr cs
              | Inr (pv', p) \<Rightarrow>
                  sendParts ps [0..<unat (PS_Total (Some ps))]
                    (sendInternalMessage (ProposalMessage (proposal\<lparr>prSignature := prSignature p\<rparr>)) (cs\<lparr>csPV := Some pv'\<rparr>))))"

definition defaultDecideProposal :: "cs_env \<Rightarrow> int \<Rightarrow> int \<Rightarrow> cs_state \<Rightarrow> cs_run" where
  "defaultDecideProposal env height round cs =
     bindR (case rsValidBlock cs of
              Some b \<Rightarrow> (case rsValidBlockParts cs of
                          None \<Rightarrow> Inl (Panic ''nil pointer dereference'')
                        | Some ps \<Rightarrow> Inr (Some (b, ps)))
            | None \<Rightarrow> createProposalBlock env cs) (\<lambda>choice.
       case choice of None \<Rightarrow> Inr cs | Some (b, ps) \<Rightarrow> signAndSend env height round b ps cs)"

section \<open>Entering steps\<close>

definition staleStep :: "cs_state \<Rightarrow> int \<Rightarrow> int \<Rightarrow> int \<Rightarrow> bool" where
  "staleStep cs height round step \<longleftrightarrow>
     rsHeight cs \<noteq> height \<or> round < rsRound cs \<or> (rsRound cs = round \<and> step \<le> rsStep cs)"

definition nilHeader :: part_set_header where
  "nilHeader = \<lparr>pshTotal = 0, pshHash = []\<rparr>"

definition defaultDoPrevote :: "cs_env \<Rightarrow> cs_state \<Rightarrow> cs_run" where
  "defaultDoPrevote env cs =
     (case rsLockedBlock cs of
        Some b \<Rightarrow> signAddVote env PrevoteType (Block_Hash (ceBlock env) (Some b)) (PS_Header (rsLockedBlockParts cs)) cs
      | None \<Rightarrow>
          (case rsProposalBlock cs of
             None \<Rightarrow> signAddVote env PrevoteType [] nilHeader cs
           | Some b \<Rightarrow>
               bindR (blockInvalid env cs b) (\<lambda>invalid.
                 if invalid then signAddVote env PrevoteType [] nilHeader cs
                 else signAddVote env PrevoteType (Block_Hash (ceBlock env) (Some b)) (PS_Header (rsProposalBlockParts cs)) cs)))"

definition enterPrevote :: "cs_env \<Rightarrow> int \<Rightarrow> int \<Rightarrow> cs_state \<Rightarrow> cs_run" where
  "enterPrevote env height round cs =
     (if staleStep cs height round RoundStepPrevote then Inr cs
      else bindR (defaultDoPrevote env cs) (\<lambda>cs'. Inr (newStep (updateRoundStep round RoundStepPrevote cs'))))"

definition isProposer :: "cs_state \<Rightarrow> bytes \<Rightarrow> unit fault + (cs_state \<times> bool)" where
  "isProposer cs address =
     bindR (GetProposer (rsValidators cs)) (\<lambda>(vals, p).
       case p of None \<Rightarrow> Inl (Panic ''nil pointer dereference'')
       | Some v \<Rightarrow> Inr (cs\<lparr>rsValidators := vals\<rparr>, Address v = address))"

definition enterPropose :: "cs_env \<Rightarrow> int \<Rightarrow> int \<Rightarrow> cs_state \<Rightarrow> cs_run" where
  "enterPropose env height round cs =
     (if staleStep cs height round RoundStepPropose then Inr cs
      else
        let cs1 = scheduleTimeout (ceTimeoutPropose env round) height round RoundStepPropose cs in
        bindR (case (csPV cs1, csPubKey cs1) of
                 (Some _, Some pk) \<Rightarrow>
                   if \<not> HasAddress (rsValidators cs1) (pkAddress (ceCrypto env) pk) then Inr cs1
                   else bindR (isProposer cs1 (pkAddress (ceCrypto env) pk)) (\<lambda>(cs2, yes).
                          if yes then defaultDecideProposal env height round cs2 else Inr cs2)
               | _ \<Rightarrow> Inr cs1) (\<lambda>cs3.
        let cs4 = newStep (updateRoundStep round RoundStepPropose cs3) in
        bindR (isProposalComplete cs4) (\<lambda>complete.
          if complete then enterPrevote env height (rsRound cs4) cs4 else Inr cs4)))"

definition WaitForTxs :: "cs_env \<Rightarrow> bool" where
  "WaitForTxs env \<longleftrightarrow> \<not> ceCreateEmptyBlocks env \<or> ceEmptyBlocksInterval env > 0"

text \<open>The state in which a round starts: a new round, unlike round 0, forgets the proposal.\<close>

definition startRound :: "int \<Rightarrow> validator_set \<Rightarrow> height_vote_set \<Rightarrow> cs_state \<Rightarrow> cs_state" where
  "startRound round validators votes cs =
     (let cs1 = (updateRoundStep round RoundStepNewRound cs)\<lparr>rsValidators := validators\<rparr>;
          cs2 = (if round = 0 then cs1
                 else cs1\<lparr>rsProposal := None, rsProposalBlock := None, rsProposalBlockParts := None\<rparr>) in
      cs2\<lparr>rsVotes := votes, rsTriggeredTimeoutPrecommit := False\<rparr>)"

definition enterNewRound :: "cs_env \<Rightarrow> int \<Rightarrow> int \<Rightarrow> cs_state \<Rightarrow> cs_run" where
  "enterNewRound env height round cs =
     (if rsHeight cs \<noteq> height \<or> round < rsRound cs \<or> (rsRound cs = round \<and> rsStep cs \<noteq> RoundStepNewHeight) then Inr cs
      else
        bindR (if rsRound cs < round
               then bindR (SafeSubInt32 round (rsRound cs)) (IncrementProposerPriority (rsValidators cs))
               else Inr (rsValidators cs)) (\<lambda>validators.
        bindR (SafeAddInt32 round 1) (\<lambda>next.
        bindR (SetRound (rsVotes cs) next) (\<lambda>votes.
        let cs3 = startRound round validators votes cs in
        bindR (if WaitForTxs env \<and> round = 0 then bindR (needProofBlock cs3 height) (\<lambda>b. Inr (\<not> b)) else Inr False) (\<lambda>waitForTxs.
          if waitForTxs then
            Inr (if ceEmptyBlocksInterval env > 0
                 then scheduleTimeout (ceEmptyBlocksInterval env) height round RoundStepNewRound cs3 else cs3)
          else enterPropose env height round cs3)))))"

definition enterPrevoteWait :: "cs_env \<Rightarrow> int \<Rightarrow> int \<Rightarrow> cs_state \<Rightarrow> cs_run" where
  "enterPrevoteWait env height round cs =
     (if staleStep cs height round RoundStepPrevoteWait then Inr cs
      else bindR (HVS_Prevotes (rsVotes cs) round) (\<lambda>vs. bindR (twoThirdsAny vs) (\<lambda>any.
        if \<not> any then Inl (Panic ''entering prevote wait step, but prevotes does not have any +2/3 votes'')
        else Inr (newStep (updateRoundStep round RoundStepPrevoteWait
                    (scheduleTimeout (ceTimeoutPrevote env round) height round RoundStepPrevoteWait cs))))))"

definition unlock :: "cs_state \<Rightarrow> cs_state" where
  "unlock cs = cs\<lparr>rsLockedRound := -1, rsLockedBlock := None, rsLockedBlockParts := None\<rparr>"

text \<open>The parts of a block that is not the proposal are awaited.\<close>

definition awaitBlock :: "block_id \<Rightarrow> cs_state \<Rightarrow> cs_state" where
  "awaitBlock blockID cs =
     (if \<not> HasHeader (rsProposalBlockParts cs) (bidParts blockID)
      then cs\<lparr>rsProposalBlock := None, rsProposalBlockParts := Some (NewPartSetFromHeader (bidParts blockID))\<rparr>
      else cs)"

text \<open>\<open>enterPrecommit\<close> for a round with a polka, after the check of the round of the polka.\<close>

definition precommitPolka :: "cs_env \<Rightarrow> int \<Rightarrow> block_id \<Rightarrow> cs_state \<Rightarrow> cs_run" where
  "precommitPolka env round blockID cs =
     (if length (bidHash blockID) = 0 then
        signAddVote env PrecommitType [] nilHeader (if rsLockedBlock cs = None then cs else unlock cs)
      else if Block_HashesTo (ceBlock env) (rsLockedBlock cs) (bidHash blockID) then
        signAddVote env PrecommitType (bidHash blockID) (bidParts blockID) (cs\<lparr>rsLockedRound := round\<rparr>)
      else if Block_HashesTo (ceBlock env) (rsProposalBlock cs) (bidHash blockID) then
        bindR (blockInvalid env cs (the (rsProposalBlock cs))) (\<lambda>invalid.
          if invalid then Inl (Panic ''precommit step; +2/3 prevoted for an invalid block'')
          else signAddVote env PrecommitType (bidHash blockID) (bidParts blockID)
                 (cs\<lparr>rsLockedRound := round, rsLockedBlock := rsProposalBlock cs, rsLockedBlockParts := rsProposalBlockParts cs\<rparr>))
      else signAddVote env PrecommitType [] nilHeader (awaitBlock blockID (unlock cs)))"

text \<open>\<open>enterPrecommit\<close> after the check of its arguments and before its deferred function.\<close>

definition doPrecommit :: "cs_env \<Rightarrow> int \<Rightarrow> cs_state \<Rightarrow> cs_run" where
  "doPrecommit env round cs =
     bindR (HVS_Prevotes (rsVotes cs) round) (\<lambda>vs.
     let (blockID, ok) = TwoThirdsMajority vs in
     if \<not> ok then signAddVote env PrecommitType [] nilHeader cs
     else bindR (POLInfo (rsVotes cs)) (\<lambda>(polRound, _).
       if polRound < round then Inl (Panic ''this POLRound should be the round'')
       else precommitPolka env round blockID cs))"

definition enterPrecommit :: "cs_env \<Rightarrow> int \<Rightarrow> int \<Rightarrow> cs_state \<Rightarrow> cs_run" where
  "enterPrecommit env height round cs =
     (if staleStep cs height round RoundStepPrecommit then Inr cs
      else bindR (doPrecommit env round cs) (\<lambda>cs'. Inr (newStep (updateRoundStep round RoundStepPrecommit cs'))))"

definition enterPrecommitWait :: "cs_env \<Rightarrow> int \<Rightarrow> int \<Rightarrow> cs_state \<Rightarrow> cs_run" where
  "enterPrecommitWait env height round cs =
     (if rsHeight cs \<noteq> height \<or> round < rsRound cs \<or> (rsRound cs = round \<and> rsTriggeredTimeoutPrecommit cs) then Inr cs
      else bindR (HVS_Precommits (rsVotes cs) round) (\<lambda>vs. bindR (twoThirdsAny vs) (\<lambda>any.
        if \<not> any then Inl (Panic ''entering precommit wait step, but precommits does not have any +2/3 votes'')
        else Inr (newStep ((scheduleTimeout (ceTimeoutPrecommit env round) height round RoundStepPrecommitWait cs)
                    \<lparr>rsTriggeredTimeoutPrecommit := True\<rparr>)))))"

section \<open>Committing\<close>

definition SaveBlock :: "block \<Rightarrow> part_set \<Rightarrow> commit \<Rightarrow> block_store \<Rightarrow> unit fault + block_store" where
  "SaveBlock b ps seenCommit bs =
     (let height = hdHeight (bkHeader b) in
      if bsBase bs > 0 \<and> height \<noteq> bsHeight bs + 1 then Inl (Panic ''BlockStore can only save contiguous blocks'')
      else if \<not> IsComplete ps then Inl (Panic ''BlockStore can only save complete block part sets'')
      else Inr (bs\<lparr>bsBase := (if bsBase bs > 0 then bsBase bs else height), bsHeight := height,
                   bsBlocks := (bsBlocks bs)(height \<mapsto> (b, seenCommit))\<rparr>))"

definition pruneBlocks :: "int \<Rightarrow> block_store \<Rightarrow> block_store" where
  "pruneBlocks retainHeight bs =
     (if retainHeight \<le> bsBase bs then bs
      else if retainHeight \<le> 0 \<or> retainHeight > bsHeight bs then bs
      else bs\<lparr>bsBase := retainHeight, bsBlocks := (\<lambda>h. if h < retainHeight then None else bsBlocks bs h)\<rparr>)"

definition metricsCheck :: "int \<Rightarrow> block \<Rightarrow> cs_state \<Rightarrow> unit fault + unit" where
  "metricsCheck height b cs =
     (if height > stInitialHeight (csState cs) \<and> Commit_Size (bkLastCommit b) \<noteq> length (Validators (rsLastValidators cs))
      then Inl (Panic ''commit size does not match valset length'') else Inr ())"

text \<open>The last commit of the new height: the precommits of the commit round. (The votes are nil only before a first
  height was set, at height 0.)\<close>

definition nextLastCommit :: "chain_state \<Rightarrow> cs_state \<Rightarrow> unit fault + vote_set option" where
  "nextLastCommit state cs =
     (if stLastBlockHeight state = 0 then Inr None
      else if rsCommitRound cs > -1 \<and> rsHeight cs \<noteq> 0 then
        bindR (HVS_Precommits (rsVotes cs) (rsCommitRound cs)) (\<lambda>vs.
          if \<not> HasTwoThirdsMajority vs then Inl (Panic ''wanted to form a commit, but precommits did not have 2/3+'')
          else Inr vs)
      else if rsLastCommit cs = None then Inl (Panic ''last commit cannot be empty after initial block'')
      else Inr (rsLastCommit cs))"

text \<open>The round state at the start of a height.\<close>

definition startHeight ::
  "cs_env \<Rightarrow> chain_state \<Rightarrow> int \<Rightarrow> validator_set \<Rightarrow> vote_set option \<Rightarrow> height_vote_set \<Rightarrow> cs_state \<Rightarrow> cs_state"
where
  "startHeight env state height validators lastCommit votes cs =
     cs\<lparr>rsLastCommit := lastCommit, rsHeight := height, rsRound := 0, rsStep := RoundStepNewHeight,
        rsStartTime := (if rsCommitTime cs = 0 then ceNow env else rsCommitTime cs) + ceTimeoutCommit env,
        rsValidators := validators, rsProposal := None, rsProposalBlock := None, rsProposalBlockParts := None,
        rsLockedRound := -1, rsLockedBlock := None, rsLockedBlockParts := None,
        rsValidRound := -1, rsValidBlock := None, rsValidBlockParts := None,
        rsVotes := votes, rsCommitRound := -1, rsLastValidators := stLastValidators state,
        rsTriggeredTimeoutPrecommit := False, csState := state\<rparr>"

definition updateToState :: "cs_env \<Rightarrow> chain_state \<Rightarrow> cs_state \<Rightarrow> cs_run" where
  "updateToState env state cs =
     (if rsCommitRound cs > -1 \<and> 0 < rsHeight cs \<and> rsHeight cs \<noteq> stLastBlockHeight state
      then Inl (Panic ''updateToState() expected another state height'')
      else if stValidators (csState cs) \<noteq> None \<and> stLastBlockHeight (csState cs) > 0 \<and>
              stLastBlockHeight (csState cs) + 1 \<noteq> rsHeight cs
      then Inl (Panic ''inconsistent cs.state.LastBlockHeight+1'')
      else if stValidators (csState cs) \<noteq> None \<and> stLastBlockHeight (csState cs) > 0 \<and>
              rsHeight cs = stInitialHeight (csState cs)
      then Inl (Panic ''inconsistent cs.state.LastBlockHeight for initial height'')
      else if stValidators (csState cs) \<noteq> None \<and> stLastBlockHeight state \<le> stLastBlockHeight (csState cs)
      then Inr (newStep cs)
      else case stValidators state of
        None \<Rightarrow> Inl (Panic ''nil validator set'')
      | Some validators \<Rightarrow>
          bindR (nextLastCommit state cs) (\<lambda>lastCommit.
          let height = (if stLastBlockHeight state + 1 = 1 then stInitialHeight state else stLastBlockHeight state + 1) in
          bindR (NewHeightVoteSet (stChainID state) height validators) (\<lambda>votes.
            Inr (newStep (startHeight env state height validators lastCommit votes cs)))))"

definition updatePrivValidatorPubKey :: "cs_env \<Rightarrow> cs_state \<Rightarrow> cs_state" where
  "updatePrivValidatorPubKey env cs = (if csPV cs = None then cs else cs\<lparr>csPubKey := Some (cePubKey env)\<rparr>)"

text \<open>Saving the block that is committed, unless the store has it already.\<close>

definition saveCommitted :: "block \<Rightarrow> part_set \<Rightarrow> vote_set option \<Rightarrow> cs_state \<Rightarrow> cs_run" where
  "saveCommitted b ps precommits cs =
     (if bsHeight (csStore cs) < hdHeight (bkHeader b) then
        (case precommits of
           None \<Rightarrow> Inl (Panic ''nil pointer dereference'')
         | Some pc \<Rightarrow> bindR (MakeCommit pc) (\<lambda>seenCommit.
             bindR (SaveBlock b ps seenCommit (csStore cs)) (\<lambda>bs. Inr (cs\<lparr>csStore := bs\<rparr>))))
      else Inr cs)"

text \<open>Applying the block that was stored and going on to the next height; an error of \<open>ApplyBlock\<close> is logged and
  leaves the node where it is.\<close>

definition applyCommitted :: "cs_env \<Rightarrow> int \<Rightarrow> block \<Rightarrow> part_set \<Rightarrow> cs_state \<Rightarrow> cs_run" where
  "applyCommitted env height b ps cs =
     (case ApplyBlock (ceCrypto env) (ceBlock env) (ceExec env) (csState cs)
             \<lparr>bidHash = Block_Hash (ceBlock env) (Some b), bidParts = PS_Header (Some ps)\<rparr> b of
        Inl (Panic p) \<Rightarrow> Inl (Panic p)
      | Inl (Err _) \<Rightarrow> Inr cs
      | Inr (stateCopy, retainHeight) \<Rightarrow>
          let cs1 = (if retainHeight > 0 then cs\<lparr>csStore := pruneBlocks retainHeight (csStore cs)\<rparr> else cs) in
          bindR (metricsCheck height b cs1) (\<lambda>_.
          bindR (updateToState env stateCopy cs1) (\<lambda>cs2.
            Inr (scheduleRound0 env (updatePrivValidatorPubKey env cs2)))))"

definition finalizeCommit :: "cs_env \<Rightarrow> int \<Rightarrow> cs_state \<Rightarrow> cs_run" where
  "finalizeCommit env height cs =
     (if rsHeight cs \<noteq> height \<or> rsStep cs \<noteq> RoundStepCommit then Inr cs
      else bindR (HVS_Precommits (rsVotes cs) (rsCommitRound cs)) (\<lambda>precommits.
        let (blockID, ok) = TwoThirdsMajority precommits in
        if \<not> ok then Inl (Panic ''cannot finalize commit; commit does not have 2/3 majority'')
        else if \<not> HasHeader (rsProposalBlockParts cs) (bidParts blockID)
        then Inl (Panic ''expected ProposalBlockParts header to be commit header'')
        else if \<not> Block_HashesTo (ceBlock env) (rsProposalBlock cs) (bidHash blockID)
        then Inl (Panic ''cannot finalize commit; proposal block does not hash to commit hash'')
        else case (rsProposalBlock cs, rsProposalBlockParts cs) of
          (Some b, Some ps) \<Rightarrow>
            bindR (blockInvalid env cs b) (\<lambda>invalid.
            if invalid then Inl (Panic ''+2/3 committed an invalid block'')
            else bindR (saveCommitted b ps precommits cs) (applyCommitted env height b ps))
        | _ \<Rightarrow> Inl (Panic ''nil pointer dereference'')))"

definition tryFinalizeCommit :: "cs_env \<Rightarrow> int \<Rightarrow> cs_state \<Rightarrow> cs_run" where
  "tryFinalizeCommit env height cs =
     (if rsHeight cs \<noteq> height then Inl (Panic ''tryFinalizeCommit() height mismatch'')
      else bindR (HVS_Precommits (rsVotes cs) (rsCommitRound cs)) (\<lambda>vs.
        let (blockID, ok) = TwoThirdsMajority vs in
        if \<not> ok \<or> length (bidHash blockID) = 0 then Inr cs
        else if \<not> Block_HashesTo (ceBlock env) (rsProposalBlock cs) (bidHash blockID) then Inr cs
        else finalizeCommit env height cs))"

definition enterCommit :: "cs_env \<Rightarrow> int \<Rightarrow> int \<Rightarrow> cs_state \<Rightarrow> cs_run" where
  "enterCommit env height commitRound cs =
     (if rsHeight cs \<noteq> height \<or> RoundStepCommit \<le> rsStep cs then Inr cs
      else bindR (HVS_Precommits (rsVotes cs) commitRound) (\<lambda>vs.
        let (blockID, ok) = TwoThirdsMajority vs in
        if \<not> ok then Inl (Panic ''RunActionCommit() expects +2/3 precommits'')
        else
          let cs1 = (if Block_HashesTo (ceBlock env) (rsLockedBlock cs) (bidHash blockID)
                     then cs\<lparr>rsProposalBlock := rsLockedBlock cs, rsProposalBlockParts := rsLockedBlockParts cs\<rparr> else cs);
              cs2 = (if \<not> Block_HashesTo (ceBlock env) (rsProposalBlock cs1) (bidHash blockID) \<and>
                        \<not> HasHeader (rsProposalBlockParts cs1) (bidParts blockID)
                     then cs1\<lparr>rsProposalBlock := None, rsProposalBlockParts := Some (NewPartSetFromHeader (bidParts blockID))\<rparr>
                     else cs1);
              cs3 = newStep ((updateRoundStep (rsRound cs2) RoundStepCommit cs2)
                       \<lparr>rsCommitRound := commitRound, rsCommitTime := ceNow env\<rparr>)
          in tryFinalizeCommit env height cs3))"

section \<open>Handling messages\<close>

definition defaultSetProposal :: "cs_env \<Rightarrow> proposal \<Rightarrow> cs_state \<Rightarrow> unit fault + (cs_state \<times> cs_error option)" where
  "defaultSetProposal env p cs =
     (if rsProposal cs \<noteq> None then Inr (cs, None)
      else if prHeight p \<noteq> rsHeight cs \<or> prRound p \<noteq> rsRound cs then Inr (cs, None)
      else if prPOLRound p < -1 \<or> (prPOLRound p \<ge> 0 \<and> prPOLRound p \<ge> prRound p) then Inr (cs, Some ErrInvalidProposalPOLRound)
      else bindR (GetProposer (rsValidators cs)) (\<lambda>(vals, proposer).
        case proposer of
          None \<Rightarrow> Inl (Panic ''nil pointer dereference'')
        | Some v \<Rightarrow>
            bindR (ProposalSignBytes (ceCrypto env) (stChainID (csState cs)) p) (\<lambda>sb.
              case PubKey v of
                None \<Rightarrow> Inl (Panic ''nil pointer dereference'')
              | Some pk \<Rightarrow>
                  let cs0 = cs\<lparr>rsValidators := vals\<rparr> in
                  if \<not> pkVerify (ceCrypto env) pk sb (prSignature p) then Inr (cs0, Some ErrInvalidProposalSignature)
                  else
                    let cs1 = cs0\<lparr>rsProposal := Some p\<rparr> in
                    Inr (if rsProposalBlockParts cs1 = None
                         then cs1\<lparr>rsProposalBlockParts := Some (NewPartSetFromHeader (bidParts (prBlockID p)))\<rparr> else cs1, None))))"

text \<open>What happens once the part set of the proposal block is complete.\<close>

definition completeProposal :: "cs_env \<Rightarrow> int \<Rightarrow> block \<Rightarrow> cs_state \<Rightarrow> cs_run" where
  "completeProposal env height b cs =
     (let cs1 = cs\<lparr>rsProposalBlock := Some b\<rparr> in
      bindR (HVS_Prevotes (rsVotes cs1) (rsRound cs1)) (\<lambda>prevotes.
      let (blockID, hasTwoThirds) = TwoThirdsMajority prevotes;
          cs2 = (if hasTwoThirds \<and> \<not> BlockID_IsZero blockID \<and> rsValidRound cs1 < rsRound cs1 \<and>
                    Block_HashesTo (ceBlock env) (rsProposalBlock cs1) (bidHash blockID)
                 then cs1\<lparr>rsValidRound := rsRound cs1, rsValidBlock := rsProposalBlock cs1,
                          rsValidBlockParts := rsProposalBlockParts cs1\<rparr>
                 else cs1) in
      bindR (isProposalComplete cs2) (\<lambda>complete.
        if rsStep cs2 \<le> RoundStepPropose \<and> complete then
          bindR (enterPrevote env height (rsRound cs2) cs2) (\<lambda>cs3.
            if hasTwoThirds then enterPrecommit env height (rsRound cs3) cs3 else Inr cs3)
        else if rsStep cs2 = RoundStepCommit then tryFinalizeCommit env height cs2
        else Inr cs2)))"

definition addProposalBlockPart ::
  "cs_env \<Rightarrow> int \<Rightarrow> int \<Rightarrow> part \<Rightarrow> cs_state \<Rightarrow> unit fault + (cs_state \<times> bool \<times> cs_error option)"
where
  "addProposalBlockPart env height round p cs =
     (if rsHeight cs \<noteq> height then Inr (cs, False, None)
      else if rsProposalBlockParts cs = None then Inr (cs, False, None)
      else bindR (AddPart (beHash (ceBlock env)) (rsProposalBlockParts cs) p) (\<lambda>(ps, added, err).
        let cs1 = cs\<lparr>rsProposalBlockParts := ps\<rparr> in
        case err of
          Some e \<Rightarrow> Inr (cs1, added, Some (PartErr e))
        | None \<Rightarrow>
            if PS_ByteSize ps > bpMaxBytes (cpBlock (stConsensusParams (csState cs))) then Inr (cs1, added, Some BlockTooBig)
            else if added \<and> IsComplete (the ps) then
              bindR (GetReader (the ps)) (\<lambda>reader. bindR (readAll (\<lambda>_. 511) 0 reader) (\<lambda>bz.
                case beUnmarshal (ceBlock env) bz of
                  None \<Rightarrow> Inr (cs1, added, Some UnmarshalErr)
                | Some pbb \<Rightarrow>
                    (case BlockFromProto (ceBlock env) (Some pbb) of
                       Inl (Panic m) \<Rightarrow> Inl (Panic m)
                     | Inl (Err e) \<Rightarrow> Inr (cs1, added, Some (BlockErr e))
                     | Inr b \<Rightarrow> bindR (completeProposal env height b cs1) (\<lambda>cs2. Inr (cs2, added, None)))))
            else Inr (cs1, added, None)))"

text \<open>The prevote branch of \<open>addVote\<close>, for a vote that was added: unlocking and \<open>Valid*\<close> on a polka. The
  result is \<open>None\<close> when publishing an event failed, which ends the handler.\<close>

definition polkaUpdate :: "cs_env \<Rightarrow> vote \<Rightarrow> block_id \<Rightarrow> cs_state \<Rightarrow> cs_state \<times> bool" where
  "polkaUpdate env v blockID cs =
     (let stale = rsLockedBlock cs \<noteq> None \<and> rsLockedRound cs < vRound v \<and> vRound v \<le> rsRound cs \<and>
                   \<not> Block_HashesTo (ceBlock env) (rsLockedBlock cs) (bidHash blockID);
          cs1 = (if stale then unlock cs else cs) in
      if stale \<and> \<not> cePublishOk env EventUnlock then (cs1, False)
      else if length (bidHash blockID) \<noteq> 0 \<and> rsValidRound cs1 < vRound v \<and> vRound v = rsRound cs1 then
        let cs2 = (if Block_HashesTo (ceBlock env) (rsProposalBlock cs1) (bidHash blockID)
                   then cs1\<lparr>rsValidRound := vRound v, rsValidBlock := rsProposalBlock cs1, rsValidBlockParts := rsProposalBlockParts cs1\<rparr>
                   else cs1\<lparr>rsProposalBlock := None\<rparr>);
            cs3 = (if \<not> HasHeader (rsProposalBlockParts cs2) (bidParts blockID)
                   then cs2\<lparr>rsProposalBlockParts := Some (NewPartSetFromHeader (bidParts blockID))\<rparr> else cs2)
        in (cs3, cePublishOk env EventValidBlock)
      else (cs1, True))"

definition addedPrevote :: "cs_env \<Rightarrow> int \<Rightarrow> vote \<Rightarrow> cs_state \<Rightarrow> unit fault + (cs_state \<times> cs_error option)" where
  "addedPrevote env height v cs =
     bindR (HVS_Prevotes (rsVotes cs) (vRound v)) (\<lambda>prevotes.
     let (blockID, ok) = TwoThirdsMajority prevotes;
         (cs1, go) = (if ok then polkaUpdate env v blockID cs else (cs, True)) in
     if \<not> go then Inr (cs1, Some PublishErr)
     else bindR (twoThirdsAny prevotes) (\<lambda>any.
       bindR (if rsRound cs1 < vRound v \<and> any then enterNewRound env height (vRound v) cs1
              else if rsRound cs1 = vRound v \<and> RoundStepPrevote \<le> rsStep cs1 then
                bindR (isProposalComplete cs1) (\<lambda>complete.
                  if ok \<and> (complete \<or> length (bidHash blockID) = 0) then enterPrecommit env height (vRound v) cs1
                  else if any then enterPrevoteWait env height (vRound v) cs1
                  else Inr cs1)
              else case rsProposal cs1 of
                None \<Rightarrow> Inr cs1
              | Some p \<Rightarrow>
                  if 0 \<le> prPOLRound p \<and> prPOLRound p = vRound v then
                    bindR (isProposalComplete cs1) (\<lambda>complete.
                      if complete then enterPrevote env height (rsRound cs1) cs1 else Inr cs1)
                  else Inr cs1) (\<lambda>cs2. Inr (cs2, None))))"

definition addedPrecommit :: "cs_env \<Rightarrow> int \<Rightarrow> vote \<Rightarrow> cs_state \<Rightarrow> cs_run" where
  "addedPrecommit env height v cs =
     bindR (HVS_Precommits (rsVotes cs) (vRound v)) (\<lambda>precommits.
     let (blockID, ok) = TwoThirdsMajority precommits in
     if ok then
       bindR (enterNewRound env height (vRound v) cs) (\<lambda>cs1.
       bindR (enterPrecommit env height (vRound v) cs1) (\<lambda>cs2.
         if length (bidHash blockID) \<noteq> 0 then
           bindR (enterCommit env height (vRound v) cs2) (\<lambda>cs3.
           bindR (if ceSkipTimeoutCommit env then bindR (HasAll (the precommits)) (\<lambda>(_, b). Inr b) else Inr False) (\<lambda>hasAll.
             if hasAll then enterNewRound env (rsHeight cs3) 0 cs3 else Inr cs3))
         else enterPrecommitWait env height (vRound v) cs2))
     else bindR (twoThirdsAny precommits) (\<lambda>any.
       if rsRound cs \<le> vRound v \<and> any then
         bindR (enterNewRound env height (vRound v) cs) (\<lambda>cs1. enterPrecommitWait env height (vRound v) cs1)
       else Inr cs))"

definition cs_addVote :: "cs_env \<Rightarrow> vote \<Rightarrow> string \<Rightarrow> cs_state \<Rightarrow> unit fault + (cs_state \<times> bool \<times> cs_error option)" where
  "cs_addVote env v peerID cs =
     (if vHeight v + 1 = rsHeight cs \<and> vType v = PrecommitType then
        (if rsStep cs \<noteq> RoundStepNewHeight then Inr (cs, False, None)
         else bindR (AddVote (ceCrypto env) (rsLastCommit cs) (Some v)) (\<lambda>(lc, added, err).
           let cs1 = cs\<lparr>rsLastCommit := Some lc\<rparr>; e = map_option (\<lambda>x. AddVoteErr (VoteErr x)) err in
           if \<not> added then Inr (cs1, added, e)
           else if \<not> cePublishOk env EventVote then Inr (cs1, added, Some PublishErr)
           else bindR (if ceSkipTimeoutCommit env then bindR (HasAll lc) (\<lambda>(_, b). Inr b) else Inr False) (\<lambda>hasAll.
             bindR (if hasAll then enterNewRound env (rsHeight cs1) 0 cs1 else Inr cs1) (\<lambda>cs2. Inr (cs2, added, e)))))
      else if vHeight v \<noteq> rsHeight cs then Inr (cs, False, None)
      else bindR (HVS_AddVote (ceCrypto env) (rsVotes cs) v peerID) (\<lambda>(votes, added, err).
        let cs1 = cs\<lparr>rsVotes := votes\<rparr>; e = map_option AddVoteErr err in
        if \<not> added then Inr (cs1, added, e)
        else if \<not> cePublishOk env EventVote then Inr (cs1, added, Some PublishErr)
        else case vType v of
          PrevoteType \<Rightarrow> bindR (addedPrevote env (rsHeight cs) v cs1) (\<lambda>(cs2, e2).
                           Inr (cs2, added, if e2 = None then e else e2))
        | PrecommitType \<Rightarrow> bindR (addedPrecommit env (rsHeight cs) v cs1) (\<lambda>cs2. Inr (cs2, added, e))
        | _ \<Rightarrow> Inl (Panic ''unexpected vote type'')))"

definition tryAddVote :: "cs_env \<Rightarrow> vote \<Rightarrow> string \<Rightarrow> cs_state \<Rightarrow> unit fault + (cs_state \<times> bool \<times> cs_error option)" where
  "tryAddVote env v peerID cs =
     bindR (cs_addVote env v peerID cs) (\<lambda>(cs1, added, err).
       case err of
         None \<Rightarrow> Inr (cs1, added, None)
       | Some (AddVoteErr (VoteErr (ErrVoteConflictingVotes a b))) \<Rightarrow>
           (case csPubKey cs1 of
              None \<Rightarrow> Inr (cs1, False, Some ErrPubKeyIsNotSet)
            | Some pk \<Rightarrow>
                if vAddress v = pkAddress (ceCrypto env) pk then Inr (cs1, added, err)
                else Inr (cs1\<lparr>csEvidence := csEvidence cs1 @ [(a, b)]\<rparr>, added, err))
       | Some (AddVoteErr (VoteErr ErrVoteNonDeterministicSignature)) \<Rightarrow> Inr (cs1, added, None)
       | _ \<Rightarrow> Inr (cs1, added, Some ErrAddingVote))"

text \<open>The errors of a message are only logged.\<close>

definition handleMsg :: "cs_env \<Rightarrow> msgInfo \<Rightarrow> cs_state \<Rightarrow> cs_run" where
  "handleMsg env mi cs =
     (case fst mi of
        ProposalMessage p \<Rightarrow> bindR (defaultSetProposal env p cs) (\<lambda>(cs', _). Inr cs')
      | BlockPartMessage height round p \<Rightarrow> bindR (addProposalBlockPart env height round p cs) (\<lambda>(cs', _). Inr cs')
      | VoteMessage v \<Rightarrow> bindR (tryAddVote env v (snd mi) cs) (\<lambda>(cs', _). Inr cs'))"

definition handleTimeout :: "cs_env \<Rightarrow> timeoutInfo \<Rightarrow> cs_state \<Rightarrow> cs_run" where
  "handleTimeout env ti cs =
     (if tiHeight ti \<noteq> rsHeight cs \<or> tiRound ti < rsRound cs \<or> (tiRound ti = rsRound cs \<and> tiStep ti < rsStep cs) then Inr cs
      else if tiStep ti = RoundStepNewHeight then enterNewRound env (tiHeight ti) 0 cs
      else if tiStep ti = RoundStepNewRound then enterPropose env (tiHeight ti) 0 cs
      else if tiStep ti = RoundStepPropose then enterPrevote env (tiHeight ti) (tiRound ti) cs
      else if tiStep ti = RoundStepPrevoteWait then enterPrecommit env (tiHeight ti) (tiRound ti) cs
      else if tiStep ti = RoundStepPrecommitWait then
        bindR (enterPrecommit env (tiHeight ti) (tiRound ti) cs) (\<lambda>cs'. enterNewRound env (tiHeight ti) (wrap32 (tiRound ti + 1)) cs')
      else Inl (Panic ''invalid timeout step''))"

definition handleTxsAvailable :: "cs_env \<Rightarrow> cs_state \<Rightarrow> cs_run" where
  "handleTxsAvailable env cs =
     (if rsRound cs \<noteq> 0 then Inr cs
      else if rsStep cs = RoundStepNewHeight then
        bindR (needProofBlock cs (rsHeight cs)) (\<lambda>b.
          Inr (if b then cs else scheduleTimeout (rsStartTime cs - ceNow env + 1000000) (rsHeight cs) 0 RoundStepNewRound cs))
      else if rsStep cs = RoundStepNewRound then enterPropose env (rsHeight cs) 0 cs
      else Inr cs)"

section \<open>Starting\<close>

text \<open>The zero values of a new state; a nil set of votes is not read.\<close>

definition zeroState :: chain_state where
  "zeroState = \<lparr>stVersion = \<lparr>verBlock = 0, verApp = 0\<rparr>, stSoftware = [], stChainID = [], stInitialHeight = 0, stLastBlockHeight = 0,
     stLastBlockID = emptyBlockID, stLastBlockTime = 0, stNextValidators = None, stValidators = None,
     stLastValidators = emptyValidatorSet, stLastHeightValidatorsChanged = 0,
     stConsensusParams = \<lparr>cpBlock = \<lparr>bpMaxBytes = 0, bpMaxGas = 0\<rparr>, cpEvidence = \<lparr>epMaxAgeNumBlocks = 0, epMaxAgeDuration = 0, epMaxBytes = 0\<rparr>,
       cpPubKeyTypes = [], cpAppVersion = 0\<rparr>,
     stLastHeightConsensusParamsChanged = 0, stLastResultsHash = [], stAppHash = []\<rparr>"

definition zeroRoundState :: "FilePV option \<Rightarrow> block_store \<Rightarrow> cs_state" where
  "zeroRoundState pv store =
     \<lparr>rsHeight = 0, rsRound = 0, rsStep = 0, rsStartTime = 0, rsCommitTime = 0, rsValidators = emptyValidatorSet, rsProposal = None,
      rsProposalBlock = None, rsProposalBlockParts = None, rsLockedRound = 0, rsLockedBlock = None, rsLockedBlockParts = None,
      rsValidRound = 0, rsValidBlock = None, rsValidBlockParts = None,
      rsVotes = \<lparr>hvChainID = [], hvHeight = 0, hvValSet = emptyValidatorSet, hvRound = 0, hvSets = Map.empty, hvPeers = Map.empty\<rparr>,
      rsCommitRound = 0, rsLastCommit = None, rsLastValidators = emptyValidatorSet, rsTriggeredTimeoutPrecommit = False,
      csState = zeroState, csPV = pv, csPubKey = None, csStore = store, csInternal = [], csTimeouts = [], csEvidence = [], csNSteps = 0\<rparr>"

definition reconstructLastCommit :: "cs_env \<Rightarrow> chain_state \<Rightarrow> cs_state \<Rightarrow> cs_run" where
  "reconstructLastCommit env state cs =
     (case bsBlocks (csStore cs) (stLastBlockHeight state) of
        None \<Rightarrow> Inl (Panic ''failed to reconstruct last commit; seen commit not found'')
      | Some (_, seenCommit) \<Rightarrow>
          bindR (CommitToVoteSet (ceCrypto env) (stChainID state) seenCommit (stLastValidators state)) (\<lambda>lastPrecommits.
            if \<not> HasTwoThirdsMajority (Some lastPrecommits)
            then Inl (Panic ''failed to reconstruct last commit; does not have +2/3 maj'')
            else Inr (cs\<lparr>rsLastCommit := Some lastPrecommits\<rparr>)))"

definition NewState :: "cs_env \<Rightarrow> chain_state \<Rightarrow> FilePV option \<Rightarrow> block_store \<Rightarrow> cs_run" where
  "NewState env state pv store =
     bindR (if stLastBlockHeight state > 0 then reconstructLastCommit env state (zeroRoundState pv store)
            else Inr (zeroRoundState pv store)) (updateToState env state)"

text \<open>\<open>SetPrivValidator\<close> and the end of \<open>OnStart\<close>.\<close>

definition startNode :: "cs_env \<Rightarrow> chain_state \<Rightarrow> FilePV option \<Rightarrow> block_store \<Rightarrow> cs_run" where
  "startNode env state pv store =
     bindR (NewState env state pv store) (\<lambda>cs. Inr (scheduleRound0 env (updatePrivValidatorPubKey env cs)))"

section \<open>Events\<close>

text \<open>A claim of a peer to have seen a majority reaches the votes through the reactor.\<close>

definition handleMaj23 :: "int \<Rightarrow> int \<Rightarrow> SignedMsgType \<Rightarrow> string \<Rightarrow> block_id \<Rightarrow> cs_state \<Rightarrow> cs_run" where
  "handleMaj23 height round t peerID blockID cs =
     (if rsHeight cs \<noteq> height then Inr cs
      else bindR (HVS_SetPeerMaj23 (rsVotes cs) round t peerID blockID) (\<lambda>(votes, _). Inr (cs\<lparr>rsVotes := votes\<rparr>)))"

text \<open>What the receive routine and the reactor take from their queues.\<close>

datatype cs_event =
    EvMsg msgInfo
  | EvTimeout timeoutInfo
  | EvTxs
  | EvMaj23 int int SignedMsgType string block_id

fun handleEvent :: "cs_env \<Rightarrow> cs_event \<Rightarrow> cs_state \<Rightarrow> cs_run" where
  "handleEvent env (EvMsg mi) cs = handleMsg env mi cs"
| "handleEvent env (EvTimeout ti) cs = handleTimeout env ti cs"
| "handleEvent env EvTxs cs = handleTxsAvailable env cs"
| "handleEvent env (EvMaj23 height round t peerID blockID) cs = handleMaj23 height round t peerID blockID cs"

end
