(* ===== verification/VoteHistory.thy ===== *)
theory VoteHistory
  imports HeightVoteSet VoteSetCommit
begin

text \<open>
  What the votes of a height become over time: they come from the votes that were added, and a majority
  that was reached stays.
\<close>

section \<open>Where the votes of a set come from\<close>

definition votesIn :: "vote_set \<Rightarrow> vote set" where
  "votesIn s = {v. Some v \<in> set (vsVotes s)} \<union> {v. \<exists>k bv. vsByBlock s k = Some bv \<and> Some v \<in> set (bvVotes bv)}"

lemma set_update_from: "x \<in> set (xs[i := y]) \<Longrightarrow> x = y \<or> x \<in> set xs"
  by (metis insertE set_update_subset_insert subsetD)

lemma goUpdate_some: "goUpdate xs i (Some v) = Inr ys \<Longrightarrow> \<forall>w. Some w \<in> set ys \<longrightarrow> w = v \<or> Some w \<in> set xs"
  by (auto simp: goUpdate_Inr_iff dest: set_update_from)

lemma goUpdate_from: "goUpdate xs i y = Inr ys \<Longrightarrow> x \<in> set ys \<Longrightarrow> x = y \<or> x \<in> set xs"
  by (auto simp: goUpdate_Inr_iff dest: set_update_from)

lemma copyVotes_from: "copyVotes i src dst = (Inr vs :: 'e fault + _) \<Longrightarrow> Some v \<in> set vs \<Longrightarrow> Some v \<in> set src \<or> Some v \<in> set dst"
proof (induction i src dst rule: copyVotes.induct)
  case (3 i w src dst)
  then obtain d where d: "goUpdate dst (int i) (Some w) = (Inr d :: 'e fault + _)" "copyVotes (Suc i) src d = (Inr vs :: 'e fault + _)"
    by (auto elim!: bindR_InrE)
  then show ?case using "3.IH" [OF d(2)] "3.prems"(2) goUpdate_from [OF d(1), of "Some v"] by auto
qed auto

lemma setPrimary_from: "setPrimary s v = (Inr s' :: 'e fault + _) \<Longrightarrow> votesIn s' \<subseteq> insert v (votesIn s) \<and> vsByBlock s' = vsByBlock s"
  by (auto simp: setPrimary_def votesIn_def dest!: goUpdate_some elim!: bindR_InrE)

lemma blockVotes_from:
  "blockVotes_addVerifiedVote bv v p = (Inr bv' :: 'e fault + _) \<Longrightarrow> Some w \<in> set (bvVotes bv') \<Longrightarrow> w = v \<or> Some w \<in> set (bvVotes bv)"
  by (auto simp: blockVotes_addVerifiedVote_def split: if_splits dest!: goUpdate_some elim!: bindR_InrE) blast

lemma addToBlock_from:
  assumes "addToBlock s bv v k p c = (Inr (s', a, e) :: 'e fault + _)" and "\<And>w. Some w \<in> set (bvVotes bv) \<Longrightarrow> w \<in> votesIn s"
  shows "votesIn s' \<subseteq> insert v (votesIn s)"
proof -
  obtain vals t bv' where t: "TotalVotingPower (vsValSet s) = (Inr (vals, t) :: 'e fault + _)"
    and bv': "blockVotes_addVerifiedVote bv v p = (Inr bv' :: 'e fault + _)"
    using assms(1) by (auto simp: addToBlock_def Let_def elim!: bindR_InrE)
  let ?s1 = "s\<lparr>vsValSet := vals, vsByBlock := (vsByBlock s)(k \<mapsto> bv')\<rparr>"
  have from_bv: "w = v \<or> w \<in> votesIn s" if "Some w \<in> set (bvVotes bv')" for w
    using blockVotes_from [OF bv' that] assms(2) by blast
  have s1: "votesIn ?s1 \<subseteq> insert v (votesIn s)"
    using from_bv by (auto simp: votesIn_def split: if_splits)
  consider "s' = ?s1" | vs where "copyVotes 0 (bvVotes bv') (vsVotes ?s1) = (Inr vs :: 'e fault + _)" "s' = ?s1\<lparr>vsMaj23 := Some (vBlockID v), vsVotes := vs\<rparr>"
    using assms(1) by (auto simp: addToBlock_def t bv' Let_def split: if_splits elim!: bindR_InrE)
  then show ?thesis
  proof cases
    case 2
    then show ?thesis using s1 copyVotes_from [OF 2(1)] from_bv by (auto simp: votesIn_def split: if_splits)
  qed (use s1 in simp)
qed

lemma addVerifiedVote_from:
  assumes "addVerifiedVote s v k p = (Inr (s', a, e) :: 'e fault + _)"
  shows "votesIn s' \<subseteq> insert v (votesIn s)"
proof -
  obtain s1 c where s1: "votesIn s1 \<subseteq> insert v (votesIn s)" and rest:
    "(case vsByBlock s1 k of
            Some bv \<Rightarrow>
              if c \<noteq> None \<and> \<not> bvPeerMaj23 bv then Inr (s1, False, c)
              else addToBlock s1 bv v k p c
          | None \<Rightarrow>
              if c \<noteq> None then Inr (s1, False, c)
              else addToBlock s1 (newBlockVotes False (ValidatorSet_Size (vsValSet s1))) v k p c) = (Inr (s', a, e) :: 'e fault + _)"
  proof -
    obtain ex where ex: "goIndex (vsVotes s) (vIndex v) = (Inr ex :: 'e fault + _)"
      using assms by (auto simp: addVerifiedVote_def elim!: bindR_InrE)
    show ?thesis
    proof (cases ex)
      case None
      obtain s2 where s2: "setPrimary s v = (Inr s2 :: 'e fault + _)"
        using assms by (auto simp: addVerifiedVote_def ex None elim!: bindR_InrE)
      show ?thesis
        by (rule that [of "s2\<lparr>vsSum := wrap64 (vsSum s2 + p)\<rparr>" None])
          (use assms setPrimary_from [OF s2] in \<open>auto simp: addVerifiedVote_def ex None s2 votesIn_def\<close>)
    next
      case (Some w)
      show ?thesis
      proof (cases "isMaj23Key s k")
        case True
        obtain s2 where s2: "setPrimary s v = (Inr s2 :: 'e fault + _)"
          using assms True by (auto simp: addVerifiedVote_def ex Some split: if_splits elim!: bindR_InrE)
        show ?thesis
          by (rule that [of s2 "Some w"])
            (use assms setPrimary_from [OF s2] True in \<open>auto simp: addVerifiedVote_def ex Some s2 split: if_splits\<close>)
      next
        case False
        show ?thesis
          by (rule that [of s "Some w"]) (use assms False in \<open>auto simp: addVerifiedVote_def ex Some split: if_splits\<close>)
      qed
    qed
  qed
  have sub: "insert v (votesIn s1) \<subseteq> insert v (votesIn s)" using s1 by blast
  show ?thesis
  proof (cases "vsByBlock s1 k")
    case None
    have "w \<in> votesIn s1" if "Some w \<in> set (bvVotes (newBlockVotes False (ValidatorSet_Size (vsValSet s1))))" for w
      using that by (auto simp: newBlockVotes_def)
    then have "addToBlock s1 (newBlockVotes False (ValidatorSet_Size (vsValSet s1))) v k p c = (Inr (s', a, e) :: 'e fault + _) \<Longrightarrow> ?thesis"
      using addToBlock_from [of s1 "newBlockVotes False (ValidatorSet_Size (vsValSet s1))" v k p c s' a e, where 'e = 'e] sub by blast
    then show ?thesis using rest None s1 by (auto split: if_splits)
  next
    case (Some bv)
    have "w \<in> votesIn s1" if "Some w \<in> set (bvVotes bv)" for w using that Some by (auto simp: votesIn_def)
    then have "addToBlock s1 bv v k p c = (Inr (s', a, e) :: 'e fault + _) \<Longrightarrow> ?thesis"
      using addToBlock_from [of s1 bv v k p c s' a e, where 'e = 'e] sub by blast
    then show ?thesis using rest Some s1 by (auto split: if_splits)
  qed
qed

lemma addVote_from:
  assumes "addVote env s (Some v) = (Inr (s', a, e) :: 'e fault + _)"
  shows "votesIn s' \<subseteq> insert v (votesIn s)"
proof (cases "s' = s")
  case False
  then obtain p r where "addVerifiedVote s v (Key (vBlockID v)) p = (Inr (s', r) :: 'e fault + _)"
    using assms by (auto simp: addVote_def Let_def split: if_splits option.splits prod.splits sum.splits fault.splits elim!: bindR_InrE)
  then show ?thesis by (cases r) (auto dest: addVerifiedVote_from)
qed blast

lemma SetPeerMaj23_from:
  assumes "SetPeerMaj23 (Some s) peer b = (Inr (s', e) :: 'e fault + _)"
  shows "votesIn s' \<subseteq> votesIn s"
  using assms
  by (auto simp: SetPeerMaj23_def Let_def votesIn_def newBlockVotes_def split: option.splits if_splits)

section \<open>The votes of a height grow\<close>

definition hvVotes :: "height_vote_set \<Rightarrow> vote set" where
  "hvVotes hvs = {v. \<exists>r rvs. hvSets hvs r = Some rvs \<and> (v \<in> votesIn (Prevotes rvs) \<or> v \<in> votesIn (Precommits rvs))}"

definition hvGrows :: "vote set \<Rightarrow> height_vote_set \<Rightarrow> height_vote_set \<Rightarrow> bool" where
  "hvGrows K hvs hvs' \<longleftrightarrow> hvChainID hvs' = hvChainID hvs \<and> hvHeight hvs' = hvHeight hvs \<and> hvValSet hvs' = hvValSet hvs \<and>
     hvVotes hvs' \<subseteq> K \<union> hvVotes hvs \<and>
     (\<forall>r rvs. hvSets hvs r = Some rvs \<longrightarrow> (\<exists>rvs'. hvSets hvs' r = Some rvs' \<and>
        keeps (Prevotes rvs) (Prevotes rvs') \<and> keeps (Precommits rvs) (Precommits rvs')))"

lemma hvGrows_refl [simp]: "hvGrows K hvs hvs"
  by (auto simp: hvGrows_def)

lemma hvGrows_trans: "hvGrows K a b \<Longrightarrow> hvGrows K b c \<Longrightarrow> hvGrows K a c"
proof -
  assume ab: "hvGrows K a b" and bc: "hvGrows K b c"
  have "\<exists>y. hvSets c r = Some y \<and> keeps (Prevotes x) (Prevotes y) \<and> keeps (Precommits x) (Precommits y)"
    if ar: "hvSets a r = Some x" for r x
  proof -
    obtain z where z: "hvSets b r = Some z" "keeps (Prevotes x) (Prevotes z)" "keeps (Precommits x) (Precommits z)"
      using ab ar unfolding hvGrows_def by blast
    obtain y where "hvSets c r = Some y" "keeps (Prevotes z) (Prevotes y)" "keeps (Precommits z) (Precommits y)"
      using bc z(1) unfolding hvGrows_def by blast
    then show ?thesis using z keeps_trans by blast
  qed
  then show ?thesis using ab bc unfolding hvGrows_def by auto
qed

lemma new_set_empty: "NewVoteSet cid h r t vals = (Inr s :: 'e fault + _) \<Longrightarrow> votesIn s = {}"
  by (auto simp: NewVoteSet_def votesIn_def split: if_splits)

lemma addRound_grows:
  assumes "addRound hvs r = (Inr hvs' :: 'e fault + _)"
  shows "hvGrows {} hvs hvs'" and "hvRound hvs' = hvRound hvs" and "hvPeers hvs' = hvPeers hvs"
proof -
  obtain p q where pq: "NewVoteSet (hvChainID hvs) (hvHeight hvs) r PrevoteType (hvValSet hvs) = (Inr p :: 'e fault + _)"
    "NewVoteSet (hvChainID hvs) (hvHeight hvs) r PrecommitType (hvValSet hvs) = (Inr q :: 'e fault + _)"
    and none: "hvSets hvs r = None" and h: "hvs' = hvs\<lparr>hvSets := (hvSets hvs)(r \<mapsto> \<lparr>Prevotes = p, Precommits = q\<rparr>)\<rparr>"
    using assms by (auto simp: addRound_def Option.is_none_def split: if_splits option.splits elim!: bindR_InrE)
  show "hvGrows {} hvs hvs'"
    unfolding hvGrows_def using new_set_empty [OF pq(1)] new_set_empty [OF pq(2)] none
    by (auto simp: h hvVotes_def split: if_splits)
  show "hvRound hvs' = hvRound hvs" "hvPeers hvs' = hvPeers hvs" by (simp_all add: h)
qed

lemma hvGrows_mono: "hvGrows K a b \<Longrightarrow> K \<subseteq> L \<Longrightarrow> hvGrows L a b"
  by (auto simp: hvGrows_def)

lemma SetRound_grows:
  assumes "SetRound hvs r = (Inr hvs' :: 'e fault + _)"
  shows "hvGrows {} hvs hvs'" and "hvRound hvs' = r"
proof -
  obtain n k h where h: "setRoundLoop n k hvs = (Inr h :: 'e fault + _)" "hvs' = h\<lparr>hvRound := r\<rparr>"
    using assms by (auto simp: SetRound_def split: if_splits elim!: bindR_InrE)
  have "hvGrows {} hvs h" using h(1)
  proof (induction n k hvs rule: setRoundLoop.induct)
    case (2 n k hvs)
    then show ?case using hvGrows_trans addRound_grows(1) by (auto split: if_splits elim!: bindR_InrE) blast+
  qed simp
  then show "hvGrows {} hvs hvs'" by (auto simp: h(2) hvGrows_def hvVotes_def)
  show "hvRound hvs' = r" by (simp add: h(2))
qed

lemma putVoteSet_grows:
  assumes "getVoteSet hvs r t = (Inr (Some s) :: 'e fault + _)" and "keeps s s'" and "votesIn s' \<subseteq> K \<union> votesIn s"
  shows "hvGrows K hvs (putVoteSet hvs r t s')" and "hvRound (putVoteSet hvs r t s') = hvRound hvs"
proof -
  obtain rvs where rvs: "hvSets hvs r = Some rvs" "t = PrevoteType \<and> s = Prevotes rvs \<or> t = PrecommitType \<and> s = Precommits rvs"
    using assms(1) by (auto simp: getVoteSet_def split: option.splits SignedMsgType.splits)
  let ?h = "putVoteSet hvs r t s'"
  have sets: "hvSets ?h = (hvSets hvs)(r \<mapsto> if t = PrevoteType then rvs\<lparr>Prevotes := s'\<rparr> else rvs\<lparr>Precommits := s'\<rparr>)"
    "hvChainID ?h = hvChainID hvs" "hvHeight ?h = hvHeight hvs" "hvValSet ?h = hvValSet hvs" "hvRound ?h = hvRound hvs"
    by (simp_all add: putVoteSet_def rvs(1))
  then show "hvRound ?h = hvRound hvs" by simp
  have "hvVotes ?h \<subseteq> K \<union> hvVotes hvs"
  proof
    fix w assume "w \<in> hvVotes ?h"
    then obtain k x where k: "hvSets ?h k = Some x" "w \<in> votesIn (Prevotes x) \<or> w \<in> votesIn (Precommits x)"
      by (auto simp: hvVotes_def)
    show "w \<in> K \<union> hvVotes hvs"
    proof (cases "k = r")
      case True
      then have "w \<in> votesIn s' \<or> w \<in> votesIn (Prevotes rvs) \<or> w \<in> votesIn (Precommits rvs)"
        using k by (auto simp: sets split: if_splits)
      then show ?thesis using rvs assms(3) by (auto simp: hvVotes_def)
    qed (use k in \<open>auto simp: sets hvVotes_def\<close>)
  qed
  then show "hvGrows K hvs ?h" using rvs assms(2) by (auto simp: hvGrows_def sets)
qed

lemma addVoteTo_grows:
  assumes "hv_inv env hvs" and "Vote_ValidateBasic v = Inr ()" and "getVoteSet hvs (vRound v) (vType v) = (Inr (Some s) :: unit fault + _)"
    and "IsVoteTypeValid (vType v)" and "addVoteTo env hvs v (Some s) = (Inr (hvs', a, e) :: unit fault + _)"
  shows "hvGrows {v} hvs hvs'"
proof -
  have s: "vs_inv env s" "goodKeys s"
    using getVoteSet_ok [OF assms(1,4), of "vRound v", where 'e = unit] assms(3) by (auto simp: setFor_def)
  obtain s' a' e' where add: "addVote env s (Some v) = (Inr (s', a', e') :: unit fault + _)" "keeps s s'"
    using addVote_ok [OF s(1) assms(2) s(2), where 'e = unit] by blast
  have h: "hvs' = putVoteSet hvs (vRound v) (vType v) s'"
    using assms(5) add(1) by (simp add: addVoteTo_def AddVote_def)
  show ?thesis unfolding h using addVote_from [OF add(1)] by (intro putVoteSet_grows [OF assms(3) add(2)]) auto
qed

lemma HVS_AddVote_grows:
  assumes "hv_inv env hvs" and "Vote_ValidateBasic v = Inr ()"
    and "HVS_AddVote env hvs v peerID = (Inr (hvs', a, e) :: unit fault + _)"
  shows "hv_inv env hvs'" and "hvGrows {v} hvs hvs'" and "hvRound hvs' = hvRound hvs"
proof -
  show "hv_inv env hvs'" "hvRound hvs' = hvRound hvs"
    using HVS_AddVote_ok [OF assms(1,2), of peerID] assms(3) by auto
  show "hvGrows {v} hvs hvs'"
  proof (cases "IsVoteTypeValid (vType v)")
    case False
    then show ?thesis using assms(3) by (simp add: HVS_AddVote_def)
  next
    case t: True
    obtain p where p: "getVoteSet hvs (vRound v) (vType v) = (Inr p :: unit fault + _)"
      "p = None \<longleftrightarrow> hvSets hvs (vRound v) = None"
      using getVoteSet_ok [OF assms(1) t, of "vRound v", where 'e = unit] by (elim exE conjE) (rule that; assumption)
    let ?rndz = "case hvPeers hvs peerID of None \<Rightarrow> [] | Some rs \<Rightarrow> rs"
    show ?thesis
    proof (cases p)
      case (Some s)
      then have "addVoteTo env hvs v (Some s) = (Inr (hvs', a, e) :: unit fault + _)"
        using assms(3) t p(1) by (simp add: HVS_AddVote_def)
      then show ?thesis using addVoteTo_grows [OF assms(1,2) _ t] p(1) Some by blast
    next
      case None
      show ?thesis
      proof (cases "length ?rndz < 2")
        case False
        then show ?thesis using assms(3) t p(1) None by (simp add: HVS_AddVote_def)
      next
        case True
        have none: "hvSets hvs (vRound v) = None" using None p(2) by simp
        have h: "wf_vals (hvValSet hvs)" "\<forall>val \<in> set (Validators (hvValSet hvs)). PubKey val \<noteq> None" "hvHeight hvs \<noteq> 0"
          using assms(1) by (auto simp: hv_inv_def)
        obtain rvs where rvs: "addRound hvs (vRound v) = (Inr (hvs\<lparr>hvSets := (hvSets hvs)(vRound v \<mapsto> rvs)\<rparr>) :: unit fault + _)"
          "roundOkAt env hvs (vRound v) rvs" using h none by (rule addRound_ok)
        let ?h1 = "hvs\<lparr>hvSets := (hvSets hvs)(vRound v \<mapsto> rvs)\<rparr>"
        let ?h2 = "?h1\<lparr>hvPeers := (hvPeers hvs)(peerID \<mapsto> ?rndz @ [vRound v])\<rparr>"
        have inv2: "hv_inv env ?h2" using assms(1) none True rvs(2) by (rule newRound_inv)
        obtain s where s: "getVoteSet ?h1 (vRound v) (vType v) = (Inr (Some s) :: unit fault + _)"
          using t by (cases "vType v") (auto simp: getVoteSet_def)
        then have s2: "getVoteSet ?h2 (vRound v) (vType v) = (Inr (Some s) :: unit fault + _)" by (simp add: getVoteSet_def)
        have "addVoteTo env ?h2 v (Some s) = (Inr (hvs', a, e) :: unit fault + _)"
          using assms(3) True t p None rvs(1) s by (simp add: HVS_AddVote_def)
        then have "hvGrows {v} ?h2 hvs'" by (rule addVoteTo_grows [OF inv2 assms(2) s2 t])
        moreover have "hvGrows {v} hvs ?h1" using addRound_grows(1) [OF rvs(1)] by (rule hvGrows_mono) simp
        then have "hvGrows {v} hvs ?h2" by (simp add: hvGrows_def hvVotes_def)
        ultimately show ?thesis by (rule hvGrows_trans [rotated])
      qed
    qed
  qed
qed

lemma HVS_SetPeerMaj23_grows:
  assumes "hv_inv env hvs" and "HVS_SetPeerMaj23 hvs r t peerID b = (Inr (hvs', e) :: unit fault + _)"
  shows "hv_inv env hvs'" and "hvGrows {} hvs hvs'" and "hvRound hvs' = hvRound hvs"
proof -
  show "hv_inv env hvs'" "hvRound hvs' = hvRound hvs"
    using HVS_SetPeerMaj23_ok [OF assms(1), of r t peerID b] assms(2) by auto
  show "hvGrows {} hvs hvs'"
  proof (cases "hvs' = hvs")
    case False
    then obtain s s' e' where t: "IsVoteTypeValid t" and s: "getVoteSet hvs r t = (Inr (Some s) :: unit fault + _)"
      and set: "SetPeerMaj23 (Some s) peerID b = (Inr (s', e') :: unit fault + _)" and h: "hvs' = putVoteSet hvs r t s'"
      using assms(2) by (auto simp: HVS_SetPeerMaj23_def split: if_splits option.splits elim!: bindR_InrE)
    have "vs_inv env s" using getVoteSet_ok [OF assms(1) t, of r, where 'e = unit] s by (auto simp: setFor_def)
    then have "keeps s s'" using SetPeerMaj23_ok [of env s peerID b, where 'e = unit] set by auto
    then show ?thesis unfolding h using SetPeerMaj23_from [OF set] by (intro putVoteSet_grows [OF s]) auto
  qed simp
qed

end
