(* ===== verification/ChainInvariant.thy ===== *)
theory ChainInvariant
  imports Execution
begin

text \<open>
  The invariant of the chain state: the genesis state has it, applying a block keeps it and
  advances the validators by one height, and the block that the code makes from a state with the
  invariant is valid in it.
\<close>

section \<open>The invariant\<close>

definition keyed :: "validator list \<Rightarrow> bool" where
  "keyed vs \<longleftrightarrow> (\<forall>v \<in> set vs. PubKey v \<noteq> None \<and> length (Address v) = AddressSize)"

definition valsOk :: "validator_set \<Rightarrow> bool" where
  "valsOk vals \<longleftrightarrow> wf_vals vals \<and> Validators vals \<noteq> [] \<and> keyed (Validators vals)"

definition chain_inv :: "chain_state \<Rightarrow> bool" where
  "chain_inv st \<longleftrightarrow>
     (\<exists>v. stValidators st = Some v \<and> valsOk v) \<and> (\<exists>v. stNextValidators st = Some v \<and> valsOk v) \<and>
     wf_vals (stLastValidators st) \<and> (stLastBlockHeight st \<noteq> 0 \<longrightarrow> valsOk (stLastValidators st)) \<and>
     0 < stInitialHeight st \<and> in64 (stInitialHeight st) \<and> (stLastBlockHeight st = 0 \<or> stInitialHeight st \<le> stLastBlockHeight st) \<and>
     in64 (stLastBlockHeight st) \<and> verBlock (stVersion st) = BlockProtocol \<and> length (stChainID st) \<le> MaxChainIDLen \<and>
     isOk (ValidateHash (stLastResultsHash st)) \<and> isOk (BlockID_ValidateBasic (stLastBlockID st))"

definition nextHeight :: "chain_state \<Rightarrow> int" where
  "nextHeight st = (if stLastBlockHeight st = 0 then stInitialHeight st else stLastBlockHeight st + 1)"

text \<open>What is used of the hash function and of the addresses of keys: their sizes.\<close>

definition sizesOk :: "crypto_env \<Rightarrow> block_env \<Rightarrow> bool" where
  "sizesOk ce be \<longleftrightarrow> (\<forall>x. length (beHash be x) = 32) \<and> (\<forall>pk. length (pkAddress ce pk) = AddressSize)"

lemma liftErr_Inr_iff [simp]: "liftErr f m = Inr x \<longleftrightarrow> m = Inr x"
  by (auto simp: liftErr_def split: sum.splits fault.splits)

lemma liftErr_Inr [simp]: "liftErr f (Inr x) = Inr x"
  by (simp add: liftErr_def)

section \<open>Validator sets\<close>

lemma keyed_identities:
  assumes "identities vs \<subseteq> identities ws" and "keyed ws"
  shows "keyed vs"
  unfolding keyed_def
proof
  fix v assume "v \<in> set vs"
  then have "(Address v, PubKey v) \<in> identities ws" using assms(1) by (auto simp: identities_def)
  then show "PubKey v \<noteq> None \<and> length (Address v) = AddressSize" using assms(2) by (auto simp: identities_def keyed_def)
qed

lemma keyed_iff: "keyed vs \<longleftrightarrow> None \<notin> set (map PubKey vs) \<and> (\<forall>a \<in> set (map Address vs). length a = AddressSize)"
  by (force simp: keyed_def)

lemma keyed_map:
  "map Address vs = map Address ws \<Longrightarrow> map PubKey vs = map PubKey ws \<Longrightarrow> keyed ws \<Longrightarrow> keyed vs"
  unfolding keyed_iff by metis

lemma powMap_map:
  "map Address vs = map Address ws \<Longrightarrow> map VotingPower vs = map VotingPower ws \<Longrightarrow> powMap vs = powMap ws"
proof -
  assume a: "map Address vs = map Address ws" and p: "map VotingPower vs = map VotingPower ws"
  note z = zip_map_fst_snd [of "map (\<lambda>v. (Address v, VotingPower v)) us" for us, symmetric, unfolded map_map comp_def, simplified]
  then have "map (\<lambda>v. (Address v, VotingPower v)) vs = map (\<lambda>v. (Address v, VotingPower v)) ws" 
    by (subst (1 2) z) (simp only: a p)
  then show ?thesis by (simp only: powMap_def)
qed

lemma increment_valsOk:
  assumes "valsOk vals" and "0 < n"
  obtains vals' where "IncrementProposerPriority vals n = (Inr vals' :: 'e fault + _)" and "valsOk vals'"
    and "powMap (Validators vals') = powMap (Validators vals)"
proof -
  have ok: "wf_vals vals" "Validators vals \<noteq> []" using assms(1) by (simp_all add: valsOk_def)
  obtain vals' where v: "IncrementProposerPriority vals n = (Inr vals' :: 'e fault + _)" "wf_vals vals'"
    "map Address (Validators vals') = map Address (Validators vals)"
    "map VotingPower (Validators vals') = map VotingPower (Validators vals)"
    "map PubKey (Validators vals') = map PubKey (Validators vals)"
    using advance_safe [OF ok assms(2), where 'e = 'e] by blast
  have "Validators vals' \<noteq> []" using v(3) ok(2) by auto
  moreover have "keyed (Validators vals')" using keyed_map [OF v(3,5)] assms(1) by (simp add: valsOk_def)
  ultimately have "valsOk vals'" using v(2) by (simp add: valsOk_def)
  moreover have "powMap (Validators vals') = powMap (Validators vals)" using v(3,4) by (rule powMap_map)
  ultimately show ?thesis using that v(1) by blast
qed

lemma update_valsOk:
  assumes "wf_vals vals" and "keyed (Validators vals)" and "changes \<noteq> []" and "updateWithChangeSet vals changes allow = Inr vals'"
    and "keyed changes"
  shows "valsOk vals'" and "powMap (Validators vals') = changeSpec (powMap (Validators vals)) changes"
proof -
  from update_outcome [OF assms(1,3), of allow] assms(4)
  have out: "wf_list (Validators vals')" "totalVotingPower vals' = sumPower (Validators vals')"
    "powMap (Validators vals') = changeSpec (powMap (Validators vals)) changes" "changeAccepted vals changes allow" by auto
  then show "powMap (Validators vals') = changeSpec (powMap (Validators vals)) changes" by simp
  have "dom (powMap (Validators vals')) \<noteq> {}" using out(3,4) by (simp add: changeAccepted_def)
  then have "Validators vals' \<noteq> []" by (auto simp: dom_powMap)
  moreover have "keyed (Validators vals')"
  proof (rule keyed_identities)
    show "identities (Validators vals') \<subseteq> identities (Validators vals @ changes)"
      using update_identities [OF assms(4)] by (simp add: identities_def image_Un)
    show "keyed (Validators vals @ changes)" using assms(2,5) by (auto simp: keyed_def)
  qed
  ultimately show "valsOk vals'" using out(1,2) by (simp add: valsOk_def wf_vals_def)
qed

lemma PB2TM_keyed:
  assumes "PB2TM_ValidatorUpdates ce xe us = Inr vs" and "\<forall>pk. length (pkAddress ce pk) = AddressSize"
  shows "keyed vs"
  using assms(1)
proof (induction us arbitrary: vs)
  case Nil
  then show ?case by (simp add: keyed_def)
next
  case (Cons u us)
  then show ?case using assms(2)
    by (cases u) (auto simp: keyed_def NewValidator_def split: option.splits elim!: bindR_InrE)
qed

section \<open>Applying a block\<close>

lemma validateBlock_height:
  assumes "chain_inv st" and "validateBlock ce be xe st b = Inr ()"
  shows "hdHeight (bkHeader b) = nextHeight st" and "0 < hdHeight (bkHeader b)" and "in64 (nextHeight st)"
    and "stInitialHeight st \<le> nextHeight st"
proof -
  let ?h = "hdHeight (bkHeader b)"
  have "Block_ValidateBasic be (Some b) = Inr ()" using assms(2) by (auto simp: validateBlock_def Let_def elim!: bindR_InrE)
  then have "Header_ValidateBasic (bkHeader b) = Inr ()" by (auto simp: Block_ValidateBasic_def elim!: bindR_InrE)
  then show pos: "0 < ?h" by (auto simp: Header_ValidateBasic_def split: if_splits)
  have eq: "stLastBlockHeight st = 0 \<longrightarrow> ?h = stInitialHeight st" "0 < stLastBlockHeight st \<longrightarrow> ?h = wrap64 (stLastBlockHeight st + 1)"
    using assms(2) by (auto simp: validateBlock_def Let_def split: if_splits elim!: bindR_InrE)
  have range: "0 \<le> stLastBlockHeight st" "stLastBlockHeight st \<le> MaxInt64"
    using assms(1) by (auto simp: chain_inv_def in64_def)
  have "stLastBlockHeight st \<noteq> MaxInt64"
  proof
    assume "stLastBlockHeight st = MaxInt64"
    then have "?h = wrap64 (MaxInt64 + 1)" using eq(2) by (simp add: MaxInt64_def)
    then show False using pos by (simp add: wrap64_def MaxInt64_def)
  qed
  then have r: "in64 (stLastBlockHeight st + 1)" using range by (simp add: int_range)
  show "?h = nextHeight st" using eq range(1) r by (auto simp: nextHeight_def)
  show "in64 (nextHeight st)" "stInitialHeight st \<le> nextHeight st"
    using r assms(1) by (auto simp: nextHeight_def chain_inv_def)
qed

text \<open>What an application asked for in the block it was given.\<close>

definition asked :: "crypto_env \<Rightarrow> exec_env \<Rightarrow> chain_state \<Rightarrow> block \<Rightarrow> validator list \<Rightarrow> bool" where
  "asked ce xe st b changes \<longleftrightarrow>
     (\<exists>ar. execBlockOnProxyApp xe b (stInitialHeight st) = Inr ar \<and> PB2TM_ValidatorUpdates ce xe (arValidatorUpdates ar) = Inr changes)"

text \<open>The parts of the next state: the changed validators, the same after a round, and the parameters.\<close>

lemma updateState_run:
  assumes "chain_inv st" and "keyed changes" and "updateState be xe st blockID h ar changes = Inr st'"
  obtains v nv nv1 lh nv2 np ver lp where "stValidators st = Some v" and "valsOk v" and "stNextValidators st = Some nv" and "valsOk nv"
    and "valsOk nv1" and "powMap (Validators nv1) = changeSpec (powMap (Validators nv)) changes"
    and "nv1 = nv \<and> lh = stLastHeightValidatorsChanged st \<or> lh = wrap64 (hdHeight h + 1 + 1)"
    and "IncrementProposerPriority nv1 1 = (Inr nv2 :: exec_error fault + _)" and "updateParams st h ar = Inr (np, ver, lp)"
    and "st' = st\<lparr>stVersion := ver, stLastBlockHeight := hdHeight h, stLastBlockID := blockID,
      stLastBlockTime := hdTime h, stNextValidators := Some nv2, stValidators := Some nv,
      stLastValidators := v, stLastHeightValidatorsChanged := lh, stConsensusParams := np,
      stLastHeightConsensusParamsChanged := lp, stLastResultsHash := ABCIResponsesResultsHash be xe ar, stAppHash := []\<rparr>"
proof -
  obtain v nv where v: "stValidators st = Some v" "valsOk v" "stNextValidators st = Some nv" "valsOk nv"
    using assms(1) by (auto simp: chain_inv_def)
  have nv: "wf_vals nv" "keyed (Validators nv)" using v(4) by (simp_all add: valsOk_def)
  obtain nv1 lh where nv1: "(if length changes > 0
      then bindR (liftErr ValSetErr (UpdateWithChangeSet nv changes)) (\<lambda>nv'. Inr (nv', wrap64 (hdHeight h + 1 + 1)))
      else Inr (nv, stLastHeightValidatorsChanged st)) = Inr (nv1, lh)"
    using assms(3) v(1,3) by (auto simp: updateState_def elim!: bindR_InrE)
  consider "changes = []" "nv1 = nv" "lh = stLastHeightValidatorsChanged st"
    | "changes \<noteq> []" "updateWithChangeSet nv changes True = Inr nv1" "lh = wrap64 (hdHeight h + 1 + 1)"
    using nv1 by (cases "changes = []") (auto simp: UpdateWithChangeSet_def elim!: bindR_InrE)
  then have ok1: "valsOk nv1 \<and> powMap (Validators nv1) = changeSpec (powMap (Validators nv)) changes \<and>
      (nv1 = nv \<and> lh = stLastHeightValidatorsChanged st \<or> lh = wrap64 (hdHeight h + 1 + 1))"
  proof cases
    case 1
    then show ?thesis using v(4) by (auto simp: changeSpec_def powMap_def)
  next
    case 2
    then show ?thesis using update_valsOk [OF nv 2(1,2) assms(2)] by blast
  qed
  then have ok: "valsOk nv1" by blast
  obtain nv2 where nv2: "IncrementProposerPriority nv1 1 = (Inr nv2 :: exec_error fault + _)"
    using increment_valsOk [OF ok zero_less_one, where 'e = exec_error] by blast
  obtain np ver lp where ps: "updateParams st h ar = Inr (np, ver, lp)"
    using assms(3) v(1,3) nv1 nv2 by (auto simp: updateState_def elim!: bindR_InrE)
  have st': "st' = st\<lparr>stVersion := ver, stLastBlockHeight := hdHeight h, stLastBlockID := blockID,
      stLastBlockTime := hdTime h, stNextValidators := Some nv2, stValidators := Some nv,
      stLastValidators := v, stLastHeightValidatorsChanged := lh, stConsensusParams := np,
      stLastHeightConsensusParamsChanged := lp, stLastResultsHash := ABCIResponsesResultsHash be xe ar, stAppHash := []\<rparr>"
    using assms(3) unfolding updateState_def v(1,3) by (simp only: prod.case option.case nv1 bindR.simps nv2 ps sum.inject)
  show ?thesis by (rule that [OF v ok _ _ nv2 ps st']) (use ok1 in blast)+
qed

lemma updateState_ok:
  assumes inv: "chain_inv st" and sizes: "sizesOk ce be" and "isOk (BlockID_ValidateBasic blockID)"
    and "keyed changes" and "updateState be xe st blockID h ar changes = Inr st'"
    and "0 < hdHeight h" and "stInitialHeight st \<le> hdHeight h" and "in64 (hdHeight h)"
  shows "chain_inv st'" and "stLastBlockHeight st' = hdHeight h" and "stValidators st' = stNextValidators st"
    and "stLastValidators st' = the (stValidators st)" and "stLastBlockID st' = blockID" and "stLastBlockTime st' = hdTime h"
    and "stChainID st' = stChainID st" and "stInitialHeight st' = stInitialHeight st"
    and "powMap (Validators (the (stNextValidators st'))) = changeSpec (powMap (Validators (the (stNextValidators st)))) changes"
proof -
  obtain v nv nv1 lh nv2 np ver lp where v: "stValidators st = Some v" "valsOk v" "stNextValidators st = Some nv" "valsOk nv"
    and ok1: "valsOk nv1" "powMap (Validators nv1) = changeSpec (powMap (Validators nv)) changes"
    and "nv1 = nv \<and> lh = stLastHeightValidatorsChanged st \<or> lh = wrap64 (hdHeight h + 1 + 1)"
    and inc: "IncrementProposerPriority nv1 1 = (Inr nv2 :: exec_error fault + _)" and ps: "updateParams st h ar = Inr (np, ver, lp)"
    and st': "st' = st\<lparr>stVersion := ver, stLastBlockHeight := hdHeight h, stLastBlockID := blockID,
      stLastBlockTime := hdTime h, stNextValidators := Some nv2, stValidators := Some nv,
      stLastValidators := v, stLastHeightValidatorsChanged := lh, stConsensusParams := np,
      stLastHeightConsensusParamsChanged := lp, stLastResultsHash := ABCIResponsesResultsHash be xe ar, stAppHash := []\<rparr>"
    using inv assms(4,5) by (rule updateState_run)
  have nv2: "valsOk nv2" "powMap (Validators nv2) = powMap (Validators nv1)"
    using increment_valsOk [OF ok1(1) zero_less_one, where 'e = exec_error] inc by (metis sum.inject(2))+
  have ver: "verBlock ver = verBlock (stVersion st)"
    using ps by (auto simp: updateParams_def Let_def split: option.splits elim!: bindR_InrE)
  have "length (ABCIResponsesResultsHash be xe ar) = 32"
    unfolding ABCIResponsesResultsHash_def using sizes by (intro tree_length) (simp add: sizesOk_def)
  then have "isOk (ValidateHash (ABCIResponsesResultsHash be xe ar))" by (simp add: ValidateHash_def hashSize_def)
  then show "chain_inv st'"
    using inv v nv2(1) ver assms(3,6-8) by (simp add: st' chain_inv_def valsOk_def)
  show "stLastBlockHeight st' = hdHeight h" "stValidators st' = stNextValidators st"
    "stLastValidators st' = the (stValidators st)" "stLastBlockID st' = blockID" "stLastBlockTime st' = hdTime h"
    "stChainID st' = stChainID st" "stInitialHeight st' = stInitialHeight st"
    "powMap (Validators (the (stNextValidators st'))) = changeSpec (powMap (Validators (the (stNextValidators st)))) changes"
    by (simp_all add: st' v nv2(2) ok1(2))
qed

lemma ApplyBlock_run:
  assumes "ApplyBlock ce be xe st blockID b = Inr (st', retain)"
  obtains ar changes st1 appHash where "validateBlock ce be xe st b = Inr ()" and "asked ce xe st b changes"
    and "PB2TM_ValidatorUpdates ce xe (arValidatorUpdates ar) = Inr changes"
    and "updateState be xe st blockID (bkHeader b) ar changes = Inr st1" and "st' = st1\<lparr>stAppHash := appHash\<rparr>"
proof -
  obtain ar where ar: "validateBlock ce be xe st b = Inr ()" "execBlockOnProxyApp xe b (stInitialHeight st) = Inr ar"
    and rest: "bindR (validateValidatorUpdates xe (stConsensusParams st) (arValidatorUpdates ar)) (\<lambda>_.
       bindR (PB2TM_ValidatorUpdates ce xe (arValidatorUpdates ar)) (\<lambda>changes.
       bindR (updateState be xe st blockID (bkHeader b) ar changes) (commitAndSave xe b ar))) = Inr (st', retain)"
    using assms unfolding ApplyBlock_def by (elim bindR_InrE) (simp split: if_splits)
  obtain changes st1 where run: "PB2TM_ValidatorUpdates ce xe (arValidatorUpdates ar) = Inr changes"
    "updateState be xe st blockID (bkHeader b) ar changes = Inr st1" "commitAndSave xe b ar st1 = Inr (st', retain)"
    using rest by (elim bindR_InrE)
  obtain appHash where st': "st' = st1\<lparr>stAppHash := appHash\<rparr>"
    using run(3) by (auto simp: commitAndSave_def Let_def split: option.splits if_splits)
  have "asked ce xe st b changes" unfolding asked_def using ar(2) run(1) by blast
  then show ?thesis using that ar(1) run(1,2) st' by blast
qed

lemma ApplyBlock_result:
  assumes "chain_inv st" and "sizesOk ce be" and "isOk (BlockID_ValidateBasic blockID)"
    and "ApplyBlock ce be xe st blockID b = Inr (st', retain)"
  shows "chain_inv st' \<and> stLastBlockHeight st' = nextHeight st \<and> hdHeight (bkHeader b) = nextHeight st \<and>
    stValidators st' = stNextValidators st \<and> stLastValidators st' = the (stValidators st) \<and>
    stLastBlockID st' = blockID \<and> stLastBlockTime st' = hdTime (bkHeader b) \<and>
    (\<exists>changes. asked ce xe st b changes \<and>
       powMap (Validators (the (stNextValidators st'))) = changeSpec (powMap (Validators (the (stNextValidators st)))) changes)"
proof -
  obtain ar changes st1 appHash where run: "validateBlock ce be xe st b = Inr ()" "asked ce xe st b changes"
    "PB2TM_ValidatorUpdates ce xe (arValidatorUpdates ar) = Inr changes"
    "updateState be xe st blockID (bkHeader b) ar changes = Inr st1" "st' = st1\<lparr>stAppHash := appHash\<rparr>"
    using assms(4) by (rule ApplyBlock_run)
  note h = validateBlock_height [OF assms(1) run(1)]
  have k: "keyed changes" using run(3) assms(2) by (intro PB2TM_keyed) (auto simp: sizesOk_def)
  note up = updateState_ok [OF assms(1-3) k run(4) h(2)]
  have "stInitialHeight st \<le> hdHeight (bkHeader b)" "in64 (hdHeight (bkHeader b))" using h by simp_all
  note up = up [OF this]
  have "chain_inv st'" using up(1) by (simp add: run(5) chain_inv_def)
  then show ?thesis using up(2-6,9) run(2) h(1) by (auto simp: run(5))
qed

section \<open>Genesis\<close>

lemma genesis_sets:
  assumes "sizesOk ce be" and "MakeGenesisState ce now software gd = Inr st" and "gdValidators gd \<noteq> None"
  obtains gd' v0 vs ns none where "ValidateAndComplete ce now gd = Inr gd'" and "valsOk v0"
    and "IncrementProposerPriority v0 1 = (Inr vs :: exec_error fault + _)" and "IncrementProposerPriority vs 1 = (Inr ns :: exec_error fault + _)"
    and "wf_vals none" and "st = \<lparr>stVersion = \<lparr>verBlock = BlockProtocol, verApp = 0\<rparr>, stSoftware = software, stChainID = gdChainID gd',
      stInitialHeight = gdInitialHeight gd', stLastBlockHeight = 0, stLastBlockID = emptyBlockID, stLastBlockTime = gdTime gd',
      stNextValidators = Some ns, stValidators = Some vs, stLastValidators = none, stLastHeightValidatorsChanged = gdInitialHeight gd',
      stConsensusParams = the (gdParams gd'), stLastHeightConsensusParamsChanged = gdInitialHeight gd', stLastResultsHash = [], stAppHash = gdAppHash gd'\<rparr>"
proof -
  obtain gd' where gd': "ValidateAndComplete ce now gd = Inr gd'" using assms(2) by (auto simp: MakeGenesisState_def elim!: bindR_InrE)
  have some: "gdValidators gd' \<noteq> None"
    using gd' assms(3) by (auto simp: ValidateAndComplete_def Let_def split: if_splits option.splits elim!: bindR_InrE)
  let ?valz = "map (\<lambda>v. NewValidator ce (gvPubKey v) (gvPower v)) (the (gdValidators gd'))"
  obtain vs ns none where sets: "NewValidatorSet ?valz = (Inr vs :: exec_error fault + _)"
    "CopyIncrementProposerPriority vs 1 = (Inr ns :: exec_error fault + _)" "NewValidatorSet [] = (Inr none :: exec_error fault + _)"
    and st: "st = \<lparr>stVersion = \<lparr>verBlock = BlockProtocol, verApp = 0\<rparr>, stSoftware = software, stChainID = gdChainID gd',
      stInitialHeight = gdInitialHeight gd', stLastBlockHeight = 0, stLastBlockID = emptyBlockID, stLastBlockTime = gdTime gd',
      stNextValidators = Some ns, stValidators = Some vs, stLastValidators = none, stLastHeightValidatorsChanged = gdInitialHeight gd',
      stConsensusParams = the (gdParams gd'), stLastHeightConsensusParamsChanged = gdInitialHeight gd', stLastResultsHash = [], stAppHash = gdAppHash gd'\<rparr>"
    using assms(2) some by (auto simp: MakeGenesisState_def gd' Let_def elim!: bindR_InrE)
  have none: "wf_vals none" using sets(3)
    by (auto simp: NewValidatorSet_def updateWithChangeSet_def emptyValidatorSet_def wf_vals_def wf_list_def vp_bounds sumPower_def)
  have ne: "?valz \<noteq> []"
  proof
    assume "?valz = []"
    with sets(1,3) have "vs = none" by simp
    then show False using sets(2,3)
      by (auto simp: NewValidatorSet_def updateWithChangeSet_def emptyValidatorSet_def CopyIncrementProposerPriority_def
          IncrementProposerPriority_def IsNilOrEmpty_def)
  qed
  then obtain v0 where v0: "updateWithChangeSet emptyValidatorSet ?valz False = Inr v0" "IncrementProposerPriority v0 1 = (Inr vs :: exec_error fault + _)"
    using sets(1) by (auto simp: NewValidatorSet_def split: sum.splits)
  have "valsOk v0"
  proof (rule update_valsOk(1) [OF _ _ ne v0(1)])
    show "wf_vals emptyValidatorSet" "keyed (Validators emptyValidatorSet)"
      by (simp_all add: emptyValidatorSet_def wf_vals_def wf_list_def vp_bounds sumPower_def keyed_def)
    show "keyed ?valz" using assms(1) by (auto simp: keyed_def NewValidator_def sizesOk_def)
  qed
  then show ?thesis using that [OF gd' _ v0(2) _ none st] sets(2) by (simp add: CopyIncrementProposerPriority_def)
qed

lemma MakeGenesisState_inv:
  assumes "sizesOk ce be" and "MakeGenesisState ce now software gd = Inr st" and "in64 (gdInitialHeight gd)"
    and "gdValidators gd \<noteq> None"
  shows "chain_inv st" and "stLastBlockHeight st = 0"
proof -
  obtain gd' v0 vs ns none where g: "ValidateAndComplete ce now gd = Inr gd'" "valsOk v0"
    "IncrementProposerPriority v0 1 = (Inr vs :: exec_error fault + _)" "IncrementProposerPriority vs 1 = (Inr ns :: exec_error fault + _)"
    "wf_vals none" and st: "st = \<lparr>stVersion = \<lparr>verBlock = BlockProtocol, verApp = 0\<rparr>, stSoftware = software, stChainID = gdChainID gd',
      stInitialHeight = gdInitialHeight gd', stLastBlockHeight = 0, stLastBlockID = emptyBlockID, stLastBlockTime = gdTime gd',
      stNextValidators = Some ns, stValidators = Some vs, stLastValidators = none, stLastHeightValidatorsChanged = gdInitialHeight gd',
      stConsensusParams = the (gdParams gd'), stLastHeightConsensusParamsChanged = gdInitialHeight gd', stLastResultsHash = [], stAppHash = gdAppHash gd'\<rparr>"
    using assms(1,2,4) by (rule genesis_sets)
  have basic: "length (gdChainID gd') \<le> MaxChainIDLen" "0 < gdInitialHeight gd'" "in64 (gdInitialHeight gd')"
    using g(1) assms(3,4)
    by (auto simp: ValidateAndComplete_def Let_def int_range split: if_splits option.splits elim!: bindR_InrE)
  have vs: "valsOk vs" using increment_valsOk [OF g(2) zero_less_one, where 'e = exec_error] g(3) by (metis sum.inject(2))
  then have ns: "valsOk ns" using increment_valsOk [OF _ zero_less_one, where 'e = exec_error] g(4) by (metis sum.inject(2))
  show "stLastBlockHeight st = 0" by (simp add: st)
  show "chain_inv st"
    using vs ns g(5) basic
    by (simp add: chain_inv_def st ValidateHash_def int_range)
      (simp add: BlockID_ValidateBasic_def emptyBlockID_def PSH_ValidateBasic_def ValidateHash_def)
qed

section \<open>Blocks made from the state\<close>

lemma validatorBytes_ok: "keyed vs \<Longrightarrow> \<exists>bzs. validatorBytes xe vs = (Inr bzs :: 'e fault + _)"
  by (induction vs) (auto simp: keyed_def)

lemma ValidatorSet_Hash_length:
  assumes "sizesOk ce be" and "ValidatorSet_Hash be xe p = (Inr h :: 'e fault + _)"
  shows "length h = 32"
  using assms by (auto simp: ValidatorSet_Hash_def sizesOk_def intro!: tree_length split: option.splits elim!: bindR_InrE)

lemma ValidatorSet_Hash_poly:
  "ValidatorSet_Hash be xe p = (Inr h :: 'e fault + _) \<Longrightarrow> ValidatorSet_Hash be xe p = (Inr h :: 'f fault + _)"
proof -
  have "validatorBytes xe vs = (Inr bs :: 'e fault + _) \<Longrightarrow> validatorBytes xe vs = (Inr bs :: 'f fault + _)" for vs bs
    by (induction vs arbitrary: bs) (auto split: option.splits elim!: bindR_InrE)
  then show "ValidatorSet_Hash be xe p = (Inr h :: 'e fault + _) \<Longrightarrow> ValidatorSet_Hash be xe p = (Inr h :: 'f fault + _)"
    by (auto simp: ValidatorSet_Hash_def split: option.splits elim!: bindR_InrE)
qed

lemma evidenceLoop_ok: "\<forall>e \<in> set evs. beEvidenceOk be e \<Longrightarrow> evidenceLoop be i evs = Inr ()"
  by (induction be i evs rule: evidenceLoop.induct) auto

lemma checkHash_32: "length h = 32 \<Longrightarrow> checkHash h e = Inr ()"
  by (simp add: checkHash_def ValidateHash_def hashSize_def)

lemma ValidateBasic_made:
  assumes "sizesOk ce be" and "Commit_ValidateBasic c = Inr ()" and "\<forall>e \<in> set evs. beEvidenceOk be e"
    and h: "h = Populate (bkHeader (MakeBlock be height txs (Some c) evs)) v cid t bid vh nvh ch ah rh addr"
    and "0 < height" and "verBlock v = BlockProtocol" and "length cid \<le> MaxChainIDLen" and "isOk (BlockID_ValidateBasic bid)"
    and "length vh = 32" and "length nvh = 32" and "length ch = 32" and "isOk (ValidateHash rh)" and "length addr = AddressSize"
  shows "Block_ValidateBasic be (Some ((MakeBlock be height txs (Some c) evs)\<lparr>bkHeader := h\<rparr>)) = Inr ()"
proof -
  have len: "\<And>x. length (beHash be x) = 32" using assms(1) by (simp add: sizesOk_def)
  note root = tree_length [of "beHash be", OF len]
  have hh: "hdVersion h = v" "hdChainID h = cid" "hdHeight h = height" "hdLastBlockID h = bid" "hdValidatorsHash h = vh"
    "hdNextValidatorsHash h = nvh" "hdConsensusHash h = ch" "hdLastResultsHash h = rh" "hdProposerAddress h = addr"
    "hdLastCommitHash h = Commit_Hash be (Some c)" "hdDataHash h = Txs_Hash be txs" "hdEvidenceHash h = Evidence_Hash be evs"
    by (simp_all add: h Populate_def MakeBlock_def fillHeader_def emptyHeader_def)
  have lens: "length (Commit_Hash be (Some c)) = 32" "length (Txs_Hash be txs) = 32" "length (Evidence_Hash be evs) = 32"
    by (simp_all add: Commit_Hash_def Txs_Hash_def Evidence_Hash_def root)
  obtain r where bid: "BlockID_ValidateBasic bid = Inr r" using assms(8) by (auto simp: isOk_iff)
  have rh: "checkHash rh WrongLastResultsHash = Inr ()" using assms(12) by (auto simp: checkHash_def isOk_iff)
  have "Header_ValidateBasic h = Inr ()"
    using assms(5-7,9-11,13) lens by (simp add: Header_ValidateBasic_def hh bid rh checkHash_32)
  then show ?thesis
    using assms(2) evidenceLoop_ok [OF assms(3)]
    by (simp add: Block_ValidateBasic_def hh) (simp add: MakeBlock_def fillHeader_def)
qed

section \<open>A sample chain\<close>

text \<open>A genesis with one validator, the block a proposer makes on it, and an application that adds a validator.\<close>

definition chainCrypto :: crypto_env where
  "chainCrypto = sampleEnv\<lparr>pkAddress := \<lambda>pk. take 20 (pk @ replicate 20 0)\<rparr>"

definition chainBlockEnv :: block_env where
  "chainBlockEnv = sampleBlockEnv\<lparr>beHash := \<lambda>x. replicate 32 0, beMarshal := \<lambda>b. [1]\<rparr>"

definition chainExec :: exec_env where
  "chainExec = \<lparr>xeValidatorBytes = (\<lambda>pk p. pk), xeHashedParams = (\<lambda>a b. [3]), xeResultBytes = dtData,
     xeEvidenceSize = (\<lambda>evs. int (length evs)), xePubKeyFromProto = Some, xeKeyType = (\<lambda>pk. ''ed25519''),
     xeCheckEvidence = (\<lambda>evs. True), xePendingEvidence = (\<lambda>n. ([], 0)), xeReap = (\<lambda>n g. [[9]]),
     xeLoadValidators = (\<lambda>h. None),
     xeBeginBlock = (\<lambda>info b. True),
     xeDeliverTx = (\<lambda>b before tx. Some \<lparr>dtCode = 0, dtData = tx, dtGasWanted = 0, dtGasUsed = 0, dtLog = []\<rparr>),
     xeEndBlock = (\<lambda>b. Some ([([2], 5)], None)),
     xeSaveResponses = (\<lambda>h ar. True), xeCommit = (\<lambda>st b txs. Some ([7], 0)), xeSaveState = (\<lambda>st. True)\<rparr>"

definition chainGenesis :: GenesisDoc where
  "chainGenesis = \<lparr>gdTime = 100, gdChainID = ''c'', gdInitialHeight = 0, gdParams = None,
     gdValidators = Some [\<lparr>gvAddress = [], gvPubKey = [1], gvPower = 10\<rparr>], gdAppHash = []\<rparr>"

definition chainVals :: validator_set where
  "chainVals = (let v = \<lparr>Address = 1 # replicate 19 0, PubKey = Some [1], VotingPower = 10, ProposerPriority = 0\<rparr> in
     \<lparr>Validators = [v], Proposer = Some v, totalVotingPower = 10\<rparr>)"

definition chainStart :: chain_state where
  "chainStart = \<lparr>stVersion = \<lparr>verBlock = 11, verApp = 0\<rparr>, stSoftware = ''0.34'', stChainID = ''c'', stInitialHeight = 1,
     stLastBlockHeight = 0, stLastBlockID = emptyBlockID, stLastBlockTime = 100, stNextValidators = Some chainVals,
     stValidators = Some chainVals, stLastValidators = emptyValidatorSet, stLastHeightValidatorsChanged = 1,
     stConsensusParams = DefaultConsensusParams, stLastHeightConsensusParamsChanged = 1, stLastResultsHash = [], stAppHash = []\<rparr>"

definition chainBlock :: block where
  "chainBlock = (let z = replicate 32 0 in
     \<lparr>bkHeader = \<lparr>hdVersion = \<lparr>verBlock = 11, verApp = 0\<rparr>, hdChainID = ''c'', hdHeight = 1, hdTime = 100,
        hdLastBlockID = emptyBlockID, hdLastCommitHash = z, hdDataHash = z, hdValidatorsHash = z, hdNextValidatorsHash = z,
        hdConsensusHash = z, hdAppHash = [], hdLastResultsHash = [], hdEvidenceHash = z, hdProposerAddress = 1 # replicate 19 0\<rparr>,
      bkTxs = [[9]], bkEvidence = [], bkLastCommit = Some (NewCommit 0 0 emptyBlockID [])\<rparr>)"

lemma chainSizes: "sizesOk chainCrypto chainBlockEnv"
  by (auto simp: sizesOk_def chainCrypto_def chainBlockEnv_def AddressSize_def)

lemma chainStart_run: "MakeGenesisState chainCrypto 5 ''0.34'' chainGenesis = Inr chainStart"
  by code_simp

lemma chainBlock_made:
  "\<exists>ps. State_MakeBlock chainBlockEnv chainExec chainStart 1 [[9]] (NewCommit 0 0 emptyBlockID []) [] (pkAddress chainCrypto [1]) =
     (Inr (chainBlock, ps) :: unit fault + _)"
proof -
  let ?c = "NewCommit 0 0 emptyBlockID []" and ?z = "replicate 32 0 :: bytes"
  have "fits32 [1] (word_of_nat BlockPartSizeBytes)" by (simp add: fits32_def BlockPartSizeBytes_def)
  then obtain ps where ps: "NewPartSetFromData (beHash chainBlockEnv) [1] (word_of_nat BlockPartSizeBytes) = (Inr ps :: unit fault + _)"
    by (rule NewPartSetFromData_eq)
  have hashes: "ValidatorSet_Hash chainBlockEnv chainExec (Some chainVals) = (Inr ?z :: unit fault + _)"
    "Commit_Hash chainBlockEnv (Some ?c) = ?z" "Txs_Hash chainBlockEnv [[9]] = ?z" "Evidence_Hash chainBlockEnv [] = ?z"
    "HashConsensusParams chainBlockEnv chainExec DefaultConsensusParams = ?z" "pkAddress chainCrypto [1] = 1 # replicate 19 0"
    by code_simp+
  have "beMarshal chainBlockEnv = (\<lambda>b. [1])" by (simp add: chainBlockEnv_def)
  then show ?thesis
    using ps hashes
    by (simp add: State_MakeBlock_def MakePartSet_def MakeBlock_def fillHeader_def Populate_def emptyHeader_def chainStart_def chainBlock_def
        BlockProtocol_def Let_def)
qed

lemma chainStart_inv: "chain_inv chainStart" "stLastBlockHeight chainStart = 0"
  by (rule MakeGenesisState_inv [OF chainSizes chainStart_run]; simp add: chainGenesis_def int_range)+

section \<open>Properties\<close>

text \<open>C30: Applying a block that the executor accepts advances the chain by one height: the height, identifier and
  time of the last block are those of the block, the validators announced before are now in force, those in
  force before are the last ones, and the announced ones are changed exactly as the application asked, from the
  height after the next. The invariant of the chain state, well-formed validator sets included, is kept.\<close>

theorem ApplyBlock_advances:
  assumes "chain_inv st" and "sizesOk ce be" and "isOk (BlockID_ValidateBasic blockID)"
    and "ApplyBlock ce be xe st blockID b = Inr (st', retain)"
  shows "chain_inv st' \<and> stLastBlockHeight st' = nextHeight st \<and> hdHeight (bkHeader b) = nextHeight st \<and>
    stValidators st' = stNextValidators st \<and> stLastValidators st' = the (stValidators st) \<and>
    stLastBlockID st' = blockID \<and> stLastBlockTime st' = hdTime (bkHeader b) \<and>
    (\<exists>changes. asked ce xe st b changes \<and>
       powMap (Validators (the (stNextValidators st'))) = changeSpec (powMap (Validators (the (stNextValidators st)))) changes)"
  using assms by (rule ApplyBlock_result)

theorem ApplyBlock_advances_witness:
  "chain_inv chainStart \<and> isOk (ApplyBlock chainCrypto chainBlockEnv chainExec chainStart (vBlockID sampleVote) chainBlock) \<and>
   (\<exists>st' retain. ApplyBlock chainCrypto chainBlockEnv chainExec chainStart (vBlockID sampleVote) chainBlock = Inr (st', retain) \<and>
      chain_inv st' \<and> stLastBlockHeight st' = 1 \<and> stValidators st' = stNextValidators chainStart)"
proof -
  have ok: "isOk (ApplyBlock chainCrypto chainBlockEnv chainExec chainStart (vBlockID sampleVote) chainBlock)" by code_simp
  then obtain st' retain where r: "ApplyBlock chainCrypto chainBlockEnv chainExec chainStart (vBlockID sampleVote) chainBlock = Inr (st', retain)"
    by (auto simp: isOk_iff)
  have "isOk (BlockID_ValidateBasic (vBlockID sampleVote))" by code_simp
  from ApplyBlock_advances [OF chainStart_inv(1) chainSizes this r]
  have "chain_inv st'" "stLastBlockHeight st' = nextHeight chainStart" "stValidators st' = stNextValidators chainStart" by auto
  moreover have "nextHeight chainStart = 1" by code_simp
  ultimately show ?thesis using ok r chainStart_inv(1) by auto
qed

text \<open>C31: The block a proposer makes is valid for every node in the same state: a block made from the chain state for the
  next height, with a valid commit of the last block whose median time is after that block (or no
  commit at the initial height), valid evidence within its limit and the address of a validator, passes \<open>validateBlock\<close>.\<close>

theorem made_block_validates:
  assumes "chain_inv st" and "sizesOk ce be" and "State_MakeBlock be xe st height txs c evs addr = (Inr (b, ps) :: 'e fault + _)"
    and "height = nextHeight st" and "in64 height" and "HasAddress (the (stValidators st)) addr"
    and "Commit_ValidateBasic c = Inr ()" and "\<forall>e \<in> set evs. beEvidenceOk be e"
    and "xeEvidenceSize xe evs \<le> epMaxBytes (cpEvidence (stConsensusParams st))"
    and "if height = stInitialHeight st then cmSignatures c = []
         else snd (VerifyCommit ce (stLastValidators st) (stChainID st) (stLastBlockID st) (height - 1) (Some c)) = Inr () \<and>
              stLastBlockTime st < MedianTime c (stLastValidators st)"
  shows "validateBlock ce be xe st b = Inr ()"
proof -
  define t where "t = (if height = stInitialHeight st then stLastBlockTime st else MedianTime c (stLastValidators st))"
  let ?b0 = "MakeBlock be height txs (Some c) evs"
  obtain vh nvh where hashes: "ValidatorSet_Hash be xe (stValidators st) = (Inr vh :: 'e fault + _)"
    "ValidatorSet_Hash be xe (stNextValidators st) = (Inr nvh :: 'e fault + _)"
    and b: "b = ?b0\<lparr>bkHeader := Populate (bkHeader ?b0) (stVersion st) (stChainID st) t (stLastBlockID st) vh nvh
                   (HashConsensusParams be xe (stConsensusParams st)) (stAppHash st) (stLastResultsHash st) addr\<rparr>"
    using assms(3) by (auto simp: State_MakeBlock_def Let_def t_def split: option.splits elim!: bindR_InrE)
  have poly: "ValidatorSet_Hash be xe p = (Inr x :: exec_error fault + _)" if "ValidatorSet_Hash be xe p = (Inr x :: 'e fault + _)" for p x
    using that by (rule ValidatorSet_Hash_poly)
  obtain v where v: "stValidators st = Some v" "valsOk v" using assms(1) by (auto simp: chain_inv_def)
  have addr: "length addr = AddressSize" using assms(6) v by (auto simp: HasAddress_def list_ex_iff valsOk_def keyed_def)
  have hd: "hdHeight (bkHeader b) = height" "hdTime (bkHeader b) = t" "bkLastCommit b = Some c" "bkEvidence b = evs"
    "hdProposerAddress (bkHeader b) = addr" "hdVersion (bkHeader b) = stVersion st" "hdChainID (bkHeader b) = stChainID st"
    "hdLastBlockID (bkHeader b) = stLastBlockID st" "hdAppHash (bkHeader b) = stAppHash st" "hdLastResultsHash (bkHeader b) = stLastResultsHash st"
    "hdConsensusHash (bkHeader b) = HashConsensusParams be xe (stConsensusParams st)"
    "hdValidatorsHash (bkHeader b) = vh" "hdNextValidatorsHash (bkHeader b) = nvh"
    by (simp_all add: b Populate_def MakeBlock_def fillHeader_def emptyHeader_def)
  have pos: "0 < height" "stInitialHeight st \<le> height" "stLastBlockHeight st \<noteq> 0 \<longrightarrow> stInitialHeight st < height"
    using assms(1,4) by (auto simp: nextHeight_def chain_inv_def)
  have basic: "Block_ValidateBasic be (Some b) = Inr ()"
    unfolding b by (rule ValidateBasic_made [OF assms(2,7,8) refl pos(1)])
      (use assms(1,2) addr ValidatorSet_Hash_length [OF assms(2)] hashes in \<open>auto simp: chain_inv_def HashConsensusParams_def sizesOk_def\<close>)
  have "checkLastCommit ce st b = Inr ()"
    using assms(5,10) pos by (auto simp: checkLastCommit_def hd int_range)
  moreover have "checkTime st b = Inr ()" using assms(10) pos by (auto simp: checkTime_def hd t_def Let_def)
  moreover have "0 < stLastBlockHeight st \<longrightarrow> height = wrap64 (stLastBlockHeight st + 1)" "stLastBlockHeight st = 0 \<longrightarrow> height = stInitialHeight st"
    using assms(4,5) by (auto simp: nextHeight_def)
  ultimately show ?thesis
    using assms(6,9) basic by (simp add: validateBlock_def hd poly hashes Let_def)
qed

theorem made_block_validates_witness:
  "isOk (State_MakeBlock chainBlockEnv chainExec chainStart 1 [[9]] (NewCommit 0 0 emptyBlockID []) [] (pkAddress chainCrypto [1]) :: unit fault + _) \<and>
   validateBlock chainCrypto chainBlockEnv chainExec chainStart chainBlock = Inr ()"
proof -
  let ?c = "NewCommit 0 0 emptyBlockID []" and ?a = "pkAddress chainCrypto [1]"
  obtain ps where made: "State_MakeBlock chainBlockEnv chainExec chainStart 1 [[9]] ?c [] ?a = (Inr (chainBlock, ps) :: unit fault + _)"
    using chainBlock_made by blast
  have facts: "nextHeight chainStart = 1" "HasAddress (the (stValidators chainStart)) ?a" "Commit_ValidateBasic ?c = Inr ()"
    "xeEvidenceSize chainExec [] \<le> epMaxBytes (cpEvidence (stConsensusParams chainStart))" "stInitialHeight chainStart = 1"
    "cmSignatures ?c = []"
    by code_simp+
  have "validateBlock chainCrypto chainBlockEnv chainExec chainStart chainBlock = Inr ()"
    by (rule made_block_validates [OF chainStart_inv(1) chainSizes made])
      (simp_all add: facts int_range)
  then show ?thesis using made by simp
qed

end
