(* ===== verification/ConsensusInvariant.thy ===== *)
theory ConsensusInvariant
  imports ConsensusState VoteHistory ChainInvariant
begin

text \<open>
  The invariant of the consensus state machine and what one transition may change of it: the lock, the
  votes that were sent, and the votes that were received. The handlers are shown to make such transitions in
  \<open>ConsensusSafety\<close>.

  The messages a node has sent to itself are kept in \<open>csInternal\<close> and its timeouts in \<open>csTimeouts\<close>: a step
  takes any of them, so that what is shown does not depend on the order of the queues.
\<close>

section \<open>The surroundings of a node\<close>

text \<open>What stays fixed during a run: the cryptography and the encodings, the chain, the validators of
  every height and the votes that can be received.\<close>

record cs_world =
  wCrypto :: crypto_env
  wBlock :: block_env
  wChain :: string
  wVals :: "int \<Rightarrow> validator list"
  wVotes :: "vote set"

definition genuine :: "cs_world \<Rightarrow> SignedMsgType \<Rightarrow> int \<Rightarrow> int \<Rightarrow> block_id \<Rightarrow> nat \<Rightarrow> vote \<Rightarrow> bool" where
  "genuine w t h r bid i v \<longleftrightarrow> vType v = t \<and> vHeight v = h \<and> vRound v = r \<and> vBlockID v = bid \<and> vIndex v = int i \<and>
     i < length (wVals w h) \<and> Vote_Verify (wCrypto w) (wChain w) (PubKey (wVals w h ! i)) v = Inr ()"

text \<open>Validators with more than two thirds of the power have genuine votes of the kind among those that can be received.\<close>

definition quorumFor :: "cs_world \<Rightarrow> SignedMsgType \<Rightarrow> int \<Rightarrow> int \<Rightarrow> block_id \<Rightarrow> bool" where
  "quorumFor w t h r bid \<longleftrightarrow>
     (\<exists>I \<subseteq> {..<length (wVals w h)}. 2 * sumPower (wVals w h) < 3 * (\<Sum>i \<in> I. VotingPower (wVals w h ! i)) \<and>
        (\<forall>i \<in> I. \<exists>v \<in> wVotes w. genuine w t h r bid i v))"

section \<open>The invariant\<close>

definition polka :: "cs_state \<Rightarrow> int \<Rightarrow> block_id \<Rightarrow> bool" where
  "polka cs r bid \<longleftrightarrow> (\<exists>rvs. hvSets (rsVotes cs) r = Some rvs \<and> vsMaj23 (Prevotes rvs) = Some bid)"

definition sent :: "cs_state \<Rightarrow> vote set" where
  "sent cs = {v. VoteMessage v \<in> set (csInternal cs)}"

definition stepOf :: "SignedMsgType \<Rightarrow> int" where
  "stepOf t = (if t = PrevoteType then RoundStepPrevote else RoundStepPrecommit)"

definition voteHash :: "vote \<Rightarrow> bytes" where
  "voteHash v = bidHash (vBlockID v)"

definition blockHash :: "cs_world \<Rightarrow> block \<Rightarrow> bytes" where
  "blockHash w b = Block_Hash (wBlock w) (Some b)"

definition baseInv :: "cs_world \<Rightarrow> cs_state \<Rightarrow> bool" where
  "baseInv w cs \<longleftrightarrow> 0 \<le> rsRound cs \<and> chain_inv (csState cs) \<and> stChainID (csState cs) = wChain w \<and>
     rsHeight cs = nextHeight (csState cs) \<and> hv_inv (wCrypto w) (rsVotes cs) \<and> hvHeight (rsVotes cs) = rsHeight cs \<and>
     hvChainID (rsVotes cs) = wChain w \<and> stValidators (csState cs) = Some (hvValSet (rsVotes cs)) \<and>
     Validators (hvValSet (rsVotes cs)) = wVals w (rsHeight cs) \<and> hvRound (rsVotes cs) \<le> rsRound cs + 1 \<and>
     hvVotes (rsVotes cs) \<subseteq> wVotes w \<and> (rsStep cs = RoundStepCommit \<longrightarrow> 0 \<le> rsCommitRound cs) \<and>
     (\<forall>ti \<in> set (csTimeouts cs). tiHeight ti < rsHeight cs \<or> tiHeight ti = rsHeight cs \<and> tiRound ti \<le> rsRound cs)"

definition lockInv :: "cs_world \<Rightarrow> cs_state \<Rightarrow> bool" where
  "lockInv w cs \<longleftrightarrow>
     (case rsLockedBlock cs of
        None \<Rightarrow> rsLockedRound cs = -1
      | Some b \<Rightarrow> 0 \<le> rsLockedRound cs \<and> rsLockedRound cs \<le> rsRound cs \<and>
          (rsLockedRound cs = rsRound cs \<longrightarrow> RoundStepPrecommit \<le> rsStep cs) \<and> blockHash w b \<noteq> [] \<and>
          (\<exists>bid. polka cs (rsLockedRound cs) bid \<and> bidHash bid = blockHash w b))"

text \<open>A precommit for a block holds the lock: the node is still locked on that block since that round, or has seen a polka
  for something else in a later round.\<close>

definition held :: "cs_world \<Rightarrow> cs_state \<Rightarrow> int \<Rightarrow> bytes \<Rightarrow> bool" where
  "held w cs r h \<longleftrightarrow>
     (\<exists>b. rsLockedBlock cs = Some b \<and> blockHash w b = h \<and> r \<le> rsLockedRound cs) \<or>
     (\<exists>k bid. polka cs k bid \<and> bidHash bid \<noteq> h \<and> r < k \<and> k \<le> rsRound cs)"

definition placed :: "cs_state \<Rightarrow> vote \<Rightarrow> bool" where
  "placed cs v \<longleftrightarrow> (vType v = PrevoteType \<or> vType v = PrecommitType) \<and> vHeight v \<le> rsHeight cs \<and>
     (vHeight v = rsHeight cs \<longrightarrow> vRound v < rsRound cs \<or> vRound v = rsRound cs \<and> stepOf (vType v) \<le> rsStep cs)"

definition released :: "cs_world \<Rightarrow> int \<Rightarrow> int \<Rightarrow> int \<Rightarrow> bytes \<Rightarrow> bool" where
  "released w h r r' hash \<longleftrightarrow> (\<exists>k bid. quorumFor w PrevoteType h k bid \<and> bidHash bid \<noteq> hash \<and> r < k \<and> k \<le> r')"

definition sentInv :: "cs_world \<Rightarrow> cs_state \<Rightarrow> bool" where
  "sentInv w cs \<longleftrightarrow>
     (\<forall>v \<in> sent cs. placed cs v) \<and>
     (\<forall>v \<in> sent cs. \<forall>u \<in> sent cs. vHeight v = vHeight u \<longrightarrow> vRound v = vRound u \<longrightarrow> vType v = vType u \<longrightarrow> v = u) \<and>
     (\<forall>u \<in> sent cs. vType u = PrecommitType \<longrightarrow> voteHash u \<noteq> [] \<longrightarrow>
        (\<exists>bid. quorumFor w PrevoteType (vHeight u) (vRound u) bid \<and> bidHash bid = voteHash u) \<and>
        (vHeight u = rsHeight cs \<longrightarrow> held w cs (vRound u) (voteHash u))) \<and>
     (\<forall>v \<in> sent cs. \<forall>u \<in> sent cs. vType v = PrevoteType \<longrightarrow> vType u = PrecommitType \<longrightarrow> voteHash u \<noteq> [] \<longrightarrow>
        vHeight v = vHeight u \<longrightarrow> vRound u < vRound v \<longrightarrow> voteHash v \<noteq> voteHash u \<longrightarrow>
        released w (vHeight u) (vRound u) (vRound v) (voteHash u))"

definition cs_inv :: "cs_world \<Rightarrow> cs_state \<Rightarrow> bool" where
  "cs_inv w cs \<longleftrightarrow> baseInv w cs \<and> lockInv w cs \<and> sentInv w cs"

section \<open>Transitions within a height\<close>

definition notBefore :: "cs_state \<Rightarrow> cs_state \<Rightarrow> bool" where
  "notBefore cs cs' \<longleftrightarrow> rsRound cs < rsRound cs' \<or> rsRound cs = rsRound cs' \<and> rsStep cs \<le> rsStep cs'"

text \<open>The lock rule: a locked block stays locked, or a polka for something else was seen in a later round.\<close>

definition lockRule :: "cs_world \<Rightarrow> cs_state \<Rightarrow> cs_state \<Rightarrow> bool" where
  "lockRule w cs cs' \<longleftrightarrow>
     (\<forall>b. rsLockedBlock cs = Some b \<longrightarrow> held w cs' (rsLockedRound cs) (blockHash w b))"

definition still :: "cs_world \<Rightarrow> cs_state \<Rightarrow> cs_state \<Rightarrow> bool" where
  "still w cs cs' \<longleftrightarrow> rsHeight cs' = rsHeight cs \<and> csState cs' = csState cs \<and> notBefore cs cs' \<and>
     hvGrows (wVotes w) (rsVotes cs) (rsVotes cs') \<and> lockRule w cs cs'"

definition lockStep :: "cs_world \<Rightarrow> cs_state \<Rightarrow> cs_state \<Rightarrow> bool" where
  "lockStep w cs cs' \<longleftrightarrow>
     rsLockedBlock cs' = rsLockedBlock cs \<and> rsLockedRound cs' = rsLockedRound cs \<or>
     rsLockedBlock cs' = None \<and> rsLockedRound cs' = -1 \<and>
       (\<forall>b. rsLockedBlock cs = Some b \<longrightarrow>
          (\<exists>k bid. polka cs' k bid \<and> bidHash bid \<noteq> blockHash w b \<and> rsLockedRound cs < k \<and> k \<le> rsRound cs')) \<or>
     (\<exists>b bid. rsLockedBlock cs' = Some b \<and> rsLockedRound cs' = rsRound cs' \<and> RoundStepPrecommit \<le> rsStep cs' \<and>
        polka cs' (rsRound cs') bid \<and> bidHash bid = blockHash w b \<and> blockHash w b \<noteq> [] \<and>
        (rsLockedBlock cs \<noteq> None \<longrightarrow> rsLockedRound cs < rsRound cs'))"

definition sentStep :: "cs_world \<Rightarrow> cs_state \<Rightarrow> cs_state \<Rightarrow> bool" where
  "sentStep w cs cs' \<longleftrightarrow> sent cs' = sent cs \<or>
     (\<exists>v. sent cs' = insert v (sent cs) \<and> vHeight v = rsHeight cs \<and> vRound v = rsRound cs' \<and>
        (rsRound cs < rsRound cs' \<or> rsStep cs < stepOf (vType v)) \<and> stepOf (vType v) \<le> rsStep cs' \<and>
        (vType v = PrevoteType \<and> rsLockedBlock cs' = rsLockedBlock cs \<and> rsLockedRound cs' = rsLockedRound cs \<and>
           (\<forall>b. rsLockedBlock cs = Some b \<longrightarrow> voteHash v = blockHash w b) \<or>
         vType v = PrecommitType \<and>
           (voteHash v \<noteq> [] \<longrightarrow> (\<exists>b. rsLockedBlock cs' = Some b \<and> rsLockedRound cs' = rsRound cs' \<and> blockHash w b = voteHash v))))"

definition advance :: "cs_world \<Rightarrow> cs_state \<Rightarrow> cs_state \<Rightarrow> bool" where
  "advance w cs cs' \<longleftrightarrow> rsHeight cs' = rsHeight cs \<and> csState cs' = csState cs \<and> notBefore cs cs' \<and>
     hvGrows (wVotes w) (rsVotes cs) (rsVotes cs') \<and> hv_inv (wCrypto w) (rsVotes cs') \<and> hvRound (rsVotes cs') \<le> rsRound cs' + 1 \<and>
     (rsStep cs' = RoundStepCommit \<longrightarrow> 0 \<le> rsCommitRound cs') \<and>
     (\<forall>ti \<in> set (csTimeouts cs'). ti \<in> set (csTimeouts cs) \<or> tiHeight ti = rsHeight cs \<and> tiRound ti \<le> rsRound cs') \<and>
     lockStep w cs cs' \<and> sentStep w cs cs'"

section \<open>Majorities\<close>

lemma polka_grows: "polka cs r bid \<Longrightarrow> hvGrows K (rsVotes cs) (rsVotes cs') \<Longrightarrow> polka cs' r bid"
proof -
  assume "polka cs r bid" and g: "hvGrows K (rsVotes cs) (rsVotes cs')"
  then obtain x where x: "hvSets (rsVotes cs) r = Some x" "vsMaj23 (Prevotes x) = Some bid" by (auto simp: polka_def)
  then obtain y where "hvSets (rsVotes cs') r = Some y" "keeps (Prevotes x) (Prevotes y)"
    using g unfolding hvGrows_def by blast
  then show ?thesis using x by (auto simp: polka_def keeps_def)
qed

lemma majority_quorum:
  assumes "baseInv w cs" and "hvSets (rsVotes cs) r = Some rvs" and "s = Prevotes rvs \<and> t = PrevoteType \<or> s = Precommits rvs \<and> t = PrecommitType"
    and "vsMaj23 s = Some bid"
  shows "quorumFor w t (rsHeight cs) r bid"
proof -
  let ?h = "rsVotes cs" and ?vs = "wVals w (rsHeight cs)"
  have inv: "hv_inv (wCrypto w) ?h" "hvHeight ?h = rsHeight cs" "hvChainID ?h = wChain w"
    "Validators (hvValSet ?h) = ?vs" "hvVotes ?h \<subseteq> wVotes w"
    using assms(1) by (auto simp: baseInv_def)
  have "roundOkAt (wCrypto w) ?h r rvs" using inv(1) assms(2) unfolding hv_inv_def by blast
  then have s: "setFor (wCrypto w) (wChain w) (rsHeight cs) r t ?vs s"
    using assms(3) inv(2-4) by (auto simp: roundOkAt_def)
  then have vs: "vs_inv (wCrypto w) s" "Validators (vsValSet s) = ?vs" by (simp_all add: setFor_def)
  let ?I = "votersFor (wCrypto w) s bid"
  have "\<exists>v \<in> wVotes w. genuine w t (rsHeight cs) r bid i v" if i: "i \<in> ?I" for i
  proof -
    obtain v where v: "i < length ?vs" "vsVotes s ! i = Some v" "vBlockID v = bid" "okVote (wCrypto w) s i v"
      using i vs(2) by (auto simp: votersFor_def)
    have "length (vsVotes s) = length ?vs" using vs by (simp add: vs_inv_def okPrimary_def)
    then have "Some v \<in> set (vsVotes s)" using v(1,2) by (metis nth_mem)
    then have "v \<in> votesIn s" by (simp add: votesIn_def)
    then have "v \<in> wVotes w" using inv(5) assms(2,3) by (auto simp: hvVotes_def)
    then show ?thesis using v s by (auto simp: genuine_def okVote_def setFor_def)
  qed
  moreover have "?I \<subseteq> {..<length ?vs}" using vs(2) by (auto simp: votersFor_def)
  moreover have "2 * sumPower ?vs < 3 * (\<Sum>i \<in> ?I. VotingPower (?vs ! i))" using maj_quorum [OF vs(1) assms(4)] vs(2) by simp
  ultimately show ?thesis unfolding quorumFor_def by blast
qed

lemma polka_quorum: "baseInv w cs \<Longrightarrow> polka cs r bid \<Longrightarrow> quorumFor w PrevoteType (rsHeight cs) r bid"
  unfolding polka_def using majority_quorum [of w cs r _ _ PrevoteType bid] by blast

section \<open>A transition keeps the invariant\<close>

lemma notBefore_refl [simp]: "notBefore cs cs"
  by (simp add: notBefore_def)

lemma notBefore_trans: "notBefore a b \<Longrightarrow> notBefore b c \<Longrightarrow> notBefore a c"
  by (auto simp: notBefore_def)

lemma held_grows:
  assumes "held w cs r h" and "notBefore cs cs'" and "hvGrows K (rsVotes cs) (rsVotes cs')" and "lockRule w cs cs'"
  shows "held w cs' r h"
proof (cases "\<exists>b. rsLockedBlock cs = Some b \<and> blockHash w b = h \<and> r \<le> rsLockedRound cs")
  case True
  then obtain b where b: "rsLockedBlock cs = Some b" "blockHash w b = h" "r \<le> rsLockedRound cs" by blast
  then have "held w cs' (rsLockedRound cs) h" using assms(4) by (auto simp: lockRule_def)
  then show ?thesis
    unfolding held_def using b(3) by (elim disjE exE conjE) (use order_trans order_le_less_trans in blast)+
next
  case False
  then obtain k bid where "polka cs k bid" "bidHash bid \<noteq> h" "r < k" "k \<le> rsRound cs"
    using assms(1) unfolding held_def by blast
  then have "polka cs' k bid \<and> bidHash bid \<noteq> h \<and> r < k \<and> k \<le> rsRound cs'"
    using polka_grows [OF _ assms(3)] assms(2) by (auto simp: notBefore_def)
  then show ?thesis unfolding held_def by blast
qed

lemma still_refl [simp]: "still w cs cs"
  by (auto simp: still_def lockRule_def held_def)

lemma still_trans: "still w a b \<Longrightarrow> still w b c \<Longrightarrow> still w a c"
proof -
  assume ab: "still w a b" and bc: "still w b c"
  have "lockRule w a c"
    unfolding lockRule_def
  proof (intro allI impI)
    fix x assume "rsLockedBlock a = Some x"
    then have "held w b (rsLockedRound a) (blockHash w x)" using ab by (auto simp: still_def lockRule_def)
    then show "held w c (rsLockedRound a) (blockHash w x)" using held_grows bc by (auto simp: still_def)
  qed
  then show ?thesis using ab bc notBefore_trans hvGrows_trans unfolding still_def by metis
qed

lemma advance_base:
  assumes b: "baseInv w cs" and a: "advance w cs cs'"
  shows "baseInv w cs'"
proof -
  have r: "rsRound cs \<le> rsRound cs'" and h: "rsHeight cs' = rsHeight cs" "csState cs' = csState cs"
    using a by (auto simp: advance_def notBefore_def)
  have v: "hvVotes (rsVotes cs') \<subseteq> wVotes w" "hvHeight (rsVotes cs') = hvHeight (rsVotes cs)"
    "hvChainID (rsVotes cs') = hvChainID (rsVotes cs)" "hvValSet (rsVotes cs') = hvValSet (rsVotes cs)"
    using a b unfolding advance_def baseInv_def hvGrows_def by blast+
  have t: "\<forall>ti \<in> set (csTimeouts cs'). tiHeight ti < rsHeight cs \<or> tiHeight ti = rsHeight cs \<and> tiRound ti \<le> rsRound cs'"
    using a b r unfolding advance_def baseInv_def by (meson order_trans)
  show ?thesis using b a r h v t unfolding advance_def baseInv_def by simp
qed

lemma lockStep_rule:
  assumes "lockStep w cs cs'"
  shows "lockRule w cs cs'"
  unfolding lockRule_def
proof (intro allI impI)
  fix b assume b: "rsLockedBlock cs = Some b"
  show "held w cs' (rsLockedRound cs) (blockHash w b)"
    using assms b unfolding lockStep_def held_def by (cases "rsLockedBlock cs'") fastforce+
qed

lemma advance_lock:
  assumes "lockInv w cs" and "0 \<le> rsRound cs" and "advance w cs cs'"
  shows "lockInv w cs'"
proof -
  have nb: "notBefore cs cs'" and g: "hvGrows (wVotes w) (rsVotes cs) (rsVotes cs')" and l: "lockStep w cs cs'"
    using assms(3) by (auto simp: advance_def)
  show ?thesis
  proof (cases "rsLockedBlock cs' = rsLockedBlock cs \<and> rsLockedRound cs' = rsLockedRound cs")
    case True
    then show ?thesis using assms(1) nb polka_grows [OF _ g]
      by (fastforce simp: lockInv_def notBefore_def split: option.splits)
  next
    case False
    moreover have "0 \<le> rsRound cs'" using nb assms(2) by (auto simp: notBefore_def)
    ultimately show ?thesis using l by (auto simp: lockStep_def lockInv_def split: option.splits)
  qed
qed

lemma advance_still: "advance w cs cs' \<Longrightarrow> still w cs cs'"
  using lockStep_rule by (auto simp: advance_def still_def)

lemma advance_base_lock: "cs_inv w cs \<Longrightarrow> advance w cs cs' \<Longrightarrow> baseInv w cs' \<and> lockInv w cs'"
proof -
  assume "cs_inv w cs" and a: "advance w cs cs'"
  then have "baseInv w cs" "lockInv w cs" "0 \<le> rsRound cs" by (auto simp: cs_inv_def baseInv_def)
  then show ?thesis using advance_base advance_lock a by blast
qed

text \<open>The node is still bound by what it sent before.\<close>

lemma old_sent:
  assumes a: "advance w cs cs'" and inv: "cs_inv w cs" and "v \<in> sent cs"
  shows "placed cs' v"
    and "vType v = PrecommitType \<Longrightarrow> voteHash v \<noteq> [] \<Longrightarrow> vHeight v = rsHeight cs' \<Longrightarrow> held w cs' (vRound v) (voteHash v)"
proof -
  have s: "still w cs cs'" by (rule advance_still [OF a])
  have p: "placed cs v" using inv assms(3) by (auto simp: cs_inv_def sentInv_def)
  then show "placed cs' v" using s by (auto simp: placed_def still_def notBefore_def)
  assume "vType v = PrecommitType" "voteHash v \<noteq> []" "vHeight v = rsHeight cs'"
  then have "held w cs (vRound v) (voteHash v)" using inv assms(3) s by (auto simp: cs_inv_def sentInv_def still_def)
  then show "held w cs' (vRound v) (voteHash v)" using held_grows s unfolding still_def by blast
qed

lemma new_prevote:
  assumes inv: "cs_inv w cs" and base: "baseInv w cs'" and s: "still w cs cs'" and "u \<in> sent cs" and "vType u = PrecommitType"
    and "voteHash u \<noteq> []" and h: "vHeight u = rsHeight cs" and "hash \<noteq> voteHash u"
    and locked: "\<And>b. rsLockedBlock cs = Some b \<Longrightarrow> hash = blockHash w b"
  shows "released w (vHeight u) (vRound u) (rsRound cs') (voteHash u)"
proof -
  have "held w cs (vRound u) (voteHash u)" using inv assms(4-7) by (auto simp: cs_inv_def sentInv_def)
  then obtain k bid where k: "polka cs k bid" "bidHash bid \<noteq> voteHash u" "vRound u < k" "k \<le> rsRound cs"
    unfolding held_def using locked assms(8) by blast
  then have "polka cs' k bid" using polka_grows s unfolding still_def by blast
  then have "quorumFor w PrevoteType (vHeight u) k bid" using polka_quorum [OF base] h s by (auto simp: still_def)
  moreover have "k \<le> rsRound cs'" using k(4) s by (auto simp: still_def notBefore_def)
  ultimately show ?thesis using k(2,3) unfolding released_def by blast
qed

lemma advance_sent:
  assumes inv: "cs_inv w cs" and a: "advance w cs cs'"
  shows "sentInv w cs'"
proof -
  have base: "baseInv w cs'" and lock: "lockInv w cs'"
    using advance_base_lock [OF inv a] by blast+
  note s = advance_still [OF a] and old = old_sent [OF a inv]
  have h: "rsHeight cs' = rsHeight cs" using s by (simp add: still_def)
  have sv: "sentInv w cs" using inv by (simp add: cs_inv_def)
  consider "sent cs' = sent cs" | v where "sent cs' = insert v (sent cs)" "vHeight v = rsHeight cs" "vRound v = rsRound cs'"
      "rsRound cs < rsRound cs' \<or> rsStep cs < stepOf (vType v)" "stepOf (vType v) \<le> rsStep cs'"
      "vType v = PrevoteType \<and> (\<forall>b. rsLockedBlock cs = Some b \<longrightarrow> voteHash v = blockHash w b) \<or>
       vType v = PrecommitType \<and>
         (voteHash v \<noteq> [] \<longrightarrow> (\<exists>b. rsLockedBlock cs' = Some b \<and> rsLockedRound cs' = rsRound cs' \<and> blockHash w b = voteHash v))"
    using a unfolding advance_def sentStep_def by blast
  then show ?thesis
  proof cases
    case 1
    then show ?thesis using sv old unfolding sentInv_def by blast
  next
    case (2 v)
    have before: "vHeight u = vHeight v \<Longrightarrow> vRound u \<le> vRound v \<and> (vType u = vType v \<longrightarrow> vRound u \<noteq> vRound v)" if "u \<in> sent cs" for u
    proof -
      have "placed cs u" using sv that by (auto simp: sentInv_def)
      then show "vHeight u = vHeight v \<Longrightarrow> vRound u \<le> vRound v \<and> (vType u = vType v \<longrightarrow> vRound u \<noteq> vRound v)"
        using 2(2,3,4) s by (auto simp: placed_def still_def notBefore_def)
    qed
    have new: "placed cs' v" using 2 h by (auto simp: placed_def)
    have pc: "(\<exists>bid. quorumFor w PrevoteType (vHeight v) (vRound v) bid \<and> bidHash bid = voteHash v) \<and> held w cs' (vRound v) (voteHash v)"
      if t: "vType v = PrecommitType" "voteHash v \<noteq> []"
    proof -
      obtain b where b: "rsLockedBlock cs' = Some b" "rsLockedRound cs' = rsRound cs'" "blockHash w b = voteHash v"
        using 2(6) t by auto
      then obtain bid where "polka cs' (rsRound cs') bid" "bidHash bid = voteHash v" using lock by (auto simp: lockInv_def)
      then show ?thesis using polka_quorum [OF base] 2(2,3) h b by (auto simp: held_def)
    qed
    have rel: "released w (vHeight u) (vRound u) (vRound v) (voteHash u)"
      if u: "u \<in> sent cs" "vType v = PrevoteType" "vType u = PrecommitType" "voteHash u \<noteq> []" "vHeight v = vHeight u" "voteHash v \<noteq> voteHash u" for u
      using new_prevote [OF inv base s u(1,3,4) _ u(6)] u(2,5) 2(2,3,6) by auto
    show ?thesis
      unfolding sentInv_def 2(1)
    proof (intro conjI)
      show "\<forall>u \<in> insert v (sent cs). placed cs' u" using new old(1) by blast
      show "\<forall>x \<in> insert v (sent cs). \<forall>u \<in> insert v (sent cs). vHeight x = vHeight u \<longrightarrow> vRound x = vRound u \<longrightarrow> vType x = vType u \<longrightarrow> x = u"
        using before sv unfolding sentInv_def by (metis insert_iff)
      show "\<forall>u \<in> insert v (sent cs). vType u = PrecommitType \<longrightarrow> voteHash u \<noteq> [] \<longrightarrow>
        (\<exists>bid. quorumFor w PrevoteType (vHeight u) (vRound u) bid \<and> bidHash bid = voteHash u) \<and>
        (vHeight u = rsHeight cs' \<longrightarrow> held w cs' (vRound u) (voteHash u))"
        using pc old(2) sv unfolding sentInv_def by blast
      show "\<forall>x \<in> insert v (sent cs). \<forall>u \<in> insert v (sent cs). vType x = PrevoteType \<longrightarrow> vType u = PrecommitType \<longrightarrow> voteHash u \<noteq> [] \<longrightarrow>
        vHeight x = vHeight u \<longrightarrow> vRound u < vRound x \<longrightarrow> voteHash x \<noteq> voteHash u \<longrightarrow>
        released w (vHeight u) (vRound u) (vRound x) (voteHash u)"
        using rel before sv unfolding sentInv_def by (metis insert_iff linorder_not_less)
    qed
  qed
qed

text \<open>What one transition of a handler keeps.\<close>

lemma advance_inv: "cs_inv w cs \<Longrightarrow> advance w cs cs' \<Longrightarrow> cs_inv w cs' \<and> still w cs cs'"
  using advance_base_lock advance_sent advance_still unfolding cs_inv_def by blast

end
