(* ===== verification/ConsensusSafety.thy ===== *)
theory ConsensusSafety
  imports ConsensusInvariant
begin

text \<open>
  The handlers of the consensus state machine make only transitions that keep the invariant of
  \<open>ConsensusInvariant\<close>: within a height the node stays bound by its lock and by the votes it sent, and it leaves
  a height only for the next one, with the block that it stored justified by a commit.
\<close>

definition fits :: "cs_world \<Rightarrow> cs_env \<Rightarrow> bool" where
  "fits w env \<longleftrightarrow> ceCrypto env = wCrypto w \<and> ceBlock env = wBlock w \<and> sizesOk (wCrypto w) (wBlock w) \<and>
     (\<forall>h. int (length (wVals w h)) \<le> MaxInt32)"

section \<open>Results of runs\<close>

text \<open>Every result of a run that does not panic has a property.\<close>

definition ensures :: "('a \<Rightarrow> bool) \<Rightarrow> 'e + 'a \<Rightarrow> bool" where
  "ensures Q m \<longleftrightarrow> (\<forall>x. m = Inr x \<longrightarrow> Q x)"

named_theorems ensure

lemma ensures_Inr [ensure]: "Q x \<Longrightarrow> ensures Q (Inr x)"
  by (simp add: ensures_def)

lemma ensures_Inl [ensure]: "ensures Q (Inl e)"
  by (simp add: ensures_def)

lemma ensures_if [ensure]: "(b \<Longrightarrow> ensures Q m) \<Longrightarrow> (\<not> b \<Longrightarrow> ensures Q n) \<Longrightarrow> ensures Q (if b then m else n)"
  by (simp add: ensures_def)

lemma ensures_bind [ensure]: "(\<And>x. m = Inr x \<Longrightarrow> ensures Q (f x)) \<Longrightarrow> ensures Q (bindR m f)"
  by (auto simp: ensures_def bindR_Inr_iff)

lemma ensures_option [ensure]:
  "(p = None \<Longrightarrow> ensures Q m) \<Longrightarrow> (\<And>x. p = Some x \<Longrightarrow> ensures Q (f x)) \<Longrightarrow> ensures Q (case p of None \<Rightarrow> m | Some x \<Rightarrow> f x)"
  by (cases p) simp_all

lemma ensures_seq: "ensures P m \<Longrightarrow> (\<And>x. P x \<Longrightarrow> ensures Q (f x)) \<Longrightarrow> ensures Q (bindR m f)"
  by (auto simp: ensures_def bindR_Inr_iff)

lemma ensuresD: "ensures Q m \<Longrightarrow> m = Inr x \<Longrightarrow> Q x"
  by (simp add: ensures_def)

lemma ensuresI: "(\<And>x. m = Inr x \<Longrightarrow> Q x) \<Longrightarrow> ensures Q m"
  by (simp add: ensures_def)

section \<open>What the small operations change\<close>

definition core ::
  "cs_state \<Rightarrow> (int \<times> int \<times> int) \<times> (int \<times> block option) \<times> height_vote_set \<times> int \<times> chain_state \<times> timeoutInfo list \<times> block_store" where
  "core cs = ((rsHeight cs, rsRound cs, rsStep cs), (rsLockedRound cs, rsLockedBlock cs), rsVotes cs, rsCommitRound cs,
     csState cs, csTimeouts cs, csStore cs)"

lemma core_fields:
  assumes "core c = core cs"
  shows "rsHeight c = rsHeight cs" and "rsRound c = rsRound cs" and "rsStep c = rsStep cs" and "rsLockedRound c = rsLockedRound cs"
    and "rsLockedBlock c = rsLockedBlock cs" and "rsVotes c = rsVotes cs" and "rsCommitRound c = rsCommitRound cs"
    and "csState c = csState cs" and "csTimeouts c = csTimeouts cs" and "csStore c = csStore cs"
  using assms by (simp_all add: core_def)

text \<open>A vote that was sent for the height and round of the state.\<close>

definition sends :: "cs_state \<Rightarrow> SignedMsgType \<Rightarrow> bytes \<Rightarrow> cs_state \<Rightarrow> bool" where
  "sends cs t hash cs' \<longleftrightarrow> sent cs' = sent cs \<or>
     (\<exists>v. sent cs' = insert v (sent cs) \<and> vType v = t \<and> vHeight v = rsHeight cs \<and> vRound v = rsRound cs \<and> voteHash v = hash)"

lemma sent_internal [simp]:
  "sent (sendInternalMessage (VoteMessage v) cs) = insert v (sent cs)"
  "sent (sendInternalMessage (ProposalMessage p) cs) = sent cs"
  "sent (sendInternalMessage (BlockPartMessage h r q) cs) = sent cs"
  by (auto simp: sent_def sendInternalMessage_def)

lemma core_internal [simp]: "core (sendInternalMessage m cs) = core cs"
  by (simp add: core_def sendInternalMessage_def)

lemma keepsPV [simp]: "core (cs\<lparr>csPV := pv\<rparr>) = core cs" "sent (cs\<lparr>csPV := pv\<rparr>) = sent cs"
  by (simp_all add: core_def sent_def)

lemma cs_signVote_effect:
  assumes "cs_signVote env cs t hash hdr = Inr (c, r)"
  shows "core c = core cs" and "sent c = sent cs"
    and "r = Some v \<Longrightarrow> vType v = t \<and> vHeight v = rsHeight cs \<and> vRound v = rsRound cs \<and> voteHash v = hash"
proof -
  consider "c = cs" "r = None"
    | pv u where "c = cs\<lparr>csPV := Some pv\<rparr>" "r = Some u" "vType u = t" "vHeight u = rsHeight cs" "vRound u = rsRound cs" "voteHash u = hash"
  proof (cases "ceFlushOk env \<and> csPubKey cs \<noteq> None \<and> csPV cs \<noteq> None")
    case False
    then show ?thesis using assms that(1) by (auto simp: cs_signVote_def split: if_splits option.splits)
  next
    case True
    then obtain pk pv where k: "ceFlushOk env" "csPubKey cs = Some pk" "csPV cs = Some pv" by auto
    let ?addr = "pkAddress (ceCrypto env) pk"
    let ?v = "\<lparr>vType = t, vHeight = rsHeight cs, vRound = rsRound cs, vBlockID = \<lparr>bidHash = hash, bidParts = hdr\<rparr>,
      vTimestamp = voteTime env cs, vAddress = ?addr, vIndex = fst (GetByAddress (rsValidators cs) ?addr), vSignature = []\<rparr>"
    have r: "(case signVote (ceCrypto env) (cePV env) pv (stChainID (csState cs)) ?v of
        Inl (Panic p) \<Rightarrow> Inl (Panic p) | Inl (Err _) \<Rightarrow> Inr (cs, None)
      | Inr (pv', u) \<Rightarrow> Inr (cs\<lparr>csPV := Some pv'\<rparr>, Some (?v\<lparr>vSignature := vSignature u\<rparr>))) = (Inr (c, r) :: unit fault + _)"
      using assms by (simp add: cs_signVote_def k Let_def split_beta)
    show ?thesis
    proof (cases "signVote (ceCrypto env) (cePV env) pv (stChainID (csState cs)) ?v")
      case (Inl e)
      then show ?thesis using r that(1) by (cases e) simp_all
    next
      case (Inr q)
      then show ?thesis using r that(2) [of "fst q" "?v\<lparr>vSignature := vSignature (snd q)\<rparr>"]
        by (cases q) (simp add: voteHash_def)
    qed
  qed
  then have "core c = core cs \<and> sent c = sent cs \<and>
      (r = Some v \<longrightarrow> vType v = t \<and> vHeight v = rsHeight cs \<and> vRound v = rsRound cs \<and> voteHash v = hash)"
    by cases auto
  then show "core c = core cs" "sent c = sent cs"
    "r = Some v \<Longrightarrow> vType v = t \<and> vHeight v = rsHeight cs \<and> vRound v = rsRound cs \<and> voteHash v = hash" by simp_all
qed

lemma signAddVote_effect:
  assumes "signAddVote env t hash hdr cs = Inr cs'"
  shows "core cs' = core cs" and "sends cs t hash cs'"
proof -
  consider "cs' = cs" | c r where "cs_signVote env cs t hash hdr = Inr (c, r)"
      "cs' = (case r of None \<Rightarrow> c | Some v \<Rightarrow> sendInternalMessage (VoteMessage v) c)"
  proof (cases "bindR (cs_signVote env cs t hash hdr) (\<lambda>(cs', vote).
        case vote of None \<Rightarrow> Inr cs' | Some v \<Rightarrow> Inr (sendInternalMessage (VoteMessage v) cs')) = Inr cs'")
    case True
    then show ?thesis using that(2) by (elim bindR_InrE) (simp split: prod.splits option.splits)
  next
    case False
    then show ?thesis using assms that(1) by (simp add: signAddVote_def split: option.splits if_splits)
  qed
  then have "core cs' = core cs \<and> sends cs t hash cs'"
  proof cases
    case (2 c r)
    then show ?thesis using cs_signVote_effect [OF 2(1)] by (cases r) (auto simp: sends_def)
  qed (simp add: sends_def)
  then show "core cs' = core cs" "sends cs t hash cs'" by simp_all
qed

lemma sendParts_effect:
  "sendParts ps is cs = Inr cs' \<Longrightarrow> core cs' = core cs \<and> sent cs' = sent cs"
proof (induction ps "is" cs rule: sendParts.induct)
  case (2 ps i rest cs)
  then obtain q where "sendParts ps rest (sendInternalMessage (BlockPartMessage (rsHeight cs) (rsRound cs) q) cs) = Inr cs'"
    and "GetPart ps (int i) = (Inr (Some q) :: unit fault + _)"
    by (auto split: option.splits elim!: bindR_InrE)
  then show ?case using "2.IH" by auto
qed simp

lemma signAndSend_effect:
  assumes "signAndSend env h r b ps cs = Inr cs'"
  shows "core cs' = core cs \<and> sent cs' = sent cs"
proof -
  obtain pv where pv: "csPV cs = Some pv" using assms by (auto simp: signAndSend_def split: option.splits)
  let ?p = "NewProposal (ceNow env) h r (rsValidRound cs) \<lparr>bidHash = Block_Hash (ceBlock env) (Some b), bidParts = PS_Header (Some ps)\<rparr>"
  show ?thesis
  proof (cases "signProposal (ceCrypto env) (cePV env) pv (stChainID (csState cs)) ?p")
    case (Inl e)
    then show ?thesis using assms pv by (cases e) (simp_all add: signAndSend_def)
  next
    case (Inr q)
    then have "sendParts ps [0..<unat (PS_Total (Some ps))]
        (sendInternalMessage (ProposalMessage (?p\<lparr>prSignature := prSignature (snd q)\<rparr>)) (cs\<lparr>csPV := Some (fst q)\<rparr>)) = Inr cs'"
      using assms pv by (simp add: signAndSend_def Let_def split_beta)
    from sendParts_effect [OF this] show ?thesis by simp
  qed
qed

lemma defaultDecideProposal_effect:
  assumes "defaultDecideProposal env h r cs = Inr cs'"
  shows "core cs' = core cs \<and> sent cs' = sent cs"
proof -
  obtain choice where "(case choice of None \<Rightarrow> Inr cs | Some (b, ps) \<Rightarrow> signAndSend env h r b ps cs) = (Inr cs' :: cs_run)"
    using assms unfolding defaultDecideProposal_def by (elim bindR_InrE)
  then show ?thesis using signAndSend_effect by (auto split: option.splits)
qed

section \<open>Steps within a height\<close>

text \<open>A step that leaves the received votes as they are.\<close>

lemma advance_local:
  assumes "baseInv w cs" and "rsHeight cs' = rsHeight cs" and "csState cs' = csState cs" and "rsVotes cs' = rsVotes cs"
    and "notBefore cs cs'" and "rsStep cs' = RoundStepCommit \<longrightarrow> 0 \<le> rsCommitRound cs'"
    and "\<forall>ti \<in> set (csTimeouts cs'). ti \<in> set (csTimeouts cs) \<or> tiHeight ti = rsHeight cs \<and> tiRound ti \<le> rsRound cs'"
    and "lockStep w cs cs'" and "sentStep w cs cs'"
  shows "advance w cs cs'"
  using assms unfolding advance_def by (auto simp: baseInv_def notBefore_def)

lemma lockStep_same: "rsLockedBlock cs' = rsLockedBlock cs \<Longrightarrow> rsLockedRound cs' = rsLockedRound cs \<Longrightarrow> lockStep w cs cs'"
  by (simp add: lockStep_def)

lemma sentStep_same: "sent cs' = sent cs \<Longrightarrow> sentStep w cs cs'"
  by (simp add: sentStep_def)

text \<open>New votes are for a point not before the state.\<close>

definition fresh :: "cs_state \<Rightarrow> cs_state \<Rightarrow> bool" where
  "fresh cs cs' \<longleftrightarrow> sent cs \<subseteq> sent cs' \<and>
     (\<forall>v \<in> sent cs' - sent cs. rsHeight cs < vHeight v \<or> rsHeight cs = vHeight v \<and> rsRound cs \<le> vRound v)"

definition notEarlier :: "cs_state \<Rightarrow> cs_state \<Rightarrow> bool" where
  "notEarlier cs cs' \<longleftrightarrow> rsHeight cs < rsHeight cs' \<or> rsHeight cs = rsHeight cs' \<and> rsRound cs \<le> rsRound cs'"

lemma fresh_same: "sent cs' = sent cs \<Longrightarrow> fresh cs cs'"
  by (simp add: fresh_def)

lemma fresh_trans:
  assumes ab: "fresh a b" "notEarlier a b" and bc: "fresh b c"
  shows "fresh a c"
  unfolding fresh_def
proof (intro conjI ballI)
  show "sent a \<subseteq> sent c" using ab(1) bc by (auto simp: fresh_def)
  fix v assume "v \<in> sent c - sent a"
  then consider "v \<in> sent b - sent a" | "v \<in> sent c - sent b" by blast
  then show "rsHeight a < vHeight v \<or> rsHeight a = vHeight v \<and> rsRound a \<le> vRound v"
    using ab bc by cases (force simp: fresh_def notEarlier_def)+
qed

lemma advance_fresh: "advance w cs cs' \<Longrightarrow> fresh cs cs'"
  by (auto simp: advance_def sentStep_def fresh_def notBefore_def)

lemma still_notEarlier: "still w cs cs' \<Longrightarrow> notEarlier cs cs'"
  by (auto simp: still_def notBefore_def notEarlier_def)

definition stay :: "cs_world \<Rightarrow> cs_state \<Rightarrow> cs_state \<Rightarrow> bool" where
  "stay w cs cs' \<longleftrightarrow> cs_inv w cs' \<and> still w cs cs' \<and> csStore cs' = csStore cs \<and> fresh cs cs'"

lemma stay_refl: "cs_inv w cs \<Longrightarrow> stay w cs cs"
  by (simp add: stay_def fresh_same)

lemma stay_trans: "stay w a b \<Longrightarrow> stay w b c \<Longrightarrow> stay w a c"
  using still_trans fresh_trans still_notEarlier unfolding stay_def by metis

lemma advance_stay: "cs_inv w cs \<Longrightarrow> advance w cs cs' \<Longrightarrow> csStore cs' = csStore cs \<Longrightarrow> stay w cs cs'"
  using advance_inv advance_fresh by (simp add: stay_def)

lemma stay_inv: "stay w cs cs' \<Longrightarrow> cs_inv w cs'"
  by (simp add: stay_def)

lemma stay_height: "stay w cs cs' \<Longrightarrow> rsHeight cs' = rsHeight cs"
  by (simp add: stay_def still_def)

lemma stay_round: "stay w cs cs' \<Longrightarrow> rsRound cs \<le> rsRound cs'"
  by (auto simp: stay_def still_def notBefore_def)

text \<open>The argument of a step is not ahead of the state.\<close>

definition notAhead :: "cs_state \<Rightarrow> int \<Rightarrow> int \<Rightarrow> bool" where
  "notAhead cs height round \<longleftrightarrow> (rsHeight cs = height \<longrightarrow> round \<le> rsRound cs)"

lemma not_stale: "\<not> staleStep cs height round step \<Longrightarrow> notAhead cs height round \<Longrightarrow> rsHeight cs = height \<and> rsRound cs = round \<and> rsStep cs < step"
  by (auto simp: staleStep_def notAhead_def)

lemma commitRound_step: "baseInv w cs \<Longrightarrow> rsStep cs = RoundStepCommit \<Longrightarrow> 0 \<le> rsCommitRound cs"
  by (simp add: baseInv_def)

lemma defaultDoPrevote_effect:
  assumes "fits w env" and "defaultDoPrevote env cs = Inr cs'"
  obtains hash where "core cs' = core cs" and "sends cs PrevoteType hash cs'" and "\<And>b. rsLockedBlock cs = Some b \<Longrightarrow> hash = blockHash w b"
proof -
  have be: "ceBlock env = wBlock w" using assms(1) by (simp add: fits_def)
  obtain hash hdr where "signAddVote env PrevoteType hash hdr cs = Inr cs'" "\<And>b. rsLockedBlock cs = Some b \<Longrightarrow> hash = blockHash w b"
  proof (cases "rsLockedBlock cs")
    case None
    then show ?thesis using assms(2) that
      by (auto simp: defaultDoPrevote_def split: option.splits if_splits elim!: bindR_InrE)
  next
    case (Some b)
    then show ?thesis using assms(2) that [of "blockHash w b"] by (auto simp: defaultDoPrevote_def blockHash_def be)
  qed
  then show ?thesis using that signAddVote_effect by blast
qed

lemma enterPrevote_stay:
  assumes inv: "cs_inv w cs" and "fits w env" and ahead: "notAhead cs height round" and run: "enterPrevote env height round cs = Inr cs'"
  shows "stay w cs cs'"
proof (cases "staleStep cs height round RoundStepPrevote")
  case True
  then show ?thesis using run stay_refl [OF inv] by (simp add: enterPrevote_def)
next
  case False
  note pos = not_stale [OF False ahead]
  obtain c where c: "defaultDoPrevote env cs = Inr c" "cs' = newStep (updateRoundStep round RoundStepPrevote c)"
    using run False by (auto simp: enterPrevote_def elim!: bindR_InrE)
  obtain hash where eff: "core c = core cs" "sends cs PrevoteType hash c" "\<And>b. rsLockedBlock cs = Some b \<Longrightarrow> hash = blockHash w b"
    using defaultDoPrevote_effect [OF assms(2) c(1)] by blast
  have base: "baseInv w cs" using inv by (simp add: cs_inv_def)
  have cs': "rsHeight cs' = rsHeight cs" "rsRound cs' = rsRound cs" "rsStep cs' = RoundStepPrevote" "rsLockedBlock cs' = rsLockedBlock cs"
    "rsLockedRound cs' = rsLockedRound cs" "rsVotes cs' = rsVotes cs" "csState cs' = csState cs" "csTimeouts cs' = csTimeouts cs"
    "csStore cs' = csStore cs" "sent cs' = sent c"
    using eff(1) pos by (auto simp: c(2) core_def newStep_def updateRoundStep_def sent_def)
  have "advance w cs cs'"
  proof (rule advance_local [OF base cs'(1,7,6)])
    show "notBefore cs cs'" using pos cs' by (auto simp: notBefore_def)
    show "sentStep w cs cs'" using eff(2,3) pos cs' by (auto simp: sends_def sentStep_def stepOf_def)
  qed (use cs' in \<open>auto simp: round_steps intro!: lockStep_same\<close>)
  then show ?thesis using advance_stay [OF inv] cs'(9) by blast
qed

lemma isProposer_effect:
  assumes "isProposer cs a = Inr (c, yes)"
  shows "core c = core cs \<and> sent c = sent cs"
proof -
  obtain vals where "c = cs\<lparr>rsValidators := vals\<rparr>"
    using assms by (auto simp: isProposer_def split: option.splits prod.splits elim!: bindR_InrE)
  then show ?thesis by (simp add: core_def sent_def)
qed

text \<open>A step to a later point of the round, with timeouts for that point, that sends no vote and leaves the lock.\<close>

lemma quiet_stay:
  assumes inv: "cs_inv w cs" and "rsHeight cs' = rsHeight cs" and "csState cs' = csState cs" and "rsVotes cs' = rsVotes cs"
    and "notBefore cs cs'" and "rsStep cs' = RoundStepCommit \<longrightarrow> 0 \<le> rsCommitRound cs'"
    and "\<forall>ti \<in> set (csTimeouts cs'). ti \<in> set (csTimeouts cs) \<or> tiHeight ti = rsHeight cs \<and> tiRound ti \<le> rsRound cs'"
    and "rsLockedBlock cs' = rsLockedBlock cs" and "rsLockedRound cs' = rsLockedRound cs" and "sent cs' = sent cs"
    and "csStore cs' = csStore cs"
  shows "stay w cs cs'"
proof -
  have "baseInv w cs" using inv by (simp add: cs_inv_def)
  then have "advance w cs cs'" using assms by (intro advance_local lockStep_same sentStep_same)
  then show ?thesis using advance_stay inv assms(11) by blast
qed

text \<open>A change of the fields that the invariant does not speak of.\<close>

lemma core_stay:
  assumes inv: "cs_inv w cs" and "core cs' = core cs" and "sent cs' = sent cs"
  shows "stay w cs cs'"
  using assms(3) inv core_fields [OF assms(2)]
  by (intro quiet_stay) (auto simp: notBefore_def cs_inv_def baseInv_def)

lemma enterPropose_stay:
  assumes inv: "cs_inv w cs" and fit: "fits w env" and ahead: "notAhead cs height round" and run: "enterPropose env height round cs = Inr cs'"
  shows "stay w cs cs'"
proof (cases "staleStep cs height round RoundStepPropose")
  case True
  then show ?thesis using run stay_refl [OF inv] by (simp add: enterPropose_def)
next
  case False
  note pos = not_stale [OF False ahead]
  let ?c1 = "scheduleTimeout (ceTimeoutPropose env round) height round RoundStepPropose cs"
  obtain c3 complete where c3: "(case (csPV ?c1, csPubKey ?c1) of
                 (Some _, Some pk) \<Rightarrow>
                   if \<not> HasAddress (rsValidators ?c1) (pkAddress (ceCrypto env) pk) then Inr ?c1
                   else bindR (isProposer ?c1 (pkAddress (ceCrypto env) pk)) (\<lambda>(cs2, yes).
                          if yes then defaultDecideProposal env height round cs2 else Inr cs2)
               | _ \<Rightarrow> Inr ?c1) = Inr c3"
    and rest: "(if complete then enterPrevote env height (rsRound (newStep (updateRoundStep round RoundStepPropose c3)))
          (newStep (updateRoundStep round RoundStepPropose c3)) else Inr (newStep (updateRoundStep round RoundStepPropose c3))) = (Inr cs' :: cs_run)"
    using run by (simp only: enterPropose_def False if_False Let_def) (elim bindR_InrE)
  let ?c4 = "newStep (updateRoundStep round RoundStepPropose c3)"
  have "core c3 = core ?c1 \<and> sent c3 = sent ?c1"
    using c3 isProposer_effect defaultDecideProposal_effect
    by (auto split: option.splits if_splits prod.splits elim!: bindR_InrE)
  then have c: "core c3 = core ?c1" "sent ?c4 = sent cs"
    by (simp_all add: sent_def newStep_def updateRoundStep_def scheduleTimeout_def)
  have st: "stay w cs ?c4"
    using core_fields [OF c(1)] pos c(2)
    by (intro quiet_stay [OF inv]) (auto simp: newStep_def updateRoundStep_def scheduleTimeout_def notBefore_def round_steps)
  show ?thesis
  proof (cases complete)
    case True
    then have "enterPrevote env height (rsRound ?c4) ?c4 = Inr cs'" using rest by simp
    then have "stay w ?c4 cs'" by (rule enterPrevote_stay [OF stay_inv [OF st] fit, rotated]) (simp add: notAhead_def)
    then show ?thesis using stay_trans st by blast
  next
    case False
    then show ?thesis using rest st by simp
  qed
qed

lemma startRound_fields [simp]:
  "rsHeight (startRound round vals votes cs) = rsHeight cs" "rsRound (startRound round vals votes cs) = round"
  "rsStep (startRound round vals votes cs) = RoundStepNewRound" "rsVotes (startRound round vals votes cs) = votes"
  "rsLockedBlock (startRound round vals votes cs) = rsLockedBlock cs" "rsLockedRound (startRound round vals votes cs) = rsLockedRound cs"
  "csState (startRound round vals votes cs) = csState cs" "csTimeouts (startRound round vals votes cs) = csTimeouts cs"
  "csStore (startRound round vals votes cs) = csStore cs" "sent (startRound round vals votes cs) = sent cs"
  by (simp_all add: startRound_def updateRoundStep_def sent_def Let_def)

lemma startRound_stay:
  assumes inv: "cs_inv w cs" and n: "SafeAddInt32 round 1 = (Inr n :: unit fault + _)" and v: "SetRound (rsVotes cs) n = (Inr votes :: unit fault + _)"
    and pos: "rsRound cs < round \<or> rsRound cs = round \<and> rsStep cs = RoundStepNewHeight"
  shows "stay w cs (startRound round vals votes cs)"
proof -
  have base: "baseInv w cs" using inv by (simp add: cs_inv_def)
  have r: "0 \<le> round" "rsRound cs \<le> round" using pos base by (auto simp: baseInv_def)
  then have n1: "n = round + 1" "in32 n" using n by (auto simp: SafeAddInt32_def int_range wrap32_id split: if_splits)
  have "hvRound (rsVotes cs) \<le> n" "hv_inv (wCrypto w) (rsVotes cs)" using base r n1 by (auto simp: baseInv_def)
  then have hv: "hv_inv (wCrypto w) votes" using SetRound_ok [OF _ _ n1(2), where 'e = unit] v by (metis sum.inject(2))
  have "advance w cs (startRound round vals votes cs)"
    using r SetRound_grows [OF v] n1 hv pos hvGrows_mono [of "{}"]
    by (auto simp: advance_def notBefore_def round_steps intro!: lockStep_same sentStep_same)
  then show ?thesis using advance_stay [OF inv] by simp
qed

lemma enterNewRound_stay:
  assumes inv: "cs_inv w cs" and fit: "fits w env" and run: "enterNewRound env height round cs = Inr cs'"
  shows "stay w cs cs'" and "rsHeight cs = height \<Longrightarrow> round \<le> rsRound cs'"
proof -
  let ?old = "rsHeight cs \<noteq> height \<or> round < rsRound cs \<or> (rsRound cs = round \<and> rsStep cs \<noteq> RoundStepNewHeight)"
  have "stay w cs cs' \<and> (rsHeight cs = height \<longrightarrow> round \<le> rsRound cs')"
  proof (cases ?old)
    case True
    then show ?thesis using run stay_refl [OF inv] by (auto simp: enterNewRound_def)
  next
    case False
    obtain vals n votes wait where n: "SafeAddInt32 round 1 = (Inr n :: unit fault + _)" and v: "SetRound (rsVotes cs) n = (Inr votes :: unit fault + _)"
      and rest: "(if wait then Inr (if ceEmptyBlocksInterval env > 0
                 then scheduleTimeout (ceEmptyBlocksInterval env) height round RoundStepNewRound (startRound round vals votes cs)
                 else startRound round vals votes cs)
          else enterPropose env height round (startRound round vals votes cs)) = (Inr cs' :: cs_run)"
      using run unfolding enterNewRound_def Let_def if_not_P [OF False] by (elim bindR_InrE)
    have st: "stay w cs (startRound round vals votes cs)" (is "stay w cs ?c")
      using startRound_stay [OF inv n v] False by fastforce
    have "stay w ?c cs'"
    proof (cases wait)
      case True
      then show ?thesis using False rest
        by (intro quiet_stay [OF stay_inv [OF st]]) (auto simp: scheduleTimeout_def sent_def notBefore_def round_steps split: if_splits)
    next
      case False
      then show ?thesis using rest enterPropose_stay [OF stay_inv [OF st] fit, of height round] by (simp add: notAhead_def)
    qed
    then show ?thesis using stay_trans [OF st] stay_round [of w ?c cs'] by simp
  qed
  then show "stay w cs cs'" "rsHeight cs = height \<Longrightarrow> round \<le> rsRound cs'" by simp_all
qed

lemma enterPrevoteWait_stay:
  assumes inv: "cs_inv w cs" and ahead: "notAhead cs height round" and run: "enterPrevoteWait env height round cs = Inr cs'"
  shows "stay w cs cs'"
proof (cases "staleStep cs height round RoundStepPrevoteWait")
  case True
  then show ?thesis using run stay_refl [OF inv] by (simp add: enterPrevoteWait_def)
next
  case False
  note pos = not_stale [OF False ahead]
  have "cs' = newStep (updateRoundStep round RoundStepPrevoteWait
      (scheduleTimeout (ceTimeoutPrevote env round) height round RoundStepPrevoteWait cs))"
    using run False by (auto simp: enterPrevoteWait_def bindR_Inr_iff split: if_splits)
  then show ?thesis
    using pos by (intro quiet_stay [OF inv]) (auto simp: newStep_def updateRoundStep_def scheduleTimeout_def sent_def notBefore_def round_steps)
qed

lemma enterPrecommitWait_stay:
  assumes inv: "cs_inv w cs" and ahead: "notAhead cs height round" and run: "enterPrecommitWait env height round cs = Inr cs'"
  shows "stay w cs cs'"
proof (cases "rsHeight cs \<noteq> height \<or> round < rsRound cs \<or> (rsRound cs = round \<and> rsTriggeredTimeoutPrecommit cs)")
  case True
  then show ?thesis using run stay_refl [OF inv] by (auto simp: enterPrecommitWait_def)
next
  case False
  then have "cs' = newStep ((scheduleTimeout (ceTimeoutPrecommit env round) height round RoundStepPrecommitWait cs)\<lparr>rsTriggeredTimeoutPrecommit := True\<rparr>)"
    using run by (auto simp: enterPrecommitWait_def bindR_Inr_iff split: if_splits)
  then show ?thesis
    using False ahead inv
    by (intro quiet_stay [OF inv]) (auto simp: newStep_def scheduleTimeout_def sent_def notBefore_def notAhead_def cs_inv_def baseInv_def)
qed

section \<open>Precommitting\<close>

lemma HVS_Prevotes_majority:
  assumes "HVS_Prevotes (rsVotes cs) r = (Inr vs :: 'e fault + _)" and "TwoThirdsMajority vs = (bid, True)"
  shows "polka cs r bid"
  using assms by (auto simp: HVS_Prevotes_def getVoteSet_def TwoThirdsMajority_def polka_def split: option.splits)

lemma HashesTo_some: "Block_HashesTo be p h \<longleftrightarrow> h \<noteq> [] \<and> (\<exists>b. p = Some b \<and> Block_Hash be (Some b) = h)"
  by (auto simp: Block_HashesTo_def split: option.splits)

text \<open>How the lock may change before a precommit with the given hash is signed.\<close>

definition relock :: "cs_world \<Rightarrow> cs_state \<Rightarrow> int \<Rightarrow> cs_state \<Rightarrow> bytes \<Rightarrow> bool" where
  "relock w cs round c hash \<longleftrightarrow>
     rsLockedBlock c = rsLockedBlock cs \<and> rsLockedRound c = rsLockedRound cs \<and> hash = [] \<or>
     rsLockedBlock c = None \<and> rsLockedRound c = -1 \<and> hash = [] \<and>
       (\<exists>bid. polka cs round bid \<and> (\<forall>b. rsLockedBlock cs = Some b \<longrightarrow> bidHash bid \<noteq> blockHash w b)) \<or>
     (\<exists>b bid. rsLockedBlock c = Some b \<and> rsLockedRound c = round \<and> polka cs round bid \<and> bidHash bid = blockHash w b \<and>
        hash = bidHash bid \<and> hash \<noteq> [])"

definition lockless :: "cs_state \<Rightarrow> _" where
  "lockless cs = (rsHeight cs, rsRound cs, rsStep cs, rsVotes cs, rsCommitRound cs, csState cs, csTimeouts cs, csStore cs, csInternal cs)"

lemma unlock_fields [simp]:
  "rsLockedBlock (unlock cs) = None" "rsLockedRound (unlock cs) = -1" "lockless (unlock cs) = lockless cs"
  by (simp_all add: unlock_def lockless_def)

lemma awaitBlock_fields [simp]:
  "rsLockedBlock (awaitBlock bid cs) = rsLockedBlock cs" "rsLockedRound (awaitBlock bid cs) = rsLockedRound cs"
  "lockless (awaitBlock bid cs) = lockless cs"
  by (simp_all add: awaitBlock_def lockless_def)

lemma precommitPolka_relock:
  assumes inv: "cs_inv w cs" and fit: "fits w env" and polka: "polka cs round bid" and run: "precommitPolka env round bid cs = Inr c"
  obtains c1 hash hdr where "lockless c1 = lockless cs" and "relock w cs round c1 hash" and "signAddVote env PrecommitType hash hdr c1 = Inr c"
proof -
  have be: "ceBlock env = wBlock w" using fit by (simp add: fits_def)
  have nonempty: "blockHash w b \<noteq> []" if "rsLockedBlock cs = Some b" for b
    using inv that by (simp add: cs_inv_def lockInv_def)
  consider "bidHash bid = []" | "bidHash bid \<noteq> []" "Block_HashesTo (wBlock w) (rsLockedBlock cs) (bidHash bid)"
    | b where "bidHash bid \<noteq> []" "\<not> Block_HashesTo (wBlock w) (rsLockedBlock cs) (bidHash bid)" "rsProposalBlock cs = Some b" "blockHash w b = bidHash bid"
    | "bidHash bid \<noteq> []" "\<not> Block_HashesTo (wBlock w) (rsLockedBlock cs) (bidHash bid)" "\<not> Block_HashesTo (wBlock w) (rsProposalBlock cs) (bidHash bid)"
    by (auto simp: HashesTo_some blockHash_def)
  then show ?thesis
  proof cases
    case 1
    let ?c1 = "if rsLockedBlock cs = None then cs else unlock cs"
    have "relock w cs round ?c1 []" using polka nonempty 1 by (fastforce simp: relock_def)
    then show ?thesis using that [of ?c1 "[]" nilHeader] run 1 by (simp add: precommitPolka_def)
  next
    case 2
    let ?c1 = "cs\<lparr>rsLockedRound := round\<rparr>"
    have "relock w cs round ?c1 (bidHash bid)" using 2 polka by (auto simp: relock_def HashesTo_some blockHash_def)
    then show ?thesis using that [of ?c1 "bidHash bid" "bidParts bid"] run 2
      by (simp add: precommitPolka_def be lockless_def)
  next
    case (3 b)
    let ?c1 = "cs\<lparr>rsLockedRound := round, rsLockedBlock := rsProposalBlock cs, rsLockedBlockParts := rsProposalBlockParts cs\<rparr>"
    have "Block_HashesTo (wBlock w) (rsProposalBlock cs) (bidHash bid)" using 3 by (simp add: HashesTo_some blockHash_def)
    then have "signAddVote env PrecommitType (bidHash bid) (bidParts bid) ?c1 = Inr c"
      using run 3(1,2) by (auto simp: precommitPolka_def be split: if_splits elim!: bindR_InrE)
    moreover have "relock w cs round ?c1 (bidHash bid)" using 3 polka by (auto simp: relock_def)
    moreover have "lockless ?c1 = lockless cs" by (simp add: lockless_def)
    ultimately show ?thesis using that by blast
  next
    case 4
    then have "relock w cs round (awaitBlock bid (unlock cs)) []" using polka by (auto simp: relock_def HashesTo_some blockHash_def)
    then show ?thesis using that [of "awaitBlock bid (unlock cs)" "[]" nilHeader] run 4 by (simp add: precommitPolka_def be)
  qed
qed

lemma doPrecommit_relock:
  assumes inv: "cs_inv w cs" and fit: "fits w env" and run: "doPrecommit env round cs = Inr c"
  obtains c1 hash hdr where "lockless c1 = lockless cs" and "relock w cs round c1 hash" and "signAddVote env PrecommitType hash hdr c1 = Inr c"
proof -
  obtain vs where vs: "HVS_Prevotes (rsVotes cs) round = (Inr vs :: unit fault + _)" using run by (auto simp: doPrecommit_def elim!: bindR_InrE)
  obtain bid ok where maj: "TwoThirdsMajority vs = (bid, ok)" by fastforce
  show ?thesis
  proof (cases ok)
    case False
    then show ?thesis using run that [of cs "[]"] by (auto simp: doPrecommit_def vs maj relock_def)
  next
    case True
    then have "polka cs round bid" using HVS_Prevotes_majority [OF vs] maj by simp
    moreover have "precommitPolka env round bid cs = Inr c"
      using run True by (auto simp: doPrecommit_def vs maj split: if_splits elim!: bindR_InrE)
    ultimately show ?thesis using that precommitPolka_relock [OF inv fit] by blast
  qed
qed

lemma enterPrecommit_stay:
  assumes inv: "cs_inv w cs" and fit: "fits w env" and ahead: "notAhead cs height round" and run: "enterPrecommit env height round cs = Inr cs'"
  shows "stay w cs cs'"
proof (cases "staleStep cs height round RoundStepPrecommit")
  case True
  then show ?thesis using run stay_refl [OF inv] by (simp add: enterPrecommit_def)
next
  case False
  note pos = not_stale [OF False ahead]
  have base: "baseInv w cs" and lock: "lockInv w cs" using inv by (simp_all add: cs_inv_def)
  obtain c where c: "doPrecommit env round cs = Inr c" "cs' = newStep (updateRoundStep round RoundStepPrecommit c)"
    using run False by (auto simp: enterPrecommit_def elim!: bindR_InrE)
  obtain c1 hash hdr where c1: "lockless c1 = lockless cs" "relock w cs round c1 hash" "signAddVote env PrecommitType hash hdr c1 = Inr c"
    using doPrecommit_relock [OF inv fit c(1)] by blast
  note eff = core_fields [OF signAddVote_effect(1) [OF c1(3)]] and snd = signAddVote_effect(2) [OF c1(3)]
  have cs': "rsHeight cs' = rsHeight cs" "rsRound cs' = rsRound cs" "rsStep cs' = RoundStepPrecommit" "rsLockedBlock cs' = rsLockedBlock c1"
    "rsLockedRound cs' = rsLockedRound c1" "rsVotes cs' = rsVotes cs" "csState cs' = csState cs" "csTimeouts cs' = csTimeouts cs"
    "csStore cs' = csStore cs" "sent cs' = sent c" "sent c1 = sent cs" "rsRound c1 = round" "rsHeight c1 = rsHeight cs"
    using eff c1(1) pos by (auto simp: c(2) newStep_def updateRoundStep_def sent_def lockless_def)
  have before: "rsLockedRound cs < round" if "rsLockedBlock cs = Some b" for b
    using lock pos that by (auto simp: lockInv_def)
  have "advance w cs cs'"
  proof (rule advance_local [OF base cs'(1,7,6)])
    show "notBefore cs cs'" using pos cs' by (auto simp: notBefore_def)
    have "polka cs' = polka cs" by (simp add: polka_def fun_eq_iff cs'(6))
    then show "lockStep w cs cs'"
      using c1(2) before pos cs'(2-5) unfolding relock_def lockStep_def by (elim disjE) (auto 0 4)
    show "sentStep w cs cs'"
      using snd c1(2) pos cs' by (auto simp: sends_def sentStep_def stepOf_def relock_def)
  qed (use cs' in \<open>auto simp: round_steps\<close>)
  then show ?thesis using advance_stay [OF inv] cs'(9) by blast
qed

section \<open>Receiving prevotes\<close>

lemma polkaUpdate_stay:
  assumes inv: "cs_inv w cs" and fit: "fits w env" and polka: "polka cs (vRound v) bid" and run: "polkaUpdate env v bid cs = (cs', go)"
  shows "stay w cs cs'" and "rsRound cs' = rsRound cs"
proof -
  have be: "ceBlock env = wBlock w" using fit by (simp add: fits_def)
  have base: "baseInv w cs" using inv by (simp add: cs_inv_def)
  have "lockless (fst (polkaUpdate env v bid cs)) = lockless cs" by (simp add: polkaUpdate_def Let_def lockless_def unlock_def)
  then have keep: "lockless cs' = lockless cs" using run by simp
  then have cs': "rsHeight cs' = rsHeight cs" "rsRound cs' = rsRound cs" "rsStep cs' = rsStep cs" "rsVotes cs' = rsVotes cs"
    "rsCommitRound cs' = rsCommitRound cs" "csState cs' = csState cs" "csTimeouts cs' = csTimeouts cs" "csStore cs' = csStore cs" "sent cs' = sent cs"
    by (auto simp: lockless_def sent_def)
  let ?c = "fst (polkaUpdate env v bid cs)"
  have lock: "rsLockedBlock ?c = rsLockedBlock cs \<and> rsLockedRound ?c = rsLockedRound cs \<or>
      rsLockedBlock ?c = None \<and> rsLockedRound ?c = -1 \<and> rsLockedRound cs < vRound v \<and> vRound v \<le> rsRound cs \<and>
      \<not> Block_HashesTo (wBlock w) (rsLockedBlock cs) (bidHash bid)"
    by (simp add: polkaUpdate_def unlock_def Let_def be)
  have "rsLockedBlock cs' = rsLockedBlock cs \<and> rsLockedRound cs' = rsLockedRound cs \<or>
      rsLockedBlock cs' = None \<and> rsLockedRound cs' = -1 \<and> rsLockedRound cs < vRound v \<and> vRound v \<le> rsRound cs \<and>
      \<not> Block_HashesTo (wBlock w) (rsLockedBlock cs) (bidHash bid)"
    using lock run by simp
  moreover have "blockHash w b \<noteq> []" if "rsLockedBlock cs = Some b" for b
    using inv that by (simp add: cs_inv_def lockInv_def)
  moreover have "polka cs' = polka cs" by (simp add: polka_def fun_eq_iff cs'(4))
  ultimately have "lockStep w cs cs'"
    using polka cs'(2) unfolding lockStep_def HashesTo_some blockHash_def by (elim disjE) (auto 0 4)
  then have "advance w cs cs'"
    using cs' base by (intro advance_local sentStep_same) (auto simp: notBefore_def baseInv_def)
  then show "stay w cs cs'" using advance_stay [OF inv] cs'(8) by blast
  show "rsRound cs' = rsRound cs" by (rule cs'(2))
qed

lemma steps:
  assumes "cs_inv w cs" and "fits w env"
  shows "ensures (stay w cs) (enterNewRound env height round cs)"
    and "notAhead cs height round \<Longrightarrow> ensures (stay w cs) (enterPropose env height round cs)"
    and "notAhead cs height round \<Longrightarrow> ensures (stay w cs) (enterPrevote env height round cs)"
    and "notAhead cs height round \<Longrightarrow> ensures (stay w cs) (enterPrevoteWait env height round cs)"
    and "notAhead cs height round \<Longrightarrow> ensures (stay w cs) (enterPrecommit env height round cs)"
    and "notAhead cs height round \<Longrightarrow> ensures (stay w cs) (enterPrecommitWait env height round cs)"
  using enterNewRound_stay(1) [OF assms] enterPropose_stay [OF assms] enterPrevote_stay [OF assms]
    enterPrevoteWait_stay [OF assms(1)] enterPrecommit_stay [OF assms] enterPrecommitWait_stay [OF assms(1)]
  unfolding ensures_def by blast+

lemma addedPrevote_stay:
  assumes inv: "cs_inv w cs" and fit: "fits w env" and "rsHeight cs = height" and run: "addedPrevote env height v cs = Inr (cs', e)"
  shows "stay w cs cs'"
proof -
  obtain vs where vs: "HVS_Prevotes (rsVotes cs) (vRound v) = (Inr vs :: unit fault + _)" using run by (auto simp: addedPrevote_def elim!: bindR_InrE)
  obtain bid ok where maj: "TwoThirdsMajority vs = (bid, ok)" by fastforce
  obtain c go where c: "(if ok then polkaUpdate env v bid cs else (cs, True)) = (c, go)" by fastforce
  have st: "stay w cs c" and round: "rsRound c = rsRound cs"
    using c HVS_Prevotes_majority [OF vs] maj polkaUpdate_stay [OF inv fit, of v bid c go] stay_refl [OF inv] by (auto split: if_splits)
  note ci = stay_inv [OF st] and ch = stay_height [OF st]
  show ?thesis
  proof (cases go)
    case False
    then show ?thesis using run st by (simp add: addedPrevote_def vs maj c)
  next
    case True
    have "ensures (\<lambda>(x, _). stay w c x) (addedPrevote env height v cs)"
      unfolding addedPrevote_def vs bindR.simps maj Let_def prod.case c
    proof (rule ensures_if [OF _ ensures_bind [OF ensures_seq [of "stay w c"]]])
      fix any
      show "ensures (stay w c) (if rsRound c < vRound v \<and> any then enterNewRound env height (vRound v) c
              else if rsRound c = vRound v \<and> RoundStepPrevote \<le> rsStep c then
                bindR (isProposalComplete c) (\<lambda>complete.
                  if ok \<and> (complete \<or> length (bidHash bid) = 0) then enterPrecommit env height (vRound v) c
                  else if any then enterPrevoteWait env height (vRound v) c
                  else Inr c)
              else case rsProposal c of
                None \<Rightarrow> Inr c
              | Some p \<Rightarrow>
                  if 0 \<le> prPOLRound p \<and> prPOLRound p = vRound v then
                    bindR (isProposalComplete c) (\<lambda>complete. if complete then enterPrevote env height (rsRound c) c else Inr c)
                  else Inr c)"
        by (intro ensure stay_refl [OF ci] steps [OF ci fit]) (simp_all add: notAhead_def)
    qed (use True in \<open>simp_all add: ensures_def\<close>)
    then have "stay w c cs'" using run by (auto dest: ensuresD)
    then show ?thesis using stay_trans [OF st] by blast
  qed
qed

section \<open>Committing\<close>

text \<open>A stored block is justified by its commit: more than two thirds of the validators of its height have
  genuine precommits for it, and \<open>VerifyCommit\<close> accepts the commit.\<close>

definition justified :: "cs_world \<Rightarrow> int \<Rightarrow> block \<Rightarrow> commit \<Rightarrow> bool" where
  "justified w h b c \<longleftrightarrow> hdHeight (bkHeader b) = h \<and> bidHash (cmBlockID c) = blockHash w b \<and> blockHash w b \<noteq> [] \<and>
     quorumFor w PrecommitType h (cmRound c) (cmBlockID c) \<and>
     (\<exists>vals. Validators vals = wVals w h \<and> snd (VerifyCommit (wCrypto w) vals (wChain w) (cmBlockID c) h (Some c)) = Inr ())"

definition storeInv :: "cs_world \<Rightarrow> cs_state \<Rightarrow> bool" where
  "storeInv w cs \<longleftrightarrow> (\<forall>h b c. bsBlocks (csStore cs) h = Some (b, c) \<longrightarrow> justified w h b c)"

definition node_inv :: "cs_world \<Rightarrow> cs_state \<Rightarrow> bool" where
  "node_inv w cs \<longleftrightarrow> cs_inv w cs \<and> storeInv w cs"

definition move :: "cs_world \<Rightarrow> cs_state \<Rightarrow> cs_state \<Rightarrow> bool" where
  "move w cs cs' \<longleftrightarrow> node_inv w cs' \<and> (rsHeight cs < rsHeight cs' \<or> still w cs cs') \<and> fresh cs cs'"

text \<open>The validators of the next height are those the chain state has announced.\<close>

definition nextMatch :: "cs_world \<Rightarrow> cs_state \<Rightarrow> bool" where
  "nextMatch w cs \<longleftrightarrow> Validators (the (stNextValidators (csState cs))) = wVals w (rsHeight cs + 1)"

lemma stay_move: "storeInv w cs \<Longrightarrow> stay w cs cs' \<Longrightarrow> move w cs cs'"
  by (simp add: move_def stay_def node_inv_def storeInv_def)

lemma move_trans: "move w a b \<Longrightarrow> move w b c \<Longrightarrow> move w a c"
proof -
  assume ab: "move w a b" and bc: "move w b c"
  have "notEarlier a b" using ab still_notEarlier by (auto simp: move_def notEarlier_def)
  then have "fresh a c" using ab bc fresh_trans by (auto simp: move_def)
  moreover have "rsHeight a < rsHeight c \<or> still w a c"
    using ab bc still_trans unfolding move_def by (metis still_def less_trans)
  ultimately show ?thesis using bc by (simp add: move_def)
qed

lemma majority_vote:
  assumes inv: "vs_inv env s" and maj: "vsMaj23 s = Some bid"
  obtains v where "Vote_ValidateBasic v = Inr ()" and "vBlockID v = bid"
proof -
  have "votersFor env s bid \<noteq> {}"
  proof
    assume "votersFor env s bid = {}"
    then have "2 * sumPower (Validators (vsValSet s)) < 0" using maj_quorum [OF inv maj] by simp
    moreover have "0 \<le> sumPower (Validators (vsValSet s))" using inv
      by (intro sumPower_nonneg) (fastforce simp: vs_inv_def okPrimary_def wf_vals_def wf_list_def)
    ultimately show False by simp
  qed
  then show ?thesis using that by (auto simp: votersFor_def okVote_def)
qed

lemma majority_block_ok:
  assumes base: "baseInv w cs" and r: "hvSets (rsVotes cs) r = Some rvs" and maj: "vsMaj23 (Precommits rvs) = Some bid"
  shows "isOk (BlockID_ValidateBasic bid)"
proof -
  have "roundOkAt (wCrypto w) (rsVotes cs) r rvs" using base r unfolding baseInv_def hv_inv_def by blast
  then have "vs_inv (wCrypto w) (Precommits rvs)" by (simp add: roundOkAt_def setFor_def)
  then obtain v where "Vote_ValidateBasic v = Inr ()" "vBlockID v = bid" using maj by (rule majority_vote)
  then show ?thesis by (auto simp: Vote_ValidateBasic_def isOk_iff split: if_splits sum.splits)
qed

lemma precommit_majority:
  assumes base: "baseInv w cs" and fit: "fits w env" and r: "hvSets (rsVotes cs) r = Some rvs" and maj: "vsMaj23 (Precommits rvs) = Some bid"
    and "bidHash bid \<noteq> []" and c: "MakeCommit (Precommits rvs) = (Inr c :: unit fault + _)"
  shows "cmBlockID c = bid" and "quorumFor w PrecommitType (rsHeight cs) (cmRound c) bid"
    and "\<exists>vals. Validators vals = wVals w (rsHeight cs) \<and> snd (VerifyCommit (wCrypto w) vals (wChain w) bid (rsHeight cs) (Some c)) = Inr ()"
proof -
  let ?s = "Precommits rvs"
  have "roundOkAt (wCrypto w) (rsVotes cs) r rvs" using base r unfolding baseInv_def hv_inv_def by blast
  then have s: "vs_inv (wCrypto w) ?s" "vsType ?s = PrecommitType" "vsHeight ?s = rsHeight cs" "vsRound ?s = r" "vsChainID ?s = wChain w"
    "Validators (vsValSet ?s) = wVals w (rsHeight cs)"
    using base by (auto simp: roundOkAt_def setFor_def baseInv_def)
  have c': "c = NewCommit (rsHeight cs) r bid (map (sigOf bid) (vsVotes ?s))"
    using c MakeCommit_run [OF s(1,2) maj, where 'a = unit] s(3,4) by simp
  then show "cmBlockID c = bid" by (simp add: NewCommit_def)
  show "quorumFor w PrecommitType (rsHeight cs) (cmRound c) bid"
    using majority_quorum [OF base r _ maj, of PrecommitType] by (simp add: c' NewCommit_def)
  obtain v where v: "Vote_ValidateBasic v = Inr ()" "vBlockID v = bid" using s(1) maj by (rule majority_vote)
  have "BlockID_IsComplete bid"
    using Vote_ValidateBasic_zeroOrComplete [OF v(1)] v(2) assms(5) by (auto simp: zeroOrComplete_def BlockID_IsZero_def)
  then have "snd (VerifyCommit (wCrypto w) (vsValSet ?s) (wChain w) bid (rsHeight cs) (Some c)) = Inr ()"
    using made_commit_verifies [OF s(1,2) maj] s(3-6) fit by (simp add: c' fits_def)
  then show "\<exists>vals. Validators vals = wVals w (rsHeight cs) \<and> snd (VerifyCommit (wCrypto w) vals (wChain w) bid (rsHeight cs) (Some c)) = Inr ()"
    using s(6) by blast
qed

lemma NewHeightVoteSet_empty:
  assumes "NewHeightVoteSet cid h vals = (Inr hvs :: 'e fault + _)"
  shows "hvVotes hvs = {}"
proof -
  let ?h = "\<lparr>hvChainID = cid, hvHeight = h, hvValSet = vals, hvRound = 0, hvSets = Map.empty, hvPeers = Map.empty\<rparr>"
  obtain hvs1 where "addRound ?h 0 = (Inr hvs1 :: 'e fault + _)" "hvSets hvs = hvSets hvs1"
    using assms by (auto simp: NewHeightVoteSet_def HVS_Reset_def elim!: bindR_InrE)
  then have "hvVotes hvs \<subseteq> hvVotes ?h" using addRound_grows(1) [of ?h 0 hvs1, where 'e = 'e] by (auto simp: hvGrows_def hvVotes_def)
  then show ?thesis by (simp add: hvVotes_def)
qed

lemma startHeight_inv:
  assumes st: "chain_inv state" "stChainID state = wChain w" "stValidators state = Some vals" "Validators vals = wVals w (nextHeight state)"
    and votes: "NewHeightVoteSet (stChainID state) (nextHeight state) vals = (Inr votes :: unit fault + _)"
    and timeouts: "\<forall>ti \<in> set (csTimeouts cs). tiHeight ti < nextHeight state"
    and old: "sent cs = {} \<or> sentInv w cs \<and> rsHeight cs < nextHeight state"
  shows "cs_inv w (newStep (startHeight env state (nextHeight state) vals lc votes cs))" (is "cs_inv w ?c")
proof -
  have vals: "valsOk vals" using st(1,3) by (simp add: chain_inv_def)
  have keys: "\<forall>val \<in> set (Validators vals). PubKey val \<noteq> None" "wf_vals vals" using vals by (auto simp: valsOk_def keyed_def)
  have h: "nextHeight state \<noteq> 0" using st(1) by (auto simp: chain_inv_def nextHeight_def)
  from NewHeightVoteSet_inv [OF keys(2,1) h, of "stChainID state" "wCrypto w", where 'e = unit]
  obtain hvs where "NewHeightVoteSet (stChainID state) (nextHeight state) vals = (Inr hvs :: unit fault + _)" "hv_inv (wCrypto w) hvs"
    "hvRound hvs = 0" "hvValSet hvs = vals" "hvHeight hvs = nextHeight state" "hvChainID hvs = stChainID state" .
  then have hv: "hv_inv (wCrypto w) votes" "hvRound votes = 0" "hvValSet votes = vals" "hvHeight votes = nextHeight state" "hvChainID votes = stChainID state"
    using votes by simp_all
  have f: "rsHeight ?c = nextHeight state" "sent ?c = sent cs" "rsLockedBlock ?c = None" "rsLockedRound ?c = -1"
    by (simp_all add: newStep_def startHeight_def sent_def)
  have "baseInv w ?c"
    using st hv timeouts NewHeightVoteSet_empty [OF votes]
    by (simp add: newStep_def startHeight_def baseInv_def round_steps)
  moreover have "lockInv w ?c" by (simp add: lockInv_def f)
  moreover have "sentInv w ?c"
  proof (cases "sent cs = {}")
    case True
    then show ?thesis unfolding sentInv_def f(2) by simp
  next
    case False
    then have sv: "sentInv w cs" "rsHeight cs < nextHeight state" using old by simp_all
    then have le: "vHeight v < nextHeight state" if "v \<in> sent cs" for v using that by (fastforce simp: sentInv_def placed_def)
    then have "\<forall>v \<in> sent cs. placed ?c v" using sv f(1) by (fastforce simp: sentInv_def placed_def)
    then show ?thesis using sv(1) le f(1,2) unfolding sentInv_def by fastforce
  qed
  ultimately show ?thesis by (simp add: cs_inv_def)
qed

lemma updateToState_next:
  assumes inv: "cs_inv w cs" and st: "chain_inv state" "stLastBlockHeight state = rsHeight cs" "stChainID state = stChainID (csState cs)"
    "stValidators state = stNextValidators (csState cs)"
    and match: "nextMatch w cs" and run: "updateToState env state cs = Inr cs'"
  shows "cs_inv w cs'" and "rsHeight cs < rsHeight cs'" and "csStore cs' = csStore cs" and "csInternal cs' = csInternal cs"
proof -
  have base: "baseInv w cs" and sv: "sentInv w cs" using inv by (simp_all add: cs_inv_def)
  have ch: "chain_inv (csState cs)" "rsHeight cs = nextHeight (csState cs)" "stChainID (csState cs) = wChain w" using base by (auto simp: baseInv_def)
  have pos: "0 < rsHeight cs" "stLastBlockHeight (csState cs) < rsHeight cs"
    using ch by (auto simp: chain_inv_def nextHeight_def)
  have h: "nextHeight state = rsHeight cs + 1" using pos(1) st(2) by (simp add: nextHeight_def)
  obtain vals where vals: "stValidators state = Some vals" using st(1) by (auto simp: chain_inv_def)
  have "stLastBlockHeight state + 1 \<noteq> 1" "\<not> stLastBlockHeight state \<le> stLastBlockHeight (csState cs)" using pos st(2) by auto
  then have next': "bindR (nextLastCommit state cs) (\<lambda>lc. bindR (NewHeightVoteSet (stChainID state) (rsHeight cs + 1) vals) (\<lambda>votes.
      Inr (newStep (startHeight env state (rsHeight cs + 1) vals lc votes cs)))) = Inr cs'"
    using run by (simp add: updateToState_def vals st(2) Let_def split: if_splits)
  obtain votes lc where votes: "NewHeightVoteSet (stChainID state) (nextHeight state) vals = (Inr votes :: unit fault + _)"
    and cs': "cs' = newStep (startHeight env state (nextHeight state) vals lc votes cs)"
    using next' by (auto simp: bindR_Inr_iff h)
  have timeouts: "\<forall>ti \<in> set (csTimeouts cs). tiHeight ti < nextHeight state"
    using base unfolding baseInv_def h by (elim conjE) fastforce
  have "stNextValidators (csState cs) = Some vals" using st(4) vals by simp
  then have nextVals: "Validators vals = wVals w (nextHeight state)" using match h by (simp add: nextMatch_def)
  show "cs_inv w cs'"
    unfolding cs' using sv h st(3) ch(3) by (intro startHeight_inv [OF st(1) _ vals nextVals votes timeouts]) simp_all
  show "rsHeight cs < rsHeight cs'" "csStore cs' = csStore cs" "csInternal cs' = csInternal cs" by (simp_all add: cs' newStep_def startHeight_def h)
qed

lemma store_fields [simp]:
  "polka (cs\<lparr>csStore := bs\<rparr>) = polka cs" "sent (cs\<lparr>csStore := bs\<rparr>) = sent cs" "placed (cs\<lparr>csStore := bs\<rparr>) = placed cs"
  "rsHeight (cs\<lparr>csStore := bs\<rparr>) = rsHeight cs"
  by (simp_all add: fun_eq_iff polka_def sent_def placed_def)

lemma held_store [simp]: "held w (cs\<lparr>csStore := bs\<rparr>) = held w cs"
  by (simp add: fun_eq_iff held_def)

lemma cs_inv_store: "cs_inv w (cs\<lparr>csStore := bs\<rparr>) \<longleftrightarrow> cs_inv w cs"
proof -
  have "baseInv w (cs\<lparr>csStore := bs\<rparr>) = baseInv w cs" "lockInv w (cs\<lparr>csStore := bs\<rparr>) = lockInv w cs" by (simp_all add: baseInv_def lockInv_def split: option.split)
  moreover have "sentInv w (cs\<lparr>csStore := bs\<rparr>) = sentInv w cs" unfolding sentInv_def by (simp only: store_fields held_store)
  ultimately show ?thesis by (simp add: cs_inv_def)
qed

lemma still_store: "still w cs (cs\<lparr>csStore := bs\<rparr>)"
  using still_refl [of w cs] by (simp add: still_def lockRule_def held_def polka_def notBefore_def)

lemma prune_blocks: "bsBlocks (pruneBlocks n bs) h = Some x \<Longrightarrow> bsBlocks bs h = Some x"
  by (auto simp: pruneBlocks_def split: if_splits)

lemma blockInvalid_False: "blockInvalid env cs b = Inr False \<Longrightarrow> validateBlock (ceCrypto env) (ceBlock env) (ceExec env) (csState cs) b = Inr ()"
  by (auto simp: blockInvalid_def ValidateBlock_def split: sum.splits fault.splits elim!: bindR_InrE)

lemma afterCommit_stay:
  assumes "cs_inv w cs"
  shows "stay w cs (scheduleRound0 env (updatePrivValidatorPubKey env cs))"
  using assms by (intro quiet_stay) (auto simp: scheduleRound0_def scheduleTimeout_def updatePrivValidatorPubKey_def sent_def notBefore_def cs_inv_def baseInv_def)

lemma applyCommitted_move:
  assumes inv: "node_inv w cs" and fit: "fits w env" and match: "nextMatch w cs"
    and bid: "isOk (BlockID_ValidateBasic \<lparr>bidHash = Block_Hash (ceBlock env) (Some b), bidParts = PS_Header (Some ps)\<rparr>)"
    and run: "applyCommitted env height b ps cs = Inr cs'"
  shows "move w cs cs'"
proof (cases "ApplyBlock (ceCrypto env) (ceBlock env) (ceExec env) (csState cs)
             \<lparr>bidHash = Block_Hash (ceBlock env) (Some b), bidParts = PS_Header (Some ps)\<rparr> b")
  case (Inl e)
  then show ?thesis using run inv by (cases e) (simp_all add: applyCommitted_def move_def fresh_same)
next
  case (Inr q)
  obtain st retain where q: "q = (st, retain)" by fastforce
  let ?c1 = "cs\<lparr>csStore := (if retain > 0 then pruneBlocks retain (csStore cs) else csStore cs)\<rparr>"
  have cs1: "(if retain > 0 then cs\<lparr>csStore := pruneBlocks retain (csStore cs)\<rparr> else cs) = ?c1" by simp
  obtain c2 where c2: "updateToState env st ?c1 = Inr c2" "cs' = scheduleRound0 env (updatePrivValidatorPubKey env c2)"
    using run unfolding applyCommitted_def Inr q sum.case prod.case cs1 Let_def by (elim bindR_InrE) simp
  have ci: "cs_inv w ?c1" "storeInv w cs" using inv cs_inv_store by (simp_all add: node_inv_def)
  have base: "baseInv w cs" using inv by (simp add: node_inv_def cs_inv_def)
  have ch: "chain_inv (csState cs)" "rsHeight cs = nextHeight (csState cs)" using base by (simp_all add: baseInv_def)
  have sizes: "sizesOk (ceCrypto env) (ceBlock env)" using fit by (simp add: fits_def)
  obtain ar changes st1 appHash where ab: "validateBlock (ceCrypto env) (ceBlock env) (ceExec env) (csState cs) b = Inr ()"
      "PB2TM_ValidatorUpdates (ceCrypto env) (ceExec env) (arValidatorUpdates ar) = Inr changes"
      "updateState (ceBlock env) (ceExec env) (csState cs) \<lparr>bidHash = Block_Hash (ceBlock env) (Some b), bidParts = PS_Header (Some ps)\<rparr> (bkHeader b) ar changes = Inr st1"
      "st = st1\<lparr>stAppHash := appHash\<rparr>"
    by (rule ApplyBlock_run [OF Inr [unfolded q]])
  note h = validateBlock_height [OF ch(1) ab(1)]
  have keyed: "keyed changes" using PB2TM_keyed [OF ab(2)] sizes by (simp add: sizesOk_def)
  have r: "stInitialHeight (csState cs) \<le> hdHeight (bkHeader b)" "in64 (hdHeight (bkHeader b))" using h by simp_all
  note u = updateState_ok [OF ch(1) sizes bid keyed ab(3) h(2) r]
  have st: "chain_inv st1" "stLastBlockHeight st1 = rsHeight cs" "stValidators st1 = stNextValidators (csState cs)" "stChainID st1 = stChainID (csState cs)"
    using u(1,2,3,7) h(1) ch(2) by simp_all
  have "chain_inv st" using st(1) by (simp add: ab(4) chain_inv_def)
  moreover have "nextMatch w ?c1" using match by (simp add: nextMatch_def)
  ultimately have n: "cs_inv w c2" "rsHeight cs < rsHeight c2" "csStore c2 = csStore ?c1" "csInternal c2 = csInternal cs"
    using updateToState_next [OF ci(1) _ _ _ _ _ c2(1)] st by (simp_all add: ab(4))
  have st2: "stay w c2 cs'" using afterCommit_stay [OF n(1)] by (simp add: c2(2))
  have "csStore cs' = (if retain > 0 then pruneBlocks retain (csStore cs) else csStore cs)" using n(3) st2 by (simp add: stay_def)
  then have "storeInv w cs'" using ci(2) prune_blocks unfolding storeInv_def by metis
  moreover have "fresh cs cs'" by (rule fresh_same) (simp add: c2(2) n(4) scheduleRound0_def scheduleTimeout_def updatePrivValidatorPubKey_def sent_def)
  ultimately show ?thesis using n(2) stay_height [OF st2] stay_inv [OF st2] by (simp add: move_def node_inv_def)
qed

lemma saveCommitted_move:
  assumes inv: "node_inv w cs" and fit: "fits w env" and vs: "HVS_Precommits (rsVotes cs) r = (Inr vs :: unit fault + _)"
    and maj: "TwoThirdsMajority vs = (bid, True)" and b: "blockHash w b = bidHash bid" "bidHash bid \<noteq> []"
    and valid: "validateBlock (ceCrypto env) (ceBlock env) (ceExec env) (csState cs) b = Inr ()" and run: "saveCommitted b ps vs cs = Inr cs'"
  shows "move w cs cs'" and "csState cs' = csState cs" and "rsHeight cs' = rsHeight cs"
proof -
  have base: "baseInv w cs" using inv by (simp add: node_inv_def cs_inv_def)
  have "chain_inv (csState cs)" "rsHeight cs = nextHeight (csState cs)" using base by (simp_all add: baseInv_def)
  then have h: "hdHeight (bkHeader b) = rsHeight cs" using validateBlock_height(1) valid by simp
  obtain bs where cs': "cs' = cs\<lparr>csStore := bs\<rparr>"
    and bs: "bs = csStore cs \<or> (\<exists>pc c. vs = Some pc \<and> MakeCommit pc = (Inr c :: unit fault + _) \<and> bsBlocks bs = (bsBlocks (csStore cs))(rsHeight cs \<mapsto> (b, c)))"
  proof (cases "bsHeight (csStore cs) < hdHeight (bkHeader b)")
    case False
    then show ?thesis using run that [of "csStore cs"] by (simp add: saveCommitted_def)
  next
    case True
    then obtain pc c bs where "vs = Some pc" "MakeCommit pc = (Inr c :: unit fault + _)" "SaveBlock b ps c (csStore cs) = Inr bs" "cs' = cs\<lparr>csStore := bs\<rparr>"
      using run by (auto simp: saveCommitted_def bindR_Inr_iff split: option.splits)
    then show ?thesis using that [of bs] h by (auto simp: SaveBlock_def Let_def split: if_splits)
  qed
  have "justified w (rsHeight cs) b c" if pc: "vs = Some pc" "MakeCommit pc = (Inr c :: unit fault + _)" for pc c
  proof -
    obtain rvs where rvs: "hvSets (rsVotes cs) r = Some rvs" "pc = Precommits rvs"
      using vs pc(1) by (auto simp: HVS_Precommits_def getVoteSet_def split: option.splits)
    moreover have "vsMaj23 (Precommits rvs) = Some bid" using maj pc(1) rvs(2) by (auto simp: TwoThirdsMajority_def split: option.splits)
    ultimately show ?thesis using precommit_majority [OF base fit rvs(1) _ b(2)] pc(2) b h by (simp add: justified_def)
  qed
  then have "storeInv w cs'" using inv bs unfolding node_inv_def storeInv_def cs' by (auto split: if_splits)
  then show "move w cs cs'" using inv still_store cs_inv_store by (simp add: move_def node_inv_def cs' fresh_same)
  show "csState cs' = csState cs" "rsHeight cs' = rsHeight cs" by (simp_all add: cs')
qed

lemma finalizeCommit_move:
  assumes inv: "node_inv w cs" and fit: "fits w env" and match: "nextMatch w cs" and run: "finalizeCommit env height cs = Inr cs'"
  shows "move w cs cs'"
proof (cases "rsHeight cs \<noteq> height \<or> rsStep cs \<noteq> RoundStepCommit")
  case True
  then show ?thesis using run inv by (auto simp: finalizeCommit_def move_def fresh_same)
next
  case False
  have be: "ceBlock env = wBlock w" using fit by (simp add: fits_def)
  have base: "baseInv w cs" using inv by (simp add: node_inv_def cs_inv_def)
  obtain vs where vs: "HVS_Precommits (rsVotes cs) (rsCommitRound cs) = (Inr vs :: unit fault + _)"
    using run False by (auto simp: finalizeCommit_def elim!: bindR_InrE)
  obtain bid ok where maj: "TwoThirdsMajority vs = (bid, ok)" by fastforce
  obtain b ps c1 where b: "ok" "HasHeader (Some ps) (bidParts bid)" "Block_HashesTo (wBlock w) (Some b) (bidHash bid)"
      "blockInvalid env cs b = Inr False" "saveCommitted b ps vs cs = Inr c1" "applyCommitted env height b ps c1 = Inr cs'"
    using run False by (auto simp: finalizeCommit_def vs maj be bindR_Inr_iff split: if_splits option.splits)
  have hash: "blockHash w b = bidHash bid" "bidHash bid \<noteq> []" using b(3) by (auto simp: HashesTo_some blockHash_def)
  have maj': "TwoThirdsMajority vs = (bid, True)" using maj b(1) by simp
  note save = saveCommitted_move [OF inv fit vs maj' hash blockInvalid_False [OF b(4)] b(5)]
  obtain rvs where rvs: "hvSets (rsVotes cs) (rsCommitRound cs) = Some rvs" "vsMaj23 (Precommits rvs) = Some bid"
    using vs maj' by (auto simp: HVS_Precommits_def getVoteSet_def TwoThirdsMajority_def split: option.splits)
  have "isOk (BlockID_ValidateBasic bid)" by (rule majority_block_ok [OF base rvs])
  moreover have "\<lparr>bidHash = Block_Hash (ceBlock env) (Some b), bidParts = PS_Header (Some ps)\<rparr> = bid"
    using hash(1) b(2) by (simp add: HasHeader_def PSH_Equals_def be blockHash_def)
  ultimately have "isOk (BlockID_ValidateBasic \<lparr>bidHash = Block_Hash (ceBlock env) (Some b), bidParts = PS_Header (Some ps)\<rparr>)" by simp
  moreover have "node_inv w c1" "nextMatch w c1" using save match by (simp_all add: move_def nextMatch_def)
  ultimately have "move w c1 cs'" using applyCommitted_move [OF _ fit _ _ b(6)] by blast
  then show ?thesis using move_trans [OF save(1)] by blast
qed

lemma ensures_move: "move w cs c \<Longrightarrow> ensures (move w c) m \<Longrightarrow> ensures (move w cs) m"
  using move_trans by (auto simp: ensures_def)

lemma move_inv: "move w cs cs' \<Longrightarrow> node_inv w cs'"
  by (simp add: move_def)

lemma ensures_stay_move: "storeInv w cs \<Longrightarrow> ensures (stay w cs) m \<Longrightarrow> ensures (move w cs) m"
  using stay_move by (auto simp: ensures_def)

lemma nextMatch_stay: "stay w cs cs' \<Longrightarrow> nextMatch w cs \<Longrightarrow> nextMatch w cs'"
  by (simp add: nextMatch_def stay_def still_def)

lemma storeInv_stay: "stay w cs cs' \<Longrightarrow> storeInv w cs \<Longrightarrow> storeInv w cs'"
  by (simp add: storeInv_def stay_def)

lemma move_refl: "node_inv w cs \<Longrightarrow> move w cs cs"
  by (simp add: move_def fresh_same)

lemma tryFinalizeCommit_move:
  assumes inv: "node_inv w cs" and fit: "fits w env" and match: "nextMatch w cs"
  shows "ensures (move w cs) (tryFinalizeCommit env height cs)"
proof -
  have "ensures (move w cs) (finalizeCommit env height cs)" using finalizeCommit_move [OF assms] by (auto simp: ensures_def)
  then show ?thesis unfolding tryFinalizeCommit_def Let_def split_beta by (intro ensure move_refl [OF inv])
qed

lemma enterCommit_move:
  assumes inv: "node_inv w cs" and fit: "fits w env" and match: "nextMatch w cs" and r: "0 \<le> commitRound"
  shows "ensures (move w cs) (enterCommit env height commitRound cs)"
proof -
  have go: "ensures (move w cs) (tryFinalizeCommit env height c)" if pos: "rsStep cs < RoundStepCommit"
    and c: "c = newStep ((updateRoundStep (rsRound d) RoundStepCommit d)\<lparr>rsCommitRound := commitRound, rsCommitTime := ceNow env\<rparr>)"
      "core d = core cs" "sent d = sent cs" for c d
  proof -
    have i: "cs_inv w cs" "storeInv w cs" using inv by (simp_all add: node_inv_def)
    have "stay w cs c"
      using r pos c(3) core_fields [OF c(2)] 
      by (intro quiet_stay [OF i(1)]) (auto simp: c(1) newStep_def updateRoundStep_def sent_def notBefore_def)
    then have "move w cs c" "node_inv w c" "nextMatch w c"
      using stay_move i(2) nextMatch_stay match move_inv by blast+
    then show ?thesis using ensures_move tryFinalizeCommit_move fit by blast
  qed
  show ?thesis
    unfolding enterCommit_def Let_def split_beta
    by (intro ensure move_refl [OF inv] go [OF _ refl]) (auto simp: core_def sent_def)
qed

lemma completeProposal_move:
  assumes inv: "node_inv w cs" and fit: "fits w env" and match: "nextMatch w cs"
  shows "ensures (move w cs) (completeProposal env height b cs)"
proof -
  have i: "cs_inv w cs" "storeInv w cs" using inv by (simp_all add: node_inv_def)
  have go: "ensures (move w cs) (if rsStep c \<le> RoundStepPropose \<and> complete then
          bindR (enterPrevote env height (rsRound c) c) (\<lambda>c3. if any then enterPrecommit env height (rsRound c3) c3 else Inr c3)
        else if rsStep c = RoundStepCommit then tryFinalizeCommit env height c else Inr c)"
    if c: "core c = core cs" "sent c = sent cs" for c complete any
  proof -
    have st: "stay w cs c" by (rule core_stay [OF i(1) c])
    note ci = stay_inv [OF st] and cs = storeInv_stay [OF st i(2)]
    have ni: "node_inv w c" using ci cs by (simp add: node_inv_def)
    have "ensures (stay w c) (bindR (enterPrevote env height (rsRound c) c) (\<lambda>c3. if any then enterPrecommit env height (rsRound c3) c3 else Inr c3))"
    proof (rule ensures_seq [OF steps(3) [OF ci fit]])
      fix c3 assume st3: "stay w c c3"
      have "ensures (stay w c3) (if any then enterPrecommit env height (rsRound c3) c3 else Inr c3)"
        by (intro ensure steps [OF stay_inv [OF st3] fit] stay_refl [OF stay_inv [OF st3]]) (simp add: notAhead_def)
      then show "ensures (stay w c) (if any then enterPrecommit env height (rsRound c3) c3 else Inr c3)"
        using stay_trans [OF st3] by (auto simp: ensures_def)
    qed (simp add: notAhead_def)
    then have "ensures (move w c) (if rsStep c \<le> RoundStepPropose \<and> complete then
          bindR (enterPrevote env height (rsRound c) c) (\<lambda>c3. if any then enterPrecommit env height (rsRound c3) c3 else Inr c3)
        else if rsStep c = RoundStepCommit then tryFinalizeCommit env height c else Inr c)"
      using nextMatch_stay [OF st match]
      by (intro ensures_if ensures_Inr ensures_stay_move [OF cs] tryFinalizeCommit_move [OF ni fit] move_refl [OF ni])
    then show ?thesis using ensures_move stay_move [OF i(2) st] by blast
  qed
  show ?thesis
    unfolding completeProposal_def Let_def split_beta
    by (intro ensures_bind go) (auto simp: core_def sent_def)
qed

end
