(* ===== verification/ConsensusHandlers.thy ===== *)
theory ConsensusHandlers
  imports ConsensusSafety
begin

text \<open>
  Every event that a node handles keeps the invariant of the node, and so does every run of a node from its start.
\<close>

section \<open>Proposals and block parts\<close>

abbreviation onState :: "(cs_state \<Rightarrow> bool) \<Rightarrow> cs_state \<times> 'a \<Rightarrow> bool" where
  "onState Q p \<equiv> Q (fst p)"

lemma ensures_onState: "ensures (onState Q) m \<Longrightarrow> ensures Q (bindR m (\<lambda>(x, _). Inr x))"
  by (auto simp: ensures_def bindR_Inr_iff)

lemma defaultSetProposal_move:
  assumes inv: "node_inv w cs"
  shows "ensures (onState (move w cs)) (defaultSetProposal env p cs)"
proof -
  have i: "cs_inv w cs" "storeInv w cs" using inv by (simp_all add: node_inv_def)
  have go: "move w cs c" if "core c = core cs" "sent c = sent cs" for c
    using core_stay [OF i(1) that] stay_move i(2) by blast
  show ?thesis
    unfolding defaultSetProposal_def Let_def split_beta
    by (intro ensure) (auto intro!: go simp: core_def sent_def)
qed

lemma addProposalBlockPart_move:
  assumes inv: "node_inv w cs" and fit: "fits w env" and match: "nextMatch w cs"
  shows "ensures (onState (move w cs)) (addProposalBlockPart env height round p cs)"
proof -
  have i: "cs_inv w cs" "storeInv w cs" using inv by (simp_all add: node_inv_def)
  have st: "stay w cs (cs\<lparr>rsProposalBlockParts := ps\<rparr>)" for ps
    using core_stay [OF i(1)] by (simp add: core_def sent_def)
  have go: "move w cs (cs\<lparr>rsProposalBlockParts := ps\<rparr>)" for ps using stay_move [OF i(2) st] .
  have complete: "ensures (move w cs) (completeProposal env height b (cs\<lparr>rsProposalBlockParts := ps\<rparr>))" for b ps
    using ensures_move [OF go] completeProposal_move [OF move_inv [OF go] fit nextMatch_stay [OF st match]] by blast
  have fin: "ensures (onState (move w cs)) (bindR (completeProposal env height b (cs\<lparr>rsProposalBlockParts := ps\<rparr>)) (\<lambda>x. Inr (x, a, e)))" for b ps a and e :: "cs_error option"
    by (rule ensures_seq [OF complete]) (simp add: ensures_def)
  have rd: "ensures (onState (move w cs)) (case BlockFromProto be q of Inl (Panic m) \<Rightarrow> Inl (Panic m)
      | Inl (Err er) \<Rightarrow> Inr (cs\<lparr>rsProposalBlockParts := ps\<rparr>, a, Some (BlockErr er))
      | Inr b \<Rightarrow> bindR (completeProposal env height b (cs\<lparr>rsProposalBlockParts := ps\<rparr>)) (\<lambda>x. Inr (x, a, None)))" for ps a q be
    using fin [of _ ps a None] go [of ps]
    by (cases "BlockFromProto be q") (auto intro: ensures_Inr ensures_Inl split: fault.split)
  show ?thesis
    unfolding addProposalBlockPart_def Let_def split_beta
    by (intro ensure rd) (simp_all add: go move_refl [OF inv])
qed

section \<open>Votes\<close>

text \<open>A vote that can be received: it passed its validation and is among those of the world.\<close>

definition receivable :: "cs_world \<Rightarrow> vote \<Rightarrow> bool" where
  "receivable w v \<longleftrightarrow> Vote_ValidateBasic v = Inr () \<and> v \<in> wVotes w"

lemma votes_stay:
  assumes inv: "cs_inv w cs" and "hv_inv (wCrypto w) votes" and "hvGrows (wVotes w) (rsVotes cs) votes" and "hvRound votes = hvRound (rsVotes cs)"
  shows "stay w cs (cs\<lparr>rsVotes := votes\<rparr>)"
proof (rule advance_stay [OF inv])
  have "baseInv w cs" using inv by (simp add: cs_inv_def)
  then show "advance w cs (cs\<lparr>rsVotes := votes\<rparr>)"
    using assms(2-4) by (auto simp: advance_def notBefore_def baseInv_def sent_def intro!: lockStep_same sentStep_same)
qed simp

lemma addVote_stay:
  assumes inv: "cs_inv w cs" and fit: "fits w env" and v: "receivable w v"
    and run: "HVS_AddVote (ceCrypto env) (rsVotes cs) v peerID = (Inr (votes, added, err) :: unit fault + _)"
  shows "stay w cs (cs\<lparr>rsVotes := votes\<rparr>)"
proof -
  have hv: "hv_inv (ceCrypto env) (rsVotes cs)" and ce: "ceCrypto env = wCrypto w" using inv fit by (simp_all add: cs_inv_def baseInv_def fits_def)
  have ok: "Vote_ValidateBasic v = Inr ()" and sub: "{v} \<subseteq> wVotes w" using v by (simp_all add: receivable_def)
  note g = HVS_AddVote_grows [OF hv ok run]
  show ?thesis using g(1,3) hvGrows_mono [OF g(2) sub] ce by (intro votes_stay [OF inv]) simp_all
qed

lemma addedPrecommit_move:
  assumes inv: "node_inv w cs" and fit: "fits w env" and match: "nextMatch w cs" and h: "rsHeight cs = height" and r: "0 \<le> vRound v"
  shows "ensures (move w cs) (addedPrecommit env height v cs)"
proof -
  have i: "cs_inv w cs" "storeInv w cs" using inv by (simp_all add: node_inv_def)
  have enter: "ensures (\<lambda>c. stay w cs c \<and> notAhead c height (vRound v)) (enterNewRound env height (vRound v) cs)"
    using enterNewRound_stay [OF i(1) fit] h stay_height by (fastforce simp: ensures_def notAhead_def)
  have wait: "ensures (move w cs) (enterPrecommitWait env height (vRound v) c)" if c: "stay w cs c" "notAhead c height (vRound v)" for c
    using ensures_move [OF stay_move [OF i(2) c(1)]] ensures_stay_move [OF storeInv_stay [OF c(1) i(2)] steps(6) [OF stay_inv [OF c(1)] fit c(2)]] by blast
  have pre: "ensures (\<lambda>c'. stay w cs c' \<and> notAhead c' height (vRound v)) (enterPrecommit env height (vRound v) c)"
    if c: "stay w cs c" "notAhead c height (vRound v)" for c
    using steps(5) [OF stay_inv [OF c(1)] fit c(2)] c stay_trans [OF c(1)] stay_round stay_height
    by (fastforce simp: ensures_def notAhead_def)
  have commit: "ensures (move w cs) (bindR (enterCommit env height (vRound v) c) (\<lambda>c3. bindR m (\<lambda>all. if all then enterNewRound env (rsHeight c3) 0 c3 else Inr c3)))"
    if c: "stay w cs c" for c and m :: "unit fault + bool"
  proof -
    have mc: "move w cs c" using stay_move [OF i(2) c] .
    have "ensures (move w c) (enterCommit env height (vRound v) c)"
      using enterCommit_move [OF move_inv [OF mc] fit nextMatch_stay [OF c match] r] .
    then have "ensures (move w cs) (enterCommit env height (vRound v) c)" using ensures_move [OF mc] by blast
    then show ?thesis
    proof (rule ensures_seq)
      fix c3 assume m3: "move w cs c3"
      then have i3: "cs_inv w c3" "storeInv w c3" by (simp_all add: move_def node_inv_def)
      have "ensures (move w cs) (enterNewRound env (rsHeight c3) 0 c3)"
        using ensures_move [OF m3 ensures_stay_move [OF i3(2) steps(1) [OF i3(1) fit]]] .
      then show "ensures (move w cs) (bindR m (\<lambda>all. if all then enterNewRound env (rsHeight c3) 0 c3 else Inr c3))"
        by (intro ensure m3)
    qed
  qed
  show ?thesis
    unfolding addedPrecommit_def Let_def split_beta
  proof (rule ensures_bind, rule ensures_if)
    fix vs
    show "ensures (move w cs) (bindR (enterNewRound env height (vRound v) cs) (\<lambda>cs1.
       bindR (enterPrecommit env height (vRound v) cs1) (\<lambda>cs2.
         if length (bidHash (fst (TwoThirdsMajority vs))) \<noteq> 0 then
           bindR (enterCommit env height (vRound v) cs2) (\<lambda>cs3.
           bindR (if ceSkipTimeoutCommit env then bindR (HasAll (the vs)) (\<lambda>p. Inr (snd p)) else Inr False) (\<lambda>hasAll.
             if hasAll then enterNewRound env (rsHeight cs3) 0 cs3 else Inr cs3))
         else enterPrecommitWait env height (vRound v) cs2)))"
      by (rule ensures_seq [OF enter], elim conjE, rule ensures_seq [OF pre], assumption, assumption, intro ensures_if commit wait) simp_all
    show "ensures (move w cs) (bindR (twoThirdsAny vs) (\<lambda>any.
       if rsRound cs \<le> vRound v \<and> any then
         bindR (enterNewRound env height (vRound v) cs) (\<lambda>cs1. enterPrecommitWait env height (vRound v) cs1)
       else Inr cs))"
      by (rule ensures_bind, rule ensures_if, rule ensures_seq [OF enter]) (auto intro: wait ensures_Inr move_refl [OF inv])
  qed
qed

lemma cs_addVote_move:
  assumes inv: "node_inv w cs" and fit: "fits w env" and match: "nextMatch w cs" and v: "receivable w v"
  shows "ensures (onState (move w cs)) (cs_addVote env v peerID cs)"
proof (cases "vHeight v + 1 = rsHeight cs \<and> vType v = PrecommitType")
  case True
  have i: "cs_inv w cs" "storeInv w cs" using inv by (simp_all add: node_inv_def)
  have st: "stay w cs (cs\<lparr>rsLastCommit := lc\<rparr>)" for lc
    using core_stay [OF i(1)] by (simp add: core_def sent_def)
  have go: "move w cs (cs\<lparr>rsLastCommit := lc\<rparr>)" for lc using stay_move [OF i(2) st] .
  have "ensures (move w cs) (enterNewRound env h 0 (cs\<lparr>rsLastCommit := lc\<rparr>))" for h lc
    using ensures_move [OF go ensures_stay_move [OF storeInv_stay [OF st i(2)] steps(1) [OF stay_inv [OF st] fit]]] .
  then have new: "ensures (onState (move w cs)) (bindR (if all then enterNewRound env h 0 (cs\<lparr>rsLastCommit := lc\<rparr>) else Inr (cs\<lparr>rsLastCommit := lc\<rparr>)) (\<lambda>x. Inr (x, a)))" for h lc all and a :: "bool \<times> cs_error option"
    by (intro ensures_seq [of "move w cs"] ensures_if ensures_Inr go) simp_all
  show ?thesis
    unfolding cs_addVote_def if_P [OF True] Let_def split_beta
    by (intro ensure new) (simp_all add: go move_refl [OF inv])
next
  case False
  have i: "cs_inv w cs" "storeInv w cs" using inv by (simp_all add: node_inv_def)
  have r: "0 \<le> vRound v" using v by (auto simp: receivable_def Vote_ValidateBasic_def split: if_splits)
  have rest: "ensures (onState (move w cs)) (let cs1 = cs\<lparr>rsVotes := votes\<rparr>; e = map_option AddVoteErr err in
        if \<not> added then Inr (cs1, added, e)
        else if \<not> cePublishOk env EventVote then Inr (cs1, added, Some PublishErr)
        else case vType v of
          PrevoteType \<Rightarrow> bindR (addedPrevote env (rsHeight cs) v cs1) (\<lambda>(cs2, e2). Inr (cs2, added, if e2 = None then e else e2))
        | PrecommitType \<Rightarrow> bindR (addedPrecommit env (rsHeight cs) v cs1) (\<lambda>cs2. Inr (cs2, added, e))
        | _ \<Rightarrow> Inl (Panic ''unexpected vote type''))"
    if run: "HVS_AddVote (ceCrypto env) (rsVotes cs) v peerID = (Inr (votes, added, err) :: unit fault + _)" for votes added err
  proof -
    let ?c = "cs\<lparr>rsVotes := votes\<rparr>"
    have st: "stay w cs ?c" by (rule addVote_stay [OF i(1) fit v run])
    have go: "move w cs ?c" by (rule stay_move [OF i(2) st])
    have pv: "ensures (onState (move w cs)) (bindR (addedPrevote env (rsHeight cs) v ?c) (\<lambda>(cs2, e2). Inr (cs2, added, if e2 = None then e else e2)))" for e
    proof -
      have "ensures (onState (move w cs)) (addedPrevote env (rsHeight cs) v ?c)"
        using addedPrevote_stay [OF stay_inv [OF st] fit] stay_move [OF storeInv_stay [OF st i(2)]] move_trans [OF go]
        by (force simp: ensures_def)
      then show ?thesis by (rule ensures_seq) (auto simp: ensures_def)
    qed
    have "ensures (move w cs) (addedPrecommit env (rsHeight cs) v ?c)"
      using ensures_move [OF go] addedPrecommit_move [OF move_inv [OF go] fit nextMatch_stay [OF st match] _ r] by simp
    then have pc: "ensures (onState (move w cs)) (bindR (addedPrecommit env (rsHeight cs) v ?c) (\<lambda>cs2. Inr (cs2, added, e)))" for e :: "cs_error option"
      by (rule ensures_seq) (simp add: ensures_def)
    show ?thesis
      unfolding Let_def using pv pc go
      by (intro ensures_if ensures_Inr) (auto intro: ensures_Inl split: SignedMsgType.split)
  qed
  show ?thesis
    unfolding cs_addVote_def if_not_P [OF False]
    by (intro ensures_if ensures_Inr ensures_bind) (auto intro!: rest move_refl [OF inv])
qed

lemma evidence_move: "move w cs c \<Longrightarrow> move w cs (c\<lparr>csEvidence := ev\<rparr>)"
proof -
  assume m: "move w cs c"
  then have "stay w c (c\<lparr>csEvidence := ev\<rparr>)" by (intro core_stay) (simp_all add: move_def node_inv_def core_def sent_def)
  moreover have "storeInv w c" using m by (simp add: move_def node_inv_def)
  ultimately show ?thesis using stay_move move_trans [OF m] by blast
qed

lemma tryAddVote_move:
  assumes "node_inv w cs" and "fits w env" and "nextMatch w cs" and "receivable w v"
  shows "ensures (onState (move w cs)) (tryAddVote env v peerID cs)"
  unfolding tryAddVote_def
proof (rule ensures_seq [OF cs_addVote_move [OF assms]])
  fix x :: "cs_state \<times> bool \<times> cs_error option" assume "onState (move w cs) x"
  then show "ensures (onState (move w cs)) (case x of (cs1, added, err) \<Rightarrow> case err of
         None \<Rightarrow> Inr (cs1, added, None)
       | Some (AddVoteErr (VoteErr (ErrVoteConflictingVotes a b))) \<Rightarrow>
           (case csPubKey cs1 of
              None \<Rightarrow> Inr (cs1, False, Some ErrPubKeyIsNotSet)
            | Some pk \<Rightarrow>
                if vAddress v = pkAddress (ceCrypto env) pk then Inr (cs1, added, err)
                else Inr (cs1\<lparr>csEvidence := csEvidence cs1 @ [(a, b)]\<rparr>, added, err))
       | Some (AddVoteErr (VoteErr ErrVoteNonDeterministicSignature)) \<Rightarrow> Inr (cs1, added, None)
       | _ \<Rightarrow> Inr (cs1, added, Some ErrAddingVote))"
    by (auto intro!: ensures_Inr evidence_move split: prod.split option.split cs_error.split hvs_error.split vote_error.split)
qed

section \<open>Events\<close>

text \<open>The events that can happen: messages whose votes can be received, timeouts that were scheduled,
  transactions, and any claims of peers.\<close>

fun possible :: "cs_world \<Rightarrow> cs_state \<Rightarrow> cs_event \<Rightarrow> bool" where
  "possible w cs (EvMsg (VoteMessage v, peerID)) \<longleftrightarrow> receivable w v"
| "possible w cs (EvTimeout ti) \<longleftrightarrow> ti \<in> set (csTimeouts cs)"
| "possible w cs ev \<longleftrightarrow> True"

lemma handleMsg_move:
  assumes inv: "node_inv w cs" and fit: "fits w env" and match: "nextMatch w cs" and "possible w cs (EvMsg mi)"
  shows "ensures (move w cs) (handleMsg env mi cs)"
proof -
  obtain m peerID where mi: "mi = (m, peerID)" by fastforce
  show ?thesis
    using defaultSetProposal_move [OF inv] addProposalBlockPart_move [OF inv fit match] tryAddVote_move [OF inv fit match] assms(4)
    by (cases m) (auto simp: mi handleMsg_def intro!: ensures_onState)
qed

lemma handleTimeout_move:
  assumes inv: "node_inv w cs" and fit: "fits w env" and ti: "ti \<in> set (csTimeouts cs)"
  shows "ensures (move w cs) (handleTimeout env ti cs)"
proof -
  have i: "cs_inv w cs" "storeInv w cs" and base: "baseInv w cs" using inv by (simp_all add: node_inv_def cs_inv_def)
  have ahead: "notAhead cs (tiHeight ti) (tiRound ti)" "notAhead cs (tiHeight ti) 0" using base ti by (fastforce simp: baseInv_def notAhead_def)+
  have "ensures (stay w cs) (handleTimeout env ti cs)"
    unfolding handleTimeout_def
  proof (intro ensures_if ensures_Inr ensures_Inl stay_refl [OF i(1)] steps [OF i(1) fit] ahead)
    show "ensures (stay w cs) (bindR (enterPrecommit env (tiHeight ti) (tiRound ti) cs) (\<lambda>cs'. enterNewRound env (tiHeight ti) (wrap32 (tiRound ti + 1)) cs'))"
    proof (rule ensures_seq [OF steps(5) [OF i(1) fit ahead(1)]])
      fix c assume c: "stay w cs c"
      show "ensures (stay w cs) (enterNewRound env (tiHeight ti) (wrap32 (tiRound ti + 1)) c)"
        using steps(1) [OF stay_inv [OF c] fit] stay_trans [OF c] by (auto simp: ensures_def)
    qed
  qed
  then show ?thesis using ensures_stay_move [OF i(2)] by blast
qed

lemma handleTxsAvailable_move:
  assumes inv: "node_inv w cs" and fit: "fits w env"
  shows "ensures (move w cs) (handleTxsAvailable env cs)"
proof -
  have i: "cs_inv w cs" "storeInv w cs" and base: "baseInv w cs" using inv by (simp_all add: node_inv_def cs_inv_def)
  have "stay w cs (scheduleTimeout d (rsHeight cs) 0 s cs)" for d s
    using base by (intro quiet_stay [OF i(1)]) (auto simp: scheduleTimeout_def sent_def notBefore_def baseInv_def)
  then have "ensures (stay w cs) (handleTxsAvailable env cs)"
    unfolding handleTxsAvailable_def using base stay_refl [OF i(1)]
    by (intro ensures_if ensures_Inr ensures_bind steps [OF i(1) fit]) (auto simp: notAhead_def)
  then show ?thesis using ensures_stay_move [OF i(2)] by blast
qed

lemma handleMaj23_move:
  assumes inv: "node_inv w cs"
  shows "ensures (move w cs) (handleMaj23 height round t peerID bid cs)"
proof -
  have i: "cs_inv w cs" "storeInv w cs" using inv by (simp_all add: node_inv_def)
  then have hv: "hv_inv (wCrypto w) (rsVotes cs)" by (simp add: cs_inv_def baseInv_def)
  have "stay w cs (cs\<lparr>rsVotes := votes\<rparr>)" if "HVS_SetPeerMaj23 (rsVotes cs) round t peerID bid = (Inr (votes, e) :: unit fault + _)" for votes e
    using HVS_SetPeerMaj23_grows [OF hv that] hvGrows_mono [of "{}"] by (intro votes_stay [OF i(1)]) auto
  then have "ensures (stay w cs) (handleMaj23 height round t peerID bid cs)"
    unfolding handleMaj23_def using stay_refl [OF i(1)] by (intro ensures_if ensures_bind) (auto simp: ensures_def)
  then show ?thesis using ensures_stay_move [OF i(2)] by blast
qed

lemma handleEvent_move:
  assumes "node_inv w cs" and "fits w env" and "nextMatch w cs" and "possible w cs ev"
  shows "ensures (move w cs) (handleEvent env ev cs)"
  using handleMsg_move [OF assms(1-3)] handleTimeout_move [OF assms(1,2)] handleTxsAvailable_move [OF assms(1,2)] handleMaj23_move [OF assms(1)] assms(4)
  by (cases ev) auto

section \<open>Starting\<close>

lemma startNode_inv:
  assumes fit: "fits w env" and st: "chain_inv state" "stChainID state = wChain w" "Validators (the (stValidators state)) = wVals w (nextHeight state)"
    and store: "\<forall>h b c. bsBlocks store h = Some (b, c) \<longrightarrow> justified w h b c" and run: "startNode env state pv store = Inr cs"
  shows "node_inv w cs" and "csState cs = state" and "sent cs = {}" and "rsHeight cs = nextHeight state"
proof -
  obtain vals where vals: "stValidators state = Some vals" using st(1) by (auto simp: chain_inv_def)
  obtain c0 c where c: "updateToState env state c0 = Inr c" "cs = scheduleRound0 env (updatePrivValidatorPubKey env c)"
    and c0: "csState c0 = zeroState" "csStore c0 = store" "csTimeouts c0 = []" "sent c0 = {}" "rsHeight c0 = 0"
    using run
    by (auto simp: startNode_def NewState_def bindR_Inr_iff zeroRoundState_def reconstructLastCommit_def sent_def split: if_splits option.splits)
  have h: "(if stLastBlockHeight state + 1 = 1 then stInitialHeight state else stLastBlockHeight state + 1) = nextHeight state" by (simp add: nextHeight_def)
  have "stValidators zeroState = None" by (simp add: zeroState_def)
  then have "bindR (nextLastCommit state c0) (\<lambda>lc. bindR (NewHeightVoteSet (stChainID state) (nextHeight state) vals) (\<lambda>votes.
      Inr (newStep (startHeight env state (nextHeight state) vals lc votes c0)))) = Inr c"
    using c(1) unfolding updateToState_def vals c0(1) h Let_def by (simp add: c0(5) split: if_splits)
  then obtain votes lc where votes: "NewHeightVoteSet (stChainID state) (nextHeight state) vals = (Inr votes :: unit fault + _)"
    and c': "c = newStep (startHeight env state (nextHeight state) vals lc votes c0)"
    by (auto simp: bindR_Inr_iff)
  have inv: "cs_inv w c"
    unfolding c' using st(3) vals c0 by (intro startHeight_inv [OF st(1,2) vals _ votes]) simp_all
  have fields: "csStore c = store" "csState c = state" "sent c = {}" "rsHeight c = nextHeight state"
    using c0 by (simp_all add: c' newStep_def startHeight_def sent_def)
  note s = afterCommit_stay [OF inv, of env]
  then show "node_inv w cs" using store fields(1) by (simp add: node_inv_def stay_def storeInv_def c(2))
  show "csState cs = state" "rsHeight cs = nextHeight state" using s fields by (simp_all add: c(2) stay_def still_def)
  show "sent cs = {}" using fields(3) by (simp add: c(2) scheduleRound0_def scheduleTimeout_def updatePrivValidatorPubKey_def sent_def)
qed

end
