(* ===== verification/ConsensusRun.thy ===== *)
theory ConsensusRun
  imports ConsensusHandlers
begin

text \<open>
  The runs of one node: it starts from a chain state and a block store, and handles any events that can
  happen, in any order. The validators of every height it goes through are those of the world (\<open>nextMatch\<close>).
\<close>

inductive node_run :: "cs_world \<Rightarrow> cs_state \<Rightarrow> bool" for w where
  start: "fits w env \<Longrightarrow> chain_inv state \<Longrightarrow> stChainID state = wChain w \<Longrightarrow>
    Validators (the (stValidators state)) = wVals w (nextHeight state) \<Longrightarrow>
    (\<And>h b c. bsBlocks store h = Some (b, c) \<Longrightarrow> justified w h b c) \<Longrightarrow>
    startNode env state pv store = Inr cs \<Longrightarrow> node_run w cs"
| event: "node_run w cs \<Longrightarrow> fits w env \<Longrightarrow> nextMatch w cs \<Longrightarrow> possible w cs ev \<Longrightarrow>
    handleEvent env ev cs = Inr cs' \<Longrightarrow> node_run w cs'"

lemma node_run_inv: "node_run w cs \<Longrightarrow> node_inv w cs"
proof (induction rule: node_run.induct)
  case (start env state store pv cs)
  then show ?case using startNode_inv(1) by blast
next
  case (event cs env ev cs')
  show ?case using ensuresD [OF handleEvent_move [OF event.IH event.hyps(2-4)] event.hyps(5)] by (rule move_inv)
qed

lemma node_run_move:
  assumes "node_run w cs" and "fits w env" and "nextMatch w cs" and "possible w cs ev" and "handleEvent env ev cs = Inr cs'"
  shows "move w cs cs'"
  using handleEvent_move [OF node_run_inv [OF assms(1)] assms(2-4)] assms(5) by (rule ensuresD)

section \<open>A sample run\<close>

text \<open>Two validators, of which the node has three quarters of the power and the other one proposes.\<close>

definition runVals :: validator_set where
  "runVals = (let a = \<lparr>Address = 1 # replicate 19 0, PubKey = Some [1], VotingPower = 30, ProposerPriority = 0\<rparr>;
                  b = \<lparr>Address = 2 # replicate 19 0, PubKey = Some [2], VotingPower = 10, ProposerPriority = 0\<rparr> in
     \<lparr>Validators = [a, b], Proposer = Some b, totalVotingPower = 40\<rparr>)"

definition runBlock :: block where
  "runBlock = chainBlock\<lparr>bkHeader := (bkHeader chainBlock)\<lparr>hdProposerAddress := 2 # replicate 19 0\<rparr>\<rparr>"

definition runBlockEnv :: block_env where
  "runBlockEnv = chainBlockEnv\<lparr>beUnmarshal := \<lambda>bz. Some runBlock\<rparr>"

definition runStart :: chain_state where
  "runStart = chainStart\<lparr>stValidators := Some runVals, stNextValidators := Some runVals\<rparr>"

definition runEnv :: cs_env where
  "runEnv = \<lparr>ceCrypto = chainCrypto, ceBlock = runBlockEnv,
     cePV = \<lparr>pvSign = \<lambda>sb. Some [1], pvUnmarshalVote = \<lambda>bs. None, pvUnmarshalProposal = \<lambda>bs. None\<rparr>, cePubKey = [1],
     ceSkipTimeoutCommit = False, ceCreateEmptyBlocks = True, ceEmptyBlocksInterval = 0, ceTimeoutPropose = \<lambda>r. 1,
     ceTimeoutPrevote = \<lambda>r. 1, ceTimeoutPrecommit = \<lambda>r. 1, ceTimeoutCommit = 1, ceNow = 200, ceFlushOk = True,
     cePublishOk = \<lambda>e. True, ceExec = chainExec\<rparr>"

definition runBid :: block_id where
  "runBid = \<lparr>bidHash = replicate 32 0, bidParts = \<lparr>pshTotal = 1, pshHash = replicate 32 0\<rparr>\<rparr>"

definition runVote :: "SignedMsgType \<Rightarrow> vote" where
  "runVote t = \<lparr>vType = t, vHeight = 1, vRound = 0, vBlockID = runBid, vTimestamp = 1000100, vAddress = 1 # replicate 19 0,
     vIndex = 0, vSignature = [1]\<rparr>"

definition runPart :: part where
  "runPart = \<lparr>partIndex = 0, partBytes = [1], partProof = \<lparr>pfTotal = 1, pfIndex = 0, pfLeafHash = replicate 32 0, pfAunts = []\<rparr>\<rparr>"

definition runEvents :: "cs_event list" where
  "runEvents =
     [EvTimeout \<lparr>tiDuration = 1, tiHeight = 1, tiRound = 0, tiStep = RoundStepNewHeight\<rparr>,
      EvMsg (ProposalMessage (NewProposal 150 1 0 (-1) runBid), ''p''),
      EvMsg (BlockPartMessage 1 0 runPart, ''p''),
      EvMsg (VoteMessage (runVote PrevoteType), []),
      EvMsg (VoteMessage (runVote PrecommitType), [])]"

definition runState :: "nat \<Rightarrow> cs_run" where
  "runState n = fold (\<lambda>ev r. bindR r (handleEvent runEnv ev)) (take n runEvents)
     (startNode runEnv runStart (Some \<lparr>pvState = emptySignState ''f'', pvDisk = emptySignState ''f''\<rparr>) \<lparr>bsBase = 0, bsHeight = 0, bsBlocks = Map.empty\<rparr>)"

definition runWorld :: cs_world where
  "runWorld = \<lparr>wCrypto = chainCrypto, wBlock = runBlockEnv, wChain = ''c'', wVals = \<lambda>h. Validators runVals,
     wVotes = {runVote PrevoteType, runVote PrecommitType}\<rparr>"

definition stepReady :: "nat \<Rightarrow> bool" where
  "stepReady n = (case runState n of Inl _ \<Rightarrow> False
     | Inr cs \<Rightarrow> nextMatch runWorld cs \<and> possible runWorld cs (runEvents ! n) \<and> isOk (handleEvent runEnv (runEvents ! n) cs))"

lemma run_fits: "fits runWorld runEnv"
  by (auto simp: fits_def runWorld_def runEnv_def runBlockEnv_def runVals_def Let_def sizesOk_def chainCrypto_def chainBlockEnv_def AddressSize_def int_range)

lemma runVals_ok: "valsOk runVals"
  by (simp add: valsOk_def wf_vals_def wf_list_def keyed_def runVals_def Let_def vp_bounds AddressSize_def int_range)

lemma runStart_inv: "chain_inv runStart"
  using chainStart_inv runVals_ok by (simp add: chain_inv_def runStart_def)

lemma runState_Suc: "n < length runEvents \<Longrightarrow> runState (Suc n) = bindR (runState n) (handleEvent runEnv (runEvents ! n))"
  by (simp add: runState_def take_Suc_conv_app_nth)

lemma run_starts: "\<exists>cs. runState 0 = Inr cs \<and> node_run runWorld cs"
proof -
  have "isOk (runState 0)" by code_simp
  then obtain cs where cs: "runState 0 = Inr cs" by (auto simp: isOk_iff)
  then have "node_run runWorld cs"
    by (intro node_run.start [OF run_fits runStart_inv]) (auto simp: runState_def runStart_def chainStart_def runWorld_def)
  then show ?thesis using cs by blast
qed

lemma run_step:
  assumes "\<exists>cs. runState n = Inr cs \<and> node_run runWorld cs" and "stepReady n" and "n < length runEvents"
  shows "\<exists>cs. runState (Suc n) = Inr cs \<and> node_run runWorld cs"
proof -
  obtain cs where cs: "runState n = Inr cs" "node_run runWorld cs" using assms(1) by blast
  then obtain cs' where "handleEvent runEnv (runEvents ! n) cs = Inr cs'" "nextMatch runWorld cs" "possible runWorld cs (runEvents ! n)"
    using assms(2) by (auto simp: stepReady_def isOk_iff)
  then show ?thesis using node_run.event [OF cs(2) run_fits] cs(1) runState_Suc [OF assms(3)] by auto
qed

lemma run_ready: "stepReady 0" "stepReady 1" "stepReady 2" "stepReady 3" "stepReady 4"
  by code_simp+

lemma run_states: "\<exists>cs. runState 3 = Inr cs \<and> node_run runWorld cs" "\<exists>cs. runState 4 = Inr cs \<and> node_run runWorld cs"
  "\<exists>cs. runState 5 = Inr cs \<and> node_run runWorld cs"
proof -
  have len: "length runEvents = 5" by (simp add: runEvents_def)
  note s1 = run_step [OF run_starts run_ready(1), unfolded len]
  note s2 = run_step [of 1, OF _ run_ready(2), unfolded len]
  note s3 = run_step [of 2, OF _ run_ready(3), unfolded len]
  note s4 = run_step [of 3, OF _ run_ready(4), unfolded len]
  note s5 = run_step [of 4, OF _ run_ready(5), unfolded len]
  show a: "\<exists>cs. runState 3 = Inr cs \<and> node_run runWorld cs" using s1 s2 s3 by (simp add: numeral_2_eq_2 numeral_3_eq_3)
  show b: "\<exists>cs. runState 4 = Inr cs \<and> node_run runWorld cs" using s4 [OF a] by simp
  show "\<exists>cs. runState 5 = Inr cs \<and> node_run runWorld cs" using s5 [OF b] by simp
qed

section \<open>Signing again after a crash\<close>

definition resignEnv :: "int \<Rightarrow> cs_env" where
  "resignEnv t = runEnv\<lparr>ceCrypto := pvEnv, cePV := pvKey, ceNow := t\<rparr>"

definition resignState :: "FilePV \<Rightarrow> cs_state" where
  "resignState pv = (zeroRoundState (Some pv) \<lparr>bsBase = 0, bsHeight = 0, bsBlocks = Map.empty\<rparr>)
     \<lparr>rsHeight := 1, rsStep := RoundStepPrevote, rsValidators := runVals, csPubKey := Some [1]\<rparr>"

text \<open>The vote a node signs at a time for its prevote of nil, and its signer afterwards.\<close>

definition resignVote :: "int \<Rightarrow> FilePV \<Rightarrow> (FilePV \<times> vote) option" where
  "resignVote t pv =
     (case cs_signVote (resignEnv t) (resignState pv) PrevoteType [] \<lparr>pshTotal = 0, pshHash = []\<rparr> of
        Inr (cs, Some v) \<Rightarrow> (case csPV cs of Some pv' \<Rightarrow> Some (pv', v) | None \<Rightarrow> None) | _ \<Rightarrow> None)"

section \<open>Properties\<close>

text \<open>C7: The height, round and step of a node never go back: whatever event a running node handles, it is afterwards at
  a later height, or at the same height in a later round, or in the same round in a step that is not earlier.\<close>

theorem round_step_never_decreases:
  assumes "node_run w cs" and "fits w env" and "nextMatch w cs" and "possible w cs ev" and "handleEvent env ev cs = Inr cs'"
  shows "rsHeight cs < rsHeight cs' \<or>
    rsHeight cs' = rsHeight cs \<and> (rsRound cs < rsRound cs' \<or> rsRound cs' = rsRound cs \<and> rsStep cs \<le> rsStep cs')"
  using node_run_move [OF assms] by (auto simp: move_def still_def notBefore_def)

theorem round_step_never_decreases_witness:
  "\<exists>cs cs'. runState 4 = Inr cs \<and> handleEvent runEnv (runEvents ! 4) cs = Inr cs' \<and>
    (rsHeight cs < rsHeight cs' \<or>
     rsHeight cs' = rsHeight cs \<and> (rsRound cs < rsRound cs' \<or> rsRound cs' = rsRound cs \<and> rsStep cs \<le> rsStep cs'))"
proof -
  obtain cs where cs: "runState 4 = Inr cs" "node_run runWorld cs" using run_states(2) by blast
  then obtain cs' where cs': "handleEvent runEnv (runEvents ! 4) cs = Inr cs'" "nextMatch runWorld cs" "possible runWorld cs (runEvents ! 4)"
    using run_ready(5) by (auto simp: stepReady_def isOk_iff)
  show ?thesis using round_step_never_decreases [OF cs(2) run_fits cs'(2,3,1)] cs(1) cs'(1) by blast
qed

text \<open>C5: A node gives up a lock only for a polka: when a node that is locked on a block handles an event and stays at its height,
  it is still locked on that block, since the same or a later round, or it has received a two-thirds majority of
  prevotes for something else in a round after the one it was locked in and not after its own.\<close>

theorem lock_released_only_by_polka:
  assumes "node_run w cs" and "fits w env" and "nextMatch w cs" and "possible w cs ev" and "handleEvent env ev cs = Inr cs'"
    and "rsLockedBlock cs = Some b" and "rsHeight cs' = rsHeight cs"
  shows "(\<exists>b'. rsLockedBlock cs' = Some b' \<and> Block_Hash (wBlock w) (Some b') = Block_Hash (wBlock w) (Some b) \<and> rsLockedRound cs \<le> rsLockedRound cs') \<or>
    (\<exists>k bid rvs. hvSets (rsVotes cs') k = Some rvs \<and> TwoThirdsMajority (Some (Prevotes rvs)) = (bid, True) \<and>
       bidHash bid \<noteq> Block_Hash (wBlock w) (Some b) \<and> rsLockedRound cs < k \<and> k \<le> rsRound cs')"
proof -
  have "still w cs cs'" using node_run_move [OF assms(1-5)] assms(7) by (auto simp: move_def)
  then have "held w cs' (rsLockedRound cs) (blockHash w b)" using assms(6) by (auto simp: still_def lockRule_def)
  then show ?thesis
    unfolding held_def polka_def blockHash_def TwoThirdsMajority_def by (elim disjE exE conjE) (blast, fastforce)
qed

theorem lock_released_only_by_polka_witness:
  "\<exists>cs cs' b. runState 4 = Inr cs \<and> rsLockedBlock cs = Some b \<and> handleMaj23 1 0 PrevoteType ''p'' runBid cs = Inr cs' \<and>
    ((\<exists>b'. rsLockedBlock cs' = Some b' \<and> Block_Hash runBlockEnv (Some b') = Block_Hash runBlockEnv (Some b) \<and> rsLockedRound cs \<le> rsLockedRound cs') \<or>
     (\<exists>k bid rvs. hvSets (rsVotes cs') k = Some rvs \<and> TwoThirdsMajority (Some (Prevotes rvs)) = (bid, True) \<and>
       bidHash bid \<noteq> Block_Hash runBlockEnv (Some b) \<and> rsLockedRound cs < k \<and> k \<le> rsRound cs'))"
proof -
  obtain cs where cs: "runState 4 = Inr cs" "node_run runWorld cs" using run_states(2) by blast
  have "case runState 4 of Inl _ \<Rightarrow> False | Inr cs \<Rightarrow> rsLockedBlock cs \<noteq> None \<and>
      (case handleMaj23 1 0 PrevoteType ''p'' runBid cs of Inl _ \<Rightarrow> False | Inr cs' \<Rightarrow> rsHeight cs' = rsHeight cs)" by code_simp
  then obtain b cs' where b: "rsLockedBlock cs = Some b" "handleEvent runEnv (EvMaj23 1 0 PrevoteType ''p'' runBid) cs = Inr cs'" "rsHeight cs' = rsHeight cs"
    using cs(1) by (auto split: sum.splits)
  have "nextMatch runWorld cs" using run_ready(5) cs(1) by (auto simp: stepReady_def)
  moreover have "wBlock runWorld = runBlockEnv" by (simp add: runWorld_def)
  ultimately show ?thesis using lock_released_only_by_polka [OF cs(2) run_fits _ _ b(2,1,3)] cs(1) b(1,2) by auto
qed

text \<open>C4: The votes a node sends in a run obey the rules of the protocol. For every height, round and type it sends one vote
  at most. When it precommits a block, more than two thirds of the validators of the height have genuine prevotes
  for that block in that round. When it prevotes something else in a later round, more than two thirds have genuine
  prevotes for something else in a round after the precommit and not after the prevote.\<close>

theorem sent_votes_obey_rules:
  assumes "node_run w cs" and "v \<in> sent cs" and "u \<in> sent cs" and "vHeight v = vHeight u"
  shows "(vRound v = vRound u \<longrightarrow> vType v = vType u \<longrightarrow> v = u) \<and>
    (vType u = PrecommitType \<longrightarrow> voteHash u \<noteq> [] \<longrightarrow>
      (\<exists>bid. quorumFor w PrevoteType (vHeight u) (vRound u) bid \<and> bidHash bid = voteHash u) \<and>
      (vType v = PrevoteType \<longrightarrow> vRound u < vRound v \<longrightarrow> voteHash v \<noteq> voteHash u \<longrightarrow>
        (\<exists>k bid. quorumFor w PrevoteType (vHeight u) k bid \<and> bidHash bid \<noteq> voteHash u \<and> vRound u < k \<and> k \<le> vRound v)))"
proof -
  have s: "sentInv w cs" using node_run_inv [OF assms(1)] by (simp add: node_inv_def cs_inv_def)
  show ?thesis
  proof (intro conjI impI)
    show "vRound v = vRound u \<Longrightarrow> vType v = vType u \<Longrightarrow> v = u" using s assms(2-4) unfolding sentInv_def by blast
    show "vType u = PrecommitType \<Longrightarrow> voteHash u \<noteq> [] \<Longrightarrow> \<exists>bid. quorumFor w PrevoteType (vHeight u) (vRound u) bid \<and> bidHash bid = voteHash u"
      using s assms(3) unfolding sentInv_def by blast
    assume "vType u = PrecommitType" "voteHash u \<noteq> []" "vType v = PrevoteType" "vRound u < vRound v" "voteHash v \<noteq> voteHash u"
    then have "released w (vHeight u) (vRound u) (vRound v) (voteHash u)" using s assms(2-4) unfolding sentInv_def by blast
    then show "\<exists>k bid. quorumFor w PrevoteType (vHeight u) k bid \<and> bidHash bid \<noteq> voteHash u \<and> vRound u < k \<and> k \<le> vRound v"
      by (simp add: released_def)
  qed
qed

theorem sent_votes_obey_rules_witness:
  "\<exists>cs. runState 4 = Inr cs \<and> runVote PrecommitType \<in> sent cs \<and>
     (\<exists>bid. quorumFor runWorld PrevoteType 1 0 bid \<and> bidHash bid = replicate 32 0)"
proof -
  obtain cs where cs: "runState 4 = Inr cs" "node_run runWorld cs" using run_states(2) by blast
  have "case runState 4 of Inl _ \<Rightarrow> False | Inr cs \<Rightarrow> VoteMessage (runVote PrecommitType) \<in> set (csInternal cs)" by code_simp
  then have "runVote PrecommitType \<in> sent cs" using cs(1) by (simp add: sent_def)
  from sent_votes_obey_rules [OF cs(2) this this] this cs(1) show ?thesis
    by (auto simp: runVote_def voteHash_def runBid_def)
qed




end
