(* ===== verification/Network.thy ===== *)
theory Network
  imports ConsensusRun
begin

text \<open>
  Agreement. Correct nodes run the consensus state machine; the validators that are not correct have at most a
  third of the power of every height and may do anything, except sign for a correct one. The votes that travel are
  kept in a pool, from which any node may receive any vote at any time and any number of times; proposals, block parts,
  claims of majorities and transactions are not restricted at all. No two correct nodes store different blocks at one height.

  The model has no restart of a correct node: what a node sent before is not in the state it restarts with.
\<close>

section \<open>Nodes and votes\<close>

definition correctAt :: "cs_world \<Rightarrow> bytes set \<Rightarrow> int \<Rightarrow> nat set" where
  "correctAt w correct h = {i. i < length (wVals w h) \<and> (\<exists>pk \<in> correct. PubKey (wVals w h ! i) = Some pk)}"

definition faultyAt :: "cs_world \<Rightarrow> bytes set \<Rightarrow> int \<Rightarrow> nat set" where
  "faultyAt w correct h = {..<length (wVals w h)} - correctAt w correct h"

definition tolerable :: "cs_world \<Rightarrow> bytes set \<Rightarrow> bool" where
  "tolerable w correct \<longleftrightarrow> (\<forall>h. (\<forall>v \<in> set (wVals w h). 0 \<le> VotingPower v) \<and>
     3 * (\<Sum>i \<in> faultyAt w correct h. VotingPower (wVals w h ! i)) \<le> sumPower (wVals w h))"

definition ballot :: "vote \<Rightarrow> SignedMsgType \<times> int \<times> int \<times> block_id" where
  "ballot v = (vType v, vHeight v, vRound v, vBlockID v)"

text \<open>Signatures are not forged: a vote that verifies under the key of a correct node is for a ballot the node has signed.\<close>

definition attributed :: "cs_world \<Rightarrow> bytes set \<Rightarrow> (bytes \<Rightarrow> cs_state) \<Rightarrow> vote \<Rightarrow> bool" where
  "attributed w correct net v \<longleftrightarrow>
     (\<forall>pk \<in> correct. Vote_Verify (wCrypto w) (wChain w) (Some pk) v = Inr () \<longrightarrow> (\<exists>u \<in> sent (net pk). ballot u = ballot v))"

definition startsAt :: "cs_world \<Rightarrow> cs_state \<Rightarrow> bool" where
  "startsAt w cs \<longleftrightarrow> (\<exists>env state pv. fits w env \<and> chain_inv state \<and> stChainID state = wChain w \<and>
     Validators (the (stValidators state)) = wVals w (nextHeight state) \<and>
     startNode env state pv \<lparr>bsBase = 0, bsHeight = 0, bsBlocks = Map.empty\<rparr> = Inr cs)"

inductive net_run :: "cs_world \<Rightarrow> bytes set \<Rightarrow> (bytes \<Rightarrow> cs_state) \<Rightarrow> vote set \<Rightarrow> bool" for w correct where
  start: "(\<And>pk. pk \<in> correct \<Longrightarrow> startsAt w (net pk)) \<Longrightarrow> net_run w correct net {}"
| event: "net_run w correct net pool \<Longrightarrow> pk \<in> correct \<Longrightarrow> fits w env \<Longrightarrow> nextMatch w (net pk) \<Longrightarrow>
    possible (w\<lparr>wVotes := pool\<rparr>) (net pk) ev \<Longrightarrow> handleEvent env ev (net pk) = Inr cs' \<Longrightarrow>
    net_run w correct (net(pk := cs')) pool"
| vote: "net_run w correct net pool \<Longrightarrow> attributed w correct net v \<Longrightarrow> net_run w correct net (insert v pool)"

section \<open>Worlds with more votes\<close>

lemma quorumFor_mono: "quorumFor (w\<lparr>wVotes := A\<rparr>) t h r bid \<Longrightarrow> A \<subseteq> B \<Longrightarrow> quorumFor (w\<lparr>wVotes := B\<rparr>) t h r bid"
proof -
  assume q: "quorumFor (w\<lparr>wVotes := A\<rparr>) t h r bid" and s: "A \<subseteq> B"
  obtain I where I: "I \<subseteq> {..<length (wVals w h)}" "2 * sumPower (wVals w h) < 3 * (\<Sum>i \<in> I. VotingPower (wVals w h ! i))"
    "\<And>i. i \<in> I \<Longrightarrow> \<exists>v \<in> A. genuine (w\<lparr>wVotes := A\<rparr>) t h r bid i v"
    using q unfolding quorumFor_def by auto
  have "genuine (w\<lparr>wVotes := A\<rparr>) = genuine (w\<lparr>wVotes := B\<rparr>)" by (simp add: genuine_def fun_eq_iff)
  then have "\<forall>i \<in> I. \<exists>v \<in> B. genuine (w\<lparr>wVotes := B\<rparr>) t h r bid i v" using I(3) s by (metis subsetD)
  then show ?thesis unfolding quorumFor_def using I(1,2) by auto
qed

lemma held_votes: "held (w\<lparr>wVotes := B\<rparr>) = held w"
  by (simp add: held_def blockHash_def fun_eq_iff)

lemma released_mono: "released (w\<lparr>wVotes := A\<rparr>) h r r' hash \<Longrightarrow> A \<subseteq> B \<Longrightarrow> released (w\<lparr>wVotes := B\<rparr>) h r r' hash"
  unfolding released_def using quorumFor_mono by blast

lemma node_inv_mono:
  assumes inv: "node_inv (w\<lparr>wVotes := A\<rparr>) cs" and sub: "A \<subseteq> B"
  shows "node_inv (w\<lparr>wVotes := B\<rparr>) cs"
proof -
  have base: "baseInv (w\<lparr>wVotes := A\<rparr>) cs" and lock: "lockInv (w\<lparr>wVotes := A\<rparr>) cs" and st: "storeInv (w\<lparr>wVotes := A\<rparr>) cs"
    and sv: "sentInv (w\<lparr>wVotes := A\<rparr>) cs" using inv by (simp_all add: node_inv_def cs_inv_def)
  have "baseInv (w\<lparr>wVotes := B\<rparr>) cs" using base sub by (auto simp: baseInv_def)
  moreover have "lockInv (w\<lparr>wVotes := B\<rparr>) cs" using lock by (simp add: lockInv_def blockHash_def split: option.splits)
  moreover have "storeInv (w\<lparr>wVotes := B\<rparr>) cs"
    using st quorumFor_mono [OF _ sub] by (auto simp: storeInv_def justified_def blockHash_def)
  moreover have "sentInv (w\<lparr>wVotes := B\<rparr>) cs"
    using sv quorumFor_mono [OF _ sub] released_mono [OF _ sub] unfolding sentInv_def held_votes by blast
  ultimately show ?thesis by (simp add: node_inv_def cs_inv_def)
qed

section \<open>Quorums of the network\<close>

definition votedFor :: "cs_world \<Rightarrow> bytes set \<Rightarrow> (bytes \<Rightarrow> cs_state) \<Rightarrow> SignedMsgType \<Rightarrow> int \<Rightarrow> int \<Rightarrow> block_id \<Rightarrow> nat set" where
  "votedFor w correct net t h r bid = faultyAt w correct h \<union>
     {i \<in> correctAt w correct h. \<exists>pk \<in> correct. PubKey (wVals w h ! i) = Some pk \<and> (\<exists>u \<in> sent (net pk). ballot u = (t, h, r, bid))}"

text \<open>The validators that have precommitted a block in a round, or may still do so.\<close>

definition mayPrecommit :: "cs_world \<Rightarrow> bytes set \<Rightarrow> (bytes \<Rightarrow> cs_state) \<Rightarrow> int \<Rightarrow> int \<Rightarrow> block_id \<Rightarrow> nat set" where
  "mayPrecommit w correct net h r bid = faultyAt w correct h \<union>
     {i \<in> correctAt w correct h. \<exists>pk \<in> correct. PubKey (wVals w h ! i) = Some pk \<and>
        ((\<exists>u \<in> sent (net pk). ballot u = (PrecommitType, h, r, bid)) \<or> rsHeight (net pk) < h \<or> rsHeight (net pk) = h \<and> rsRound (net pk) \<le> r)}"

definition noConflict :: "cs_world \<Rightarrow> bytes set \<Rightarrow> (bytes \<Rightarrow> cs_state) \<Rightarrow> bool" where
  "noConflict w correct net \<longleftrightarrow>
     (\<forall>h r k bid bid'. r < k \<longrightarrow> bidHash bid \<noteq> [] \<longrightarrow> bidHash bid' \<noteq> bidHash bid \<longrightarrow> vq.quorum (wVals w h) (mayPrecommit w correct net h r bid) \<longrightarrow>
        \<not> vq.quorum (wVals w h) (votedFor w correct net PrevoteType h k bid'))"

definition net_inv :: "cs_world \<Rightarrow> bytes set \<Rightarrow> (bytes \<Rightarrow> cs_state) \<Rightarrow> vote set \<Rightarrow> bool" where
  "net_inv w correct net pool \<longleftrightarrow> (\<forall>pk \<in> correct. node_inv (w\<lparr>wVotes := pool\<rparr>) (net pk)) \<and>
     (\<forall>v \<in> pool. attributed w correct net v) \<and> noConflict w correct net"

lemma power_nat:
  assumes "tolerable w correct" and "I \<subseteq> {..<length (wVals w h)}"
  shows "int (\<Sum>i \<in> I. nat (VotingPower (wVals w h ! i))) = (\<Sum>i \<in> I. VotingPower (wVals w h ! i))"
proof -
  have "0 \<le> VotingPower (wVals w h ! i)" if "i \<in> I" for i
    using assms that unfolding tolerable_def by (metis lessThan_iff nth_mem subsetD)
  then show ?thesis by simp
qed

lemma faulty_power:
  assumes "tolerable w correct"
  shows "faultyAt w correct h \<subseteq> {..<length (wVals w h)}"
    and "3 * (\<Sum>i \<in> faultyAt w correct h. nat (VotingPower (wVals w h ! i))) \<le> (\<Sum>i < length (wVals w h). nat (VotingPower (wVals w h ! i)))"
proof -
  show sub: "faultyAt w correct h \<subseteq> {..<length (wVals w h)}" by (auto simp: faultyAt_def)
  have "3 * (\<Sum>i \<in> faultyAt w correct h. VotingPower (wVals w h ! i)) \<le> (\<Sum>i < length (wVals w h). VotingPower (wVals w h ! i))"
    using assms by (simp add: tolerable_def sumPower_nth)
  then show "3 * (\<Sum>i \<in> faultyAt w correct h. nat (VotingPower (wVals w h ! i))) \<le> (\<Sum>i < length (wVals w h). nat (VotingPower (wVals w h ! i)))"
    using power_nat [OF assms sub] power_nat [OF assms subset_refl, of h] by linarith
qed

lemma common_correct:
  assumes "tolerable w correct" and "vq.quorum (wVals w h) P" and "vq.quorum (wVals w h) Q"
  obtains i where "i \<in> P" and "i \<in> Q" and "i \<notin> faultyAt w correct h"
  using vq.correct_member [OF assms(2,3) faulty_power [OF assms(1)]] by blast

lemma quorumFor_votedFor:
  assumes tol: "tolerable w correct" and attr: "\<forall>v \<in> pool. attributed w correct net v" and q: "quorumFor (w\<lparr>wVotes := pool\<rparr>) t h r bid"
  shows "vq.quorum (wVals w h) (votedFor w correct net t h r bid)"
proof -
  obtain I where I: "I \<subseteq> {..<length (wVals w h)}" "2 * sumPower (wVals w h) < 3 * (\<Sum>i \<in> I. VotingPower (wVals w h ! i))"
    "\<And>i. i \<in> I \<Longrightarrow> \<exists>v \<in> pool. genuine (w\<lparr>wVotes := pool\<rparr>) t h r bid i v"
    using q unfolding quorumFor_def by auto
  have "vq.quorum (wVals w h) I"
    using I(1,2) power_nat [OF tol I(1)] power_nat [OF tol subset_refl, of h] unfolding vq.quorum_def sumPower_nth by (intro conjI) (assumption, linarith)
  moreover have "I \<subseteq> votedFor w correct net t h r bid"
  proof
    fix i assume i: "i \<in> I"
    then obtain v where v: "v \<in> pool" "genuine (w\<lparr>wVotes := pool\<rparr>) t h r bid i v" using I(3) by blast
    show "i \<in> votedFor w correct net t h r bid"
    proof (cases "i \<in> correctAt w correct h")
      case False
      then show ?thesis using i I(1) by (auto simp: votedFor_def faultyAt_def)
    next
      case True
      then obtain pk where pk: "pk \<in> correct" "PubKey (wVals w h ! i) = Some pk" by (auto simp: correctAt_def)
      then have "Vote_Verify (wCrypto w) (wChain w) (Some pk) v = Inr ()" "ballot v = (t, h, r, bid)" using v(2) by (auto simp: genuine_def ballot_def)
      then have "\<exists>u \<in> sent (net pk). ballot u = (t, h, r, bid)" using attr v(1) pk(1) by (fastforce simp: attributed_def)
      then show ?thesis using True pk by (auto simp: votedFor_def)
    qed
  qed
  moreover have "votedFor w correct net t h r bid \<subseteq> {..<length (wVals w h)}" by (auto simp: votedFor_def faultyAt_def correctAt_def)
  ultimately show ?thesis by (rule vq.quorum_mono)
qed

section \<open>The invariant of the network\<close>

lemma started_inv:
  assumes "startsAt w cs"
  shows "node_inv (w\<lparr>wVotes := {}\<rparr>) cs" and "sent cs = {}"
proof -
  obtain env state pv where s: "fits w env" "chain_inv state" "stChainID state = wChain w" "Validators (the (stValidators state)) = wVals w (nextHeight state)"
    "startNode env state pv \<lparr>bsBase = 0, bsHeight = 0, bsBlocks = Map.empty\<rparr> = Inr cs"
    using assms by (auto simp: startsAt_def)
  then have "fits (w\<lparr>wVotes := {}\<rparr>) env" by (simp add: fits_def)
  from startNode_inv [OF this s(2) _ _ _ s(5)] s(3,4) show "node_inv (w\<lparr>wVotes := {}\<rparr>) cs" "sent cs = {}" by simp_all
qed

lemma start_noConflict:
  assumes tol: "tolerable w correct" and none: "\<And>pk. pk \<in> correct \<Longrightarrow> sent (net pk) = {}"
  shows "noConflict w correct net"
proof -
  have "votedFor w correct net t h r bid = faultyAt w correct h" for t h r bid
    using none by (auto simp: votedFor_def)
  moreover have "\<not> vq.quorum (wVals w h) (faultyAt w correct h)" for h
    using faulty_power(2) [OF tol, of h] by (simp add: vq.quorum_def)
  ultimately show ?thesis by (simp add: noConflict_def)
qed

lemma mayPrecommit_shrinks:
  assumes "move w' (net pk) cs'"
  shows "mayPrecommit w correct (net(pk := cs')) h r bid \<subseteq> mayPrecommit w correct net h r bid"
proof -
  have ne: "notEarlier (net pk) cs'" and f: "fresh (net pk) cs'" using assms still_notEarlier by (auto simp: move_def notEarlier_def)
  have "(\<exists>u \<in> sent (net pk). ballot u = (PrecommitType, h, r, bid)) \<or> rsHeight (net pk) < h \<or> rsHeight (net pk) = h \<and> rsRound (net pk) \<le> r"
    if "(\<exists>u \<in> sent cs'. ballot u = (PrecommitType, h, r, bid)) \<or> rsHeight cs' < h \<or> rsHeight cs' = h \<and> rsRound cs' \<le> r"
    using that ne f by (force simp: fresh_def notEarlier_def ballot_def)
  then show ?thesis by (auto simp: mayPrecommit_def split: if_splits)
qed

text \<open>A correct validator that has prevoted for something else in a later round than one in which it has precommitted, or may
  precommit, has been released by a quorum of prevotes in between.\<close>

lemma prevote_released:
  assumes inv: "node_inv w' cs" and "v \<in> sent cs" "ballot v = (PrevoteType, h, k, bid')" and "r < k" and "bidHash bid \<noteq> []" and "bidHash bid' \<noteq> bidHash bid"
    and may: "(\<exists>u \<in> sent cs. ballot u = (PrecommitType, h, r, bid)) \<or> rsHeight cs < h \<or> rsHeight cs = h \<and> rsRound cs \<le> r"
  shows "released w' h r k (bidHash bid)"
proof -
  have s: "sentInv w' cs" using inv by (simp add: node_inv_def cs_inv_def)
  then have "placed cs v" using assms(2) by (simp add: sentInv_def)
  then obtain u where u: "u \<in> sent cs" "ballot u = (PrecommitType, h, r, bid)" using may assms(3,4) by (auto simp: placed_def ballot_def)
  have "vType v = PrevoteType" "vType u = PrecommitType" "voteHash u \<noteq> []" "vHeight v = vHeight u" "vRound u < vRound v" "voteHash v \<noteq> voteHash u"
    using u(2) assms(3-6) by (auto simp: ballot_def voteHash_def)
  then have "released w' (vHeight u) (vRound u) (vRound v) (voteHash u)" using s assms(2) u(1) unfolding sentInv_def by blast
  then show ?thesis using u(2) assms(3) by (simp add: ballot_def voteHash_def)
qed

lemma noConflict_step:
  assumes tol: "tolerable w correct" and nodes: "\<And>pk. pk \<in> correct \<Longrightarrow> node_inv (w\<lparr>wVotes := pool\<rparr>) (net' pk)"
    and attr: "\<forall>v \<in> pool. attributed w correct net v" and old: "noConflict w correct net"
    and shrink: "\<And>h r bid. mayPrecommit w correct net' h r bid \<subseteq> mayPrecommit w correct net h r bid"
  shows "noConflict w correct net'"
  unfolding noConflict_def
proof (intro allI impI notI)
  fix h r k bid bid'
  assume rk: "r < k" and ne: "bidHash bid \<noteq> []" "bidHash bid' \<noteq> bidHash bid"
    and may: "vq.quorum (wVals w h) (mayPrecommit w correct net' h r bid)"
    and pv: "vq.quorum (wVals w h) (votedFor w correct net' PrevoteType h k bid')"
  obtain i where i: "i \<in> mayPrecommit w correct net' h r bid" "i \<in> votedFor w correct net' PrevoteType h k bid'" "i \<notin> faultyAt w correct h"
    using common_correct [OF tol may pv] by blast
  obtain p where p: "p \<in> correct" "PubKey (wVals w h ! i) = Some p"
      "\<exists>v \<in> sent (net' p). ballot v = (PrevoteType, h, k, bid')"
    using i(2,3) by (auto simp: votedFor_def)
  then obtain v where v: "v \<in> sent (net' p)" "ballot v = (PrevoteType, h, k, bid')" by blast
  have "(\<exists>u \<in> sent (net' p). ballot u = (PrecommitType, h, r, bid)) \<or> rsHeight (net' p) < h \<or> rsHeight (net' p) = h \<and> rsRound (net' p) \<le> r"
    using i(1,3) p(2) by (simp add: mayPrecommit_def)
  then have "released (w\<lparr>wVotes := pool\<rparr>) h r k (bidHash bid)"
    by (intro prevote_released [OF nodes [OF p(1)] v rk ne])
  then obtain l bid'' where l: "quorumFor (w\<lparr>wVotes := pool\<rparr>) PrevoteType h l bid''" "bidHash bid'' \<noteq> bidHash bid" "r < l"
    by (auto simp: released_def)
  have "vq.quorum (wVals w h) (votedFor w correct net PrevoteType h l bid'')" by (rule quorumFor_votedFor [OF tol attr l(1)])
  moreover have "vq.quorum (wVals w h) (mayPrecommit w correct net h r bid)"
    using vq.quorum_mono [OF may shrink] by (auto simp: mayPrecommit_def faultyAt_def correctAt_def)
  ultimately show False using old l(2,3) ne(1) unfolding noConflict_def by blast
qed

lemma net_run_inv:
  assumes tol: "tolerable w correct"
  shows "net_run w correct net pool \<Longrightarrow> net_inv w correct net pool"
proof (induction rule: net_run.induct)
  case (start net)
  have "noConflict w correct net" using start started_inv(2) by (intro start_noConflict [OF tol]) blast
  then show ?case using start started_inv(1) by (simp add: net_inv_def)
next
  case (event net pool pk env ev cs')
  let ?w = "w\<lparr>wVotes := pool\<rparr>"
  have "fits ?w env" "nextMatch ?w (net pk)" using event.hyps(3,4) by (simp_all add: fits_def nextMatch_def)
  moreover have "node_inv ?w (net pk)" using event.IH event.hyps(2) by (simp add: net_inv_def)
  ultimately have m: "move ?w (net pk) cs'" using handleEvent_move event.hyps(5,6) ensuresD by metis
  have nodes: "node_inv ?w ((net(pk := cs')) q)" if "q \<in> correct" for q
    using event.IH m that by (simp add: net_inv_def move_def)
  have "sent (net q) \<subseteq> sent ((net(pk := cs')) q)" for q using m by (auto simp: move_def fresh_def)
  then have "\<forall>v \<in> pool. attributed w correct (net(pk := cs')) v"
    using event.IH unfolding net_inv_def attributed_def by (meson subsetD)
  moreover have "noConflict w correct (net(pk := cs'))"
    using event.IH by (intro noConflict_step [OF tol nodes _ _ mayPrecommit_shrinks [where net = net, OF m]]) (auto simp: net_inv_def)
  ultimately show ?case using nodes unfolding net_inv_def by blast
next
  case (vote net pool v)
  then show ?case using node_inv_mono [where A = pool and B = "insert v pool"] by (auto simp: net_inv_def)
qed

section \<open>Agreement\<close>

lemma precommit_quorums_agree:
  assumes tol: "tolerable w correct" and inv: "net_inv w correct net pool" and le: "r \<le> k" and ne: "bidHash bid \<noteq> []" "bidHash bid' \<noteq> []"
    and q: "quorumFor (w\<lparr>wVotes := pool\<rparr>) PrecommitType h r bid" and q': "quorumFor (w\<lparr>wVotes := pool\<rparr>) PrecommitType h k bid'"
  shows "bidHash bid = bidHash bid'"
proof (rule ccontr)
  assume diff: "bidHash bid \<noteq> bidHash bid'"
  have attr: "\<forall>v \<in> pool. attributed w correct net v" and no: "noConflict w correct net" using inv by (simp_all add: net_inv_def)
  note v = quorumFor_votedFor [OF tol attr q] and v' = quorumFor_votedFor [OF tol attr q']
  obtain i where i: "i \<in> votedFor w correct net PrecommitType h r bid" "i \<in> votedFor w correct net PrecommitType h k bid'" "i \<notin> faultyAt w correct h"
    using common_correct [OF tol v v'] by blast
  then obtain pk u u' where u: "pk \<in> correct" "u \<in> sent (net pk)" "ballot u = (PrecommitType, h, r, bid)" "u' \<in> sent (net pk)" "ballot u' = (PrecommitType, h, k, bid')"
    by (auto simp: votedFor_def)
  have s: "sentInv (w\<lparr>wVotes := pool\<rparr>) (net pk)" using inv u(1) by (simp add: net_inv_def node_inv_def cs_inv_def)
  have "r \<noteq> k"
  proof
    assume "r = k"
    then have "u = u'" using s u(2-5) unfolding sentInv_def by (auto simp: ballot_def)
    then show False using u(3,5) diff by simp
  qed
  with le have lt: "r < k" by simp
  obtain bid2 where "quorumFor (w\<lparr>wVotes := pool\<rparr>) PrevoteType h k bid2" "bidHash bid2 = bidHash bid'"
    using s u(4,5) ne(2) unfolding sentInv_def by (fastforce simp: ballot_def voteHash_def)
  then have "vq.quorum (wVals w h) (votedFor w correct net PrevoteType h k bid2)" "bidHash bid2 \<noteq> bidHash bid"
    using quorumFor_votedFor [OF tol attr] diff by simp_all
  moreover have "vq.quorum (wVals w h) (mayPrecommit w correct net h r bid)"
    by (rule vq.quorum_mono [OF v]) (auto simp: votedFor_def mayPrecommit_def faultyAt_def correctAt_def)
  ultimately show False using no lt ne(1) unfolding noConflict_def by blast
qed

section \<open>A sample network\<close>

text \<open>The node of the sample run and a full node that is not a validator; the proposer is faulty.\<close>

definition fullEnv :: cs_env where
  "fullEnv = runEnv\<lparr>cePubKey := [3]\<rparr>"

definition fullEvents :: "cs_event list" where
  "fullEvents = take 3 runEvents @ [EvMsg (VoteMessage (runVote PrevoteType), ''p''), EvMsg (VoteMessage (runVote PrecommitType), ''p'')]"

definition fullState :: "nat \<Rightarrow> cs_run" where
  "fullState n = fold (\<lambda>ev r. bindR r (handleEvent fullEnv ev)) (take n fullEvents)
     (startNode fullEnv runStart None \<lparr>bsBase = 0, bsHeight = 0, bsBlocks = Map.empty\<rparr>)"

definition sampleNet :: "cs_run \<Rightarrow> cs_run \<Rightarrow> vote set \<Rightarrow> bool" where
  "sampleNet ra rb pool \<longleftrightarrow> (\<exists>net. ra = Inr (net [1]) \<and> rb = Inr (net [3]) \<and> net_run runWorld {[1], [3]} net pool)"

definition readyFor :: "cs_env \<Rightarrow> vote set \<Rightarrow> cs_event \<Rightarrow> cs_run \<Rightarrow> bool" where
  "readyFor env pool ev r = (case r of Inl _ \<Rightarrow> False
     | Inr cs \<Rightarrow> nextMatch runWorld cs \<and> possible (runWorld\<lparr>wVotes := pool\<rparr>) cs ev \<and> isOk (handleEvent env ev cs))"

lemma sample_fits: "fits runWorld runEnv" "fits runWorld fullEnv"
  using run_fits by (simp_all add: fits_def fullEnv_def)

lemma sample_left:
  assumes "sampleNet ra rb pool" and "readyFor runEnv pool ev ra"
  shows "sampleNet (bindR ra (handleEvent runEnv ev)) rb pool"
proof -
  obtain net where net: "ra = Inr (net [1])" "rb = Inr (net [3])" "net_run runWorld {[1], [3]} net pool" using assms(1) by (auto simp: sampleNet_def)
  then obtain a where "nextMatch runWorld (net [1])" "possible (runWorld\<lparr>wVotes := pool\<rparr>) (net [1]) ev" "handleEvent runEnv ev (net [1]) = Inr a"
    using assms(2) by (auto simp: readyFor_def isOk_iff)
  then have "net_run runWorld {[1], [3]} (net([1] := a)) pool" "bindR ra (handleEvent runEnv ev) = Inr a"
    using net_run.event [OF net(3) _ sample_fits(1)] net(1) by simp_all
  then show ?thesis unfolding sampleNet_def using net(2) by (intro exI [of _ "net([1] := a)"]) simp
qed

lemma sample_right:
  assumes "sampleNet ra rb pool" and "readyFor fullEnv pool ev rb"
  shows "sampleNet ra (bindR rb (handleEvent fullEnv ev)) pool"
proof -
  obtain net where net: "ra = Inr (net [1])" "rb = Inr (net [3])" "net_run runWorld {[1], [3]} net pool" using assms(1) by (auto simp: sampleNet_def)
  then obtain b where "nextMatch runWorld (net [3])" "possible (runWorld\<lparr>wVotes := pool\<rparr>) (net [3]) ev" "handleEvent fullEnv ev (net [3]) = Inr b"
    using assms(2) by (auto simp: readyFor_def isOk_iff)
  then have "net_run runWorld {[1], [3]} (net([3] := b)) pool" "bindR rb (handleEvent fullEnv ev) = Inr b"
    using net_run.event [OF net(3) _ sample_fits(2)] net(2) by simp_all
  then show ?thesis unfolding sampleNet_def using net(1) by (intro exI [of _ "net([3] := b)"]) simp
qed

lemma sample_vote:
  assumes "sampleNet ra rb pool" and "case ra of Inl _ \<Rightarrow> False | Inr a \<Rightarrow> VoteMessage (runVote t) \<in> set (csInternal a)"
  shows "sampleNet ra rb (insert (runVote t) pool)"
proof -
  obtain net where net: "ra = Inr (net [1])" "rb = Inr (net [3])" "net_run runWorld {[1], [3]} net pool" using assms(1) by (auto simp: sampleNet_def)
  then have "runVote t \<in> sent (net [1])" using assms(2) by (simp add: sent_def)
  moreover have "Vote_Verify (wCrypto runWorld) (wChain runWorld) (Some [3]) (runVote t) \<noteq> Inr ()"
    by (simp add: Vote_Verify_def runWorld_def runVote_def chainCrypto_def)
  ultimately have "attributed runWorld {[1], [3]} net (runVote t)" by (auto simp: attributed_def)
  then show ?thesis using net_run.vote [OF net(3)] net(1,2) by (auto simp: sampleNet_def)
qed

lemma sample_start: "sampleNet (runState 0) (fullState 0) {}"
proof -
  have "isOk (runState 0)" "isOk (fullState 0)" by code_simp+
  then obtain a b where ab: "runState 0 = Inr a" "fullState 0 = Inr b" by (auto simp: isOk_iff)
  define net where "net = (\<lambda>pk :: bytes. if pk = [1] then a else b)"
  have c: "stChainID runStart = wChain runWorld" "Validators (the (stValidators runStart)) = wVals runWorld (nextHeight runStart)"
    by (simp_all add: runStart_def runWorld_def chainStart_def)
  have "startsAt runWorld a" unfolding startsAt_def
    using ab(1) sample_fits(1) runStart_inv c by (auto simp: runState_def)
  moreover have "startsAt runWorld b" unfolding startsAt_def
    using ab(2) sample_fits(2) runStart_inv c by (auto simp: fullState_def)
  ultimately have "net_run runWorld {[1], [3]} net {}" by (intro net_run.start) (auto simp: net_def)
  then show ?thesis unfolding sampleNet_def using ab by (intro exI [of _ net]) (simp add: net_def)
qed

lemma runState_at: "m = Suc n \<Longrightarrow> n < 5 \<Longrightarrow> runState m = bindR (runState n) (handleEvent runEnv (runEvents ! n))"
  using runState_Suc [of n] by (simp add: runEvents_def)

lemma fullState_at: "m = Suc n \<Longrightarrow> n < 5 \<Longrightarrow> fullState m = bindR (fullState n) (handleEvent fullEnv (fullEvents ! n))"
proof -
  assume "m = Suc n" "n < 5"
  moreover have "length fullEvents = 5" by (simp add: fullEvents_def runEvents_def)
  ultimately show ?thesis by (simp add: fullState_def take_Suc_conv_app_nth)
qed

lemma left_ready:
  "readyFor runEnv {} (runEvents ! 0) (runState 0)" "readyFor runEnv {} (runEvents ! 1) (runState 1)" "readyFor runEnv {} (runEvents ! 2) (runState 2)"
  "readyFor runEnv {runVote PrevoteType} (runEvents ! 3) (runState 3)"
  "readyFor runEnv {runVote PrecommitType, runVote PrevoteType} (runEvents ! 4) (runState 4)"
  by code_simp+

lemma right_ready:
  "readyFor fullEnv {runVote PrecommitType, runVote PrevoteType} (fullEvents ! 0) (fullState 0)"
  "readyFor fullEnv {runVote PrecommitType, runVote PrevoteType} (fullEvents ! 1) (fullState 1)"
  "readyFor fullEnv {runVote PrecommitType, runVote PrevoteType} (fullEvents ! 2) (fullState 2)"
  "readyFor fullEnv {runVote PrecommitType, runVote PrevoteType} (fullEvents ! 3) (fullState 3)"
  "readyFor fullEnv {runVote PrecommitType, runVote PrevoteType} (fullEvents ! 4) (fullState 4)"
  by code_simp+

lemma sample_tolerable: "tolerable runWorld {[1], [3]}"
proof -
  have "faultyAt runWorld {[1], [3]} h = {1}" for h
    by (auto simp: faultyAt_def correctAt_def runWorld_def runVals_def Let_def less_Suc_eq)
  then show ?thesis by (simp add: tolerable_def runWorld_def runVals_def Let_def sumPower_def)
qed

lemma sample_decides: "sampleNet (runState 5) (fullState 5) {runVote PrecommitType, runVote PrevoteType}"
proof -
  have l: "runState 1 = bindR (runState 0) (handleEvent runEnv (runEvents ! 0))" "runState 2 = bindR (runState 1) (handleEvent runEnv (runEvents ! 1))"
    "runState 3 = bindR (runState 2) (handleEvent runEnv (runEvents ! 2))" "runState 4 = bindR (runState 3) (handleEvent runEnv (runEvents ! 3))"
    "runState 5 = bindR (runState 4) (handleEvent runEnv (runEvents ! 4))"
    by (rule runState_at; simp)+
  have r: "fullState 1 = bindR (fullState 0) (handleEvent fullEnv (fullEvents ! 0))" "fullState 2 = bindR (fullState 1) (handleEvent fullEnv (fullEvents ! 1))"
    "fullState 3 = bindR (fullState 2) (handleEvent fullEnv (fullEvents ! 2))" "fullState 4 = bindR (fullState 3) (handleEvent fullEnv (fullEvents ! 3))"
    "fullState 5 = bindR (fullState 4) (handleEvent fullEnv (fullEvents ! 4))"
    by (rule fullState_at; simp)+
  have sends: "case runState 3 of Inl _ \<Rightarrow> False | Inr a \<Rightarrow> VoteMessage (runVote PrevoteType) \<in> set (csInternal a)"
    "case runState 4 of Inl _ \<Rightarrow> False | Inr a \<Rightarrow> VoteMessage (runVote PrecommitType) \<in> set (csInternal a)" by code_simp+
  have "sampleNet (runState 3) (fullState 0) {}"
    using sample_start sample_left left_ready(1-3) by (simp only: l(1-3))
  then have "sampleNet (runState 4) (fullState 0) {runVote PrevoteType}"
    using sample_vote [OF _ sends(1)] sample_left [OF _ left_ready(4)] by (simp only: l(4))
  then have "sampleNet (runState 5) (fullState 0) {runVote PrecommitType, runVote PrevoteType}"
    using sample_vote [OF _ sends(2)] sample_left [OF _ left_ready(5)] by (simp only: l(5))
  then show ?thesis using sample_right right_ready by (simp only: r)
qed

section \<open>Properties\<close>

text \<open>C1: Agreement: when the validators that are not correct have at most a third of the power of every height, no two correct nodes
  ever store blocks with different hashes at one height, whatever the network and the faulty validators do.\<close>

theorem agreement:
  assumes "net_run w correct net pool" and "tolerable w correct" and "p \<in> correct" and "q \<in> correct"
    and "bsBlocks (csStore (net p)) h = Some (b, c)" and "bsBlocks (csStore (net q)) h = Some (b', c')"
  shows "Block_Hash (wBlock w) (Some b) = Block_Hash (wBlock w) (Some b')"
proof -
  have inv: "net_inv w correct net pool" by (rule net_run_inv [OF assms(2,1)])
  then have "storeInv (w\<lparr>wVotes := pool\<rparr>) (net p)" "storeInv (w\<lparr>wVotes := pool\<rparr>) (net q)"
    using assms(3,4) by (simp_all add: net_inv_def node_inv_def)
  then have j: "justified (w\<lparr>wVotes := pool\<rparr>) h b c" "justified (w\<lparr>wVotes := pool\<rparr>) h b' c'" using assms(5,6) by (auto simp: storeInv_def)
  then have q: "bidHash (cmBlockID c) \<noteq> []" "quorumFor (w\<lparr>wVotes := pool\<rparr>) PrecommitType h (cmRound c) (cmBlockID c)"
    and q': "bidHash (cmBlockID c') \<noteq> []" "quorumFor (w\<lparr>wVotes := pool\<rparr>) PrecommitType h (cmRound c') (cmBlockID c')"
    unfolding justified_def by auto
  note agree = precommit_quorums_agree [OF assms(2) inv]
  have "bidHash (cmBlockID c) = bidHash (cmBlockID c')"
  proof (cases "cmRound c \<le> cmRound c'")
    case True
    show ?thesis by (rule agree [OF True q(1) q'(1) q(2) q'(2)])
  next
    case False
    then have le: "cmRound c' \<le> cmRound c" by simp
    show ?thesis by (rule agree [OF le q'(1) q(1) q'(2) q(2), symmetric])
  qed
  then show ?thesis using j by (simp add: justified_def blockHash_def)
qed

theorem agreement_witness:
  "\<exists>net b c b' c'. net_run runWorld {[1], [3]} net {runVote PrecommitType, runVote PrevoteType} \<and>
     bsBlocks (csStore (net [1])) 1 = Some (b, c) \<and> bsBlocks (csStore (net [3])) 1 = Some (b', c') \<and>
     Block_Hash (wBlock runWorld) (Some b) = Block_Hash (wBlock runWorld) (Some b')"
proof -
  obtain net where net: "runState 5 = Inr (net [1])" "fullState 5 = Inr (net [3])"
      "net_run runWorld {[1], [3]} net {runVote PrecommitType, runVote PrevoteType}"
    using sample_decides by (auto simp: sampleNet_def)
  have "case runState 5 of Inl _ \<Rightarrow> False | Inr cs \<Rightarrow> (case bsBlocks (csStore cs) 1 of None \<Rightarrow> False | Some p \<Rightarrow> fst p = runBlock)"
    "case fullState 5 of Inl _ \<Rightarrow> False | Inr cs \<Rightarrow> (case bsBlocks (csStore cs) 1 of None \<Rightarrow> False | Some p \<Rightarrow> fst p = runBlock)" by code_simp+
  then obtain c c' where c: "bsBlocks (csStore (net [1])) 1 = Some (runBlock, c)" "bsBlocks (csStore (net [3])) 1 = Some (runBlock, c')"
    using net(1,2) by (auto split: option.splits)
  from agreement [OF net(3) sample_tolerable _ _ c] net c show ?thesis by blast
qed

end
