(* ===== verification/ValidatorProto.thy ===== *)
theory ValidatorProto
  imports CommitVerify
begin

text \<open>
  The protobuf form of validators and validator sets (\<open>types/validator.go\<close>, \<open>types/validator_set.go\<close>), in which the state
  store keeps them and peers send them.

  The conversion of public keys (\<open>crypto/encoding\<close>) switches on the type of the key, which the model does not have; it
  is the argument \<open>key_codec\<close>.
\<close>

section \<open>Data model\<close>

record key_codec =
  PubKeyToProto :: "bytes \<Rightarrow> bytes option"
  PubKeyFromProto :: "bytes \<Rightarrow> bytes option"

record proto_validator =
  pvlAddress :: bytes
  pvlPubKey :: bytes
  pvlVotingPower :: int
  pvlProposerPriority :: int

record proto_validator_set =
  pvsValidators :: "proto_validator list"
  pvsProposer :: "proto_validator option"
  pvsTotal :: int

datatype proto_error = NilProtoValidator | KeyNotSupported | NilProtoSet | ProposerProtoErr proto_error | SetInvalid basic_error

section \<open>Operations\<close>

text \<open>A nil key has no type that is supported.\<close>

definition Validator_ToProto :: "key_codec \<Rightarrow> validator option \<Rightarrow> proto_error fault + proto_validator" where
  "Validator_ToProto kc p =
     (case p of
        None \<Rightarrow> Inl (Err NilProtoValidator)
      | Some v \<Rightarrow>
          (case Option.bind (PubKey v) (PubKeyToProto kc) of
             None \<Rightarrow> Inl (Err KeyNotSupported)
           | Some pk \<Rightarrow> Inr \<lparr>pvlAddress = Address v, pvlPubKey = pk, pvlVotingPower = VotingPower v, pvlProposerPriority = ProposerPriority v\<rparr>))"

definition ValidatorFromProto :: "key_codec \<Rightarrow> proto_validator option \<Rightarrow> proto_error fault + validator" where
  "ValidatorFromProto kc p =
     (case p of
        None \<Rightarrow> Inl (Err NilProtoValidator)
      | Some vp \<Rightarrow>
          (case PubKeyFromProto kc (pvlPubKey vp) of
             None \<Rightarrow> Inl (Err KeyNotSupported)
           | Some pk \<Rightarrow> Inr \<lparr>Address = pvlAddress vp, PubKey = Some pk, VotingPower = pvlVotingPower vp, ProposerPriority = pvlProposerPriority vp\<rparr>))"

fun validatorsToProto :: "key_codec \<Rightarrow> validator list \<Rightarrow> proto_error fault + proto_validator list" where
  "validatorsToProto kc [] = Inr []"
| "validatorsToProto kc (v # vs) =
     bindR (Validator_ToProto kc (Some v)) (\<lambda>vp. bindR (validatorsToProto kc vs) (\<lambda>vps. Inr (vp # vps)))"

fun validatorsFromProto :: "key_codec \<Rightarrow> proto_validator list \<Rightarrow> proto_error fault + validator list" where
  "validatorsFromProto kc [] = Inr []"
| "validatorsFromProto kc (vp # vps) =
     bindR (ValidatorFromProto kc (Some vp)) (\<lambda>v. bindR (validatorsFromProto kc vps) (\<lambda>vs. Inr (v # vs)))"

definition emptyProtoSet :: proto_validator_set where
  "emptyProtoSet = \<lparr>pvsValidators = [], pvsProposer = None, pvsTotal = 0\<rparr>"

definition proposerErr :: "proto_error fault + 'a \<Rightarrow> proto_error fault + 'a" where
  "proposerErr r = (case r of Inl (Err e) \<Rightarrow> Inl (Err (ProposerProtoErr e)) | _ \<Rightarrow> r)"

definition ValidatorSet_ToProto :: "key_codec \<Rightarrow> validator_set option \<Rightarrow> proto_error fault + proto_validator_set" where
  "ValidatorSet_ToProto kc p =
     (if IsNilOrEmpty p then Inr emptyProtoSet
      else let vals = the p in
        bindR (validatorsToProto kc (Validators vals)) (\<lambda>valsProto.
        bindR (proposerErr (Validator_ToProto kc (Proposer vals))) (\<lambda>valProposer.
          Inr \<lparr>pvsValidators = valsProto, pvsProposer = Some valProposer, pvsTotal = totalVotingPower vals\<rparr>)))"

definition ValidatorSetFromProto :: "key_codec \<Rightarrow> proto_validator_set option \<Rightarrow> proto_error fault + validator_set" where
  "ValidatorSetFromProto kc p =
     (case p of
        None \<Rightarrow> Inl (Err NilProtoSet)
      | Some vp \<Rightarrow>
          bindR (validatorsFromProto kc (pvsValidators vp)) (\<lambda>vs.
          bindR (proposerErr (ValidatorFromProto kc (pvsProposer vp))) (\<lambda>proposer.
            let vals = \<lparr>Validators = vs, Proposer = Some proposer, totalVotingPower = pvsTotal vp\<rparr> in
            (case ValidatorSet_ValidateBasic (Some vals) of
               Inl (Err e) \<Rightarrow> Inl (Err (SetInvalid e)) | Inl (Panic m) \<Rightarrow> Inl (Panic m) | Inr _ \<Rightarrow> Inr vals))))"

section \<open>Round trips\<close>

text \<open>The keys a set has are supported and survive their conversion.\<close>

definition keysOk :: "key_codec \<Rightarrow> validator list \<Rightarrow> bool" where
  "keysOk kc vs \<longleftrightarrow> (\<forall>v \<in> set vs. \<exists>pk bz. PubKey v = Some pk \<and> PubKeyToProto kc pk = Some bz \<and> PubKeyFromProto kc bz = Some pk)"

lemma Validator_roundtrip:
  assumes "keysOk kc [v]"
  obtains vp where "Validator_ToProto kc (Some v) = Inr vp" and "ValidatorFromProto kc (Some vp) = Inr v"
  using assms by (auto simp: keysOk_def Validator_ToProto_def ValidatorFromProto_def)

lemma validators_roundtrip:
  "keysOk kc vs \<Longrightarrow> \<exists>vps. validatorsToProto kc vs = Inr vps \<and> validatorsFromProto kc vps = Inr vs"
proof (induction vs)
  case (Cons v vs)
  then have "keysOk kc [v]" "keysOk kc vs" by (simp_all add: keysOk_def)
  then show ?case using Cons.IH by (auto elim!: Validator_roundtrip)
qed simp

lemma set_roundtrip:
  assumes "ValidatorSet_ValidateBasic (Some vals) = Inr ()" and "keysOk kc (Validators vals)" and "keysOk kc [the (Proposer vals)]"
  shows "\<exists>p. ValidatorSet_ToProto kc (Some vals) = Inr p \<and> ValidatorSetFromProto kc (Some p) = Inr vals"
proof -
  obtain vps where vps: "validatorsToProto kc (Validators vals) = Inr vps" "validatorsFromProto kc vps = Inr (Validators vals)"
    using validators_roundtrip [OF assms(2)] by blast
  obtain q where q: "Validator_ToProto kc (Some (the (Proposer vals))) = Inr q" "ValidatorFromProto kc (Some q) = Inr (the (Proposer vals))"
    using assms(3) by (rule Validator_roundtrip)
  have ne: "Validators vals \<noteq> []" and pr: "Proposer vals = Some (the (Proposer vals))"
    using assms(1) by (auto simp: ValidatorSet_ValidateBasic_def IsNilOrEmpty_def Validator_ValidateBasic_def bindR_Inr_iff split: if_splits option.splits sum.splits fault.splits)
  let ?p = "\<lparr>pvsValidators = vps, pvsProposer = Some q, pvsTotal = totalVotingPower vals\<rparr>"
  have "ValidatorSet_ToProto kc (Some vals) = Inr ?p"
    using vps(1) q(1) ne pr by (simp add: ValidatorSet_ToProto_def IsNilOrEmpty_def proposerErr_def)
  moreover have "\<lparr>Validators = Validators vals, Proposer = Some (the (Proposer vals)), totalVotingPower = totalVotingPower vals\<rparr> = vals"
    using pr by simp
  then have "ValidatorSetFromProto kc (Some ?p) = Inr vals"
    using vps(2) q(2) assms(1) by (simp add: ValidatorSetFromProto_def proposerErr_def)
  ultimately show ?thesis by blast
qed

section \<open>A forged total\<close>

definition forgedKeys :: key_codec where
  "forgedKeys = \<lparr>PubKeyToProto = Some, PubKeyFromProto = Some\<rparr>"

definition forgedSet :: "int \<Rightarrow> proto_validator_set" where
  "forgedSet tot =
     (let a = \<lparr>pvlAddress = replicate 20 1, pvlPubKey = [1], pvlVotingPower = 1, pvlProposerPriority = 0\<rparr>;
          b = \<lparr>pvlAddress = replicate 20 2, pvlPubKey = [2], pvlVotingPower = 99, pvlProposerPriority = 0\<rparr>
      in \<lparr>pvsValidators = [b, a], pvsProposer = Some b, pvsTotal = tot\<rparr>)"

definition forgedCommit :: commit where
  "forgedCommit = NewCommit 5 0 (vBlockID sampleVote) [NewCommitSigAbsent, NewCommitSigForBlock [1, 2, 3] (replicate 20 1) 1000]"

section \<open>Properties\<close>

text \<open>A validator set survives its conversion to protobuf and back: a set that passes its validation and whose keys are of a
  supported type is converted without an error, and the result is converted back to the same set, with its proposer
  and its cached total power.\<close>

theorem validator_set_proto_roundtrip:
  assumes "ValidatorSet_ValidateBasic (Some vals) = Inr ()" and "keysOk kc (Validators vals)" and "keysOk kc [the (Proposer vals)]"
  shows "\<exists>p. ValidatorSet_ToProto kc (Some vals) = Inr p \<and> ValidatorSetFromProto kc (Some p) = Inr vals"
  using assms by (rule set_roundtrip)

theorem validator_set_proto_roundtrip_witness:
  "\<exists>vals p. ValidatorSetFromProto forgedKeys (Some (forgedSet 100)) = Inr vals \<and> totalVotingPower vals = 100 \<and>
     ValidatorSet_ToProto forgedKeys (Some vals) = Inr p \<and> ValidatorSetFromProto forgedKeys (Some p) = Inr vals"
proof -
  have "case ValidatorSetFromProto forgedKeys (Some (forgedSet 100)) of Inl _ \<Rightarrow> False
     | Inr vals \<Rightarrow> ValidatorSet_ValidateBasic (Some vals) = Inr () \<and> (\<forall>v \<in> set (the (Proposer vals) # Validators vals). PubKey v \<noteq> None) \<and> totalVotingPower vals = 100"
    by code_simp
  then obtain vals where v: "ValidatorSetFromProto forgedKeys (Some (forgedSet 100)) = Inr vals" "totalVotingPower vals = 100"
      "ValidatorSet_ValidateBasic (Some vals) = Inr ()" "keysOk forgedKeys (Validators vals)" "keysOk forgedKeys [the (Proposer vals)]"
    by (auto simp: keysOk_def forgedKeys_def split: sum.splits)
  from validator_set_proto_roundtrip [OF v(3-5)] v(1,2) show ?thesis by blast
qed

text \<open>C25: The total power of a validator set that comes as protobuf is not computed from its validators. Two sets with the same
  validators, hence the same hash, are both accepted from protobuf; a commit that one percent of the power has signed is
  rejected for the set with the true total and accepted for the set whose total says 1.\<close>

theorem forged_total_passes_commit_check:
  "\<exists>honest forged. ValidatorSetFromProto forgedKeys (Some (forgedSet 100)) = Inr honest \<and>
     ValidatorSetFromProto forgedKeys (Some (forgedSet 1)) = Inr forged \<and> Validators forged = Validators honest \<and>
     100 * forPower forgedCommit (Validators honest) 0 (length (Validators honest)) = sumPower (Validators honest) \<and>
     snd (VerifyCommitLight sampleEnv honest ''c'' (cmBlockID forgedCommit) 5 (Some forgedCommit)) \<noteq> Inr () \<and>
     snd (VerifyCommitLight sampleEnv forged ''c'' (cmBlockID forgedCommit) 5 (Some forgedCommit)) = Inr ()"
proof -
  have "case (ValidatorSetFromProto forgedKeys (Some (forgedSet 100)), ValidatorSetFromProto forgedKeys (Some (forgedSet 1))) of
      (Inr honest, Inr forged) \<Rightarrow> Validators forged = Validators honest \<and>
        100 * forPower forgedCommit (Validators honest) 0 (length (Validators honest)) = sumPower (Validators honest) \<and>
        snd (VerifyCommitLight sampleEnv honest ''c'' (cmBlockID forgedCommit) 5 (Some forgedCommit)) \<noteq> Inr () \<and>
        snd (VerifyCommitLight sampleEnv forged ''c'' (cmBlockID forgedCommit) 5 (Some forgedCommit)) = Inr ()
    | _ \<Rightarrow> False"
    by code_simp
  then show ?thesis by (auto split: sum.splits prod.splits)
qed

end
