(* ===== verification/StateStore.thy ===== *)
theory StateStore
  imports ChainInvariant ValidatorProto
begin

text \<open>
  \<open>state/store.go\<close>: the database of states. For every height it keeps the validators and the consensus parameters that are in force, most of
  the time only as the height of their last change, and the responses of the application.

  The keys of a kind are the heights in the order of the database (\<open>orderedcode\<close> keeps the order), so each kind is a table: a list of
  values in the order of their heights. The database does not fail, and a value is read as it was written.
\<close>

section \<open>Data model\<close>

definition valSetCheckpointInterval :: int where "valSetCheckpointInterval = 100000"

type_synonym 'a height_table = "(int \<times> 'a) list"

record validators_info =
  viLastHeightChanged :: int
  viValidatorSet :: "proto_validator_set option"

record params_info =
  piLastHeightChanged :: int
  piConsensusParams :: params_update

record state_store =
  ssValidators :: "validators_info height_table"
  ssParams :: "params_info height_table"
  ssResponses :: "abci_responses height_table"
  ssState :: "chain_state option"

datatype store_error =
    ChangedAfterHeight | StoredSetErr proto_error | ErrNoValSetForHeight int | NoValidatorsStored int int | NoParamsForHeight int
  | NoParamsStored int int | RetainHeightNotPositive | ErrNoABCIResponsesForHeight int | GenesisErr exec_error

definition emptyStore :: state_store where
  "emptyStore = \<lparr>ssValidators = [], ssParams = [], ssResponses = [], ssState = None\<rparr>"

definition dbSet :: "int \<Rightarrow> 'a \<Rightarrow> 'a height_table \<Rightarrow> 'a height_table" where
  "dbSet h x t = filter (\<lambda>p. fst p < h) t @ (h, x) # filter (\<lambda>p. h < fst p) t"

section \<open>Pruning a range of heights\<close>

text \<open>The keys of one batch, from the end of the range downwards, and the end of the range that is left.\<close>

definition reverseBatchDelete :: "int \<Rightarrow> int \<Rightarrow> 'a height_table \<Rightarrow> int list \<times> int" where
  "reverseBatchDelete start end t =
     (let keys = rev (map fst (filter (\<lambda>p. start \<le> fst p \<and> fst p < end) t)) in
      if int (length keys) \<ge> 1000 then (take 1000 keys, keys ! 999) else (keys, start))"

lemma batch_end: "1000 \<le> length ks \<Longrightarrow> ks ! 999 \<in> set ks"
  by simp

lemma reverseBatch_deletes:
  assumes "reverseBatchDelete start end t = (keys, end')" and "end' \<noteq> start"
  shows "end' \<in> set keys" and "end' \<in> fst ` set t" and "start \<le> end'" and "end' < end"
proof -
  let ?keys = "rev (map fst (filter (\<lambda>p. start \<le> fst p \<and> fst p < end) t))"
  have e: "1000 \<le> length ?keys" "keys = take 1000 ?keys" "end' = ?keys ! 999"
    using assms by (auto simp: reverseBatchDelete_def Let_def split: if_splits)
  then have "end' \<in> set ?keys" using batch_end [of ?keys] by simp
  then show "end' \<in> fst ` set t" "start \<le> end'" "end' < end" by auto
  have "end' = keys ! 999" "999 < length keys" using e by simp_all
  then show "end' \<in> set keys" by simp
qed

function pruneRange :: "int \<Rightarrow> int \<Rightarrow> 'a height_table \<Rightarrow> 'a height_table" where
  "pruneRange start end t =
     (case reverseBatchDelete start end t of (keys, end') \<Rightarrow>
        if end' = start then filter (\<lambda>p. fst p \<notin> set keys) t
        else pruneRange start end' (filter (\<lambda>p. fst p \<notin> set keys) t))"
  by pat_completeness auto
termination
proof (relation "measure (\<lambda>(start, end, t). length t)", goal_cases)
  case (2 start "end" t keys end')
  then obtain p where "p \<in> set t" "fst p \<in> set keys"
    using reverseBatch_deletes(1,2) [of start "end" t keys end'] by auto
  then have "length (filter (\<lambda>p. fst p \<notin> set keys) t) < length t"
    by (intro length_filter_less [of p]) simp_all
  then show ?case by simp
qed simp

declare pruneRange.simps [simp del]

section \<open>Validators\<close>

definition lastStoredHeightFor :: "int \<Rightarrow> int \<Rightarrow> int" where
  "lastStoredHeightFor height lastHeightChanged = max (height - height smod valSetCheckpointInterval) lastHeightChanged"

definition loadValidatorsInfo :: "state_store \<Rightarrow> int \<Rightarrow> validators_info option" where
  "loadValidatorsInfo s height = map_of (ssValidators s) height"

definition saveValidatorsInfo ::
  "key_codec \<Rightarrow> int \<Rightarrow> int \<Rightarrow> validator_set option \<Rightarrow> state_store \<Rightarrow> store_error fault + state_store"
where
  "saveValidatorsInfo kc height lastHeightChanged valSet s =
     (if lastHeightChanged > height then Inl (Err ChangedAfterHeight)
      else bindR (if height = lastHeightChanged \<or> height smod valSetCheckpointInterval = 0
                  then bindR (liftErr StoredSetErr (ValidatorSet_ToProto kc valSet)) (\<lambda>p. Inr (Some p)) else Inr None) (\<lambda>p.
        Inr (s\<lparr>ssValidators := dbSet height \<lparr>viLastHeightChanged = lastHeightChanged, viValidatorSet = p\<rparr> (ssValidators s)\<rparr>)))"

definition SafeConvertInt32 :: "int \<Rightarrow> 'e fault + int" where
  "SafeConvertInt32 a = (if a > MaxInt32 \<or> a < MinInt32 then Inl (Panic ''int32 overflow'') else Inr a)"

definition LoadValidators :: "key_codec \<Rightarrow> state_store \<Rightarrow> int \<Rightarrow> store_error fault + validator_set" where
  "LoadValidators kc s height =
     (case loadValidatorsInfo s height of
        None \<Rightarrow> Inl (Err (ErrNoValSetForHeight height))
      | Some valInfo \<Rightarrow>
          (case viValidatorSet valInfo of
             Some p \<Rightarrow> liftErr StoredSetErr (ValidatorSetFromProto kc (Some p))
           | None \<Rightarrow>
               let lastStoredHeight = lastStoredHeightFor height (viLastHeightChanged valInfo) in
               (case Option.bind (loadValidatorsInfo s lastStoredHeight) viValidatorSet of
                  None \<Rightarrow> Inl (Err (NoValidatorsStored lastStoredHeight height))
                | Some p \<Rightarrow>
                    bindR (liftErr StoredSetErr (ValidatorSetFromProto kc (Some p))) (\<lambda>vs.
                    bindR (SafeConvertInt32 (wrap64 (height - lastStoredHeight))) (\<lambda>n.
                    bindR (IncrementProposerPriority vs n) (\<lambda>vs'.
                    bindR (liftErr StoredSetErr (ValidatorSet_ToProto kc (Some vs'))) (\<lambda>vi2.
                      liftErr StoredSetErr (ValidatorSetFromProto kc (Some vi2)))))))))"

text \<open>The validators below the retain height are deleted, but for those the retain height refers to.\<close>

definition pruneValidatorSets :: "int \<Rightarrow> state_store \<Rightarrow> store_error fault + state_store" where
  "pruneValidatorSets retainHeight s =
     (case loadValidatorsInfo s retainHeight of
        None \<Rightarrow> Inl (Err (ErrNoValSetForHeight retainHeight))
      | Some valInfo \<Rightarrow>
          let recorded = lastStoredHeightFor retainHeight (viLastHeightChanged valInfo) in
          (case Option.bind (loadValidatorsInfo s recorded) viValidatorSet of
             None \<Rightarrow> Inl (Err (NoValidatorsStored recorded retainHeight))
           | Some _ \<Rightarrow>
               let t = (if recorded < retainHeight then pruneRange (recorded + 1) retainHeight (ssValidators s) else ssValidators s) in
               Inr (s\<lparr>ssValidators := pruneRange 1 recorded t\<rparr>)))"

section \<open>Consensus parameters\<close>

definition ConsensusParams_ToProto :: "ConsensusParams \<Rightarrow> params_update" where
  "ConsensusParams_ToProto params =
     \<lparr>puBlock = Some (cpBlock params), puEvidence = Some (cpEvidence params), puPubKeyTypes = Some (cpPubKeyTypes params),
      puAppVersion = Some (cpAppVersion params)\<rparr>"

definition ConsensusParamsFromProto :: "params_update \<Rightarrow> 'e fault + ConsensusParams" where
  "ConsensusParamsFromProto pb =
     (case (puBlock pb, puEvidence pb, puPubKeyTypes pb, puAppVersion pb) of
        (Some b, Some e, Some ts, Some v) \<Rightarrow> Inr \<lparr>cpBlock = b, cpEvidence = e, cpPubKeyTypes = ts, cpAppVersion = v\<rparr>
      | _ \<Rightarrow> Inl (Panic ''nil pointer dereference''))"

definition emptypb :: params_update where
  "emptypb = \<lparr>puBlock = None, puEvidence = None, puPubKeyTypes = None, puAppVersion = None\<rparr>"

definition loadConsensusParamsInfo :: "state_store \<Rightarrow> int \<Rightarrow> params_info option" where
  "loadConsensusParamsInfo s height = map_of (ssParams s) height"

definition saveConsensusParamsInfo :: "int \<Rightarrow> int \<Rightarrow> ConsensusParams \<Rightarrow> state_store \<Rightarrow> state_store" where
  "saveConsensusParamsInfo height changeHeight params s =
     s\<lparr>ssParams := dbSet height \<lparr>piLastHeightChanged = changeHeight,
         piConsensusParams = (if changeHeight = height then ConsensusParams_ToProto params else emptypb)\<rparr> (ssParams s)\<rparr>"

definition LoadConsensusParams :: "state_store \<Rightarrow> int \<Rightarrow> store_error fault + ConsensusParams" where
  "LoadConsensusParams s height =
     (case loadConsensusParamsInfo s height of
        None \<Rightarrow> Inl (Err (NoParamsForHeight height))
      | Some paramsInfo \<Rightarrow>
          if piConsensusParams paramsInfo = emptypb then
            (case loadConsensusParamsInfo s (piLastHeightChanged paramsInfo) of
               None \<Rightarrow> Inl (Err (NoParamsStored (piLastHeightChanged paramsInfo) height))
             | Some paramsInfo2 \<Rightarrow> ConsensusParamsFromProto (piConsensusParams paramsInfo2))
          else ConsensusParamsFromProto (piConsensusParams paramsInfo))"

definition pruneConsensusParams :: "int \<Rightarrow> state_store \<Rightarrow> store_error fault + state_store" where
  "pruneConsensusParams retainHeight s =
     (case loadConsensusParamsInfo s retainHeight of
        None \<Rightarrow> Inl (Err (NoParamsForHeight retainHeight))
      | Some paramsInfo \<Rightarrow>
          let changed = piLastHeightChanged paramsInfo in
          bindR (if piConsensusParams paramsInfo = emptypb then
                   (case loadConsensusParamsInfo s changed of
                      None \<Rightarrow> Inl (Err (NoParamsStored changed retainHeight))
                    | Some lastRecorded \<Rightarrow>
                        if piConsensusParams lastRecorded = emptypb then Inl (Err (NoParamsStored changed retainHeight))
                        else Inr (pruneRange (changed + 1) retainHeight (ssParams s)))
                 else Inr (ssParams s)) (\<lambda>t.
            Inr (s\<lparr>ssParams := pruneRange 1 changed t\<rparr>)))"

section \<open>Responses of the application\<close>

definition SaveABCIResponses :: "int \<Rightarrow> abci_responses \<Rightarrow> state_store \<Rightarrow> state_store" where
  "SaveABCIResponses height ar s = s\<lparr>ssResponses := dbSet height ar (ssResponses s)\<rparr>"

definition LoadABCIResponses :: "state_store \<Rightarrow> int \<Rightarrow> store_error fault + abci_responses" where
  "LoadABCIResponses s height =
     (case map_of (ssResponses s) height of None \<Rightarrow> Inl (Err (ErrNoABCIResponsesForHeight height)) | Some ar \<Rightarrow> Inr ar)"

definition pruneABCIResponses :: "int \<Rightarrow> state_store \<Rightarrow> state_store" where
  "pruneABCIResponses height s = s\<lparr>ssResponses := pruneRange 1 height (ssResponses s)\<rparr>"

section \<open>States\<close>

definition Save :: "key_codec \<Rightarrow> chain_state \<Rightarrow> state_store \<Rightarrow> store_error fault + state_store" where
  "Save kc st s =
     (let first = (wrap64 (stLastBlockHeight st + 1) = 1);
          next = (if first then stInitialHeight st else wrap64 (stLastBlockHeight st + 1)) in
      bindR (if first then saveValidatorsInfo kc next next (stValidators st) s else Inr s) (\<lambda>s1.
      bindR (saveValidatorsInfo kc (wrap64 (next + 1)) (stLastHeightValidatorsChanged st) (stNextValidators st) s1) (\<lambda>s2.
        Inr ((saveConsensusParamsInfo next (stLastHeightConsensusParamsChanged st) (stConsensusParams st) s2)\<lparr>ssState := Some st\<rparr>))))"

definition Bootstrap :: "key_codec \<Rightarrow> chain_state \<Rightarrow> state_store \<Rightarrow> store_error fault + state_store" where
  "Bootstrap kc st s =
     (let h0 = wrap64 (stLastBlockHeight st + 1);
          height = (if h0 = 1 then stInitialHeight st else h0) in
      bindR (if height > 1 \<and> \<not> IsNilOrEmpty (Some (stLastValidators st))
             then saveValidatorsInfo kc (wrap64 (height - 1)) (wrap64 (height - 1)) (Some (stLastValidators st)) s else Inr s) (\<lambda>s1.
      bindR (saveValidatorsInfo kc height height (stValidators st) s1) (\<lambda>s2.
      bindR (saveValidatorsInfo kc (wrap64 (height + 1)) (wrap64 (height + 1)) (stNextValidators st) s2) (\<lambda>s3.
        Inr ((saveConsensusParamsInfo height (stLastHeightConsensusParamsChanged st) (stConsensusParams st) s3)\<lparr>ssState := Some st\<rparr>)))))"

definition PruneStates :: "int \<Rightarrow> state_store \<Rightarrow> store_error fault + state_store" where
  "PruneStates retainHeight s =
     (if retainHeight \<le> 0 then Inl (Err RetainHeightNotPositive)
      else bindR (pruneConsensusParams retainHeight s) (\<lambda>s1.
           bindR (pruneValidatorSets retainHeight s1) (\<lambda>s2. Inr (pruneABCIResponses retainHeight s2))))"

text \<open>The state that was saved last, or the genesis state for a new chain.\<close>

definition LoadFromDBOrGenesisDoc ::
  "crypto_env \<Rightarrow> time \<Rightarrow> string \<Rightarrow> GenesisDoc \<Rightarrow> state_store \<Rightarrow> store_error fault + chain_state"
where
  "LoadFromDBOrGenesisDoc ce now software genDoc s =
     (case ssState s of
        Some st \<Rightarrow> if stValidators st = None then liftErr GenesisErr (MakeGenesisState ce now software genDoc) else Inr st
      | None \<Rightarrow> liftErr GenesisErr (MakeGenesisState ce now software genDoc))"

section \<open>Tables\<close>

definition ordered :: "'a height_table \<Rightarrow> bool" where
  "ordered t \<longleftrightarrow> sorted_wrt (<) (map fst t)"

lemma map_of_filter_key: "map_of (filter (\<lambda>p. P (fst p)) t) k = (if P k then map_of t k else None)"
  by (induction t) auto

lemma dbSet_get: "map_of (dbSet h x t) k = (if k = h then Some x else map_of t k)"
  using map_of_filter_key [of "\<lambda>k. k < h" t k] map_of_filter_key [of "\<lambda>k. h < k" t k]
  by (auto simp: dbSet_def map_add_def split: option.splits)

lemma dbSet_ordered: "ordered t \<Longrightarrow> ordered (dbSet h x t)"
  by (auto simp: ordered_def dbSet_def sorted_wrt_append sorted_wrt_map sorted_wrt_filter)

text \<open>The entries of a chain: none is above \<open>m\<close>, and an entry that refers to a height agrees with the entries from that height on.\<close>

definition chainTable :: "('a \<Rightarrow> int) \<Rightarrow> int \<Rightarrow> 'a height_table \<Rightarrow> bool" where
  "chainTable changed m t \<longleftrightarrow> ordered t \<and> (\<forall>h i. map_of t h = Some i \<longrightarrow> h \<le> m \<and> changed i \<le> h) \<and>
     (\<forall>h h' i i'. map_of t h = Some i \<longrightarrow> map_of t h' = Some i' \<longrightarrow> h \<le> h' \<longrightarrow> changed i' \<le> h \<longrightarrow> changed i = changed i')"

lemma chainTable_empty: "chainTable changed m []"
  by (simp add: chainTable_def ordered_def)

lemma chainTable_set:
  assumes "chainTable changed m t" and "changed x = m + 1 \<or> (\<exists>i. map_of t m = Some i \<and> changed i = changed x)"
  shows "chainTable changed (m + 1) (dbSet (m + 1) x t)"
proof -
  have old: "ordered t" "\<And>h i. map_of t h = Some i \<Longrightarrow> h \<le> m" "\<And>h i. map_of t h = Some i \<Longrightarrow> changed i \<le> h"
    "\<And>h h' i i'. map_of t h = Some i \<Longrightarrow> map_of t h' = Some i' \<Longrightarrow> h \<le> h' \<Longrightarrow> changed i' \<le> h \<Longrightarrow> changed i = changed i'"
    using assms(1) unfolding chainTable_def by blast+
  have le: "changed x \<le> m + 1" using assms(2) old(3) [of m] by auto
  have agree: "changed i = changed x" if i: "map_of t h = Some i" "changed x \<le> h" for h i
  proof -
    have "h \<le> m" using i(1) by (rule old(2))
    then obtain j where "map_of t m = Some j" "changed j = changed x" using assms(2) i(2) by auto
    then show ?thesis using old(4) [OF i(1) _ \<open>h \<le> m\<close>] i(2) by simp
  qed
  show ?thesis unfolding chainTable_def
  proof (intro conjI allI impI)
    show "ordered (dbSet (m + 1) x t)" using old(1) by (rule dbSet_ordered)
    show "h \<le> m + 1" "changed i \<le> h" if "map_of (dbSet (m + 1) x t) h = Some i" for h i
      using that le old(2,3) [of h i] by (auto simp: dbSet_get split: if_splits)
    show "changed i = changed i'" if "map_of (dbSet (m + 1) x t) h = Some i" "map_of (dbSet (m + 1) x t) h' = Some i'" "h \<le> h'" "changed i' \<le> h" for h h' i i'
      using that agree [of h i] old(2) [of h' i'] old(4) [of h i h' i'] by (auto simp: dbSet_get split: if_splits)
  qed
qed

lemma chainTable_first: "changed x = h \<Longrightarrow> chainTable changed h (dbSet h x [])"
  using chainTable_set [OF chainTable_empty, of changed x "h - 1"] by simp

text \<open>Pruning in batches deletes exactly the heights of the range.\<close>

lemma pruneRange_eq:
  "ordered t \<Longrightarrow> pruneRange start end t = filter (\<lambda>p. \<not> (start \<le> fst p \<and> fst p < end)) t"
proof (induction start "end" t rule: pruneRange.induct)
  case (1 start "end" t)
  let ?in = "\<lambda>p. start \<le> fst p \<and> fst p < end"
  obtain keys end' where b: "reverseBatchDelete start end t = (keys, end')" by fastforce
  let ?t = "filter (\<lambda>p. fst p \<notin> set keys) t"
  let ?keys = "rev (map fst (filter ?in t))"
  have sorted: "sorted_wrt (>) ?keys" using 1(2) by (simp add: ordered_def sorted_wrt_rev sorted_wrt_map sorted_wrt_filter)
  show ?case
  proof (cases "end' = start \<and> length ?keys < 1000")
    case True
    then have "set keys = set ?keys" using b by (auto simp: reverseBatchDelete_def Let_def split: if_splits)
    then have "filter (\<lambda>p. fst p \<notin> set keys) t = filter (\<lambda>p. \<not> ?in p) t" by (auto intro!: filter_cong)
    then show ?thesis using True b by (simp add: pruneRange.simps [of start "end" t])
  next
    case False
    then have long: "1000 \<le> length ?keys" using b by (auto simp: reverseBatchDelete_def Let_def split: if_splits)
    then have k: "keys = take 1000 ?keys" "end' = ?keys ! 999" using b by (auto simp: reverseBatchDelete_def Let_def split: if_splits)
    have mem: "x \<in> set keys \<longleftrightarrow> x \<in> set ?keys \<and> end' \<le> x" for x
    proof
      assume "x \<in> set keys"
      then obtain i where i: "i < 1000" "x = ?keys ! i" "i < length ?keys" using k(1) by (auto simp: in_set_conv_nth)
      then have "end' \<le> x" using sorted long k(2) sorted_wrt_nth_less [OF sorted, of i 999] by (cases "i = 999") auto
      then show "x \<in> set ?keys \<and> end' \<le> x" using i nth_mem by metis
    next
      assume x: "x \<in> set ?keys \<and> end' \<le> x"
      obtain i where i: "i < length ?keys" "x = ?keys ! i" using conjunct1 [OF x] unfolding in_set_conv_nth by blast
      have "\<not> 999 < i"
      proof
        assume "999 < i"
        from sorted_wrt_nth_less [OF sorted this i(1)] show False using x i(2) k(2) by simp
      qed
      then have "i < length keys" "x = keys ! i" using i k(1) by simp_all
      then show "x \<in> set keys" by simp
    qed
    have "end' \<in> set ?keys" using batch_end [OF long] k(2) by simp
    then have e: "start \<le> end'" "end' < end" by auto
    have t: "?t = filter (\<lambda>p. \<not> (?in p \<and> end' \<le> fst p)) t" using mem by (auto intro!: filter_cong)
    have o: "ordered ?t" using 1(2) by (simp add: ordered_def sorted_wrt_map sorted_wrt_filter)
    have "filter (\<lambda>p. \<not> (start \<le> fst p \<and> fst p < end')) ?t = filter (\<lambda>p. \<not> ?in p) t"
      unfolding t filter_filter by (rule filter_cong) (use e in auto)
    moreover have "?t = filter (\<lambda>p. \<not> ?in p) t" if "end' = start" unfolding t by (rule filter_cong) (use that in auto)
    ultimately show ?thesis using 1(1) [OF b [symmetric] _ o] b by (simp add: pruneRange.simps [of start "end" t])
  qed
qed

lemma pruneRange_get: "ordered t \<Longrightarrow> map_of (pruneRange a b t) k = (if a \<le> k \<and> k < b then None else map_of t k)"
  unfolding pruneRange_eq by (subst map_of_filter_key [of "\<lambda>x. \<not> (a \<le> x \<and> x < b)"]) simp

lemma pruneRange_ordered: "ordered t \<Longrightarrow> ordered (pruneRange a b t)"
  by (simp add: pruneRange_eq ordered_def sorted_wrt_map sorted_wrt_filter)

section \<open>Sets that can be stored\<close>

text \<open>The identity of a validator set: addresses, keys and powers in their order, without the priorities.\<close>

definition members :: "validator_set \<Rightarrow> (bytes \<times> bytes option \<times> int) list" where
  "members vals = map (\<lambda>v. (Address v, PubKey v, VotingPower v)) (Validators vals)"

definition keyCodecOk :: "key_codec \<Rightarrow> bool" where
  "keyCodecOk kc \<longleftrightarrow> (\<forall>pk. \<exists>bz. PubKeyToProto kc pk = Some bz \<and> PubKeyFromProto kc bz = Some pk)"

definition storable :: "validator_set \<Rightarrow> bool" where
  "storable vals \<longleftrightarrow> valsOk vals \<and> (\<exists>m \<in> set (Validators vals). Proposer vals = Some m)"

lemma validateEach_ok: "\<forall>v \<in> set vs. Validator_ValidateBasic (Some v) = Inr () \<Longrightarrow> validateEach i vs = Inr ()"
  by (induction vs arbitrary: i) auto

lemma storable_valid: "storable vals \<Longrightarrow> ValidatorSet_ValidateBasic (Some vals) = Inr ()"
proof -
  assume s: "storable vals"
  have each: "Validator_ValidateBasic (Some v) = Inr ()" if "v \<in> set (Validators vals)" for v
    using s that by (auto simp: storable_def valsOk_def keyed_def wf_vals_def wf_list_def Validator_ValidateBasic_def)
  then have "validateEach 0 (Validators vals) = Inr ()" by (simp add: validateEach_ok)
  then show ?thesis using s each by (auto simp: ValidatorSet_ValidateBasic_def IsNilOrEmpty_def storable_def valsOk_def)
qed

lemma storable_roundtrip:
  assumes "storable vals" and "keyCodecOk kc"
  obtains p where "ValidatorSet_ToProto kc (Some vals) = Inr p" and "ValidatorSetFromProto kc (Some p) = Inr vals"
proof -
  have "keysOk kc (Validators vals)" "keysOk kc [the (Proposer vals)]"
    using assms by (auto simp: storable_def valsOk_def keyed_def keysOk_def keyCodecOk_def)
  then show ?thesis using set_roundtrip [OF storable_valid [OF assms(1)]] that by blast
qed

lemma map_triple: "map (\<lambda>v. (f v, g v, h v)) vs = zip (map f vs) (zip (map g vs) (map h vs))"
  by (induction vs) auto

lemma increment_storable:
  assumes "valsOk vals" and "0 < n"
  obtains vals' where "IncrementProposerPriority vals n = (Inr vals' :: 'e fault + _)" and "storable vals'" and "members vals' = members vals"
proof -
  have ok: "wf_vals vals" "Validators vals \<noteq> []" using assms(1) by (simp_all add: valsOk_def)
  obtain vals' m where v: "IncrementProposerPriority vals n = (Inr vals' :: 'e fault + _)" "wf_vals vals'"
    "Proposer vals' = Some m" "m \<in> set (Validators vals')" "map Address (Validators vals') = map Address (Validators vals)"
    "map VotingPower (Validators vals') = map VotingPower (Validators vals)"
    "map PubKey (Validators vals') = map PubKey (Validators vals)"
    using advance_safe [OF ok assms(2), where 'e = 'e] by blast
  have "keyed (Validators vals')" using keyed_map [OF v(5,7)] assms(1) by (simp add: valsOk_def)
  then have "storable vals'" using v(2-4) by (auto simp: storable_def valsOk_def)
  moreover have "members vals' = members vals" unfolding members_def map_triple v(5-7) ..
  ultimately show ?thesis using that v(1) by blast
qed

section \<open>What is recorded for a height\<close>

lemma lastStored_bounds:
  assumes "0 < h" and "c \<le> h"
  shows "c \<le> lastStoredHeightFor h c" and "lastStoredHeightFor h c \<le> h" and "h - lastStoredHeightFor h c < 100000"
    and "lastStoredHeightFor h c = h \<longleftrightarrow> h = c \<or> h smod valSetCheckpointInterval = 0"
proof -
  have "h smod 100000 = h mod 100000" using assms(1) by (simp add: signed_modulo_int_def sgn_if)
  moreover have "0 \<le> h mod 100000" "h mod 100000 < 100000" by simp_all
  ultimately show "c \<le> lastStoredHeightFor h c" "lastStoredHeightFor h c \<le> h" "h - lastStoredHeightFor h c < 100000"
    "lastStoredHeightFor h c = h \<longleftrightarrow> h = c \<or> h smod valSetCheckpointInterval = 0"
    using assms(2) by (auto simp: lastStoredHeightFor_def valSetCheckpointInterval_def)
qed

definition recorded :: "key_codec \<Rightarrow> state_store \<Rightarrow> int \<Rightarrow> int \<Rightarrow> validator_set \<Rightarrow> bool" where
  "recorded kc s h c vals \<longleftrightarrow> 0 < h \<and> c \<le> h \<and>
     (\<exists>i. loadValidatorsInfo s h = Some i \<and> viLastHeightChanged i = c \<and> (viValidatorSet i = None \<or> lastStoredHeightFor h c = h)) \<and>
     (\<exists>i p v0. loadValidatorsInfo s (lastStoredHeightFor h c) = Some i \<and> viValidatorSet i = Some p \<and>
        ValidatorSetFromProto kc (Some p) = Inr v0 \<and> storable v0 \<and> members v0 = members vals)"

lemma LoadValidators_recorded:
  assumes "recorded kc s h c vals" and "keyCodecOk kc"
  obtains vs where "LoadValidators kc s h = Inr vs" and "storable vs" and "members vs = members vals"
proof -
  let ?l = "lastStoredHeightFor h c"
  obtain i where i: "0 < h" "c \<le> h" "loadValidatorsInfo s h = Some i" "viLastHeightChanged i = c" "viValidatorSet i = None \<or> ?l = h"
    using assms(1) by (auto simp: recorded_def)
  obtain j p v0 where j: "loadValidatorsInfo s ?l = Some j" "viValidatorSet j = Some p" "ValidatorSetFromProto kc (Some p) = Inr v0"
      "storable v0" "members v0 = members vals"
    using assms(1) by (auto simp: recorded_def)
  show ?thesis
  proof (cases "viValidatorSet i")
    case (Some q)
    then have "i = j" using i j by simp
    then show ?thesis using that [of v0] i j by (simp add: LoadValidators_def)
  next
    case None
    then have "?l \<noteq> h" using i j by auto
    then have n: "0 < h - ?l" "h - ?l < 100000" using lastStored_bounds [OF i(1,2)] by simp_all
    then have "in64 (h - ?l)" by (simp add: int_range)
    then have conv: "SafeConvertInt32 (wrap64 (h - ?l)) = (Inr (h - ?l) :: store_error fault + _)"
      using n by (simp add: SafeConvertInt32_def int_range)
    obtain vs where vs: "IncrementProposerPriority v0 (h - ?l) = (Inr vs :: store_error fault + _)" "storable vs" "members vs = members v0"
      using increment_storable [OF _ n(1), where 'e = store_error] j(4) by (auto simp: storable_def)
    obtain p2 where "ValidatorSet_ToProto kc (Some vs) = Inr p2" "ValidatorSetFromProto kc (Some p2) = Inr vs"
      using storable_roundtrip [OF vs(2) assms(2)] by blast
    then have "LoadValidators kc s h = Inr vs" using None i j conv vs(1) by (simp add: LoadValidators_def)
    then show ?thesis using that vs j(5) by simp
  qed
qed

lemma saveValidatorsInfo_run:
  assumes "saveValidatorsInfo kc h c (Some vals) s = Inr s'" and "storable vals" and "keyCodecOk kc"
  obtains p where "c \<le> h" and "s' = s\<lparr>ssValidators := dbSet h \<lparr>viLastHeightChanged = c, viValidatorSet = p\<rparr> (ssValidators s)\<rparr>"
    and "if h = c \<or> h smod valSetCheckpointInterval = 0 then \<exists>q. p = Some q \<and> ValidatorSetFromProto kc (Some q) = Inr vals else p = None"
proof -
  obtain q where q: "ValidatorSet_ToProto kc (Some vals) = Inr q" "ValidatorSetFromProto kc (Some q) = Inr vals"
    using assms(2,3) by (rule storable_roundtrip)
  show ?thesis
  proof (cases "h = c \<or> h smod valSetCheckpointInterval = 0")
    case True
    then show ?thesis using assms(1) q by (intro that [of "Some q"]) (auto simp: saveValidatorsInfo_def split: if_splits)
  next
    case False
    then show ?thesis using assms(1) by (intro that [of None]) (auto simp: saveValidatorsInfo_def split: if_splits)
  qed
qed

lemma lastStored_before:
  assumes "0 < h" and "c \<le> h" and "h + 1 \<noteq> c" and "(h + 1) smod valSetCheckpointInterval \<noteq> 0"
  shows "lastStoredHeightFor (h + 1) c = lastStoredHeightFor h c"
proof -
  have m: "h smod 100000 = h mod 100000" "(h + 1) smod 100000 = (h + 1) mod 100000" using assms(1) by (simp_all add: signed_modulo_int_def sgn_if)
  then have nz: "(h + 1) mod 100000 \<noteq> 0" using assms(4) by (simp add: valSetCheckpointInterval_def)
  have eq: "(h + 1) mod 100000 = (h mod 100000 + 1) mod 100000" by (simp add: mod_add_left_eq)
  have "h mod 100000 + 1 \<noteq> 100000"
  proof
    assume "h mod 100000 + 1 = 100000"
    then show False using nz eq by simp
  qed
  moreover have "0 \<le> h mod 100000" "h mod 100000 < 100000" by simp_all
  ultimately have "(h mod 100000 + 1) mod 100000 = h mod 100000 + 1" by (intro mod_pos_pos_trivial) linarith+
  then have "h + 1 - (h + 1) mod 100000 = h - h mod 100000" using eq by linarith
  then show ?thesis using m by (simp add: lastStoredHeightFor_def valSetCheckpointInterval_def)
qed

lemma save_records:
  assumes save: "saveValidatorsInfo kc (h + 1) c (Some vals) s = Inr s'" and "storable vals" and "keyCodecOk kc" and "0 \<le> h"
    and before: "c \<noteq> h + 1 \<Longrightarrow> recorded kc s h c vals0 \<and> members vals0 = members vals"
  shows "recorded kc s' (h + 1) c vals"
proof -
  obtain p where c: "c \<le> h + 1" and s': "s' = s\<lparr>ssValidators := dbSet (h + 1) \<lparr>viLastHeightChanged = c, viValidatorSet = p\<rparr> (ssValidators s)\<rparr>"
      and p: "if h + 1 = c \<or> (h + 1) smod valSetCheckpointInterval = 0 then \<exists>q. p = Some q \<and> ValidatorSetFromProto kc (Some q) = Inr vals else p = None"
    using save assms(2,3) by (rule saveValidatorsInfo_run)
  have get: "loadValidatorsInfo s' k = (if k = h + 1 then Some \<lparr>viLastHeightChanged = c, viValidatorSet = p\<rparr> else loadValidatorsInfo s k)" for k
    by (simp add: loadValidatorsInfo_def s' dbSet_get)
  have pos: "0 < h + 1" using assms(4) by simp
  show ?thesis
  proof (cases "h + 1 = c \<or> (h + 1) smod valSetCheckpointInterval = 0")
    case True
    then have "lastStoredHeightFor (h + 1) c = h + 1" using lastStored_bounds(4) [OF pos c] by simp
    then show ?thesis using True p c pos assms(2) by (auto simp: recorded_def get)
  next
    case False
    then have r: "recorded kc s h c vals0" "members vals0 = members vals" using before by auto
    then have hc: "0 < h" "c \<le> h" by (simp_all add: recorded_def)
    then have l: "lastStoredHeightFor (h + 1) c = lastStoredHeightFor h c" using False lastStored_before by auto
    have "lastStoredHeightFor h c \<noteq> h + 1" using lastStored_bounds(2) [OF hc] by simp
    then show ?thesis using r hc False p by (auto simp: recorded_def get l)
  qed
qed

lemma save_keeps:
  assumes "recorded kc s k d v" and "k < h" and "s' = s\<lparr>ssValidators := dbSet h i (ssValidators s)\<rparr>"
  shows "recorded kc s' k d v"
proof -
  have "lastStoredHeightFor k d < h" using assms(1,2) lastStored_bounds(2) [of k d] by (auto simp: recorded_def)
  then show ?thesis using assms by (auto simp: recorded_def loadValidatorsInfo_def dbSet_get)
qed

definition paramsRecorded :: "state_store \<Rightarrow> int \<Rightarrow> int \<Rightarrow> ConsensusParams \<Rightarrow> bool" where
  "paramsRecorded s h c params \<longleftrightarrow> c \<le> h \<and>
     (\<exists>i. loadConsensusParamsInfo s h = Some i \<and> piLastHeightChanged i = c \<and> (piConsensusParams i = emptypb \<or> c = h)) \<and>
     (\<exists>i. loadConsensusParamsInfo s c = Some i \<and> piConsensusParams i = ConsensusParams_ToProto params)"

lemma params_proto [simp]: "ConsensusParamsFromProto (ConsensusParams_ToProto params) = Inr params" "ConsensusParams_ToProto params \<noteq> emptypb"
  by (simp_all add: ConsensusParamsFromProto_def ConsensusParams_ToProto_def emptypb_def)

lemma LoadConsensusParams_recorded: "paramsRecorded s h c params \<Longrightarrow> LoadConsensusParams s h = Inr params"
  by (auto simp: paramsRecorded_def LoadConsensusParams_def)

lemma save_params_records:
  assumes "c \<le> h" and "c \<noteq> h \<Longrightarrow> paramsRecorded s (h - 1) c params"
  shows "paramsRecorded (saveConsensusParamsInfo h c params s) h c params"
  using assms by (cases "c = h") (auto simp: paramsRecorded_def saveConsensusParamsInfo_def loadConsensusParamsInfo_def dbSet_get)

lemma save_params_keeps:
  assumes "paramsRecorded s k d p" and "k < h"
  shows "paramsRecorded (saveConsensusParamsInfo h c params s) k d p"
  using assms by (auto simp: paramsRecorded_def saveConsensusParamsInfo_def loadConsensusParamsInfo_def dbSet_get)

section \<open>A chain whose states are saved\<close>

text \<open>The states of a chain, the latest first, from the genesis state, and the store in which each was saved after its block.\<close>

inductive saved :: "crypto_env \<Rightarrow> block_env \<Rightarrow> exec_env \<Rightarrow> key_codec \<Rightarrow> chain_state list \<Rightarrow> state_store \<Rightarrow> bool"
  for ce be xe kc
where
  genesis: "MakeGenesisState ce now software gd = Inr st \<Longrightarrow> in64 (gdInitialHeight gd) \<Longrightarrow> gdValidators gd \<noteq> None \<Longrightarrow>
    Save kc st emptyStore = Inr s \<Longrightarrow> saved ce be xe kc [st] s"
| applied: "saved ce be xe kc (st # sts) s \<Longrightarrow> isOk (BlockID_ValidateBasic blockID) \<Longrightarrow>
    ApplyBlock ce be xe st blockID b = Inr (st', retain) \<Longrightarrow> execBlockOnProxyApp xe b (stInitialHeight st) = Inr ar \<Longrightarrow>
    Save kc st' (SaveABCIResponses (hdHeight (bkHeader b)) ar s) = Inr s' \<Longrightarrow> saved ce be xe kc (st' # st # sts) s'"

definition roomFor :: "chain_state \<Rightarrow> bool" where
  "roomFor st \<longleftrightarrow> nextHeight st + 2 \<le> MaxInt64"

lemma Save_run:
  assumes "chain_inv st" and "roomFor st" and "Save kc st s = Inr s'"
  obtains s1 s2 where "if stLastBlockHeight st = 0 then saveValidatorsInfo kc (nextHeight st) (nextHeight st) (stValidators st) s = Inr s1 else s1 = s"
    and "saveValidatorsInfo kc (nextHeight st + 1) (stLastHeightValidatorsChanged st) (stNextValidators st) s1 = Inr s2"
    and "s' = (saveConsensusParamsInfo (nextHeight st) (stLastHeightConsensusParamsChanged st) (stConsensusParams st) s2)\<lparr>ssState := Some st\<rparr>"
proof -
  have h: "0 < nextHeight st" "in64 (nextHeight st)" "in64 (nextHeight st + 1)" "0 \<le> stLastBlockHeight st"
    using assms(1,2) by (auto simp: chain_inv_def nextHeight_def roomFor_def int_range)
  have one: "wrap64 1 = 1" by (simp add: int_range)
  have nx: "(if wrap64 (stLastBlockHeight st + 1) = 1 then stInitialHeight st else wrap64 (stLastBlockHeight st + 1)) = nextHeight st"
    "wrap64 (stLastBlockHeight st + 1) = 1 \<longleftrightarrow> stLastBlockHeight st = 0"
    using h one by (auto simp: nextHeight_def split: if_splits)
  show ?thesis
    using assms(3) h(3) that unfolding Save_def Let_def unfolding nx(1) unfolding nx(2)
    by (auto simp: elim!: bindR_InrE split: if_splits)
qed

text \<open>What a block does to the sets and the parameters of a state, and to the heights at which they changed last.\<close>

lemma applied_parts:
  assumes "chain_inv st" and "sizesOk ce be" and "isOk (BlockID_ValidateBasic blockID)"
    and "ApplyBlock ce be xe st blockID b = Inr (st', retain)" and "roomFor st'"
  obtains nv nv1 nv2 where "chain_inv st'" and "stLastBlockHeight st' \<noteq> 0" and "nextHeight st' = nextHeight st + 1"
    and "stNextValidators st = Some nv" and "stValidators st' = Some nv" and "stNextValidators st' = Some nv2" and "storable nv2"
    and "members nv2 = members nv \<and> stLastHeightValidatorsChanged st' = stLastHeightValidatorsChanged st \<or>
      stLastHeightValidatorsChanged st' = nextHeight st' + 1"
    and "stConsensusParams st' = stConsensusParams st \<and> stLastHeightConsensusParamsChanged st' = stLastHeightConsensusParamsChanged st \<or>
      stLastHeightConsensusParamsChanged st' = nextHeight st'"
proof -
  obtain ar changes st1 appHash where run: "validateBlock ce be xe st b = Inr ()" "asked ce xe st b changes"
    "PB2TM_ValidatorUpdates ce xe (arValidatorUpdates ar) = Inr changes"
    "updateState be xe st blockID (bkHeader b) ar changes = Inr st1" "st' = st1\<lparr>stAppHash := appHash\<rparr>"
    using assms(4) by (rule ApplyBlock_run)
  note h = validateBlock_height [OF assms(1) run(1)]
  have k: "keyed changes" using run(3) assms(2) by (intro PB2TM_keyed) (auto simp: sizesOk_def)
  have hh: "stInitialHeight st \<le> hdHeight (bkHeader b)" "in64 (hdHeight (bkHeader b))" using h by simp_all
  note up = updateState_ok [OF assms(1-3) k run(4) h(2) hh]
  have inv: "chain_inv st'" using up(1) by (simp add: run(5) chain_inv_def)
  have last: "stLastBlockHeight st' = nextHeight st" using up(2) h(1) by (simp add: run(5))
  then have nz: "stLastBlockHeight st' \<noteq> 0" using h(1,2) by simp
  then have nx: "nextHeight st' = nextHeight st + 1" using last by (simp add: nextHeight_def)
  obtain v nv nv1 lh nv2 np ver lp where u: "stNextValidators st = Some nv" "valsOk nv1"
      "nv1 = nv \<and> lh = stLastHeightValidatorsChanged st \<or> lh = wrap64 (hdHeight (bkHeader b) + 1 + 1)"
      "IncrementProposerPriority nv1 1 = (Inr nv2 :: exec_error fault + _)" "updateParams st (bkHeader b) ar = Inr (np, ver, lp)"
    and st1: "st1 = st\<lparr>stVersion := ver, stLastBlockHeight := hdHeight (bkHeader b), stLastBlockID := blockID,
      stLastBlockTime := hdTime (bkHeader b), stNextValidators := Some nv2, stValidators := Some nv,
      stLastValidators := v, stLastHeightValidatorsChanged := lh, stConsensusParams := np,
      stLastHeightConsensusParamsChanged := lp, stLastResultsHash := ABCIResponsesResultsHash be xe ar, stAppHash := []\<rparr>"
    using assms(1) k run(4) by (rule updateState_run)
  have nv2: "storable nv2" "members nv2 = members nv1"
    using increment_storable [OF u(2) zero_less_one, where 'e = exec_error] u(4) by (metis sum.inject(2))+
  have w: "wrap64 (hdHeight (bkHeader b) + 1 + 1) = nextHeight st' + 1" "wrap64 (hdHeight (bkHeader b) + 1) = nextHeight st'"
    using assms(5) h nx by (simp_all add: roomFor_def int_range)
  have lp: "np = stConsensusParams st \<and> lp = stLastHeightConsensusParamsChanged st \<or> lp = wrap64 (hdHeight (bkHeader b) + 1)"
    using u(5) by (auto simp: updateParams_def Let_def split: option.splits elim!: bindR_InrE)
  show ?thesis
    by (rule that [OF inv nz nx u(1) _ _ nv2(1)]) (use u(3) lp nv2(2) w in \<open>auto simp: run(5) st1\<close>)
qed

lemma recorded_cong: "ssValidators s' = ssValidators s \<Longrightarrow> recorded kc s' h c v = recorded kc s h c v"
  by (simp add: recorded_def loadValidatorsInfo_def)

lemma paramsRecorded_cong: "ssParams s' = ssParams s \<Longrightarrow> paramsRecorded s' h c v = paramsRecorded s h c v"
  by (simp add: paramsRecorded_def loadConsensusParamsInfo_def)

lemma recorded_state [simp]: "recorded kc (s\<lparr>ssState := x\<rparr>) h c v = recorded kc s h c v" "paramsRecorded (s\<lparr>ssState := x\<rparr>) h c q = paramsRecorded s h c q"
  by (simp_all add: recorded_def loadValidatorsInfo_def paramsRecorded_def loadConsensusParamsInfo_def)

lemma recorded_params [simp]: "recorded kc (saveConsensusParamsInfo h' c' ps s) h c v = recorded kc s h c v"
  by (rule recorded_cong) (simp add: saveConsensusParamsInfo_def)

lemma saveParams_tables [simp]:
  "ssValidators (saveConsensusParamsInfo h c ps s) = ssValidators s" "ssResponses (saveConsensusParamsInfo h c ps s) = ssResponses s"
  "ssParams (saveConsensusParamsInfo h c ps s) = dbSet h \<lparr>piLastHeightChanged = c,
     piConsensusParams = (if c = h then ConsensusParams_ToProto ps else emptypb)\<rparr> (ssParams s)"
  by (simp_all add: saveConsensusParamsInfo_def)

text \<open>What holds for the states of a chain and their store, while the heights leave room for 64 bits.\<close>

definition statesInv :: "key_codec \<Rightarrow> chain_state list \<Rightarrow> state_store \<Rightarrow> bool" where
  "statesInv kc sts s \<longleftrightarrow> (let st = hd sts in
     chainTable viLastHeightChanged (nextHeight st + 1) (ssValidators s) \<and> chainTable piLastHeightChanged (nextHeight st) (ssParams s) \<and>
     ordered (ssResponses s) \<and>
     (\<exists>nv. stNextValidators st = Some nv \<and> storable nv \<and> recorded kc s (nextHeight st + 1) (stLastHeightValidatorsChanged st) nv) \<and>
     paramsRecorded s (nextHeight st) (stLastHeightConsensusParamsChanged st) (stConsensusParams st) \<and>
     (\<forall>x \<in> set sts. nextHeight x \<le> nextHeight st \<and> (\<exists>c. paramsRecorded s (nextHeight x) c (stConsensusParams x)) \<and>
        (\<exists>c v. stValidators x = Some v \<and> recorded kc s (nextHeight x) c v)))"

lemma saveResponses_keeps:
  assumes "statesInv kc sts s"
  shows "statesInv kc sts (SaveABCIResponses h ar s)"
proof -
  have "recorded kc (SaveABCIResponses h ar s) k c v = recorded kc s k c v" for k c v by (rule recorded_cong) (simp add: SaveABCIResponses_def)
  moreover have "paramsRecorded (SaveABCIResponses h ar s) k c v = paramsRecorded s k c v" for k c v
    by (rule paramsRecorded_cong) (simp add: SaveABCIResponses_def)
  ultimately show ?thesis using assms unfolding statesInv_def Let_def by (simp add: SaveABCIResponses_def dbSet_ordered)
qed

lemma genesis_saved:
  assumes "sizesOk ce be" and "keyCodecOk kc" and "MakeGenesisState ce now software gd = Inr st" and "in64 (gdInitialHeight gd)"
    and "gdValidators gd \<noteq> None" and save: "Save kc st emptyStore = Inr s" and "roomFor st"
  shows "statesInv kc [st] s"
proof -
  have inv: "chain_inv st" using MakeGenesisState_inv(1) [OF assms(1,3,4,5)] .
  obtain gd' v0 vs ns none where g: "ValidateAndComplete ce now gd = Inr gd'" "valsOk v0"
    "IncrementProposerPriority v0 1 = (Inr vs :: exec_error fault + _)" "IncrementProposerPriority vs 1 = (Inr ns :: exec_error fault + _)"
    "wf_vals none" and st: "st = \<lparr>stVersion = \<lparr>verBlock = BlockProtocol, verApp = 0\<rparr>, stSoftware = software, stChainID = gdChainID gd',
      stInitialHeight = gdInitialHeight gd', stLastBlockHeight = 0, stLastBlockID = emptyBlockID, stLastBlockTime = gdTime gd',
      stNextValidators = Some ns, stValidators = Some vs, stLastValidators = none, stLastHeightValidatorsChanged = gdInitialHeight gd',
      stConsensusParams = the (gdParams gd'), stLastHeightConsensusParamsChanged = gdInitialHeight gd', stLastResultsHash = [], stAppHash = gdAppHash gd'\<rparr>"
    using assms(1,3,5) by (rule genesis_sets)
  have vs: "storable vs" using increment_storable [OF g(2) zero_less_one, where 'e = exec_error] g(3) by (metis sum.inject(2))
  then have ns: "storable ns" "members ns = members vs"
    using increment_storable [OF _ zero_less_one, where 'e = exec_error] g(4) by (metis storable_def sum.inject(2))+
  have h: "nextHeight st = gdInitialHeight gd'" "0 < nextHeight st" using inv by (simp_all add: st nextHeight_def chain_inv_def)
  obtain s1 s2 where s1: "saveValidatorsInfo kc (nextHeight st) (nextHeight st) (Some vs) emptyStore = Inr s1"
    and s2: "saveValidatorsInfo kc (nextHeight st + 1) (nextHeight st) (Some ns) s1 = Inr s2"
    and s: "s = (saveConsensusParamsInfo (nextHeight st) (nextHeight st) (stConsensusParams st) s2)\<lparr>ssState := Some st\<rparr>"
    using Save_run [OF inv assms(7) save] h(1) by (auto simp: st)
  have r1: "recorded kc s1 (nextHeight st) (nextHeight st) vs"
    using save_records [of kc "nextHeight st - 1" "nextHeight st" vs emptyStore s1 vs] s1 vs assms(2) h(2) by simp
  have r2: "recorded kc s2 (nextHeight st + 1) (nextHeight st) ns"
    by (rule save_records [OF s2 ns(1) assms(2), of vs]) (use h(2) r1 ns(2) in auto)
  obtain p where "s2 = s1\<lparr>ssValidators := dbSet (nextHeight st + 1) \<lparr>viLastHeightChanged = nextHeight st, viValidatorSet = p\<rparr> (ssValidators s1)\<rparr>"
    using s2 ns(1) assms(2) by (rule saveValidatorsInfo_run)
  note p = this
  obtain p1 where p1: "s1 = emptyStore\<lparr>ssValidators := dbSet (nextHeight st) \<lparr>viLastHeightChanged = nextHeight st, viValidatorSet = p1\<rparr> (ssValidators emptyStore)\<rparr>"
    using s1 vs assms(2) by (rule saveValidatorsInfo_run)
  have t1: "chainTable viLastHeightChanged (nextHeight st) (ssValidators s1)"
    by (simp add: p1 emptyStore_def chainTable_first)
  have t2: "chainTable viLastHeightChanged (nextHeight st + 1) (ssValidators s)"
    using chainTable_set [OF t1, of "\<lparr>viLastHeightChanged = nextHeight st, viValidatorSet = p\<rparr>"] by (simp add: s p) (simp add: p1 dbSet_get)
  have t3: "chainTable piLastHeightChanged (nextHeight st) (ssParams s)"
    by (simp add: s p p1 emptyStore_def chainTable_first)
  have t4: "ordered (ssResponses s)" by (simp add: s p p1 emptyStore_def ordered_def)
  have "recorded kc s2 (nextHeight st) (nextHeight st) vs" using save_keeps [OF r1 _ p] by simp
  moreover have "paramsRecorded s (nextHeight st) (nextHeight st) (stConsensusParams st)"
    unfolding s by (simp add: save_params_records)
  moreover have "recorded kc s k c v = recorded kc s2 k c v" for k c v unfolding s by simp
  moreover have "stNextValidators st = Some ns" "stValidators st = Some vs" "stLastHeightValidatorsChanged st = nextHeight st"
    "stLastHeightConsensusParamsChanged st = nextHeight st" by (simp_all add: st h(1) [unfolded st])
  ultimately show ?thesis using r2 ns(1) t2 t3 t4 by (auto simp: statesInv_def)
qed

lemma applied_saved:
  assumes "chain_inv st" and "sizesOk ce be" and "keyCodecOk kc" and "isOk (BlockID_ValidateBasic blockID)"
    and "ApplyBlock ce be xe st blockID b = Inr (st', retain)" and "roomFor st'" and save: "Save kc st' s = Inr s'"
    and inv: "statesInv kc (st # sts) s"
  shows "statesInv kc (st' # st # sts) s'"
proof -
  obtain nv nv2 where a: "chain_inv st'" "stLastBlockHeight st' \<noteq> 0" "nextHeight st' = nextHeight st + 1"
    "stNextValidators st = Some nv" "stValidators st' = Some nv" "stNextValidators st' = Some nv2" "storable nv2"
    "members nv2 = members nv \<and> stLastHeightValidatorsChanged st' = stLastHeightValidatorsChanged st \<or>
      stLastHeightValidatorsChanged st' = nextHeight st' + 1"
    "stConsensusParams st' = stConsensusParams st \<and> stLastHeightConsensusParamsChanged st' = stLastHeightConsensusParamsChanged st \<or>
      stLastHeightConsensusParamsChanged st' = nextHeight st'"
    using assms(1,2,4,5,6) by (rule applied_parts)
  have rnv: "recorded kc s (nextHeight st') (stLastHeightValidatorsChanged st) nv"
    and rp: "paramsRecorded s (nextHeight st) (stLastHeightConsensusParamsChanged st) (stConsensusParams st)"
    and old: "\<And>x. x \<in> set (st # sts) \<Longrightarrow> nextHeight x \<le> nextHeight st \<and> (\<exists>c. paramsRecorded s (nextHeight x) c (stConsensusParams x)) \<and>
        (\<exists>c v. stValidators x = Some v \<and> recorded kc s (nextHeight x) c v)"
    and tables: "chainTable viLastHeightChanged (nextHeight st') (ssValidators s)" "chainTable piLastHeightChanged (nextHeight st) (ssParams s)"
      "ordered (ssResponses s)"
    using inv a(3,4) by (auto simp: statesInv_def)
  obtain s2 where s2: "saveValidatorsInfo kc (nextHeight st' + 1) (stLastHeightValidatorsChanged st') (Some nv2) s = Inr s2"
    and s': "s' = (saveConsensusParamsInfo (nextHeight st') (stLastHeightConsensusParamsChanged st') (stConsensusParams st') s2)\<lparr>ssState := Some st'\<rparr>"
    using Save_run [OF a(1) assms(6) save] a(2,6) by auto
  obtain p where p: "s2 = s\<lparr>ssValidators := dbSet (nextHeight st' + 1) \<lparr>viLastHeightChanged = stLastHeightValidatorsChanged st', viValidatorSet = p\<rparr> (ssValidators s)\<rparr>"
    using s2 a(7) assms(3) by (rule saveValidatorsInfo_run)
  have pos: "0 \<le> nextHeight st'" using rnv by (simp add: recorded_def)
  have new: "recorded kc s' (nextHeight st' + 1) (stLastHeightValidatorsChanged st') nv2"
    unfolding s' recorded_state recorded_params
    by (rule save_records [OF s2 a(7) assms(3) pos, of nv]) (use a(8) rnv in auto)
  have keep: "recorded kc s' k c v" if "recorded kc s k c v" "k \<le> nextHeight st'" for k c v
    unfolding s' recorded_state recorded_params using save_keeps [OF that(1) _ p] that(2) by simp
  have params2: "paramsRecorded s2 k c q = paramsRecorded s k c q" for k c q by (rule paramsRecorded_cong) (simp add: p)
  have pkeep: "paramsRecorded s' k c q" if "paramsRecorded s k c q" "k \<le> nextHeight st" for k c q
    unfolding s' recorded_state using save_params_keeps [of s2 k c q "nextHeight st'"] that a(3) params2 by simp
  have pnew: "paramsRecorded s' (nextHeight st') (stLastHeightConsensusParamsChanged st') (stConsensusParams st')"
    unfolding s' recorded_state
  proof (rule save_params_records)
    have "stLastHeightConsensusParamsChanged st \<le> nextHeight st" using rp by (simp add: paramsRecorded_def)
    then show "stLastHeightConsensusParamsChanged st' \<le> nextHeight st'" using a(3,9) by auto
    show "paramsRecorded s2 (nextHeight st' - 1) (stLastHeightConsensusParamsChanged st') (stConsensusParams st')"
      if "stLastHeightConsensusParamsChanged st' \<noteq> nextHeight st'" using that a(3,9) rp params2 by auto
  qed
  have "nextHeight x \<le> nextHeight st' \<and> (\<exists>c. paramsRecorded s' (nextHeight x) c (stConsensusParams x)) \<and>
      (\<exists>c v. stValidators x = Some v \<and> recorded kc s' (nextHeight x) c v)" if "x \<in> set (st # sts)" for x
    using old [OF that] a(3) keep pkeep by (metis add_increasing2 order_trans zero_le_one order_refl)
  moreover have "\<exists>c. recorded kc s' (nextHeight st') c nv" using keep [OF rnv] by blast
  moreover have "chainTable viLastHeightChanged (nextHeight st' + 1) (ssValidators s')"
    using chainTable_set [OF tables(1), of "\<lparr>viLastHeightChanged = stLastHeightValidatorsChanged st', viValidatorSet = p\<rparr>"] a(8) rnv
    by (auto simp: s' p recorded_def loadValidatorsInfo_def)
  moreover have "chainTable piLastHeightChanged (nextHeight st') (ssParams s')"
    using chainTable_set [OF tables(2), of "\<lparr>piLastHeightChanged = stLastHeightConsensusParamsChanged st',
        piConsensusParams = (if stLastHeightConsensusParamsChanged st' = nextHeight st' then ConsensusParams_ToProto (stConsensusParams st') else emptypb)\<rparr>"]
      a(3,9) rp by (auto simp: s' p paramsRecorded_def loadConsensusParamsInfo_def)
  moreover have "ordered (ssResponses s')" using tables(3) by (simp add: s' p)
  ultimately show ?thesis using new pnew a(5,6,7) by (auto simp: statesInv_def)
qed

lemma saved_inv:
  assumes "saved ce be xe kc sts s" and "sizesOk ce be" and "keyCodecOk kc"
  shows "sts \<noteq> [] \<and> chain_inv (hd sts) \<and> (roomFor (hd sts) \<longrightarrow> statesInv kc sts s)"
  using assms(1)
proof (induction rule: saved.induct)
  case (genesis now software gd st s)
  then show ?case using genesis_saved [OF assms(2,3)] MakeGenesisState_inv(1) [OF assms(2)] by simp
next
  case (applied st sts s blockID b st' retain ar s')
  have inv: "chain_inv st" using applied.IH by simp
  note res = ApplyBlock_result [OF inv assms(2) applied.hyps(2,3)]
  have pos: "0 < nextHeight st" using inv by (auto simp: chain_inv_def nextHeight_def)
  have "statesInv kc (st' # st # sts) s'" if room: "roomFor st'"
  proof -
    have "nextHeight st' = nextHeight st + 1" using res pos by (auto simp: nextHeight_def)
    then have "statesInv kc (st # sts) s" using room applied.IH by (simp add: roomFor_def)
    then show ?thesis by (intro applied_saved [OF inv assms(2,3) applied.hyps(2,3) room applied.hyps(5)] saveResponses_keeps)
  qed
  then show ?case using res by simp
qed

section \<open>Pruning\<close>

lemma checkpoint_between:
  assumes "0 < r" and "r \<le> h" and "h - h smod valSetCheckpointInterval \<le> r"
  shows "h - h smod valSetCheckpointInterval = r - r smod valSetCheckpointInterval"
proof -
  have m: "h smod 100000 = h mod 100000" "r smod 100000 = r mod 100000" using assms by (simp_all add: signed_modulo_int_def sgn_if)
  have "h div 100000 * 100000 \<le> r" using assms(3) m minus_mod_eq_div_mult [of h 100000] by (simp add: valSetCheckpointInterval_def)
  then have "h div 100000 \<le> r div 100000" using zdiv_mono1 [of "h div 100000 * 100000" r 100000] by simp
  moreover have "r div 100000 \<le> h div 100000" using assms(2) by (rule zdiv_mono1) simp
  ultimately show ?thesis using m minus_mod_eq_div_mult [of h 100000] minus_mod_eq_div_mult [of r 100000] by (simp add: valSetCheckpointInterval_def)
qed

text \<open>What the entry at a later height refers to is above the retain height, or the same as for the retain height.\<close>

lemma refers_kept:
  assumes "chainTable changed m t" and "map_of t r = Some i" and "map_of t h = Some j" and "r \<le> h"
  shows "r \<le> changed j \<or> changed j = changed i"
proof (cases "changed j \<le> r")
  case True
  then show ?thesis using assms unfolding chainTable_def by metis
qed simp

lemma lastStored_kept:
  assumes "chainTable viLastHeightChanged m t" and "map_of t r = Some i" and "map_of t h = Some j" and "r \<le> h" and "0 < r"
  shows "r \<le> lastStoredHeightFor h (viLastHeightChanged j) \<or> lastStoredHeightFor h (viLastHeightChanged j) = lastStoredHeightFor r (viLastHeightChanged i)"
  using refers_kept [OF assms(1-4)] checkpoint_between [OF assms(5,4)]
  by (cases "h - h smod valSetCheckpointInterval \<le> r") (auto simp: lastStoredHeightFor_def)

lemma pruned_get:
  assumes "ordered t" and "k = keep \<or> r \<le> k" and "keep \<le> r"
  shows "map_of (pruneRange 1 keep (if b then pruneRange (keep + 1) r t else t)) k = map_of t k"
  using assms by (auto simp: pruneRange_get pruneRange_ordered)

lemma pruned_gone:
  assumes "ordered t" and "0 < k" and "k < r" and "k \<noteq> keep" and "keep < r \<longrightarrow> b"
  shows "map_of (pruneRange 1 keep (if b then pruneRange (keep + 1) r t else t)) k = None"
  using assms by (auto simp: pruneRange_get pruneRange_ordered)

lemma pruneValidatorSets_keeps:
  assumes "chainTable viLastHeightChanged m (ssValidators s)" and "0 < r" and "r \<le> h" and "pruneValidatorSets r s = Inr s'"
  shows "LoadValidators kc s' h = LoadValidators kc s h"
    and "\<And>k. 0 < k \<Longrightarrow> k < r \<Longrightarrow> loadValidatorsInfo s' k \<noteq> None \<Longrightarrow> k = lastStoredHeightFor r (viLastHeightChanged (the (loadValidatorsInfo s r)))"
    and "ssParams s' = ssParams s" and "ssResponses s' = ssResponses s"
proof -
  have o: "ordered (ssValidators s)" using assms(1) by (simp add: chainTable_def)
  obtain i where i: "loadValidatorsInfo s r = Some i"
    and s': "s' = s\<lparr>ssValidators := pruneRange 1 (lastStoredHeightFor r (viLastHeightChanged i))
      (if lastStoredHeightFor r (viLastHeightChanged i) < r then pruneRange (lastStoredHeightFor r (viLastHeightChanged i) + 1) r (ssValidators s)
       else ssValidators s)\<rparr>"
    using assms(4) by (auto simp: pruneValidatorSets_def Let_def split: option.splits)
  let ?keep = "lastStoredHeightFor r (viLastHeightChanged i)"
  have "viLastHeightChanged i \<le> r" using assms(1) i unfolding chainTable_def loadValidatorsInfo_def by blast
  then have keep: "?keep \<le> r" using lastStored_bounds(2) assms(2) by blast
  have get: "loadValidatorsInfo s' k = loadValidatorsInfo s k" if "k = ?keep \<or> r \<le> k" for k
    using pruned_get [OF o that keep] by (simp add: loadValidatorsInfo_def s')
  show "LoadValidators kc s' h = LoadValidators kc s h"
  proof (cases "loadValidatorsInfo s h")
    case None
    then show ?thesis using get [of h] assms(3) by (simp add: LoadValidators_def)
  next
    case (Some j)
    have "r \<le> lastStoredHeightFor h (viLastHeightChanged j) \<or> lastStoredHeightFor h (viLastHeightChanged j) = ?keep"
      using lastStored_kept [OF assms(1) i [unfolded loadValidatorsInfo_def] Some [unfolded loadValidatorsInfo_def] assms(3,2)] .
    then have "loadValidatorsInfo s' (lastStoredHeightFor h (viLastHeightChanged j)) = loadValidatorsInfo s (lastStoredHeightFor h (viLastHeightChanged j))"
      using get by blast
    then show ?thesis using Some get [of h] assms(3) by (cases "viValidatorSet j") (simp_all add: LoadValidators_def Let_def)
  qed
  show "k = lastStoredHeightFor r (viLastHeightChanged (the (loadValidatorsInfo s r)))"
    if "0 < k" "k < r" "loadValidatorsInfo s' k \<noteq> None" for k
  proof (rule ccontr)
    assume "k \<noteq> lastStoredHeightFor r (viLastHeightChanged (the (loadValidatorsInfo s r)))"
    then have "k \<noteq> ?keep" by (simp add: i)
    then have "loadValidatorsInfo s' k = None" using pruned_gone [OF o that(1,2), of ?keep "?keep < r"] by (simp add: s' loadValidatorsInfo_def)
    then show False using that(3) by simp
  qed
  show "ssParams s' = ssParams s" "ssResponses s' = ssResponses s" by (simp_all add: s')
qed

lemma pruneConsensusParams_keeps:
  assumes "chainTable piLastHeightChanged m (ssParams s)" and "0 < r" and "r \<le> h" and "pruneConsensusParams r s = Inr s'"
  shows "LoadConsensusParams s' h = LoadConsensusParams s h" and "ssValidators s' = ssValidators s" and "ssResponses s' = ssResponses s"
proof -
  have o: "ordered (ssParams s)" using assms(1) by (simp add: chainTable_def)
  obtain i b where i: "loadConsensusParamsInfo s r = Some i"
    and s': "s' = s\<lparr>ssParams := pruneRange 1 (piLastHeightChanged i)
      (if b then pruneRange (piLastHeightChanged i + 1) r (ssParams s) else ssParams s)\<rparr>"
    using assms(4) that [where b = True] that [where b = False]
    by (auto simp: pruneConsensusParams_def Let_def split: option.splits if_splits elim!: bindR_InrE)
  have keep: "piLastHeightChanged i \<le> r" using assms(1) i unfolding chainTable_def loadConsensusParamsInfo_def by blast
  have get: "loadConsensusParamsInfo s' k = loadConsensusParamsInfo s k" if "k = piLastHeightChanged i \<or> r \<le> k" for k
    using pruned_get [OF o that keep] by (simp add: loadConsensusParamsInfo_def s')
  show "LoadConsensusParams s' h = LoadConsensusParams s h"
  proof (cases "loadConsensusParamsInfo s h")
    case None
    then show ?thesis using get [of h] assms(3) by (simp add: LoadConsensusParams_def)
  next
    case (Some j)
    have "r \<le> piLastHeightChanged j \<or> piLastHeightChanged j = piLastHeightChanged i"
      using refers_kept [OF assms(1) i [unfolded loadConsensusParamsInfo_def] Some [unfolded loadConsensusParamsInfo_def] assms(3)] .
    then have "loadConsensusParamsInfo s' (piLastHeightChanged j) = loadConsensusParamsInfo s (piLastHeightChanged j)" using get by blast
    then show ?thesis using Some get [of h] assms(3) by (simp add: LoadConsensusParams_def)
  qed
  show "ssValidators s' = ssValidators s" "ssResponses s' = ssResponses s" by (simp_all add: s')
qed

lemma load_cong:
  assumes "ssValidators s' = ssValidators s"
  shows "LoadValidators kc s' h = LoadValidators kc s h" and "loadValidatorsInfo s' h = loadValidatorsInfo s h"
  unfolding LoadValidators_def loadValidatorsInfo_def assms by (rule refl)+

lemma loadParams_cong:
  assumes "ssParams s' = ssParams s"
  shows "LoadConsensusParams s' h = LoadConsensusParams s h"
  unfolding LoadConsensusParams_def loadConsensusParamsInfo_def assms by (rule refl)

section \<open>Samples\<close>

definition sampleStore :: state_store where
  "sampleStore = (case Save forgedKeys chainStart emptyStore of Inr s \<Rightarrow> s | Inl _ \<Rightarrow> emptyStore)"

lemma sample_saved: "saved chainCrypto chainBlockEnv chainExec forgedKeys [chainStart] sampleStore"
proof -
  have ok: "isOk (Save forgedKeys chainStart emptyStore)" "in64 (gdInitialHeight chainGenesis)" "gdValidators chainGenesis \<noteq> None" by code_simp+
  then have "Save forgedKeys chainStart emptyStore = Inr sampleStore" by (auto simp: isOk_iff sampleStore_def)
  then show ?thesis using saved.genesis [OF chainStart_run ok(2,3)] by simp
qed

lemma sample_codec: "keyCodecOk forgedKeys"
  by (simp add: keyCodecOk_def forgedKeys_def)

lemma sample_room: "roomFor (hd [chainStart])"
  by code_simp

text \<open>Three validators: after three more rounds the power of one of them is changed. The chain advances by one round per height.\<close>

definition driftValidator :: "8 word \<Rightarrow> int \<Rightarrow> validator" where
  "driftValidator n p = \<lparr>Address = replicate 20 n, PubKey = Some [n], VotingPower = p, ProposerPriority = 0\<rparr>"

fun singleRounds :: "nat \<Rightarrow> validator_set \<Rightarrow> vs_error fault + validator_set" where
  "singleRounds 0 v = Inr v"
| "singleRounds (Suc n) v = bindR (IncrementProposerPriority v 1) (singleRounds n)"

definition driftChanged :: "vs_error fault + validator_set" where
  "driftChanged = bindR (NewValidatorSet [driftValidator 0 9, driftValidator 1 18, driftValidator 2 2]) (\<lambda>v0.
     bindR (singleRounds 3 v0) (\<lambda>v. bindR (UpdateWithChangeSet v [driftValidator 1 1]) (singleRounds 1)))"

definition driftState :: "int \<Rightarrow> validator_set \<Rightarrow> chain_state" where
  "driftState n nv = chainStart\<lparr>stLastBlockHeight := n, stNextValidators := Some nv, stLastHeightValidatorsChanged := 11\<rparr>"

definition driftStore :: "validator_set \<Rightarrow> validator_set \<Rightarrow> validator_set \<Rightarrow> store_error fault + state_store" where
  "driftStore a b c = bindR (Save forgedKeys (driftState 9 a) emptyStore) (\<lambda>s. bindR (Save forgedKeys (driftState 10 b) s) (Save forgedKeys (driftState 11 c)))"

section \<open>Properties\<close>

text \<open>C21: The state store gives back what was in force: in a chain whose states are saved after the genesis state and after every block, loading the
  validators of the height that follows a state returns a set with the addresses, keys and powers of the validators of this
  state, in their order, and loading the consensus parameters returns exactly its parameters, although most heights only refer to an earlier one.\<close>

theorem saved_states_load:
  assumes "saved ce be xe kc sts s" and "sizesOk ce be" and "keyCodecOk kc" and "roomFor (hd sts)" and "st \<in> set sts"
  shows "LoadConsensusParams s (nextHeight st) = Inr (stConsensusParams st) \<and>
    (\<exists>vs. LoadValidators kc s (nextHeight st) = Inr vs \<and> members vs = members (the (stValidators st)))"
proof -
  have inv: "statesInv kc sts s" using saved_inv [OF assms(1-3)] assms(4) by blast
  then obtain c d v where r: "paramsRecorded s (nextHeight st) c (stConsensusParams st)" "stValidators st = Some v" "recorded kc s (nextHeight st) d v"
    using assms(5) by (auto simp: statesInv_def Let_def)
  show ?thesis using LoadConsensusParams_recorded [OF r(1)] LoadValidators_recorded [OF r(3) assms(3)] r(2) by (metis option.sel)
qed

theorem saved_states_load_witness:
  "LoadConsensusParams sampleStore 1 = Inr (stConsensusParams chainStart) \<and>
   (\<exists>vs. LoadValidators forgedKeys sampleStore 1 = Inr vs \<and> members vs = members (the (stValidators chainStart)))"
proof -
  have "nextHeight chainStart = 1" by code_simp
  then show ?thesis using saved_states_load [OF sample_saved chainSizes sample_codec sample_room, of chainStart] by simp
qed

text \<open>C22: Pruning keeps what is still needed: after states are pruned up to a height, the validators, the consensus parameters and the responses of
  the application load as before for this height and every later one, and below it the validators of at most one height are left: those
  that the retained heights refer to.\<close>

theorem PruneStates_keeps:
  assumes "saved ce be xe kc sts s" and "sizesOk ce be" and "keyCodecOk kc" and "roomFor (hd sts)" and "PruneStates r s = Inr s'" and "r \<le> h"
  shows "LoadValidators kc s' h = LoadValidators kc s h \<and> LoadConsensusParams s' h = LoadConsensusParams s h \<and>
    LoadABCIResponses s' h = LoadABCIResponses s h \<and>
    (\<forall>k. 0 < k \<and> k < r \<and> loadValidatorsInfo s' k \<noteq> None \<longrightarrow>
       k = lastStoredHeightFor r (viLastHeightChanged (the (loadValidatorsInfo s r))))"
proof -
  have inv: "statesInv kc sts s" using saved_inv [OF assms(1-3)] assms(4) by blast
  obtain s1 s2 where run: "0 < r" "pruneConsensusParams r s = Inr s1" "pruneValidatorSets r s1 = Inr s2" "s' = pruneABCIResponses r s2"
    using assms(5) by (auto simp: PruneStates_def split: if_splits elim!: bindR_InrE)
  obtain m n where t: "chainTable piLastHeightChanged m (ssParams s)" "chainTable viLastHeightChanged n (ssValidators s)" "ordered (ssResponses s)"
    using inv by (auto simp: statesInv_def Let_def)
  note p = pruneConsensusParams_keeps [OF t(1) run(1) assms(6) run(2)]
  note v = pruneValidatorSets_keeps [OF t(2) [folded p(2)] run(1) assms(6) run(3)]
  have s': "ssValidators s' = ssValidators s2" "ssParams s' = ssParams s2" by (simp_all add: run(4) pruneABCIResponses_def)
  have "LoadABCIResponses s' h = LoadABCIResponses s h"
    using t(3) p(3) v(4) assms(6) by (simp add: run(4) pruneABCIResponses_def LoadABCIResponses_def pruneRange_get)
  moreover have "LoadValidators kc s' h = LoadValidators kc s h" using v(1) load_cong(1) s'(1) p(2) by metis
  moreover have "LoadConsensusParams s' h = LoadConsensusParams s h" using p(1) loadParams_cong s'(2) v(3) by metis
  ultimately show ?thesis using v(2) load_cong(2) s'(1) p(2) by metis
qed

theorem PruneStates_keeps_witness:
  "\<exists>s'. PruneStates 1 sampleStore = Inr s' \<and> LoadValidators forgedKeys s' 2 = LoadValidators forgedKeys sampleStore 2"
proof -
  have "isOk (PruneStates 1 sampleStore)" by code_simp
  then obtain s' where "PruneStates 1 sampleStore = Inr s'" by (auto simp: isOk_iff)
  then show ?thesis using PruneStates_keeps [OF sample_saved chainSizes sample_codec sample_room, of 1 s' 2] by simp
qed

text \<open>C23: Pruning works in batches of 1000 keys from the end of the range, until a batch reaches the start of the range: on a table in
  the order of heights it ends, and deletes exactly the heights from the start up to, but without, the end.\<close>

theorem pruneRange_exact:
  assumes "sorted_wrt (<) (map fst t)"
  shows "pruneRange start end t = filter (\<lambda>p. \<not> (start \<le> fst p \<and> fst p < end)) t"
  using pruneRange_eq assms by (simp add: ordered_def)

theorem pruneRange_exact_witness: "pruneRange 2 4 [(1, ''a''), (2, ''b''), (3, ''c''), (4, ''d'')] = [(1, ''a''), (4, ''d'')]"
  by (subst pruneRange_exact) simp_all

text \<open>C24: The validators that are loaded for a height are not always those the chain had there. After a change of power the
  chain advances the proposer by one round per height and rescales the priorities every time; \<open>LoadValidators\<close> advances the
  set that was stored at the change by several rounds at once. The priorities differ, and so does the proposer.\<close>

theorem loaded_validators_drift:
  "\<exists>a b c s v. driftChanged = Inr a \<and> singleRounds 1 a = Inr b \<and> singleRounds 1 b = Inr c \<and> driftStore a b c = Inr s \<and>
     LoadValidators forgedKeys s 13 = Inr v \<and> map_option Address (Proposer v) \<noteq> map_option Address (Proposer c)"
proof -
  have "case driftChanged of Inl _ \<Rightarrow> False | Inr a \<Rightarrow> (case singleRounds 1 a of Inl _ \<Rightarrow> False | Inr b \<Rightarrow> (case singleRounds 1 b of Inl _ \<Rightarrow> False
    | Inr c \<Rightarrow> (case driftStore a b c of Inl _ \<Rightarrow> False | Inr s \<Rightarrow> (case LoadValidators forgedKeys s 13 of Inl _ \<Rightarrow> False
    | Inr v \<Rightarrow> map_option Address (Proposer v) \<noteq> map_option Address (Proposer c)))))" by code_simp
  then show ?thesis by (auto split: sum.splits)
qed

end
