(* ===== verification/LightVerify.thy ===== *)
theory LightVerify
  imports ChainInvariant ValidatorProto
begin

text \<open>
  \<open>types/light.go\<close> and \<open>light/verifier.go\<close>: light blocks, and the check of a header against a trusted one, adjacent,
  at a distance, or backwards.

  The embedded pointers of \<open>LightBlock\<close> and \<open>SignedHeader\<close> may be nil and are options. The total power that a commit check
  computes and caches in a validator set changes no result and is dropped.
\<close>

section \<open>Light blocks\<close>

record signed_header =
  shHeader :: "Header option"
  shCommit :: "commit option"

record light_block =
  lbSigned :: "signed_header option"
  lbVals :: "validator_set option"

datatype light_error =
    MissingHeader | MissingCommit | InvalidHeaderField block_error | InvalidCommitField basic_error | OtherChain
  | CommitHeightMismatch | CommitHashMismatch | MissingSignedHeader | MissingValidatorSet | InvalidValidatorSet basic_error
  | ValidatorsHashMismatch | MustBeNonAdjacent | MustBeAdjacent | BadTrustLevel
  | ErrOldHeaderExpired time time | ErrInvalidHeader light_error | ErrNewValSetCantBeTrusted int int
  | HeightNotGreater | TimeNotLater | TimeFromFuture | CommitCheckErr commit_error | NextValidatorsMismatch
  | TimeNotBefore | LastBlockMismatch | ProtoErr proto_error | NilLightBlock | NilSignedHeader

definition deref :: "'a option \<Rightarrow> 'e fault + 'a" where
  "deref p = (case p of None \<Rightarrow> Inl (Panic ''nil pointer dereference'') | Some x \<Rightarrow> Inr x)"

definition SignedHeader_ValidateBasic :: "block_env \<Rightarrow> signed_header \<Rightarrow> string \<Rightarrow> light_error fault + unit" where
  "SignedHeader_ValidateBasic be sh chainID =
     (case (shHeader sh, shCommit sh) of
        (None, _) \<Rightarrow> Inl (Err MissingHeader)
      | (_, None) \<Rightarrow> Inl (Err MissingCommit)
      | (Some h, Some c) \<Rightarrow>
          bindR (liftErr InvalidHeaderField (Header_ValidateBasic h)) (\<lambda>_.
          bindR (liftErr InvalidCommitField (Commit_ValidateBasic c)) (\<lambda>_.
            if hdChainID h \<noteq> chainID then Inl (Err OtherChain)
            else if cmHeight c \<noteq> hdHeight h then Inl (Err CommitHeightMismatch)
            else if Header_Hash be h \<noteq> bidHash (cmBlockID c) then Inl (Err CommitHashMismatch)
            else Inr ())))"

definition LightBlock_ValidateBasic :: "block_env \<Rightarrow> exec_env \<Rightarrow> light_block \<Rightarrow> string \<Rightarrow> light_error fault + unit" where
  "LightBlock_ValidateBasic be xe lb chainID =
     (case (lbSigned lb, lbVals lb) of
        (None, _) \<Rightarrow> Inl (Err MissingSignedHeader)
      | (_, None) \<Rightarrow> Inl (Err MissingValidatorSet)
      | (Some sh, Some vals) \<Rightarrow>
          bindR (SignedHeader_ValidateBasic be sh chainID) (\<lambda>_.
          bindR (liftErr InvalidValidatorSet (ValidatorSet_ValidateBasic (Some vals))) (\<lambda>_.
          bindR (ValidatorSet_Hash be xe (Some vals)) (\<lambda>valSetHash.
          bindR (deref (shHeader sh)) (\<lambda>h.
            if hdValidatorsHash h \<noteq> valSetHash then Inl (Err ValidatorsHashMismatch) else Inr ())))))"

section \<open>The verifier\<close>

text \<open>The product is one of \<open>uint64\<close> and wraps around.\<close>

definition ValidateTrustLevel :: "Fraction \<Rightarrow> light_error fault + unit" where
  "ValidateTrustLevel lvl =
     (if (Numerator lvl * 3) mod 2 ^ 64 < Denominator lvl \<or> Numerator lvl > Denominator lvl \<or> Denominator lvl = 0
      then Inl (Err BadTrustLevel) else Inr ())"

definition HeaderExpired :: "Header \<Rightarrow> int \<Rightarrow> time \<Rightarrow> bool" where
  "HeaderExpired h trustingPeriod now \<longleftrightarrow> \<not> hdTime h + trustingPeriod > now"

definition checkRequiredHeaderFields :: "Header \<Rightarrow> 'e fault + unit" where
  "checkRequiredHeaderFields h =
     (if hdHeight h = 0 then Inl (Panic ''height in trusted header must be set (non zero'')
      else if hdTime h = 0 then Inl (Panic ''time in trusted header must be set'')
      else if hdChainID h = [] then Inl (Panic ''chain ID in trusted header must be set'')
      else Inr ())"

definition verifyNewHeaderAndVals ::
  "block_env \<Rightarrow> exec_env \<Rightarrow> signed_header \<Rightarrow> validator_set option \<Rightarrow> Header \<Rightarrow> time \<Rightarrow> int \<Rightarrow> light_error fault + unit"
where
  "verifyNewHeaderAndVals be xe untrusted untrustedVals trusted now maxClockDrift =
     bindR (SignedHeader_ValidateBasic be untrusted (hdChainID trusted)) (\<lambda>_.
     bindR (deref (shHeader untrusted)) (\<lambda>u.
       if hdHeight u \<le> hdHeight trusted then Inl (Err HeightNotGreater)
       else if \<not> hdTime u > hdTime trusted then Inl (Err TimeNotLater)
       else if \<not> hdTime u < now + maxClockDrift then Inl (Err TimeFromFuture)
       else bindR (ValidatorSet_Hash be xe untrustedVals) (\<lambda>valsHash.
         if hdValidatorsHash u \<noteq> valsHash then Inl (Err ValidatorsHashMismatch) else Inr ())))"

text \<open>The last step of both checks: two thirds of the new validators have signed.\<close>

definition checkNewCommit :: "crypto_env \<Rightarrow> string \<Rightarrow> signed_header \<Rightarrow> validator_set option \<Rightarrow> light_error fault + unit" where
  "checkNewCommit ce chainID untrusted untrustedVals =
     bindR (deref untrustedVals) (\<lambda>vals.
     bindR (deref (shHeader untrusted)) (\<lambda>u.
     bindR (deref (shCommit untrusted)) (\<lambda>c.
       liftErr (\<lambda>e. ErrInvalidHeader (CommitCheckErr e)) (snd (VerifyCommitLight ce vals chainID (cmBlockID c) (hdHeight u) (Some c))))))"

text \<open>How the error of the trusting check is reported: too little power is an error of its own.\<close>

fun trustError :: "commit_error \<Rightarrow> light_error" where
  "trustError (ErrNotEnoughVotingPowerSigned got needed) = ErrNewValSetCantBeTrusted got needed"
| "trustError e = ErrInvalidHeader (CommitCheckErr e)"

definition VerifyNonAdjacent ::
  "crypto_env \<Rightarrow> block_env \<Rightarrow> exec_env \<Rightarrow> signed_header \<Rightarrow> validator_set option \<Rightarrow> signed_header \<Rightarrow> validator_set option \<Rightarrow>
   int \<Rightarrow> time \<Rightarrow> int \<Rightarrow> Fraction \<Rightarrow> light_error fault + unit"
where
  "VerifyNonAdjacent ce be xe trusted trustedVals untrusted untrustedVals trustingPeriod now maxClockDrift trustLevel =
     bindR (deref (shHeader trusted)) (\<lambda>t.
     bindR (checkRequiredHeaderFields t) (\<lambda>_.
     bindR (deref (shHeader untrusted)) (\<lambda>u.
       if hdHeight u = wrap64 (hdHeight t + 1) then Inl (Err MustBeNonAdjacent)
       else bindR (ValidateTrustLevel trustLevel) (\<lambda>_.
         if HeaderExpired t trustingPeriod now then Inl (Err (ErrOldHeaderExpired (hdTime t + trustingPeriod) now))
         else
           bindR (liftErr ErrInvalidHeader (verifyNewHeaderAndVals be xe untrusted untrustedVals t now maxClockDrift)) (\<lambda>_.
           bindR (deref trustedVals) (\<lambda>tvals.
           bindR (liftErr trustError (snd (VerifyCommitLightTrusting ce tvals (hdChainID t) (shCommit untrusted) trustLevel))) (\<lambda>_.
             checkNewCommit ce (hdChainID t) untrusted untrustedVals)))))))"

definition VerifyAdjacent ::
  "crypto_env \<Rightarrow> block_env \<Rightarrow> exec_env \<Rightarrow> signed_header \<Rightarrow> signed_header \<Rightarrow> validator_set option \<Rightarrow>
   int \<Rightarrow> time \<Rightarrow> int \<Rightarrow> light_error fault + unit"
where
  "VerifyAdjacent ce be xe trusted untrusted untrustedVals trustingPeriod now maxClockDrift =
     bindR (deref (shHeader trusted)) (\<lambda>t.
     bindR (checkRequiredHeaderFields t) (\<lambda>_.
       if hdNextValidatorsHash t = [] then Inl (Panic ''next validators hash in trusted header is empty'')
       else bindR (deref (shHeader untrusted)) (\<lambda>u.
         if hdHeight u \<noteq> wrap64 (hdHeight t + 1) then Inl (Err MustBeAdjacent)
         else if HeaderExpired t trustingPeriod now then Inl (Err (ErrOldHeaderExpired (hdTime t + trustingPeriod) now))
         else
           bindR (liftErr ErrInvalidHeader (verifyNewHeaderAndVals be xe untrusted untrustedVals t now maxClockDrift)) (\<lambda>_.
             if hdValidatorsHash u \<noteq> hdNextValidatorsHash t then Inl (Err (ErrInvalidHeader NextValidatorsMismatch))
             else checkNewCommit ce (hdChainID t) untrusted untrustedVals))))"

definition Verify ::
  "crypto_env \<Rightarrow> block_env \<Rightarrow> exec_env \<Rightarrow> signed_header \<Rightarrow> validator_set option \<Rightarrow> signed_header \<Rightarrow> validator_set option \<Rightarrow>
   int \<Rightarrow> time \<Rightarrow> int \<Rightarrow> Fraction \<Rightarrow> light_error fault + unit"
where
  "Verify ce be xe trusted trustedVals untrusted untrustedVals trustingPeriod now maxClockDrift trustLevel =
     bindR (deref (shHeader untrusted)) (\<lambda>u.
     bindR (deref (shHeader trusted)) (\<lambda>t.
       if hdHeight u \<noteq> wrap64 (hdHeight t + 1)
       then VerifyNonAdjacent ce be xe trusted trustedVals untrusted untrustedVals trustingPeriod now maxClockDrift trustLevel
       else VerifyAdjacent ce be xe trusted untrusted untrustedVals trustingPeriod now maxClockDrift))"

definition VerifyBackwards :: "block_env \<Rightarrow> Header \<Rightarrow> Header \<Rightarrow> light_error fault + unit" where
  "VerifyBackwards be untrusted trusted =
     bindR (liftErr (\<lambda>e. ErrInvalidHeader (InvalidHeaderField e)) (Header_ValidateBasic untrusted)) (\<lambda>_.
       if hdChainID untrusted \<noteq> hdChainID trusted then Inl (Err (ErrInvalidHeader OtherChain))
       else if \<not> hdTime untrusted < hdTime trusted then Inl (Err (ErrInvalidHeader TimeNotBefore))
       else if Header_Hash be untrusted \<noteq> bidHash (hdLastBlockID trusted) then Inl (Err (ErrInvalidHeader LastBlockMismatch))
       else Inr ())"

section \<open>What an accepted header has\<close>

lemma deref_Inr_iff [simp]: "deref p = Inr x \<longleftrightarrow> p = Some x"
  by (simp add: deref_def split: option.splits)

lemma deref_Some [simp]: "deref (Some x) = Inr x"
  by (simp add: deref_def)

lemma SignedHeader_valid:
  assumes "SignedHeader_ValidateBasic be sh chainID = Inr ()"
  obtains h c where "shHeader sh = Some h" and "shCommit sh = Some c" and "Header_ValidateBasic h = Inr ()" and "Commit_ValidateBasic c = Inr ()"
    and "hdChainID h = chainID" and "cmHeight c = hdHeight h" and "Header_Hash be h = bidHash (cmBlockID c)"
  using assms by (auto simp: SignedHeader_ValidateBasic_def bindR_Inr_iff split: option.splits if_splits)

definition newHeaderOk :: "block_env \<Rightarrow> exec_env \<Rightarrow> signed_header \<Rightarrow> validator_set \<Rightarrow> Header \<Rightarrow> time \<Rightarrow> int \<Rightarrow> Header \<Rightarrow> commit \<Rightarrow> bool" where
  "newHeaderOk be xe untrusted uvals t now drift u c \<longleftrightarrow>
     shHeader untrusted = Some u \<and> shCommit untrusted = Some c \<and> hdChainID u = hdChainID t \<and> hdHeight t < hdHeight u \<and>
     hdTime t < hdTime u \<and> hdTime u < now + drift \<and> cmHeight c = hdHeight u \<and> bidHash (cmBlockID c) = Header_Hash be u \<and>
     ValidatorSet_Hash be xe (Some uvals) = (Inr (hdValidatorsHash u) :: light_error fault + _)"

lemma verifyNewHeaderAndVals_ok:
  assumes "verifyNewHeaderAndVals be xe untrusted (Some uvals) t now drift = Inr ()"
  shows "\<exists>u c. newHeaderOk be xe untrusted uvals t now drift u c"
proof -
  have b: "SignedHeader_ValidateBasic be untrusted (hdChainID t) = Inr ()"
    using assms by (auto simp: verifyNewHeaderAndVals_def bindR_Inr_iff)
  obtain u c where "shHeader untrusted = Some u" "shCommit untrusted = Some c" "hdChainID u = hdChainID t" "cmHeight c = hdHeight u"
      "Header_Hash be u = bidHash (cmBlockID c)" using b by (rule SignedHeader_valid)
  then have "newHeaderOk be xe untrusted uvals t now drift u c"
    using assms b by (auto simp: verifyNewHeaderAndVals_def newHeaderOk_def bindR_Inr_iff split: if_splits)
  then show ?thesis by blast
qed

lemma checkNewCommit_quorum:
  assumes "checkNewCommit ce chainID untrusted (Some uvals) = Inr ()" and "shCommit untrusted = Some c" and "wf_vals uvals"
  shows "vq.quorum (Validators uvals) (signers ce uvals chainID c)"
  using assms light_quorum [OF assms(3)] by (fastforce simp: checkNewCommit_def bindR_Inr_iff)

definition levelOk :: "Fraction \<Rightarrow> bool" where
  "levelOk lvl \<longleftrightarrow> 0 \<le> Numerator lvl \<and> Numerator lvl \<le> 8 \<and> 0 \<le> Denominator lvl \<and> Denominator lvl \<le> MaxInt64"

lemma ValidateTrustLevel_ok:
  assumes "ValidateTrustLevel lvl = Inr ()" and "levelOk lvl"
  shows "0 < Numerator lvl" and "0 < Denominator lvl" and "Denominator lvl \<le> 3 * Numerator lvl"
  using assms by (auto simp: ValidateTrustLevel_def levelOk_def split: if_splits)

lemma trusted_part:
  assumes "ValidateTrustLevel lvl = Inr ()" and "levelOk lvl" and "wf_vals tvals" and "int (length (Validators tvals)) \<le> MaxInt32"
    and "snd (VerifyCommitLightTrusting ce tvals chainID (Some c) lvl) = Inr ()"
  shows "\<exists>S. counted ce chainID c (Validators tvals) S \<and> sumPower (Validators tvals) < 3 * (\<Sum>i \<in> S. VotingPower (Validators tvals ! i))"
proof -
  note l = ValidateTrustLevel_ok [OF assms(1,2)]
  obtain S where S: "counted ce chainID c (Validators tvals) S"
      "sumPower (Validators tvals) * Numerator lvl < Denominator lvl * (\<Sum>i \<in> S. VotingPower (Validators tvals ! i))"
    using trusting_sound [OF assms(3,4) l(1) _ l(2) _ assms(5)] assms(2) by (auto simp: levelOk_def)
  have "0 \<le> (\<Sum>i \<in> S. VotingPower (Validators tvals ! i))"
  proof (rule sum_nonneg)
    fix i assume "i \<in> S"
    then have "Validators tvals ! i \<in> set (Validators tvals)" using S(1) by (intro nth_mem) (auto simp: counted_def)
    then show "0 \<le> VotingPower (Validators tvals ! i)" using assms(3) by (auto simp: wf_vals_def wf_list_def)
  qed
  then have "Denominator lvl * (\<Sum>i \<in> S. VotingPower (Validators tvals ! i)) \<le> (3 * Numerator lvl) * (\<Sum>i \<in> S. VotingPower (Validators tvals ! i))"
    using l(3) by (rule mult_right_mono [rotated])
  then have "sumPower (Validators tvals) * Numerator lvl < (3 * (\<Sum>i \<in> S. VotingPower (Validators tvals ! i))) * Numerator lvl"
    using S(2) by (simp add: algebra_simps)
  then have "sumPower (Validators tvals) < 3 * (\<Sum>i \<in> S. VotingPower (Validators tvals ! i))" using l(1) by (simp add: mult_less_cancel_right)
  then show ?thesis using S(1) by blast
qed

section \<open>Sample light blocks\<close>

definition lightVals :: validator_set where
  "lightVals =
     (let a = \<lparr>Address = replicate 20 1, PubKey = Some [1], VotingPower = 10, ProposerPriority = 0\<rparr>
      in \<lparr>Validators = [a], Proposer = Some a, totalVotingPower = 0\<rparr>)"

definition lightHeader :: "int \<Rightarrow> Header" where
  "lightHeader h = (bkHeader chainBlock)\<lparr>hdHeight := h, hdTime := 100 + h, hdChainID := ''c'',
     hdLastBlockID := vBlockID sampleVote, hdValidatorsHash := replicate 32 0, hdNextValidatorsHash := replicate 32 0\<rparr>"

definition lightBlock :: "int \<Rightarrow> light_block" where
  "lightBlock h = \<lparr>lbSigned = Some \<lparr>shHeader = Some (lightHeader h),
       shCommit = Some (NewCommit h 0 \<lparr>bidHash = replicate 32 0, bidParts = \<lparr>pshTotal = 1, pshHash = replicate 32 0\<rparr>\<rparr>
         [NewCommitSigForBlock [1, 2, 3] (replicate 20 1) 1000])\<rparr>,
     lbVals = Some lightVals\<rparr>"

lemma lightVals_wf: "wf_vals lightVals" "int (length (Validators lightVals)) \<le> MaxInt32"
  by (simp_all add: wf_vals_def wf_list_def lightVals_def Let_def vp_bounds int_range)

definition third :: Fraction where
  "third = \<lparr>Numerator = 1, Denominator = 3\<rparr>"

lemma third_ok: "levelOk third"
  by (simp add: levelOk_def third_def int_range)

lemma sample_verifies:
  "Verify sampleEnv chainBlockEnv chainExec (the (lbSigned (lightBlock 1))) (Some lightVals) (the (lbSigned (lightBlock 5))) (Some lightVals)
     1000 300 10 third = Inr ()"
  by code_simp

section \<open>Properties\<close>

text \<open>C15: What the light client knows of a header that \<open>Verify\<close> accepts against a trusted one, for validator sets that are well formed
  and a trust level that is supported: it is later in height and time, not from the future, and the trusted header had
  not expired; its commit is for its hash, its validators are the given ones, and more than two thirds of their power
  has signed. When it is the next header, the trusted one names its validators; otherwise trusted
  validators with more than a third of the trusted power have signed the commit.\<close>

theorem Verify_sound:
  assumes "Verify ce be xe trusted (Some tvals) untrusted (Some uvals) period now drift lvl = Inr ()"
    and "shHeader trusted = Some t" and "0 \<le> hdHeight t" and "hdHeight t < MaxInt64"
    and "wf_vals tvals" and "int (length (Validators tvals)) \<le> MaxInt32" and "wf_vals uvals" and "levelOk lvl"
  shows "\<exists>u c. newHeaderOk be xe untrusted uvals t now drift u c \<and> now < hdTime t + period \<and>
     vq.quorum (Validators uvals) (signers ce uvals (hdChainID t) c) \<and>
     (if hdHeight u = hdHeight t + 1 then hdValidatorsHash u = hdNextValidatorsHash t
      else \<exists>S. counted ce (hdChainID t) c (Validators tvals) S \<and> sumPower (Validators tvals) < 3 * (\<Sum>i \<in> S. VotingPower (Validators tvals ! i)))"
proof -
  have w: "wrap64 (hdHeight t + 1) = hdHeight t + 1" using assms(3,4) by (simp add: wrap64_id in64_def int_range)
  obtain u where u: "shHeader untrusted = Some u" using assms(1) by (auto simp: Verify_def bindR_Inr_iff)
  show ?thesis
  proof (cases "hdHeight u = hdHeight t + 1")
    case True
    then have v: "VerifyAdjacent ce be xe trusted untrusted (Some uvals) period now drift = Inr ()"
      using assms(1,2) u w by (simp add: Verify_def)
    then have p: "verifyNewHeaderAndVals be xe untrusted (Some uvals) t now drift = Inr ()" "now < hdTime t + period"
        "hdValidatorsHash u = hdNextValidatorsHash t" "checkNewCommit ce (hdChainID t) untrusted (Some uvals) = Inr ()"
      using assms(2) u by (auto simp: VerifyAdjacent_def bindR_Inr_iff HeaderExpired_def split: if_splits)
    obtain u' c where n: "newHeaderOk be xe untrusted uvals t now drift u' c" using verifyNewHeaderAndVals_ok [OF p(1)] by blast
    then have c: "u' = u" "shCommit untrusted = Some c" using u by (simp_all add: newHeaderOk_def)
    show ?thesis using n c True p(2,3) checkNewCommit_quorum [OF p(4) c(2) assms(7)] by auto
  next
    case False
    then have v: "VerifyNonAdjacent ce be xe trusted (Some tvals) untrusted (Some uvals) period now drift lvl = Inr ()"
      using assms(1,2) u w by (simp add: Verify_def)
    then have p: "ValidateTrustLevel lvl = Inr ()" "now < hdTime t + period" "snd (VerifyCommitLightTrusting ce tvals (hdChainID t) (shCommit untrusted) lvl) = Inr ()"
        "checkNewCommit ce (hdChainID t) untrusted (Some uvals) = Inr ()" "verifyNewHeaderAndVals be xe untrusted (Some uvals) t now drift = Inr ()"
      using assms(2) u by (auto simp: VerifyNonAdjacent_def bindR_Inr_iff HeaderExpired_def split: if_splits)
    obtain u' c where n: "newHeaderOk be xe untrusted uvals t now drift u' c" using verifyNewHeaderAndVals_ok [OF p(5)] by blast
    then have c: "u' = u" "shCommit untrusted = Some c" using u by (simp_all add: newHeaderOk_def)
    show ?thesis
      using n c False p(2) trusted_part [OF p(1) assms(8,5,6) p(3) [unfolded c(2)]] checkNewCommit_quorum [OF p(4) c(2) assms(7)] by auto
  qed
qed

theorem Verify_sound_witness:
  "\<exists>u c. newHeaderOk chainBlockEnv chainExec (the (lbSigned (lightBlock 5))) lightVals (lightHeader 1) 300 10 u c \<and>
     (\<exists>S. counted sampleEnv ''c'' c (Validators lightVals) S \<and> 10 < 3 * (\<Sum>i \<in> S. VotingPower (Validators lightVals ! i)))"
proof -
  have h: "shHeader (the (lbSigned (lightBlock 1))) = Some (lightHeader 1)" "0 \<le> hdHeight (lightHeader 1)" "hdHeight (lightHeader 1) < MaxInt64"
    "hdChainID (lightHeader 1) = ''c''" "sumPower (Validators lightVals) = 10"
    by (simp_all add: lightBlock_def lightHeader_def int_range lightVals_def Let_def)
  obtain u c where n: "newHeaderOk chainBlockEnv chainExec (the (lbSigned (lightBlock 5))) lightVals (lightHeader 1) 300 10 u c"
      "if hdHeight u = hdHeight (lightHeader 1) + 1 then hdValidatorsHash u = hdNextValidatorsHash (lightHeader 1)
       else \<exists>S. counted sampleEnv (hdChainID (lightHeader 1)) c (Validators lightVals) S \<and>
         sumPower (Validators lightVals) < 3 * (\<Sum>i \<in> S. VotingPower (Validators lightVals ! i))"
    using Verify_sound [OF sample_verifies h(1-3) lightVals_wf lightVals_wf(1) third_ok] by blast
  moreover have "hdHeight u = 5" "hdHeight (lightHeader 1) = 1" using n(1) by (auto simp: newHeaderOk_def lightBlock_def lightHeader_def)
  ultimately show ?thesis using h(4,5) by auto
qed

end
