(* ===== verification/LightSkipping.thy ===== *)
theory LightSkipping
  imports LightVerify
begin

text \<open>
  \<open>light/client.go\<close>, first part: the state of the light client, its requests to providers, and skipping verification
  (\<open>verifySkipping\<close>), which bisects the distance to a new block until the validators that are trusted have signed enough.

  A provider is a number. Its answers are an argument, indexed by the number of the request, so that a provider may
  answer the same question differently; \<open>lcRequests\<close> counts the requests. The trusted store (\<open>light/store/db\<close>) is a list of
  blocks in the order of their heights, with the counter of blocks it keeps. What is reported to a provider is
  kept with its receiver (\<open>lcReports\<close>), as the three blocks the evidence is made from.
\<close>

section \<open>Data model\<close>

datatype provider_error = ErrLightBlockNotFound | ErrNoResponse | ErrBadLightBlock

datatype client_error =
    VerifyErr light_error | ProviderErr provider_error | ErrVerificationFailed int int client_error | ErrNoWitnesses
  | NegativeOrZeroHeight | NilHeader | TrustedMismatch | HeaderMismatch | NoTrustedBlock | BackwardsErr client_error
  | ShortTrace | ErrLightClientAttack | ErrFailedHeaderCrossReferencing | DifferentFirstBlock | NotDivergent | TrustPeriodNotPositive | TrustHashSize

text \<open>What a goroutine that asks a witness sends: the header matched, the witness has another block, or it failed.\<close>

datatype witness_msg = Matching | ErrConflictingHeaders light_block nat | ErrBadWitness provider_error nat

record light_client =
  lcPrimary :: nat
  lcWitnesses :: "nat list"
  lcStore :: "(int \<times> light_block) list"
  lcSize :: int
  lcLatest :: "light_block option"
  lcRequests :: nat
  lcReports :: "(nat \<times> light_block \<times> light_block \<times> light_block) list"

record light_env =
  leCrypto :: crypto_env
  leBlock :: block_env
  leExec :: exec_env
  leTrustingPeriod :: int
  leMaxClockDrift :: int
  leTrustLevel :: Fraction
  leSequential :: bool
  leChainID :: string
  lePruningSize :: int
  leConfirm :: "nat \<Rightarrow> bool"
  leArrival :: "nat \<Rightarrow> witness_msg list list \<Rightarrow> witness_msg list"
  leFetch :: "nat \<Rightarrow> nat \<Rightarrow> int \<Rightarrow> provider_error + light_block"

definition lbHeader :: "light_block \<Rightarrow> 'e fault + Header" where
  "lbHeader lb = bindR (deref (lbSigned lb)) (\<lambda>sh. deref (shHeader sh))"

definition verifyBlocks :: "light_env \<Rightarrow> light_block \<Rightarrow> light_block \<Rightarrow> time \<Rightarrow> light_error fault + unit" where
  "verifyBlocks env trusted new now =
     bindR (deref (lbSigned trusted)) (\<lambda>th. bindR (deref (lbSigned new)) (\<lambda>uh.
       Verify (leCrypto env) (leBlock env) (leExec env) th (lbVals trusted) uh (lbVals new)
         (leTrustingPeriod env) now (leMaxClockDrift env) (leTrustLevel env)))"

definition fetch :: "light_env \<Rightarrow> nat \<Rightarrow> int \<Rightarrow> light_client \<Rightarrow> light_client \<times> (provider_error + light_block)" where
  "fetch env source height c = (c\<lparr>lcRequests := lcRequests c + 1\<rparr>, leFetch env (lcRequests c) source height)"

section \<open>The primary\<close>

definition replacePrimaryProvider :: "light_client \<Rightarrow> light_client option" where
  "replacePrimaryProvider c =
     (case lcWitnesses c of w # v # vs \<Rightarrow> Some (c\<lparr>lcPrimary := w, lcWitnesses := v # vs\<rparr>) | _ \<Rightarrow> None)"

lemma replace_shorter: "replacePrimaryProvider c = Some c' \<Longrightarrow> length (lcWitnesses c) = Suc (length (lcWitnesses c'))"
  by (auto simp: replacePrimaryProvider_def split: list.splits)

function lightBlockFromPrimary :: "light_env \<Rightarrow> int \<Rightarrow> light_client \<Rightarrow> light_client \<times> (client_error fault + light_block)" where
  "lightBlockFromPrimary env height c =
     (case fetch env (lcPrimary c) height c of
        (c1, Inr l) \<Rightarrow> (c1, Inr l)
      | (c1, Inl e) \<Rightarrow> (case replacePrimaryProvider c1 of
                         None \<Rightarrow> (c1, Inl (Err ErrNoWitnesses))
                       | Some c2 \<Rightarrow> lightBlockFromPrimary env height c2))"
  by pat_completeness auto
termination
  by (relation "measure (\<lambda>(env, height, c). length (lcWitnesses c))") (auto simp: fetch_def dest!: replace_shorter)

section \<open>Skipping verification\<close>

definition pivotHeight :: "int \<Rightarrow> int \<Rightarrow> int" where
  "pivotHeight verified target = wrap64 (verified + wrap64 (wrap64 (target - verified) * 9) sdiv 16)"

text \<open>The variables of the loop of \<open>verifySkipping\<close>, and one turn of it: a result, or the variables of the next turn.\<close>

record skipping =
  skVerified :: light_block
  skCache :: "light_block list"
  skDepth :: nat
  skTrace :: "light_block list"
  skClient :: light_client

type_synonym skip_result = "light_client \<times> (client_error fault + light_block list)"

definition skippingTurn :: "light_env \<Rightarrow> nat \<Rightarrow> time \<Rightarrow> skipping \<Rightarrow> skip_result + skipping" where
  "skippingTurn env source now s =
     (let verified = skVerified s; b = skCache s ! skDepth s; c = skClient s in
      case (lbHeader verified, lbHeader b) of
        (Inr vh, Inr bh) \<Rightarrow>
          (case verifyBlocks env verified b now of
             Inr _ \<Rightarrow>
               if skDepth s = 0 then Inl (c, Inr (skTrace s @ [b]))
               else Inr (s\<lparr>skVerified := b, skCache := take (skDepth s) (skCache s), skDepth := 0, skTrace := skTrace s @ [b]\<rparr>)
           | Inl (Err (ErrNewValSetCantBeTrusted got needed)) \<Rightarrow>
               if skDepth s = length (skCache s) - 1 then
                 let pivot = pivotHeight (hdHeight vh) (hdHeight bh); (c', ans) = fetch env source pivot c in
                 (case ans of
                    Inl e \<Rightarrow> Inl (c', Inl (Err (ErrVerificationFailed (hdHeight vh) pivot (ProviderErr e))))
                  | Inr interim \<Rightarrow> Inr (s\<lparr>skCache := skCache s @ [interim], skDepth := skDepth s + 1, skClient := c'\<rparr>))
               else Inr (s\<lparr>skDepth := skDepth s + 1\<rparr>)
           | Inl (Err e) \<Rightarrow> Inl (c, Inl (Err (ErrVerificationFailed (hdHeight vh) (hdHeight bh) (VerifyErr e))))
           | Inl (Panic p) \<Rightarrow> Inl (c, Inl (Panic p)))
      | (Inl e, _) \<Rightarrow> Inl (c, Inl e)
      | (_, Inl e) \<Rightarrow> Inl (c, Inl e))"

text \<open>The loop may go on forever for a provider that does not answer with the height it was asked for.\<close>

partial_function (option) skippingLoop :: "light_env \<Rightarrow> nat \<Rightarrow> time \<Rightarrow> skipping \<Rightarrow> skip_result option" where
  "skippingLoop env source now s =
     (case skippingTurn env source now s of Inl r \<Rightarrow> Some r | Inr s' \<Rightarrow> skippingLoop env source now s')"

definition verifySkipping :: "light_env \<Rightarrow> nat \<Rightarrow> light_block \<Rightarrow> light_block \<Rightarrow> time \<Rightarrow> light_client \<Rightarrow> skip_result option" where
  "verifySkipping env source trusted new now c =
     skippingLoop env source now \<lparr>skVerified = trusted, skCache = [new], skDepth = 0, skTrace = [trusted], skClient = c\<rparr>"

section \<open>What skipping verification promises\<close>

definition accepts :: "light_env \<Rightarrow> time \<Rightarrow> light_block \<Rightarrow> light_block \<Rightarrow> bool" where
  "accepts env now trusted new \<longleftrightarrow> verifyBlocks env trusted new now = Inr ()"

definition linked :: "light_env \<Rightarrow> time \<Rightarrow> light_block list \<Rightarrow> bool" where
  "linked env now tr \<longleftrightarrow> successively (accepts env now) tr"

text \<open>What stays true in the loop: the trace is linked and ends in the block that was verified last.\<close>

definition skipInv :: "light_env \<Rightarrow> time \<Rightarrow> light_block \<Rightarrow> light_block \<Rightarrow> skipping \<Rightarrow> bool" where
  "skipInv env now trusted new s \<longleftrightarrow> skTrace s \<noteq> [] \<and> hd (skTrace s) = trusted \<and> last (skTrace s) = skVerified s \<and>
     linked env now (skTrace s) \<and> skDepth s < length (skCache s) \<and> skCache s ! 0 = new"

lemma linked_append: "linked env now tr \<Longrightarrow> tr \<noteq> [] \<Longrightarrow> accepts env now (last tr) b \<Longrightarrow> linked env now (tr @ [b])"
  by (simp add: linked_def successively_append_iff)

text \<open>The ways a turn can end.\<close>

lemma skippingTurn_cases:
  obtains (accepted) "accepts env now (skVerified s) (skCache s ! skDepth s)" and "skDepth s = 0"
      and "skippingTurn env source now s = Inl (skClient s, Inr (skTrace s @ [skCache s ! skDepth s]))"
  | (lower) "accepts env now (skVerified s) (skCache s ! skDepth s)" and "0 < skDepth s"
      and "skippingTurn env source now s = Inr (s\<lparr>skVerified := skCache s ! skDepth s, skCache := take (skDepth s) (skCache s), skDepth := 0,
        skTrace := skTrace s @ [skCache s ! skDepth s]\<rparr>)"
  | (pivot) vh bh got needed c' interim where "lbHeader (skVerified s) = (Inr vh :: client_error fault + _)"
      and "lbHeader (skCache s ! skDepth s) = (Inr bh :: client_error fault + _)"
      and "verifyBlocks env (skVerified s) (skCache s ! skDepth s) now = Inl (Err (ErrNewValSetCantBeTrusted got needed))"
      and "skDepth s = length (skCache s) - 1" and "fetch env source (pivotHeight (hdHeight vh) (hdHeight bh)) (skClient s) = (c', Inr interim)"
      and "skippingTurn env source now s = Inr (s\<lparr>skCache := skCache s @ [interim], skDepth := skDepth s + 1, skClient := c'\<rparr>)"
  | (deeper) got needed where "verifyBlocks env (skVerified s) (skCache s ! skDepth s) now = Inl (Err (ErrNewValSetCantBeTrusted got needed))"
      and "skDepth s \<noteq> length (skCache s) - 1" and "skippingTurn env source now s = Inr (s\<lparr>skDepth := skDepth s + 1\<rparr>)"
  | (failed) c' e where "skippingTurn env source now s = Inl (c', Inl e)"
proof -
  let ?b = "skCache s ! skDepth s"
  show ?thesis
  proof (cases "lbHeader (skVerified s) :: client_error fault + _"; cases "lbHeader ?b :: client_error fault + _")
    fix vh bh assume h: "lbHeader (skVerified s) = (Inr vh :: client_error fault + _)" "lbHeader ?b = (Inr bh :: client_error fault + _)"
    have other: "\<exists>c' e'. skippingTurn env source now s = Inl (c', Inl e')"
      if "verifyBlocks env (skVerified s) ?b now = Inl (Err e)" "\<nexists>got needed. e = ErrNewValSetCantBeTrusted got needed" for e
      using that h by (cases e) (simp_all add: skippingTurn_def Let_def)
    have panics: "\<exists>c' e'. skippingTurn env source now s = Inl (c', Inl e')"
      if "verifyBlocks env (skVerified s) ?b now = Inl (Panic p)" for p using that h by (simp add: skippingTurn_def Let_def)
    consider (ok) "accepts env now (skVerified s) ?b"
      | (more) got needed where "verifyBlocks env (skVerified s) ?b now = Inl (Err (ErrNewValSetCantBeTrusted got needed))"
      | (err) c' e where "skippingTurn env source now s = Inl (c', Inl e)"
      using other panics by (cases "verifyBlocks env (skVerified s) ?b now") (metis accepts_def fault.exhaust old.unit.exhaust)+
    then show thesis
    proof cases
      case ok
      then show ?thesis using h accepted lower by (cases "skDepth s = 0") (simp_all add: skippingTurn_def accepts_def Let_def)
    next
      case more
      obtain c' ans where f: "fetch env source (pivotHeight (hdHeight vh) (hdHeight bh)) (skClient s) = (c', ans)" by fastforce
      show ?thesis
      proof (cases "skDepth s = length (skCache s) - 1")
        case False
        then show ?thesis using h more by (intro deeper) (simp_all add: skippingTurn_def Let_def)
      next
        case True
        show ?thesis
        proof (cases ans)
          case (Inl e)
          then show ?thesis using h more f True by (intro failed) (simp add: skippingTurn_def Let_def)
        next
          case (Inr interim)
          then show ?thesis using h more f True by (intro pivot) (simp_all add: skippingTurn_def Let_def)
        qed
      qed
    next
      case err
      then show ?thesis by (rule failed)
    qed
  qed (use failed in \<open>auto simp: skippingTurn_def Let_def\<close>)
qed

lemma skippingTurn_result:
  assumes "skipInv env now trusted new s" and "skippingTurn env source now s = Inl (c', Inr tr)"
  shows "tr \<noteq> [] \<and> linked env now tr \<and> hd tr = trusted \<and> last tr = new"
proof (cases rule: skippingTurn_cases [of env now s source])
  case accepted
  then have "tr = skTrace s @ [new]" "accepts env now (last (skTrace s)) new" using assms by (auto simp: skipInv_def)
  then show ?thesis using assms(1) linked_append by (auto simp: skipInv_def)
qed (use assms(2) in auto)

lemma skippingTurn_inv:
  assumes "skipInv env now trusted new s" and "skippingTurn env source now s = Inr s'"
  shows "skipInv env now trusted new s'"
proof (cases rule: skippingTurn_cases [of env now s source])
  case lower
  then have "linked env now (skTrace s @ [skCache s ! skDepth s])" using assms(1) linked_append by (auto simp: skipInv_def)
  then show ?thesis using lower assms by (auto simp: skipInv_def)
next
  case pivot
  then show ?thesis using assms by (auto simp: skipInv_def nth_append)
next
  case deeper
  then show ?thesis using assms by (auto simp: skipInv_def)
qed (use assms(2) in auto)

lemma skippingLoop_sound:
  assumes "skippingLoop env source now s = Some r" and "skipInv env now trusted new s" and "snd r = Inr tr"
  shows "tr \<noteq> [] \<and> linked env now tr \<and> hd tr = trusted \<and> last tr = new"
  using assms
proof (induction env source now s r rule: skippingLoop.raw_induct [rotated, consumes 1, case_names step])
  case (step loop env source now s r)
  show ?case
  proof (cases "skippingTurn env source now s")
    case (Inl r')
    then show ?thesis using step(2-4) skippingTurn_result by (cases r) auto
  next
    case (Inr s')
    then show ?thesis using step skippingTurn_inv by auto
  qed
qed

section \<open>Skipping verification returns\<close>

definition lbHeight :: "light_block \<Rightarrow> int" where
  "lbHeight b = (case lbHeader b of Inr h \<Rightarrow> hdHeight h | Inl (_ :: unit fault) \<Rightarrow> 0)"

lemma lbHeader_height: "lbHeader b = Inr h \<Longrightarrow> lbHeight b = hdHeight h"
  by (auto simp: lbHeight_def lbHeader_def bindR_Inr_iff split: sum.splits)

text \<open>A provider answers with the height it was asked for.\<close>

definition faithful :: "light_env \<Rightarrow> nat \<Rightarrow> bool" where
  "faithful env source \<longleftrightarrow> (\<forall>n height b. leFetch env n source height = Inr b \<longrightarrow> lbHeight b = height)"

lemma liftErr_Err_iff: "liftErr f m = Inl (Err e) \<longleftrightarrow> (\<exists>e'. m = Inl (Err e') \<and> e = f e')"
  by (auto simp: liftErr_def split: sum.splits fault.splits)

lemma deref_not_Err [simp]: "deref p \<noteq> Inl (Err e)"
  by (simp add: deref_def split: option.splits)

lemma lightBlock_heights:
  assumes "lbSigned v = Some th" and "shHeader th = Some t" and "lbSigned b = Some uh" and "shHeader uh = Some u"
  shows "lbHeight v = hdHeight t" and "lbHeight b = hdHeight u"
  using assms by (simp_all add: lbHeight_def lbHeader_def)

lemma new_higher:
  assumes "verifyNewHeaderAndVals be xe untrusted uvals t now drift = Inr ()" and "shHeader untrusted = Some u"
  shows "hdHeight t < hdHeight u"
  using assms by (auto simp: verifyNewHeaderAndVals_def bindR_Inr_iff split: if_splits)

lemma checkNewCommit_error: "checkNewCommit ce chainID uh uvals \<noteq> Inl (Err (ErrNewValSetCantBeTrusted got needed))"
  by (auto simp: checkNewCommit_def bindR_Inl_iff liftErr_Err_iff)

lemma NonAdjacent_higher:
  assumes "VerifyNonAdjacent ce be xe th tvals uh uvals period now drift lvl = r" and "r = Inr () \<or> r = Inl (Err (ErrNewValSetCantBeTrusted got needed))"
    and "shHeader th = Some t" and "shHeader uh = Some u"
  shows "hdHeight t < hdHeight u" and "hdHeight u \<noteq> wrap64 (hdHeight t + 1)"
proof -
  have "checkRequiredHeaderFields t \<noteq> (Inl (Err e) :: light_error fault + _)" for e by (simp add: checkRequiredHeaderFields_def)
  moreover have "ValidateTrustLevel lvl \<noteq> Inl (Err (ErrNewValSetCantBeTrusted got needed))" by (simp add: ValidateTrustLevel_def)
  ultimately have "verifyNewHeaderAndVals be xe uh uvals t now drift = Inr () \<and> hdHeight u \<noteq> wrap64 (hdHeight t + 1)"
    using assms by (auto simp: VerifyNonAdjacent_def bindR_Inr_iff bindR_Inl_iff liftErr_Err_iff split: if_splits)
  then show "hdHeight t < hdHeight u" "hdHeight u \<noteq> wrap64 (hdHeight t + 1)" using new_higher assms(4) by auto
qed

lemma Adjacent_outcome:
  assumes "shHeader th = Some t" and "shHeader uh = Some u"
  shows "VerifyAdjacent ce be xe th uh uvals period now drift \<noteq> Inl (Err (ErrNewValSetCantBeTrusted got needed))"
    and "VerifyAdjacent ce be xe th uh uvals period now drift = Inr () \<Longrightarrow> hdHeight t < hdHeight u"
proof -
  have "checkRequiredHeaderFields t \<noteq> (Inl (Err e) :: light_error fault + _)" for e by (simp add: checkRequiredHeaderFields_def)
  then show "VerifyAdjacent ce be xe th uh uvals period now drift \<noteq> Inl (Err (ErrNewValSetCantBeTrusted got needed))"
    using assms checkNewCommit_error by (auto simp: VerifyAdjacent_def bindR_Inl_iff liftErr_Err_iff split: if_splits)
  show "hdHeight t < hdHeight u" if "VerifyAdjacent ce be xe th uh uvals period now drift = Inr ()"
  proof -
    have "verifyNewHeaderAndVals be xe uh uvals t now drift = Inr ()"
      using that assms by (auto simp: VerifyAdjacent_def bindR_Inr_iff split: if_splits)
    then show ?thesis using assms(2) by (rule new_higher)
  qed
qed

lemma verifyBlocks_headers:
  assumes "\<And>p. verifyBlocks env v b now \<noteq> Inl (Panic p)"
  obtains th t uh u where "lbSigned v = Some th" and "shHeader th = Some t" and "lbSigned b = Some uh" and "shHeader uh = Some u"
proof -
  obtain th uh where h: "lbSigned v = Some th" "lbSigned b = Some uh"
    using assms by (cases "lbSigned v"; cases "lbSigned b") (auto simp: verifyBlocks_def deref_def)
  then obtain t u where "shHeader th = Some t" "shHeader uh = Some u"
    using assms by (cases "shHeader th"; cases "shHeader uh") (auto simp: verifyBlocks_def Verify_def deref_def)
  then show ?thesis using that h by blast
qed

lemma accepts_higher: "accepts env now v b \<Longrightarrow> lbHeight v < lbHeight b"
proof -
  assume ok: "accepts env now v b"
  then have "verifyBlocks env v b now \<noteq> Inl (Panic p)" for p by (simp add: accepts_def)
  then obtain th t uh u where h: "lbSigned v = Some th" "shHeader th = Some t" "lbSigned b = Some uh" "shHeader uh = Some u"
    by (rule verifyBlocks_headers)
  have "hdHeight t < hdHeight u"
  proof (cases "hdHeight u = wrap64 (hdHeight t + 1)")
    case True
    then show ?thesis using ok h Adjacent_outcome(2) [OF h(2,4)] by (simp add: accepts_def verifyBlocks_def Verify_def)
  next
    case False
    then have "VerifyNonAdjacent (leCrypto env) (leBlock env) (leExec env) th (lbVals v) uh (lbVals b) (leTrustingPeriod env) now (leMaxClockDrift env) (leTrustLevel env) = Inr ()"
      using ok h by (simp add: accepts_def verifyBlocks_def Verify_def)
    then show ?thesis using NonAdjacent_higher(1) h(2,4) by blast
  qed
  then show ?thesis using lightBlock_heights [OF h] by simp
qed

lemma untrusted_distance:
  assumes "verifyBlocks env v b now = Inl (Err (ErrNewValSetCantBeTrusted got needed))" and "0 \<le> lbHeight v" and "lbHeight b \<le> MaxInt64"
  shows "lbHeight v + 1 < lbHeight b"
proof -
  have "verifyBlocks env v b now \<noteq> Inl (Panic p)" for p using assms(1) by simp
  then obtain th t uh u where h: "lbSigned v = Some th" "shHeader th = Some t" "lbSigned b = Some uh" "shHeader uh = Some u"
    by (rule verifyBlocks_headers)
  then have "VerifyNonAdjacent (leCrypto env) (leBlock env) (leExec env) th (lbVals v) uh (lbVals b) (leTrustingPeriod env) now (leMaxClockDrift env) (leTrustLevel env) =
      Inl (Err (ErrNewValSetCantBeTrusted got needed))"
    using assms(1) Adjacent_outcome(1) [OF h(2,4)] by (auto simp: verifyBlocks_def Verify_def split: if_splits)
  then have "hdHeight t < hdHeight u" "hdHeight u \<noteq> wrap64 (hdHeight t + 1)"
    by (rule NonAdjacent_higher [OF _ _ h(2,4)], simp)+
  moreover have "in64 (hdHeight t + 1)" using calculation(1) assms(2,3) lightBlock_heights [OF h] by (simp add: in64_def int_range)
  ultimately show ?thesis using lightBlock_heights [OF h] by auto
qed

lemma pivot_between:
  assumes "0 \<le> v" and "v + 1 < b" and "b \<le> MaxInt64 div 9"
  shows "v < pivotHeight v b" and "pivotHeight v b < b"
proof -
  define d where "d = b - v"
  have d: "2 \<le> d" "d \<le> 1024819115206086200" using assms by (simp_all add: d_def int_range)
  then have r: "in64 d" "in64 (d * 9)" "0 \<le> d * 9" by (simp_all add: in64_def int_range)
  have m: "1 \<le> (d * 9) div 16" "(d * 9) div 16 < d" 
    using d(1) div_mult_mod_eq [of "d * 9" 16] pos_mod_sign [of 16 "d * 9"] pos_mod_bound [of 16 "d * 9"] by linarith+
  have "in64 (v + (d * 9) div 16)" using m assms by (simp add: in64_def int_range d_def)
  then have "pivotHeight v b = v + (d * 9) div 16" using r by (simp add: pivotHeight_def d_def [symmetric] sdiv_nonneg)
  then show "v < pivotHeight v b" "pivotHeight v b < b" using m by (simp_all add: d_def)
qed

text \<open>The blocks in the cache are ordered by height, above the block that was verified last.\<close>

definition skipOrder :: "int \<Rightarrow> skipping \<Rightarrow> bool" where
  "skipOrder H s \<longleftrightarrow> sorted_wrt (\<lambda>a b. lbHeight b < lbHeight a) (skCache s) \<and> 0 \<le> lbHeight (skVerified s) \<and>
     skDepth s < length (skCache s) \<and> lbHeight (skCache s ! 0) = H \<and> (\<forall>b \<in> set (skCache s). lbHeight (skVerified s) < lbHeight b \<and> lbHeight b \<le> H)"

definition skipMeasure :: "int \<Rightarrow> (skipping \<times> skipping) set" where
  "skipMeasure H = measures [\<lambda>s. nat (H - lbHeight (skVerified s)), \<lambda>s. nat (lbHeight (last (skCache s)) - lbHeight (skVerified s)),
     \<lambda>s. length (skCache s) - skDepth s]"

lemma skipMeasure_wf: "wf (skipMeasure H)"
  by (simp add: skipMeasure_def)

lemma skippingTurn_decreases:
  assumes ord: "skipOrder H s" and H: "H \<le> MaxInt64 div 9" and f: "faithful env source" and turn: "skippingTurn env source now s = Inr s'"
  shows "skipOrder H s' \<and> (s', s) \<in> skipMeasure H"
proof -
  let ?b = "skCache s ! skDepth s"
  have b: "?b \<in> set (skCache s)" using ord by (simp add: skipOrder_def)
  then have hb: "lbHeight (skVerified s) < lbHeight ?b" "lbHeight ?b \<le> H" "0 \<le> lbHeight (skVerified s)" using ord by (auto simp: skipOrder_def)
  show ?thesis
  proof (cases rule: skippingTurn_cases [of env now s source])
    case lower
    have low: "lbHeight ?b < lbHeight x" if "x \<in> set (take (skDepth s) (skCache s))" for x
      using that ord by (auto simp: skipOrder_def in_set_conv_nth sorted_wrt_iff_nth_less)
    have "lbHeight ?b < H" using ord lower(2) by (auto simp: skipOrder_def sorted_wrt_iff_nth_less)
    then have "nat (H - lbHeight ?b) < nat (H - lbHeight (skVerified s))" using hb by simp
    moreover have nn: "0 \<le> lbHeight ?b" using hb by simp
    have "skipOrder H s'" using lower turn ord low by (auto simp: skipOrder_def sorted_wrt_take nn dest: in_set_takeD)
    ultimately show ?thesis using lower(3) turn by (auto simp: skipMeasure_def)
  next
    case (pivot vh bh got needed c' interim)
    have "skCache s \<noteq> []" using b by auto
    then have last: "last (skCache s) = ?b" using pivot(4) by (simp add: last_conv_nth)
    have "lbHeight (skVerified s) + 1 < lbHeight ?b" using untrusted_distance [OF pivot(3)] hb H by (simp add: int_range)
    moreover have "lbHeight interim = pivotHeight (lbHeight (skVerified s)) (lbHeight ?b)"
      using f pivot(1,2,5) by (auto simp: faithful_def fetch_def lbHeader_height)
    ultimately have i: "lbHeight (skVerified s) < lbHeight interim" "lbHeight interim < lbHeight ?b"
      using pivot_between hb H by simp_all
    have "lbHeight interim < lbHeight x" if x: "x \<in> set (skCache s)" for x
    proof -
      obtain k where k: "k < length (skCache s)" "x = skCache s ! k" using x by (auto simp: in_set_conv_nth)
      then have "k = skDepth s \<or> k < skDepth s" using pivot(4) by linarith
      then have "lbHeight ?b \<le> lbHeight x" using ord k(2) by (auto simp: skipOrder_def sorted_wrt_iff_nth_less intro: less_imp_le)
      then show ?thesis using i(2) by simp
    qed
    moreover have "lbHeight interim \<le> H" using i(2) hb(2) by simp
    ultimately show ?thesis using pivot(6) turn ord i last by (auto simp: skipOrder_def skipMeasure_def sorted_wrt_append nth_append)
  next
    case deeper
    then show ?thesis using turn ord by (auto simp: skipOrder_def skipMeasure_def)
  qed (use turn in auto)
qed

lemma skippingLoop_returns:
  assumes "H \<le> MaxInt64 div 9" and "faithful env source"
  shows "skipOrder H s \<Longrightarrow> \<exists>r. skippingLoop env source now s = Some r"
proof (induction s rule: wf_induct_rule [OF skipMeasure_wf [of H]])
  case (1 s)
  then show ?case using skippingTurn_decreases [OF "1.prems" assms]
    by (cases "skippingTurn env source now s") (simp_all add: skippingLoop.simps [of env source now s])
qed

section \<open>A sample client\<close>

definition lightEnv :: light_env where
  "lightEnv = \<lparr>leCrypto = sampleEnv, leBlock = chainBlockEnv, leExec = chainExec, leTrustingPeriod = 1000, leMaxClockDrift = 10,
     leTrustLevel = third, leSequential = False, leChainID = ''c'', lePruningSize = 1000, leConfirm = (\<lambda>n. True),
     leArrival = (\<lambda>n msgs. concat msgs), leFetch = (\<lambda>n source height. Inr (lightBlock height))\<rparr>"

definition lightClient :: light_client where
  "lightClient = \<lparr>lcPrimary = 0, lcWitnesses = [1, 2], lcStore = [(1, lightBlock 1)], lcSize = 1, lcLatest = Some (lightBlock 1),
     lcRequests = 0, lcReports = []\<rparr>"

lemma light_heights: "lbHeight (lightBlock h) = h"
  by (simp add: lbHeight_def lbHeader_def lightBlock_def lightHeader_def)

lemma lightEnv_faithful: "faithful lightEnv source"
  by (simp add: faithful_def lightEnv_def light_heights)

declare skippingLoop.simps [code]

section \<open>Properties\<close>

text \<open>C16: When skipping verification succeeds, it returns the blocks it trusted on the way: the first is the trusted
  block, the last the new one, and \<open>Verify\<close> has accepted each against the one before it.\<close>

theorem verifySkipping_sound:
  assumes "verifySkipping env source trusted new now c = Some (c', Inr trace)"
  shows "hd trace = trusted \<and> last trace = new \<and> successively (\<lambda>a b. verifyBlocks env a b now = Inr ()) trace"
proof -
  have "skipInv env now trusted new \<lparr>skVerified = trusted, skCache = [new], skDepth = 0, skTrace = [trusted], skClient = c\<rparr>"
    by (simp add: skipInv_def linked_def)
  from skippingLoop_sound [OF assms [unfolded verifySkipping_def] this, of trace]
  show ?thesis by (simp add: linked_def accepts_def [abs_def])
qed

theorem verifySkipping_sound_witness:
  "\<exists>c trace. verifySkipping lightEnv 0 (lightBlock 1) (lightBlock 5) 300 lightClient = Some (c, Inr trace) \<and>
     hd trace = lightBlock 1 \<and> last trace = lightBlock 5 \<and> successively (\<lambda>a b. verifyBlocks lightEnv a b 300 = Inr ()) trace"
proof -
  have "verifySkipping lightEnv 0 (lightBlock 1) (lightBlock 5) 300 lightClient = Some (lightClient, Inr [lightBlock 1, lightBlock 5])"
    by code_simp
  from verifySkipping_sound [OF this] this show ?thesis by blast
qed

text \<open>C18: Skipping verification always returns, with a result or an error, when the provider answers with the heights it was asked for
  and the heights are small enough for the computation of the pivot.\<close>

theorem verifySkipping_returns:
  assumes "faithful env source" and "0 \<le> lbHeight trusted" and "lbHeight new \<le> MaxInt64 div 9"
  shows "\<exists>r. verifySkipping env source trusted new now c = Some r"
proof -
  let ?s = "\<lparr>skVerified = trusted, skCache = [new], skDepth = 0, skTrace = [trusted], skClient = c\<rparr>"
  show ?thesis
  proof (cases "lbHeight trusted < lbHeight new")
    case True
    then have "skipOrder (lbHeight new) ?s" using assms(2) by (simp add: skipOrder_def)
    then show ?thesis unfolding verifySkipping_def using skippingLoop_returns [OF assms(3,1)] by blast
  next
    case False
    have far: "verifyBlocks env trusted new now \<noteq> Inl (Err (ErrNewValSetCantBeTrusted got needed))" for got needed
      using False untrusted_distance [of env trusted new now got needed] assms(2,3) by (auto simp: int_range)
    have "\<exists>r. skippingTurn env source now ?s = Inl r"
      by (cases rule: skippingTurn_cases [of env now ?s source]) (use False accepts_higher far in auto)
    then show ?thesis unfolding verifySkipping_def by (auto simp: skippingLoop.simps [of env source now ?s])
  qed
qed

theorem verifySkipping_returns_witness:
  "\<exists>r. verifySkipping lightEnv 0 (lightBlock 1) (lightBlock 5) 300 lightClient = Some r"
  by (rule verifySkipping_returns [OF lightEnv_faithful]) (simp_all add: light_heights int_range)

end
