(* ===== verification/LightClient.thy ===== *)
theory LightClient
  imports LightSkipping
begin

text \<open>
  \<open>light/client.go\<close>, second part, \<open>light/detector.go\<close> and \<open>light/store/db\<close>: sequential and backwards verification, the comparison
  of a verified block with the witnesses, the trusted store and the operations a user of the client calls.

  The messages of the goroutines that ask the witnesses arrive in an order that is an argument (\<open>leArrival\<close>); as many of them are
  read as there are witnesses. Failures of the database and the confirmation of a user are arguments or left out.
\<close>

section \<open>The trusted store\<close>

definition storeLookup :: "light_client \<Rightarrow> int \<Rightarrow> client_error fault + light_block" where
  "storeLookup c height =
     (if height \<le> 0 then Inl (Panic ''negative or zero height'')
      else case map_of (lcStore c) height of None \<Rightarrow> Inl (Err (ProviderErr ErrLightBlockNotFound)) | Some b \<Rightarrow> Inr b)"

definition LastLightBlockHeight :: "light_client \<Rightarrow> int" where
  "LastLightBlockHeight c = (if lcStore c = [] then - 1 else fst (last (lcStore c)))"

definition FirstLightBlockHeight :: "light_client \<Rightarrow> int" where
  "FirstLightBlockHeight c = (if lcStore c = [] then - 1 else fst (hd (lcStore c)))"

definition LightBlockBefore :: "light_client \<Rightarrow> int \<Rightarrow> client_error fault + light_block" where
  "LightBlockBefore c height =
     (if height \<le> 0 then Inl (Panic ''negative or zero height'')
      else case filter (\<lambda>p. fst p < height) (lcStore c) of
        [] \<Rightarrow> Inl (Err (ProviderErr ErrLightBlockNotFound)) | ps \<Rightarrow> Inr (snd (last ps)))"

text \<open>The counter is a \<open>uint16\<close>, and counts a block that replaces one of its height again.\<close>

definition putBlock :: "int \<Rightarrow> light_block \<Rightarrow> (int \<times> light_block) list \<Rightarrow> (int \<times> light_block) list" where
  "putBlock h b ps = filter (\<lambda>p. fst p < h) ps @ (h, b) # filter (\<lambda>p. h < fst p) ps"

definition SaveLightBlock :: "light_block \<Rightarrow> light_client \<Rightarrow> client_error fault + light_client" where
  "SaveLightBlock b c =
     bindR (lbHeader b) (\<lambda>h.
       if hdHeight h \<le> 0 then Inl (Panic ''negative or zero height'')
       else Inr (c\<lparr>lcStore := putBlock (hdHeight h) b (lcStore c), lcSize := (lcSize c + 1) mod 65536\<rparr>))"

definition DeleteLightBlock :: "int \<Rightarrow> light_client \<Rightarrow> client_error fault + light_client" where
  "DeleteLightBlock height c =
     (if height \<le> 0 then Inl (Panic ''negative or zero height'')
      else Inr (c\<lparr>lcStore := filter (\<lambda>p. fst p \<noteq> height) (lcStore c), lcSize := (lcSize c - 1) mod 65536\<rparr>))"

definition Prune :: "int \<Rightarrow> light_client \<Rightarrow> light_client" where
  "Prune sz c = (if lcSize c \<le> sz then c else c\<lparr>lcStore := drop (nat (lcSize c - sz)) (lcStore c), lcSize := sz\<rparr>)"

section \<open>Sequential verification\<close>

definition lbHash :: "light_env \<Rightarrow> light_block \<Rightarrow> 'e fault + bytes" where
  "lbHash env b = bindR (deref (lbSigned b)) (\<lambda>sh. Inr (case shHeader sh of None \<Rightarrow> [] | Some h \<Rightarrow> Header_Hash (leBlock env) h))"

fun isInvalidHeader :: "light_error \<Rightarrow> bool" where
  "isInvalidHeader (ErrInvalidHeader e) = True"
| "isInvalidHeader _ = False"

declare lightBlockFromPrimary.simps [simp del]

lemma fromPrimary_witnesses: "lightBlockFromPrimary env height c = (c', r) \<Longrightarrow> length (lcWitnesses c') \<le> length (lcWitnesses c)"
proof (induction env height c rule: lightBlockFromPrimary.induct)
  case (1 env height c)
  obtain c1 ans where f: "fetch env (lcPrimary c) height c = (c1, ans)" by fastforce
  then have w: "lcWitnesses c1 = lcWitnesses c" by (auto simp: fetch_def)
  note run = "1.prems" [unfolded lightBlockFromPrimary.simps [of env height c] f, simplified]
  show ?case
  proof (cases ans)
    case (Inr l)
    then show ?thesis using run w by simp
  next
    case (Inl e)
    show ?thesis
    proof (cases "replacePrimaryProvider c1")
      case None
      then show ?thesis using run w Inl by simp
    next
      case (Some c2)
      then have "length (lcWitnesses c') \<le> length (lcWitnesses c2)" using run Inl by (intro "1.IH" [OF f [symmetric] Inl Some]) simp
      then show ?thesis using replace_shorter [OF Some] w by simp
    qed
  qed
qed

text \<open>After an invalid block of the primary: the next provider must have the same target.\<close>

definition replaceAndCompare :: "light_env \<Rightarrow> light_block \<Rightarrow> int \<Rightarrow> light_client \<Rightarrow> light_client \<times> (client_error fault + light_block option)" where
  "replaceAndCompare env new newHeight c =
     (case replacePrimaryProvider c of
        None \<Rightarrow> (c, Inr None)
      | Some c2 \<Rightarrow>
          (case lightBlockFromPrimary env newHeight c2 of
             (c3, Inl (Err _)) \<Rightarrow> (c3, Inr None)
           | (c3, Inl (Panic p)) \<Rightarrow> (c3, Inl (Panic p))
           | (c3, Inr repl) \<Rightarrow>
               (c3, bindR (lbHash env repl) (\<lambda>a. bindR (lbHash env new) (\<lambda>b. Inr (if a \<noteq> b then None else Some repl))))))"

lemma replaceAndCompare_shorter: "replaceAndCompare env new h c = (c', Inr (Some b)) \<Longrightarrow> length (lcWitnesses c') < length (lcWitnesses c)"
proof -
  assume run: "replaceAndCompare env new h c = (c', Inr (Some b))"
  then obtain c2 where c2: "replacePrimaryProvider c = Some c2" by (auto simp: replaceAndCompare_def split: option.splits)
  obtain c3 r where r: "lightBlockFromPrimary env h c2 = (c3, r)" by fastforce
  then have "c' = c3" using run c2 by (auto simp: replaceAndCompare_def split: sum.splits fault.splits)
  then show ?thesis using replace_shorter [OF c2] fromPrimary_witnesses [OF r] by simp
qed

definition interimBlock :: "light_env \<Rightarrow> light_block \<Rightarrow> int \<Rightarrow> int \<Rightarrow> light_client \<Rightarrow> light_client \<times> (client_error fault + light_block)" where
  "interimBlock env new newHeight height c = (if height = newHeight then (c, Inr new) else lightBlockFromPrimary env height c)"

lemma interimBlock_witnesses: "interimBlock env new nh h c = (c', r) \<Longrightarrow> length (lcWitnesses c') \<le> length (lcWitnesses c)"
  by (auto simp: interimBlock_def dest: fromPrimary_witnesses split: if_splits)

definition verifyNext :: "light_env \<Rightarrow> light_block \<Rightarrow> light_block \<Rightarrow> time \<Rightarrow> light_error fault + unit" where
  "verifyNext env trusted new now =
     bindR (deref (lbSigned trusted)) (\<lambda>th. bindR (deref (lbSigned new)) (\<lambda>uh.
       VerifyAdjacent (leCrypto env) (leBlock env) (leExec env) th uh (lbVals new) (leTrustingPeriod env) now (leMaxClockDrift env)))"

function sequentialLoop ::
  "light_env \<Rightarrow> time \<Rightarrow> light_block \<Rightarrow> Header \<Rightarrow> int \<Rightarrow> light_block \<Rightarrow> light_block list \<Rightarrow> light_client \<Rightarrow>
   light_client \<times> (client_error fault + light_block list)"
where
  "sequentialLoop env now new nh height verified trace c =
     (if height > hdHeight nh then (c, Inr trace)
      else case interimBlock env new (hdHeight nh) height c of
        (c1, Inl (Panic p)) \<Rightarrow> (c1, Inl (Panic p))
      | (c1, Inl (Err e)) \<Rightarrow> (c1, bindR (lbHeader verified) (\<lambda>vh. Inl (Err (ErrVerificationFailed (hdHeight vh) height e))))
      | (c1, Inr interim) \<Rightarrow>
          (case (lbHeader verified, lbHeader interim) of
             (Inl e, _) \<Rightarrow> (c1, Inl e)
           | (_, Inl e) \<Rightarrow> (c1, Inl e)
           | (Inr vh, Inr ih) \<Rightarrow>
               (case verifyNext env verified interim now of
                  Inr _ \<Rightarrow> sequentialLoop env now new nh (height + 1) interim (trace @ [interim]) c1
                | Inl (Panic p) \<Rightarrow> (c1, Inl (Panic p))
                | Inl (Err e) \<Rightarrow>
                    let err = Inl (Err (ErrVerificationFailed (hdHeight vh) (hdHeight ih) (VerifyErr e))) in
                    if \<not> isInvalidHeader e \<or> hdHeight ih = hdHeight nh then (c1, err)
                    else (case replaceAndCompare env new (hdHeight nh) c1 of
                            (c2, Inl f) \<Rightarrow> (c2, Inl f)
                          | (c2, Inr None) \<Rightarrow> (c2, err)
                          | (c2, Inr (Some _)) \<Rightarrow> sequentialLoop env now new nh height verified trace c2))))"
  by pat_completeness auto
termination
proof (relation "measures [\<lambda>(env, now, new, nh, height, verified, trace, c). length (lcWitnesses c),
      \<lambda>(env, now, new, nh, height, verified, trace, c). nat (hdHeight nh + 1 - height)]", goal_cases)
  case 2
  then show ?case by (auto dest!: interimBlock_witnesses [OF sym] replaceAndCompare_shorter [OF sym])
next
  case 3
  then show ?case by (auto dest!: interimBlock_witnesses [OF sym] simp: le_less)
qed simp

declare sequentialLoop.simps [simp del]

section \<open>The detector\<close>

definition removeWitness :: "nat \<Rightarrow> light_client \<Rightarrow> client_error fault + light_client" where
  "removeWitness idx c =
     (case lcWitnesses c of
        [] \<Rightarrow> Inl (Panic ''wanted to remove element from empty witnesses slice'')
      | [w] \<Rightarrow> Inr (c\<lparr>lcWitnesses := []\<rparr>)
      | ws \<Rightarrow> bindR (goUpdate ws (int idx) (last ws)) (\<lambda>ws'. Inr (c\<lparr>lcWitnesses := butlast ws'\<rparr>)))"

text \<open>The indices are removed from the last one to the first.\<close>

fun removeWitnesses :: "nat list \<Rightarrow> light_client \<Rightarrow> client_error fault + light_client" where
  "removeWitnesses [] c = Inr c"
| "removeWitnesses (i # is) c = bindR (removeWitness i c) (removeWitnesses is)"

text \<open>What the goroutine for a witness sends: after a conflict it goes on and sends that the header matched, too.\<close>

definition compareNewHeaderWithWitness :: "light_env \<Rightarrow> nat \<Rightarrow> Header \<Rightarrow> nat \<Rightarrow> nat \<Rightarrow> client_error fault + witness_msg list" where
  "compareNewHeaderWithWitness env request h witness witnessIndex =
     (case leFetch env request witness (hdHeight h) of
        Inl e \<Rightarrow> Inr [ErrBadWitness e witnessIndex]
      | Inr lb \<Rightarrow> bindR (lbHash env lb) (\<lambda>hash.
          Inr ((if Header_Hash (leBlock env) h \<noteq> hash then [ErrConflictingHeaders lb witnessIndex] else []) @ [Matching])))"

fun compareAll :: "light_env \<Rightarrow> nat \<Rightarrow> Header \<Rightarrow> nat list \<Rightarrow> nat \<Rightarrow> client_error fault + witness_msg list list" where
  "compareAll env request h [] i = Inr []"
| "compareAll env request h (w # ws) i =
     bindR (compareNewHeaderWithWitness env (request + i) h w i) (\<lambda>m. bindR (compareAll env request h ws (i + 1)) (\<lambda>ms. Inr (m # ms)))"

text \<open>The messages that are read: as many as there are witnesses, in the order in which they arrive.\<close>

definition readMessages :: "light_env \<Rightarrow> light_client \<Rightarrow> Header \<Rightarrow> client_error fault + (light_client \<times> witness_msg list)" where
  "readMessages env c h =
     bindR (compareAll env (lcRequests c) h (lcWitnesses c) 0) (\<lambda>msgs.
       Inr (c\<lparr>lcRequests := lcRequests c + length (lcWitnesses c)\<rparr>,
            take (length (lcWitnesses c)) (leArrival env (lcRequests c) msgs)))"

fun firstMessages :: "nat list \<Rightarrow> witness_msg list \<Rightarrow> client_error fault + nat list" where
  "firstMessages rm [] = Inr rm"
| "firstMessages rm (Matching # ms) = firstMessages rm ms"
| "firstMessages rm (ErrConflictingHeaders b i # ms) = Inl (Err HeaderMismatch)"
| "firstMessages rm (ErrBadWitness e i # ms) = firstMessages (if e = ErrBadLightBlock then rm @ [i] else rm) ms"

definition compareFirstHeaderWithWitnesses :: "light_env \<Rightarrow> Header \<Rightarrow> light_client \<Rightarrow> client_error fault + light_client" where
  "compareFirstHeaderWithWitnesses env h c =
     (if lcWitnesses c = [] then Inl (Err ErrNoWitnesses)
      else bindR (readMessages env c h) (\<lambda>(c1, ms). bindR (firstMessages [] ms) (\<lambda>rm. removeWitnesses (rev (sort rm)) c1)))"

text \<open>A trace of one provider against the blocks of another one: the blocks the source verifies up to the first that differs.\<close>

fun examineLoop ::
  "light_env \<Rightarrow> nat \<Rightarrow> time \<Rightarrow> light_block option \<Rightarrow> light_block list \<Rightarrow> light_client \<Rightarrow>
   (light_client \<times> (client_error fault + (light_block list \<times> light_block))) option"
where
  "examineLoop env source now prev [] c = Some (c, Inl (Err NotDivergent))"
| "examineLoop env source now prev (tb # rest) c =
     (case lbHeader tb of
        Inl e \<Rightarrow> Some (c, Inl e)
      | Inr th \<Rightarrow>
          (case fetch env source (hdHeight th) c of
             (c1, Inl e) \<Rightarrow> Some (c1, Inl (Err (ProviderErr e)))
           | (c1, Inr sb) \<Rightarrow>
               (case (lbHash env sb, lbHash env tb) of
                  (Inl e, _) \<Rightarrow> Some (c1, Inl e)
                | (_, Inl e) \<Rightarrow> Some (c1, Inl e)
                | (Inr shash, Inr thash) \<Rightarrow>
                    (case prev of
                       None \<Rightarrow> if shash \<noteq> thash then Some (c1, Inl (Err DifferentFirstBlock)) else examineLoop env source now (Some sb) rest c1
                     | Some p \<Rightarrow>
                         (case verifySkipping env source p sb now c1 of
                            None \<Rightarrow> None
                          | Some (c2, Inl e) \<Rightarrow> Some (c2, Inl e)
                          | Some (c2, Inr trace) \<Rightarrow>
                              if shash \<noteq> thash then Some (c2, Inr (trace, tb)) else examineLoop env source now (Some sb) rest c2)))))"

definition sendEvidence :: "light_block \<Rightarrow> light_block \<Rightarrow> light_block \<Rightarrow> nat \<Rightarrow> light_client \<Rightarrow> light_client" where
  "sendEvidence conflicted trusted common receiver c = c\<lparr>lcReports := lcReports c @ [(receiver, conflicted, trusted, common)]\<rparr>"

text \<open>After a conflict with a witness: both are examined and reported, unless the witness cannot support its block.\<close>

definition examineConflict ::
  "light_env \<Rightarrow> time \<Rightarrow> light_block list \<Rightarrow> nat \<Rightarrow> light_client \<Rightarrow> (light_client \<times> (client_error fault + bool)) option"
where
  "examineConflict env now primaryTrace witness c =
     (case examineLoop env witness now None primaryTrace c of
        None \<Rightarrow> None
      | Some (c1, Inl (Panic p)) \<Rightarrow> Some (c1, Inl (Panic p))
      | Some (c1, Inl (Err _)) \<Rightarrow> Some (c1, Inr False)
      | Some (c1, Inr (witnessTrace, primaryBlock)) \<Rightarrow>
          let c2 = sendEvidence primaryBlock (last witnessTrace) (hd witnessTrace) witness c1 in
          (case examineLoop env (lcPrimary c2) now None witnessTrace c2 of
             None \<Rightarrow> None
           | Some (c3, Inl (Panic p)) \<Rightarrow> Some (c3, Inl (Panic p))
           | Some (c3, Inl (Err _)) \<Rightarrow> Some (c3, Inr True)
           | Some (c3, Inr (primaryTrace', witnessBlock)) \<Rightarrow>
               Some (sendEvidence witnessBlock (last primaryTrace') (hd primaryTrace') (lcPrimary c3) c3, Inr True)))"

fun detectLoop ::
  "light_env \<Rightarrow> time \<Rightarrow> light_block list \<Rightarrow> bool \<Rightarrow> nat list \<Rightarrow> witness_msg list \<Rightarrow> light_client \<Rightarrow>
   (light_client \<times> (client_error fault + unit)) option"
where
  "detectLoop env now trace matched rm [] c =
     (case removeWitnesses (rev (sort rm)) c of
        Inl e \<Rightarrow> Some (c, Inl e)
      | Inr c1 \<Rightarrow> Some (c1, if matched then Inr () else Inl (Err ErrFailedHeaderCrossReferencing)))"
| "detectLoop env now trace matched rm (Matching # ms) c = detectLoop env now trace True rm ms c"
| "detectLoop env now trace matched rm (ErrConflictingHeaders b i # ms) c =
     (case goIndex (lcWitnesses c) (int i) of
        Inl e \<Rightarrow> Some (c, Inl e)
      | Inr w \<Rightarrow>
          (case examineConflict env now trace w c of
             None \<Rightarrow> None
           | Some (c1, Inl e) \<Rightarrow> Some (c1, Inl e)
           | Some (c1, Inr True) \<Rightarrow> Some (c1, Inl (Err ErrLightClientAttack))
           | Some (c1, Inr False) \<Rightarrow> detectLoop env now trace matched (rm @ [i]) ms c1))"
| "detectLoop env now trace matched rm (ErrBadWitness e i # ms) c =
     detectLoop env now trace matched (if e = ErrBadLightBlock then rm @ [i] else rm) ms c"

definition detectDivergence :: "light_env \<Rightarrow> light_block list \<Rightarrow> time \<Rightarrow> light_client \<Rightarrow> (light_client \<times> (client_error fault + unit)) option" where
  "detectDivergence env trace now c =
     (if length trace < 2 then Some (c, Inl (Err ShortTrace))
      else if lcWitnesses c = [] then Some (c, Inl (Err ErrNoWitnesses))
      else case bindR (lbHeader (last trace)) (readMessages env c) of
        Inl e \<Rightarrow> Some (c, Inl e)
      | Inr (c1, ms) \<Rightarrow> detectLoop env now trace False [] ms c1)"

section \<open>Verification against the witnesses\<close>

type_synonym client_run = "(light_client \<times> (client_error fault + unit)) option"

definition verifySequential :: "light_env \<Rightarrow> light_block \<Rightarrow> light_block \<Rightarrow> time \<Rightarrow> light_client \<Rightarrow> client_run" where
  "verifySequential env trusted new now c =
     (case (lbHeader trusted, lbHeader new) of
        (Inl e, _) \<Rightarrow> Some (c, Inl e)
      | (_, Inl e) \<Rightarrow> Some (c, Inl e)
      | (Inr th, Inr nh) \<Rightarrow>
          (case sequentialLoop env now new nh (hdHeight th + 1) trusted [trusted] c of
             (c1, Inl e) \<Rightarrow> Some (c1, Inl e)
           | (c1, Inr trace) \<Rightarrow> detectDivergence env trace now c1))"

partial_function (option) skippingAgainstPrimary :: "light_env \<Rightarrow> light_block \<Rightarrow> time \<Rightarrow> light_block \<Rightarrow> light_client \<Rightarrow> client_run" where
  "skippingAgainstPrimary env trusted now new c =
     (case verifySkipping env (lcPrimary c) trusted new now c of
        None \<Rightarrow> None
      | Some (c1, r) \<Rightarrow>
       (case r of
         Inr trace \<Rightarrow> detectDivergence env trace now c1
       | Inl (Err (ErrVerificationFailed from to (VerifyErr (ErrInvalidHeader e)))) \<Rightarrow>
           (case lbHeader new of
              Inl f \<Rightarrow> Some (c1, Inl f)
            | Inr nh \<Rightarrow>
                if to = hdHeight nh then Some (c1, map_sum id (\<lambda>_. ()) r)
                else (case replaceAndCompare env new (hdHeight nh) c1 of
                        (c2, Inl f) \<Rightarrow> Some (c2, Inl f)
                      | (c2, Inr None) \<Rightarrow> Some (c2, map_sum id (\<lambda>_. ()) r)
                      | (c2, Inr (Some repl)) \<Rightarrow> skippingAgainstPrimary env trusted now repl c2))
       | Inl e \<Rightarrow> Some (c1, Inl e)))"

definition verifySkippingAgainstPrimary :: "light_env \<Rightarrow> light_block \<Rightarrow> light_block \<Rightarrow> time \<Rightarrow> light_client \<Rightarrow> client_run" where
  "verifySkippingAgainstPrimary env trusted new now c = skippingAgainstPrimary env trusted now new c"

text \<open>Backwards verification. The loop ends at the height of the new header.\<close>

partial_function (option) backwards :: "light_env \<Rightarrow> Header \<Rightarrow> Header \<Rightarrow> light_client \<Rightarrow> client_run" where
  "backwards env verified newHeader c =
     (if \<not> hdHeight verified > hdHeight newHeader then Some (c, Inr ())
      else case lightBlockFromPrimary env (hdHeight verified - 1) c of
        (c1, Inl (Panic p)) \<Rightarrow> Some (c1, Inl (Panic p))
      | (c1, Inl (Err e)) \<Rightarrow> Some (c1, Inl (Err (BackwardsErr e)))
      | (c1, Inr b) \<Rightarrow>
          (case lbHeader b of
             Inl e \<Rightarrow> Some (c1, Inl e)
           | Inr interim \<Rightarrow>
               (case VerifyBackwards (leBlock env) interim verified of
                  Inr _ \<Rightarrow> backwards env interim newHeader c1
                | Inl (Panic p) \<Rightarrow> Some (c1, Inl (Panic p))
                | Inl (Err e) \<Rightarrow>
                    (case replacePrimaryProvider c1 of
                       None \<Rightarrow> Some (c1, Inl (Err (BackwardsErr (VerifyErr e))))
                     | Some c2 \<Rightarrow> backwards env verified newHeader c2))))"

section \<open>The operations of a client\<close>

definition updateTrustedLightBlock :: "light_env \<Rightarrow> light_block \<Rightarrow> light_client \<Rightarrow> client_error fault + light_client" where
  "updateTrustedLightBlock env l c =
     bindR (SaveLightBlock l c) (\<lambda>c1.
     bindR (lbHeader l) (\<lambda>lh.
       let c2 = (if lePruningSize env > 0 then Prune (lePruningSize env) c1 else c1) in
       (case lcLatest c2 of
          None \<Rightarrow> Inr (c2\<lparr>lcLatest := Some l\<rparr>)
        | Some b \<Rightarrow> bindR (lbHeader b) (\<lambda>bh. Inr (if hdHeight lh > hdHeight bh then c2\<lparr>lcLatest := Some l\<rparr> else c2)))))"

definition saveVerified :: "light_env \<Rightarrow> light_block \<Rightarrow> client_run \<Rightarrow> client_run" where
  "saveVerified env l run =
     (case run of
        None \<Rightarrow> None
      | Some (c, Inl e) \<Rightarrow> Some (c, Inl e)
      | Some (c, Inr _) \<Rightarrow> (case updateTrustedLightBlock env l c of Inl e \<Rightarrow> Some (c, Inl e) | Inr c1 \<Rightarrow> Some (c1, Inr ())))"

definition verifyFunc :: "light_env \<Rightarrow> light_block \<Rightarrow> light_block \<Rightarrow> time \<Rightarrow> light_client \<Rightarrow> client_run" where
  "verifyFunc env = (if leSequential env then verifySequential env else verifySkippingAgainstPrimary env)"

definition verifyLightBlock :: "light_env \<Rightarrow> light_block \<Rightarrow> time \<Rightarrow> light_client \<Rightarrow> client_run" where
  "verifyLightBlock env l now c =
     (case bindR (lbHeader l) (\<lambda>lh. bindR (deref (lcLatest c)) (\<lambda>latest. bindR (lbHeader latest) (\<lambda>th. Inr (lh, latest, th)))) of
        Inl e \<Rightarrow> Some (c, Inl e)
      | Inr (lh, latest, th) \<Rightarrow>
          saveVerified env l
            (if hdHeight lh \<ge> hdHeight th then verifyFunc env latest l now c
             else if hdHeight lh < FirstLightBlockHeight c then
               (case bindR (storeLookup c (FirstLightBlockHeight c)) lbHeader of
                  Inl e \<Rightarrow> Some (c, Inl e) | Inr fh \<Rightarrow> backwards env fh lh c)
             else (case LightBlockBefore c (hdHeight lh) of
                     Inl e \<Rightarrow> Some (c, Inl e) | Inr closest \<Rightarrow> verifyFunc env closest l now c)))"

definition compareWithLatestHeight :: "light_client \<Rightarrow> int \<Rightarrow> client_error fault + int" where
  "compareWithLatestHeight c height =
     (let latest = LastLightBlockHeight c in
      if latest = - 1 then Inl (Err NoTrustedBlock)
      else if height > latest then Inl (Err NoTrustedBlock)
      else if height = 0 then Inr latest
      else if height < 0 then Inl (Err NegativeOrZeroHeight)
      else Inr height)"

definition TrustedLightBlock :: "light_client \<Rightarrow> int \<Rightarrow> client_error fault + light_block" where
  "TrustedLightBlock c height = bindR (compareWithLatestHeight c height) (storeLookup c)"

definition withBlock :: "light_block \<Rightarrow> client_run \<Rightarrow> (light_client \<times> (client_error fault + light_block)) option" where
  "withBlock l run = (case run of None \<Rightarrow> None | Some (c, r) \<Rightarrow> Some (c, map_sum id (\<lambda>_. l) r))"

definition VerifyLightBlockAtHeight :: "light_env \<Rightarrow> int \<Rightarrow> time \<Rightarrow> light_client \<Rightarrow> (light_client \<times> (client_error fault + light_block)) option" where
  "VerifyLightBlockAtHeight env height now c =
     (if height \<le> 0 then Some (c, Inl (Err NegativeOrZeroHeight))
      else case TrustedLightBlock c height of
        Inl (Panic p) \<Rightarrow> Some (c, Inl (Panic p))
      | Inr h \<Rightarrow> Some (c, Inr h)
      | Inl (Err _) \<Rightarrow>
          (case lightBlockFromPrimary env height c of
             (c1, Inl e) \<Rightarrow> Some (c1, Inl e)
           | (c1, Inr l) \<Rightarrow> withBlock l (verifyLightBlock env l now c1)))"

definition Update :: "light_env \<Rightarrow> time \<Rightarrow> light_client \<Rightarrow> (light_client \<times> (client_error fault + light_block option)) option" where
  "Update env now c =
     (if LastLightBlockHeight c = - 1 then Some (c, Inr None)
      else case lightBlockFromPrimary env 0 c of
        (c1, Inl e) \<Rightarrow> Some (c1, Inl e)
      | (c1, Inr latest) \<Rightarrow>
          (case lbHeader latest of
             Inl e \<Rightarrow> Some (c1, Inl e)
           | Inr h \<Rightarrow>
               if hdHeight h > LastLightBlockHeight c
               then (case verifyLightBlock env latest now c1 of None \<Rightarrow> None | Some (c2, r) \<Rightarrow> Some (c2, map_sum id (\<lambda>_. Some latest) r))
               else Some (c1, Inr None)))"

definition VerifyHeader :: "light_env \<Rightarrow> Header option \<Rightarrow> time \<Rightarrow> light_client \<Rightarrow> client_run" where
  "VerifyHeader env p now c =
     (case p of
        None \<Rightarrow> Some (c, Inl (Err NilHeader))
      | Some newHeader \<Rightarrow>
          if hdHeight newHeader \<le> 0 then Some (c, Inl (Err NegativeOrZeroHeight))
          else case TrustedLightBlock c (hdHeight newHeader) of
            Inl (Panic m) \<Rightarrow> Some (c, Inl (Panic m))
          | Inr l \<Rightarrow> Some (c, bindR (lbHash env l) (\<lambda>hash.
              if hash \<noteq> Header_Hash (leBlock env) newHeader then Inl (Err TrustedMismatch) else Inr ()))
          | Inl (Err _) \<Rightarrow>
              (case lightBlockFromPrimary env (hdHeight newHeader) c of
                 (c1, Inl e) \<Rightarrow> Some (c1, Inl e)
               | (c1, Inr l) \<Rightarrow>
                   (case lbHash env l of
                      Inl e \<Rightarrow> Some (c1, Inl e)
                    | Inr hash \<Rightarrow>
                        if hash \<noteq> Header_Hash (leBlock env) newHeader then Some (c1, Inl (Err HeaderMismatch))
                        else verifyLightBlock env l now c1)))"

section \<open>Starting a client\<close>

record trust_options =
  toPeriod :: int
  toHeight :: int
  toHash :: bytes

definition TrustOptions_ValidateBasic :: "trust_options \<Rightarrow> client_error fault + unit" where
  "TrustOptions_ValidateBasic opts =
     (if toPeriod opts \<le> 0 then Inl (Err TrustPeriodNotPositive)
      else if toHeight opts \<le> 0 then Inl (Err NegativeOrZeroHeight)
      else if length (toHash opts) \<noteq> 32 then Inl (Err TrustHashSize)
      else Inr ())"

definition restoreTrustedLightBlock :: "light_client \<Rightarrow> client_error fault + light_client" where
  "restoreTrustedLightBlock c =
     (let lastHeight = LastLightBlockHeight c in
      if lastHeight > 0 then bindR (storeLookup c lastHeight) (\<lambda>b. Inr (c\<lparr>lcLatest := Some b\<rparr>)) else Inr c)"

definition Cleanup :: "light_client \<Rightarrow> light_client" where
  "Cleanup c = Prune 0 (c\<lparr>lcLatest := None\<rparr>)"

partial_function (option) cleanupLoop :: "int \<Rightarrow> int \<Rightarrow> light_client \<Rightarrow> (client_error fault + light_client) option" where
  "cleanupLoop height prevHeight c =
     (case LightBlockBefore c prevHeight of
        Inl (Panic p) \<Rightarrow> Some (Inl (Panic p))
      | Inl (Err e) \<Rightarrow> Some (Inr c)
      | Inr b \<Rightarrow>
          (case lbHeader b of
             Inl e \<Rightarrow> Some (Inl e)
           | Inr h \<Rightarrow>
               if hdHeight h \<le> height then Some (Inr c)
               else (case DeleteLightBlock (hdHeight h) c of
                       Inl e \<Rightarrow> Some (Inl e) | Inr c1 \<Rightarrow> cleanupLoop height (hdHeight h) c1)))"

definition cleanupAfter :: "int \<Rightarrow> light_client \<Rightarrow> (client_error fault + light_client) option" where
  "cleanupAfter height c =
     (case bindR (deref (lcLatest c)) lbHeader of
        Inl e \<Rightarrow> Some (Inl e)
      | Inr h \<Rightarrow>
          (case cleanupLoop height (hdHeight h) c of
             None \<Rightarrow> None
           | Some r \<Rightarrow> Some (bindR r (\<lambda>c1. restoreTrustedLightBlock (c1\<lparr>lcLatest := None\<rparr>)))))"

text \<open>The hash of the trusted block is compared with that of the primary or of the options. The user confirms twice: a rollback, and
  the removal of all blocks when the hashes differ.\<close>

definition checkHashes :: "light_env \<Rightarrow> bytes \<Rightarrow> light_client \<Rightarrow> client_error fault + light_client" where
  "checkHashes env primaryHash c =
     bindR (deref (lcLatest c)) (\<lambda>latest. bindR (lbHash env latest) (\<lambda>hash.
       if primaryHash \<noteq> hash then (if leConfirm env 1 then Inr (Cleanup c) else Inl (Err TrustedMismatch)) else Inr c))"

definition checkTrustedHeaderUsingOptions :: "light_env \<Rightarrow> trust_options \<Rightarrow> light_client \<Rightarrow> (light_client \<times> (client_error fault + light_client)) option" where
  "checkTrustedHeaderUsingOptions env options c =
     (case bindR (deref (lcLatest c)) lbHeader of
        Inl e \<Rightarrow> Some (c, Inl e)
      | Inr latest \<Rightarrow>
          if toHeight options > hdHeight latest then
            (case lightBlockFromPrimary env (hdHeight latest) c of
               (c1, Inl e) \<Rightarrow> Some (c1, Inl e)
             | (c1, Inr h) \<Rightarrow> Some (c1, bindR (lbHash env h) (\<lambda>primaryHash. checkHashes env primaryHash c1)))
          else if toHeight options = hdHeight latest then Some (c, checkHashes env (toHash options) c)
          else if leConfirm env 0 then
            (case cleanupAfter (toHeight options) c of None \<Rightarrow> None | Some r \<Rightarrow> Some (c, bindR r (checkHashes env (toHash options))))
          else Some (c, Inr c))"

definition initializeWithTrustOptions :: "light_env \<Rightarrow> trust_options \<Rightarrow> light_client \<Rightarrow> light_client \<times> (client_error fault + light_client)" where
  "initializeWithTrustOptions env options c =
     (case lightBlockFromPrimary env (toHeight options) c of
        (c1, Inl e) \<Rightarrow> (c1, Inl e)
      | (c1, Inr l) \<Rightarrow>
          (c1, bindR (liftErr VerifyErr (LightBlock_ValidateBasic (leBlock env) (leExec env) l (leChainID env))) (\<lambda>_.
               bindR (lbHash env l) (\<lambda>hash.
                 if hash \<noteq> toHash options then Inl (Err HeaderMismatch)
                 else
                   bindR (deref (lbSigned l)) (\<lambda>sh. bindR (deref (lbVals l)) (\<lambda>vals. bindR (deref (shHeader sh)) (\<lambda>h. bindR (deref (shCommit sh)) (\<lambda>cm.
                   bindR (liftErr (\<lambda>e. VerifyErr (CommitCheckErr e)) (snd (VerifyCommitLight (leCrypto env) vals (leChainID env) (cmBlockID cm) (hdHeight h) (Some cm)))) (\<lambda>_.
                   bindR (compareFirstHeaderWithWitnesses env h c1) (updateTrustedLightBlock env l))))))))))"

text \<open>The settings are those of \<open>light_env\<close>, whose trusting period is that of the options; the client given is the one before a
  block is restored from the store.\<close>

definition NewClientFromTrustedStore :: "light_env \<Rightarrow> light_client \<Rightarrow> client_error fault + light_client" where
  "NewClientFromTrustedStore env c =
     (if lcWitnesses c = [] then Inl (Err ErrNoWitnesses)
      else bindR (liftErr VerifyErr (ValidateTrustLevel (leTrustLevel env))) (\<lambda>_. restoreTrustedLightBlock (c\<lparr>lcLatest := None\<rparr>)))"

definition checkStored :: "light_env \<Rightarrow> trust_options \<Rightarrow> light_client \<Rightarrow> (client_error fault + light_client) option" where
  "checkStored env options c =
     (case lcLatest c of
        None \<Rightarrow> Some (Inr c)
      | Some _ \<Rightarrow> (case checkTrustedHeaderUsingOptions env options c of None \<Rightarrow> None | Some (_, r) \<Rightarrow> Some r))"

definition NewClient :: "light_env \<Rightarrow> trust_options \<Rightarrow> light_client \<Rightarrow> (client_error fault + light_client) option" where
  "NewClient env options c =
     (case bindR (TrustOptions_ValidateBasic options) (\<lambda>_. NewClientFromTrustedStore (env\<lparr>leTrustingPeriod := toPeriod options\<rparr>) c) of
        Inl e \<Rightarrow> Some (Inl e)
      | Inr c1 \<Rightarrow>
          (case checkStored (env\<lparr>leTrustingPeriod := toPeriod options\<rparr>) options c1 of
             None \<Rightarrow> None
           | Some (Inl e) \<Rightarrow> Some (Inl e)
           | Some (Inr c2) \<Rightarrow>
               (case (case lcLatest c2 of None \<Rightarrow> Inr True | Some b \<Rightarrow> bindR (lbHeader b) (\<lambda>bh. Inr (hdHeight bh < toHeight options))) of
                  Inl e \<Rightarrow> Some (Inl e)
                | Inr False \<Rightarrow> Some (Inr c2)
                | Inr True \<Rightarrow> Some (snd (initializeWithTrustOptions (env\<lparr>leTrustingPeriod := toPeriod options\<rparr>) options c2)))))"

text \<open>A client that starts from an empty store trusts a block with the hash of the options.\<close>

lemma fromPrimary_latest: "lightBlockFromPrimary env height c = (c', r) \<Longrightarrow> lcLatest c' = lcLatest c"
proof (induction env height c rule: lightBlockFromPrimary.induct)
  case (1 env height c)
  obtain c1 ans where f: "fetch env (lcPrimary c) height c = (c1, ans)" by fastforce
  then have w: "lcLatest c1 = lcLatest c" by (auto simp: fetch_def)
  note run = "1.prems" [unfolded lightBlockFromPrimary.simps [of env height c] f, simplified]
  show ?case
  proof (cases ans; cases "replacePrimaryProvider c1")
    fix e c2 assume e: "ans = Inl e" and c2: "replacePrimaryProvider c1 = Some c2"
    then have "lcLatest c2 = lcLatest c1" by (auto simp: replacePrimaryProvider_def split: list.splits)
    moreover have "lcLatest c' = lcLatest c2" using run e c2 by (intro "1.IH" [OF f [symmetric] e c2]) simp
    ultimately show ?thesis using w by simp
  qed (use run w in auto)
qed

lemma removeWitnesses_latest: "removeWitnesses is c = Inr c' \<Longrightarrow> lcLatest c' = lcLatest c"
proof (induction "is" arbitrary: c)
  case (Cons i "is")
  then obtain c1 where "removeWitness i c = Inr c1" "removeWitnesses is c1 = Inr c'" by (auto elim!: bindR_InrE)
  moreover have "lcLatest c1 = lcLatest c" using calculation(1)
    by (auto simp: removeWitness_def split: list.splits elim!: bindR_InrE)
  ultimately show ?case using Cons.IH by simp
qed simp

lemma compareFirst_latest: "compareFirstHeaderWithWitnesses env h c = Inr c' \<Longrightarrow> lcLatest c' = lcLatest c"
  by (auto simp: compareFirstHeaderWithWitnesses_def readMessages_def dest!: removeWitnesses_latest split: if_splits elim!: bindR_InrE)

lemma updateTrusted_latest: "updateTrustedLightBlock env l c = Inr c' \<Longrightarrow> lcLatest c = None \<Longrightarrow> lcLatest c' = Some l"
  by (auto simp: updateTrustedLightBlock_def SaveLightBlock_def Prune_def Let_def split: if_splits elim!: bindR_InrE)

lemma NewClient_trusts_options:
  assumes "NewClient env options c = Some (Inr c')" and "lcStore c = []"
  shows "\<exists>l. lcLatest c' = Some l \<and> lbHash env l = (Inr (toHash options) :: client_error fault + _)"
proof -
  let ?env = "env\<lparr>leTrustingPeriod := toPeriod options\<rparr>"
  have new: "TrustOptions_ValidateBasic options = Inr ()" "NewClientFromTrustedStore ?env c = Inr (c\<lparr>lcLatest := None\<rparr>)"
    using assms by (auto simp: NewClient_def NewClientFromTrustedStore_def restoreTrustedLightBlock_def LastLightBlockHeight_def bindR_Inr_iff
      split: sum.splits if_splits)
  then have run: "snd (initializeWithTrustOptions ?env options (c\<lparr>lcLatest := None\<rparr>)) = Inr c'"
    using assms(1) by (simp add: NewClient_def checkStored_def)
  obtain c1 l where l: "lightBlockFromPrimary ?env (toHeight options) (c\<lparr>lcLatest := None\<rparr>) = (c1, Inr l)"
    using run by (auto simp: initializeWithTrustOptions_def split: prod.splits sum.splits)
  obtain h c2 where h: "lbHash ?env l = (Inr (toHash options) :: client_error fault + _)" and c2: "compareFirstHeaderWithWitnesses ?env h c1 = Inr c2"
      and up: "updateTrustedLightBlock ?env l c2 = Inr c'"
    using run l by (auto simp: initializeWithTrustOptions_def split: if_splits elim!: bindR_InrE)
  have "lcLatest c2 = None" using compareFirst_latest [OF c2] fromPrimary_latest [OF l] by simp
  moreover have "lbHash ?env l = (lbHash env l :: client_error fault + _)" by (simp add: lbHash_def cong: option.case_cong)
  ultimately show ?thesis using updateTrusted_latest [OF up] h by simp
qed

end
