(* ===== verification/LightTrace.thy ===== *)
theory LightTrace
  imports LightClient
begin

text \<open>
  What a successful verification by the light client means: \<open>verifyLightBlock\<close> and the functions it calls leave behind a list
  of blocks, each accepted against the one before it, that leads from a trusted block to the new one.
\<close>

section \<open>What the client has verified\<close>

lemma verifyNext_accepts: "verifyNext env a b now = Inr () \<Longrightarrow> accepts env now a b"
  by (auto simp: verifyNext_def accepts_def verifyBlocks_def Verify_def VerifyAdjacent_def bindR_Inr_iff split: if_splits)

definition traceTo :: "light_env \<Rightarrow> time \<Rightarrow> light_block \<Rightarrow> light_block \<Rightarrow> light_block list \<Rightarrow> bool" where
  "traceTo env now source target tr \<longleftrightarrow> tr \<noteq> [] \<and> hd tr = source \<and> linked env now tr \<and>
     lbHash env (last tr) = (lbHash env target :: client_error fault + _)"

lemma replaceAndCompare_hash:
  "replaceAndCompare env new h c = (c', Inr (Some b)) \<Longrightarrow> lbHash env b = (lbHash env new :: client_error fault + _)"
  by (auto simp: replaceAndCompare_def bindR_Inr_iff split: option.splits prod.splits sum.splits fault.splits if_splits)

lemma traceTo_target:
  "traceTo env now source b tr \<Longrightarrow> lbHash env b = (lbHash env new :: client_error fault + _) \<Longrightarrow> traceTo env now source new tr"
  by (simp add: traceTo_def)

lemma verifySkipping_trace:
  assumes "verifySkipping env source trusted new now c = Some (c', Inr tr)"
  shows "traceTo env now trusted new tr"
proof -
  let ?s = "\<lparr>skVerified = trusted, skCache = [new], skDepth = 0, skTrace = [trusted], skClient = c\<rparr>"
  have "skipInv env now trusted new ?s" by (simp add: skipInv_def linked_def)
  from skippingLoop_sound [OF assms [unfolded verifySkipping_def] this, of tr]
  show ?thesis by (simp add: traceTo_def)
qed

lemma detect_long: "detectDivergence env tr now c = Some (c', Inr ()) \<Longrightarrow> 2 \<le> length tr"
  by (auto simp: detectDivergence_def split: if_splits)

lemma skippingAgainstPrimary_trace:
  assumes "skippingAgainstPrimary env trusted now new c = Some r" and "snd r = Inr ()"
  shows "\<exists>tr c1. traceTo env now trusted new tr \<and> detectDivergence env tr now c1 = Some (fst r, Inr ())"
  using assms
proof (induction env trusted now new c r rule: skippingAgainstPrimary.raw_induct [rotated, consumes 1, case_names step])
  case (step loop env trusted now new c r)
  obtain c1 q where v: "verifySkipping env (lcPrimary c) trusted new now c = Some (c1, q)" using step(2) by (auto split: option.splits)
  show ?case
  proof (cases q)
    case (Inr tr)
    then have "detectDivergence env tr now c1 = Some r" using step(2) v by simp
    moreover have "r = (fst r, Inr ())" using step(3) by (cases r) simp
    ultimately show ?thesis using verifySkipping_trace [of env _ trusted new now c c1 tr] v Inr by metis
  next
    case (Inl e)
    obtain c2 repl nh where rc: "replaceAndCompare env new nh c1 = (c2, Inr (Some repl))" and l: "loop env trusted now repl c2 = Some r"
      using step(2,3) v Inl by (auto split: fault.splits client_error.splits light_error.splits sum.splits if_splits prod.splits option.splits)
    obtain tr c3 where "traceTo env now trusted repl tr" "detectDivergence env tr now c3 = Some (fst r, Inr ())"
      using step(1) [OF l step(3)] by blast
    then show ?thesis using traceTo_target replaceAndCompare_hash [OF rc] by blast
  qed
qed

lemma sequentialLoop_trace:
  assumes "sequentialLoop env now new nh height verified trace c = (c', Inr tr)" and "trace \<noteq> []" and "last trace = verified"
    and "linked env now trace" and "hdHeight nh < height \<longrightarrow> last trace = new"
  shows "tr \<noteq> [] \<and> hd tr = hd trace \<and> linked env now tr \<and> last tr = new"
  using assms
proof (induction env now new nh height verified trace c arbitrary: tr rule: sequentialLoop.induct)
  case (1 env now new nh height verified trace c)
  show ?case
  proof (cases "hdHeight nh < height")
    case True
    then show ?thesis using "1.prems" by (simp add: sequentialLoop.simps)
  next
    case False
    note run = "1.prems"(1) [unfolded sequentialLoop.simps [of env now new nh height verified trace c] if_not_P [OF False]]
    obtain c1 interim where i: "interimBlock env new (hdHeight nh) height c = (c1, Inr interim)"
      using run by (auto simp: bindR_Inr_iff split: prod.splits sum.splits fault.splits)
    obtain vh where v: "lbHeader verified = (Inr vh :: client_error fault + _)" using run i by (auto split: sum.splits)
    obtain ih where h: "lbHeader interim = (Inr ih :: client_error fault + _)" using run i v by (auto split: sum.splits)
    consider (ok) "verifyNext env verified interim now = Inr ()"
      | (again) e c2 b where "verifyNext env verified interim now = Inl (Err e)" and "\<not> (\<not> isInvalidHeader e \<or> hdHeight ih = hdHeight nh)"
          and "replaceAndCompare env new (hdHeight nh) c1 = (c2, Inr (Some b))"
      using run i v h by (cases "verifyNext env verified interim now")
        (auto simp: Let_def split: fault.splits prod.splits sum.splits option.splits if_splits)
    then show ?thesis
    proof cases
      case ok
      then have "linked env now (trace @ [interim])" using "1.prems"(2-4) verifyNext_accepts linked_append by auto
      moreover have "hdHeight nh < height + 1 \<longrightarrow> last (trace @ [interim]) = new"
        using i False by (auto simp: interimBlock_def split: if_splits)
      moreover have "sequentialLoop env now new nh (height + 1) interim (trace @ [interim]) c1 = (c', Inr tr)" using run i v h ok by simp
      ultimately have "tr \<noteq> [] \<and> hd tr = hd (trace @ [interim]) \<and> linked env now tr \<and> last tr = new"
        using "1.IH"(2) [OF False i [symmetric] refl refl v h ok] by simp
      then show ?thesis using "1.prems"(2) by simp
    next
      case again
      then have "sequentialLoop env now new nh height verified trace c2 = (c', Inr tr)" using run i v h by (simp add: Let_def)
      then show ?thesis using "1.IH"(1) [OF False i [symmetric] refl refl v h again(1) refl refl again(2) again(3) [symmetric] refl refl] "1.prems" by simp
    qed
  qed
qed

lemma verifySequential_trace:
  assumes "verifySequential env trusted new now c = Some (c', Inr ())"
  shows "\<exists>tr c1. traceTo env now trusted new tr \<and> detectDivergence env tr now c1 = Some (c', Inr ())"
proof -
  obtain th nh where h: "lbHeader trusted = (Inr th :: client_error fault + _)" "lbHeader new = (Inr nh :: client_error fault + _)"
    using assms by (auto simp: verifySequential_def split: sum.splits)
  then obtain c1 tr where run: "sequentialLoop env now new nh (hdHeight th + 1) trusted [trusted] c = (c1, Inr tr)"
      and d: "detectDivergence env tr now c1 = Some (c', Inr ())"
    using assms by (auto simp: verifySequential_def split: sum.splits prod.splits)
  show ?thesis
  proof (cases "hdHeight nh < hdHeight th + 1")
    case True
    then have "tr = [trusted]" using run by (simp add: sequentialLoop.simps)
    then show ?thesis using detect_long [OF d] by simp
  next
    case False
    then have "tr \<noteq> [] \<and> hd tr = trusted \<and> linked env now tr \<and> last tr = new"
      using sequentialLoop_trace [OF run] by (simp add: linked_def)
    then show ?thesis using d by (auto simp: traceTo_def)
  qed
qed

lemma verifyFunc_trace:
  assumes "verifyFunc env trusted new now c = Some (c', Inr ())"
  shows "\<exists>tr c1. traceTo env now trusted new tr \<and> detectDivergence env tr now c1 = Some (c', Inr ())"
  using assms verifySequential_trace [of env trusted new now c c'] skippingAgainstPrimary_trace [of env trusted now new c "(c', Inr ())"]
  by (cases "leSequential env") (simp_all add: verifyFunc_def verifySkippingAgainstPrimary_def)

lemma LightBlockBefore_stored: "LightBlockBefore c h = Inr b \<Longrightarrow> b \<in> snd ` set (lcStore c)"
proof -
  assume b: "LightBlockBefore c h = Inr b"
  let ?ps = "filter (\<lambda>p. fst p < h) (lcStore c)"
  have "?ps \<noteq> []" "b = snd (last ?ps)" using b by (auto simp: LightBlockBefore_def split: if_splits list.splits)
  then have "last ?ps \<in> set (lcStore c)" using last_in_set [of ?ps] by auto
  then show ?thesis using \<open>b = snd (last ?ps)\<close> by blast
qed

lemma saveVerified_run:
  assumes "saveVerified env l run = Some (c', Inr ())"
  obtains c1 where "run = Some (c1, Inr ())" and "updateTrustedLightBlock env l c1 = Inr c'"
  using assms by (auto simp: saveVerified_def split: option.splits sum.splits prod.splits)

lemma sample_messages:
  "readMessages lightEnv lightClient (lightHeader 5) = Inr (lightClient\<lparr>lcRequests := 2\<rparr>, [Matching, Matching])"
  by (simp add: readMessages_def compareNewHeaderWithWitness_def lightEnv_def lightClient_def lbHash_def lightBlock_def lightHeader_def)

lemma sample_trace:
  "verifySkipping lightEnv 0 (lightBlock 1) (lightBlock 5) 300 lightClient = Some (lightClient, Inr [lightBlock 1, lightBlock 5])"
  by code_simp

lemma sample_header: "lbHeader (lightBlock h) = Inr (lightHeader h)"
  by (simp add: lbHeader_def lightBlock_def)

lemma sample_verified: "\<exists>c. verifyLightBlock lightEnv (lightBlock 5) 300 lightClient = Some (c, Inr ())"
proof -
  have c: "lcPrimary lightClient = 0" "lcLatest lightClient = Some (lightBlock 1)" "lcWitnesses lightClient = [1, 2]" "lcStore lightClient = [(1, lightBlock 1)]"
    by (simp_all add: lightClient_def)
  have e: "\<not> leSequential lightEnv" "lePruningSize lightEnv = 1000" by (simp_all add: lightEnv_def)
  have h: "hdHeight (lightHeader n) = n" for n by (simp add: lightHeader_def)
  show ?thesis
    by (simp add: verifyLightBlock_def verifyFunc_def verifySkippingAgainstPrimary_def skippingAgainstPrimary.simps c e h sample_header sample_trace
      detectDivergence_def sample_messages saveVerified_def updateTrustedLightBlock_def SaveLightBlock_def Prune_def Let_def)
qed

section \<open>Properties\<close>

text \<open>C17: A block that is not below the first stored one is verified forwards: when this succeeds, by skipping or sequential verification, there is
  a list of blocks from the latest trusted or a stored block to one with the hash of the new block, in which \<open>Verify\<close>
  has accepted every block against the one before it, and which the detector has compared with the witnesses without finding a conflict.\<close>

theorem verifyLightBlock_sound:
  assumes "verifyLightBlock env l now c = Some (c', Inr ())" and "FirstLightBlockHeight c \<le> lbHeight l"
  shows "\<exists>start tr c1 c2. (lcLatest c = Some start \<or> start \<in> snd ` set (lcStore c)) \<and> tr \<noteq> [] \<and> hd tr = start \<and>
     lbHash env (last tr) = (lbHash env l :: client_error fault + _) \<and> successively (\<lambda>a b. verifyBlocks env a b now = Inr ()) tr \<and>
     detectDivergence env tr now c1 = Some (c2, Inr ())"
proof -
  obtain lh latest th where h: "lbHeader l = (Inr lh :: client_error fault + _)" "lcLatest c = Some latest"
      and th: "lbHeader latest = (Inr th :: client_error fault + _)"
    using assms(1) by (auto simp: verifyLightBlock_def bindR_Inr_iff split: sum.splits)
  have "\<not> hdHeight lh < FirstLightBlockHeight c" using assms(2) lbHeader_height [OF h(1)] by simp
  then have run: "saveVerified env l (if hdHeight lh \<ge> hdHeight th then verifyFunc env latest l now c
      else case LightBlockBefore c (hdHeight lh) of Inl e \<Rightarrow> Some (c, Inl e) | Inr closest \<Rightarrow> verifyFunc env closest l now c) = Some (c', Inr ())"
    using assms(1) h th by (simp add: verifyLightBlock_def cong: if_cong split del: if_split)
  obtain c2 where r: "(if hdHeight lh \<ge> hdHeight th then verifyFunc env latest l now c
      else case LightBlockBefore c (hdHeight lh) of Inl e \<Rightarrow> Some (c, Inl e) | Inr closest \<Rightarrow> verifyFunc env closest l now c) = Some (c2, Inr ())"
    by (rule saveVerified_run [OF run])
  have "\<exists>start. (lcLatest c = Some start \<or> start \<in> snd ` set (lcStore c)) \<and> verifyFunc env start l now c = Some (c2, Inr ())"
  proof (cases "hdHeight lh \<ge> hdHeight th")
    case True
    then show ?thesis using r h(2) by auto
  next
    case False
    then obtain b where "LightBlockBefore c (hdHeight lh) = Inr b" "verifyFunc env b l now c = Some (c2, Inr ())"
      using r by (auto split: sum.splits)
    then show ?thesis using LightBlockBefore_stored by blast
  qed
  then obtain start where st: "lcLatest c = Some start \<or> start \<in> snd ` set (lcStore c)" and v: "verifyFunc env start l now c = Some (c2, Inr ())"
    by blast
  obtain tr c1 where "traceTo env now start l tr" "detectDivergence env tr now c1 = Some (c2, Inr ())" using verifyFunc_trace [OF v] by blast
  then show ?thesis using st by (auto simp: traceTo_def linked_def accepts_def [abs_def])
qed

theorem verifyLightBlock_sound_witness:
  "\<exists>start tr. (lcLatest lightClient = Some start \<or> start \<in> snd ` set (lcStore lightClient)) \<and> tr \<noteq> [] \<and> hd tr = start \<and>
     lbHash lightEnv (last tr) = (lbHash lightEnv (lightBlock 5) :: client_error fault + _) \<and>
     successively (\<lambda>a b. verifyBlocks lightEnv a b 300 = Inr ()) tr"
proof -
  obtain c where "verifyLightBlock lightEnv (lightBlock 5) 300 lightClient = Some (c, Inr ())" using sample_verified by blast
  moreover have "FirstLightBlockHeight lightClient \<le> lbHeight (lightBlock 5)"
    by (simp add: FirstLightBlockHeight_def lightClient_def light_heights)
  ultimately show ?thesis using verifyLightBlock_sound [of lightEnv "lightBlock 5" 300 lightClient c] by blast
qed

end
