(* ===== verification/LightAttacks.thy ===== *)
theory LightAttacks
  imports LightTrace
begin

text \<open>
  Three runs of the light client that end in a state it means to exclude, evaluated on concrete providers: a forged old
  block is trusted by backwards verification, a block no witness has is accepted by the detector, and
  a rollback keeps the block it should remove.
\<close>

section \<open>A hash that tells headers apart\<close>

text \<open>An additive hash: enough to tell the sample headers apart.\<close>

definition sumHash :: "bytes \<Rightarrow> bytes" where
  "sumHash x = fold (+) x 0 # replicate 31 0"

definition backBlockEnv :: block_env where
  "backBlockEnv = chainBlockEnv\<lparr>beHash := sumHash, beBytes := (\<lambda>b. 1 # b), beBlockID := bidHash\<rparr>"

fun backHeader :: "nat \<Rightarrow> Header" where
  "backHeader 0 = lightHeader 2"
| "backHeader (Suc n) = (lightHeader (int n + 3))\<lparr>hdLastBlockID := \<lparr>bidHash = Header_Hash backBlockEnv (backHeader n),
     bidParts = \<lparr>pshTotal = 1, pshHash = replicate 32 0\<rparr>\<rparr>\<rparr>"

definition backBlock :: "Header \<Rightarrow> light_block" where
  "backBlock h = \<lparr>lbSigned = Some \<lparr>shHeader = Some h, shCommit = Some (NewCommit (hdHeight h) 0 \<lparr>bidHash = Header_Hash backBlockEnv h,
     bidParts = \<lparr>pshTotal = 1, pshHash = replicate 32 0\<rparr>\<rparr> [NewCommitSigForBlock [1, 2, 3] (replicate 20 1) 1000])\<rparr>, lbVals = Some lightVals\<rparr>"

definition forge :: "Header \<Rightarrow> Header" where
  "forge h = h\<lparr>hdAppHash := [7]\<rparr>"

definition headerAt :: "int \<Rightarrow> Header" where
  "headerAt h = backHeader (nat (h - 2))"

text \<open>The primary forges every block below the trusted one; the others are honest.\<close>

definition backEnv :: light_env where
  "backEnv = lightEnv\<lparr>leBlock := backBlockEnv,
     leFetch := (\<lambda>n source height. Inr (backBlock (if source = 0 then forge (headerAt height) else headerAt height)))\<rparr>"

definition backClient :: light_client where
  "backClient = lightClient\<lparr>lcStore := [(5, backBlock (headerAt 5))], lcLatest := Some (backBlock (headerAt 5))\<rparr>"

text \<open>Both witnesses have another block than the primary at height 5, and do not answer further requests.\<close>

definition detectEnv :: light_env where
  "detectEnv = lightEnv\<lparr>leBlock := backBlockEnv,
     leFetch := (\<lambda>n source height. if n < 2 then Inr (backBlock (forge (headerAt height))) else Inl ErrNoResponse)\<rparr>"

definition detectTrace :: "light_block list" where
  "detectTrace = [backBlock (headerAt 2), backBlock (headerAt 5)]"

definition threeBlocks :: light_client where
  "threeBlocks = lightClient\<lparr>lcStore := [(1, lightBlock 1), (2, lightBlock 2), (3, lightBlock 3)], lcSize := 3, lcLatest := Some (lightBlock 3)\<rparr>"

declare cleanupLoop.simps [code]

lemma back_fetch:
  "lightBlockFromPrimary backEnv h c =
     (c\<lparr>lcRequests := lcRequests c + 1\<rparr>, Inr (backBlock (if lcPrimary c = 0 then forge (headerAt h) else headerAt h)))"
  by (simp add: lightBlockFromPrimary.simps fetch_def backEnv_def)

lemma back_header: "lbHeader (backBlock h) = Inr h"
  by (simp add: lbHeader_def backBlock_def)

lemma back_heights: "hdHeight (headerAt 5) = 5" "hdHeight (headerAt 4) = 4" "hdHeight (headerAt 3) = 3"
  by code_simp+

lemma forge_height: "hdHeight (forge h) = hdHeight h"
  by (simp add: forge_def)

lemma back_steps:
  "VerifyBackwards (leBlock backEnv) (forge (headerAt 4)) (headerAt 5) = Inl (Err (ErrInvalidHeader LastBlockMismatch))"
  "VerifyBackwards (leBlock backEnv) (headerAt 4) (headerAt 5) = Inr ()"
  "VerifyBackwards (leBlock backEnv) (headerAt 3) (headerAt 4) = Inr ()"
  by code_simp+

lemma back_hashes:
  "Header_Hash backBlockEnv (headerAt 4) = bidHash (hdLastBlockID (headerAt 5))"
  "Header_Hash backBlockEnv (forge (headerAt 3)) \<noteq> bidHash (hdLastBlockID (headerAt 4))"
  by code_simp+

lemmas back_simps = back_fetch back_header back_heights forge_height back_steps replacePrimaryProvider_def

lemma back_run:
  "lcPrimary c = 0 \<Longrightarrow> lcWitnesses c = [1, 2] \<Longrightarrow> backwards backEnv (headerAt 5) (forge (headerAt 3)) c =
     Some (c\<lparr>lcPrimary := 1, lcWitnesses := [2], lcRequests := lcRequests c + 3\<rparr>, Inr ())"
  by (simp add: backwards.simps back_simps)

lemma back_pruning: "lePruningSize backEnv = 1000"
  by (simp add: backEnv_def lightEnv_def)

lemma back_verified:
  "\<exists>c. VerifyLightBlockAtHeight backEnv 3 300 backClient = Some (c, Inr (backBlock (forge (headerAt 3)))) \<and>
     map_of (lcStore c) 3 = Some (backBlock (forge (headerAt 3)))"
  by (simp add: VerifyLightBlockAtHeight_def TrustedLightBlock_def compareWithLatestHeight_def LastLightBlockHeight_def FirstLightBlockHeight_def
    backClient_def lightClient_def storeLookup_def back_simps verifyLightBlock_def back_run saveVerified_def withBlock_def
    updateTrustedLightBlock_def SaveLightBlock_def putBlock_def Let_def Prune_def back_pruning)

lemma forged_hash: "Header_Hash backBlockEnv (forge (headerAt 5)) \<noteq> Header_Hash backBlockEnv (headerAt 5)"
  by code_simp

lemma detect_hash: "lbHash detectEnv (backBlock h) = Inr (Header_Hash backBlockEnv h)"
  by (simp add: lbHash_def backBlock_def detectEnv_def)

lemma detect_answer: "n < 2 \<Longrightarrow> leFetch detectEnv n w h = Inr (backBlock (forge (headerAt h)))"
  by (simp add: detectEnv_def)

lemma detect_messages:
  "readMessages detectEnv lightClient (headerAt 5) =
     Inr (lightClient\<lparr>lcRequests := 2\<rparr>, [ErrConflictingHeaders (backBlock (forge (headerAt 5))) 0, Matching])"
  using forged_hash
  by (simp add: readMessages_def compareNewHeaderWithWitness_def detect_answer detect_hash back_heights lightClient_def detectEnv_def [THEN arg_cong [of _ _ leArrival]]
    detectEnv_def [THEN arg_cong [of _ _ leBlock]] lightEnv_def)

lemma detect_silent: "fetch detectEnv w h c = (c\<lparr>lcRequests := lcRequests c + 1\<rparr>, Inl ErrNoResponse)" if "2 \<le> lcRequests c"
  using that by (simp add: fetch_def detectEnv_def)

lemma detect_conflict: "examineConflict detectEnv now detectTrace w c = Some (c\<lparr>lcRequests := lcRequests c + 1\<rparr>, Inr False)" if "2 \<le> lcRequests c"
  using detect_silent [OF that] by (simp add: examineConflict_def detectTrace_def back_header)

lemma detect_run: "\<exists>c. detectDivergence detectEnv detectTrace 300 lightClient = Some (c, Inr ())"
proof -
  have t: "length detectTrace = 2" "last detectTrace = backBlock (headerAt 5)" by (simp_all add: detectTrace_def)
  have w: "lcWitnesses lightClient = [1, 2]" by (simp add: lightClient_def)
  show ?thesis
    by (simp add: detectDivergence_def t w back_header detect_messages detect_conflict goIndex_def removeWitness_def goUpdate_def)
qed

section \<open>Properties\<close>

text \<open>C19: Backwards verification trusts a block that it has not verified. The client trusts a header at height 5 and asks a dishonest primary
  for height 3. The headers at heights 4 and 3 that verify come from the provider that replaces the primary, but the client
  returns and stores the forged block of the primary, which the chain of verified headers does not lead to.\<close>

theorem backwards_trusts_forged_block:
  "\<exists>c l h. VerifyLightBlockAtHeight backEnv 3 300 backClient = Some (c, Inr l) \<and> map_of (lcStore c) 3 = Some l \<and>
     lbHeader l = (Inr h :: unit fault + _) \<and> Header_Hash backBlockEnv h \<noteq> bidHash (hdLastBlockID (headerAt 4)) \<and>
     Header_Hash backBlockEnv (headerAt 4) = bidHash (hdLastBlockID (headerAt 5))"
  using back_verified back_hashes back_header by blast

text \<open>C20: The detector accepts a block that no witness has. Both witnesses answer with a block of another hash; the first cannot support its
  block, and the message that its header matched, which is sent after the conflict, is counted as a match, while the
  conflict of the second witness is never read.\<close>

theorem detector_accepts_unmatched_block:
  "\<exists>c b. detectDivergence detectEnv detectTrace 300 lightClient = Some (c, Inr ()) \<and> lcWitnesses lightClient = [1, 2] \<and>
     leFetch detectEnv 0 1 5 = Inr b \<and> leFetch detectEnv 1 2 5 = Inr b \<and>
     lbHash detectEnv b \<noteq> (lbHash detectEnv (last detectTrace) :: unit fault + _)"
proof -
  have "lbHash detectEnv (backBlock (forge (headerAt 5))) \<noteq> (lbHash detectEnv (last detectTrace) :: unit fault + _)"
    using forged_hash by (simp add: detectTrace_def detect_hash)
  moreover have "lcWitnesses lightClient = [1, 2]" by (simp add: lightClient_def)
  ultimately show ?thesis using detect_run detect_answer [of 0 1 5] detect_answer [of 1 2 5] by auto
qed

text \<open>A rollback to an older block keeps the newest one. \<open>cleanupAfter\<close> starts with the block before the latest: it removes the block in
  between and leaves the latest block stored and trusted.\<close>

theorem rollback_keeps_latest_block:
  "\<exists>c. cleanupAfter 1 threeBlocks = Some (Inr c) \<and> map fst (lcStore c) = [1, 3] \<and> lcLatest c = Some (lightBlock 3)"
proof -
  have "case cleanupAfter 1 threeBlocks of Some (Inr c) \<Rightarrow> map fst (lcStore c) = [1, 3] \<and> lcLatest c = Some (lightBlock 3) | _ \<Rightarrow> False" by code_simp
  then show ?thesis by (auto split: option.splits sum.splits)
qed

end
