(* ===== verification/Spec2Isabelle.thy ===== *)
theory Spec2Isabelle
  imports BlockTime Network StateStore LightAttacks
begin

text \<open>
  A verification library for the Tendermint code base in \<open>src/tendermint/codebase\<close>, a Byzantine fault tolerant replication
  engine in Go that is instrumented for testing. File names below are relative to that directory.

  \<^bold>\<open>The program.\<close> Validators agree on one block per height. A node keeps the state of the chain (\<open>state\<close>) and runs the
  consensus state machine (\<open>consensus/state.go\<close>) for the next height: in rounds, a proposer that is chosen by weighted round
  robin (\<open>types/validator_set.go\<close>) sends a block cut into parts with Merkle proofs (\<open>types/part_set.go\<close>,
  \<open>crypto/merkle\<close>); validators sign prevotes and precommits (\<open>privval/file.go\<close>), which every node collects per round
  (\<open>types/vote_set.go\<close>, \<open>consensus/types/height_vote_set.go\<close>); two thirds of the precommits make a commit
  (\<open>types/block.go\<close>), the block is saved (\<open>store/store.go\<close>), executed by the application (\<open>state/execution.go\<close>) and its
  validator updates take effect two heights later. Everyone else checks commits (\<open>VerifyCommit\<close> and its variants): a light client (\<open>light\<close>) does so for the headers of
  a chain that it does not follow block by block.

  \<^bold>\<open>Conventions\<close> (\<open>Prelude\<close>). A panic, an index out of range and a nil dereference are values \<open>Inl (Panic \<dots>)\<close>, a returned
  error is \<open>Inl (Err e)\<close>, and \<open>bindR\<close> sequences calls. Go's \<open>int64\<close> and \<open>int32\<close> are HOL integers with the wrap-around
  written out (\<open>wrap64\<close>, \<open>wrap32\<close>) where the code can overflow; \<open>uint64\<close> and \<open>uint32\<close> are words; times are integers in
  nanoseconds; a pointer that may be nil is an option. A struct is a record whose fields carry a prefix, an operation keeps
  the name of its Go function, with the type in front where the name is not unique. Hash functions, signatures, generated
  protobuf code, the application, the mempool, the evidence pool, the clock and the randomness are arguments, grouped in
  records (\<open>crypto_env\<close>, \<open>block_env\<close>, \<open>pv_env\<close>, \<open>exec_env\<close>, \<open>cs_env\<close>, \<open>key_codec\<close>, \<open>light_env\<close>); what a theorem needs of them is a hypothesis of it
  (\<open>codecOk\<close>, \<open>encodingsOk\<close>, \<open>sizesOk\<close>, \<open>keyCodecOk\<close>, \<open>faithful\<close>), and its witness gives an instance.

  \<^bold>\<open>Data and commits.\<close>
  \<^item> \<open>BitArray\<close>: \<open>libs/bits/bit_array.go\<close> on words; the bits each operation computes, and where it deviates from its comment.
  \<^item> \<open>BlockTypes\<close>: votes, proposals, commits, block identifiers and their canonical forms (\<open>types/vote.go\<close>, \<open>proposal.go\<close>,
    \<open>canonical.go\<close>, \<open>block.go\<close>); \<open>BlockID.Key\<close> is injective, commit signatures give back their votes.
  \<^item> \<open>Validators\<close>, \<open>ValidatorUpdate\<close>, \<open>ValidatorPriority\<close>: \<open>types/validator_set.go\<close>. An update by a change set refines a change
    of the map from addresses to powers and is accepted exactly when that map allows it; the proposer rotates in proportion
    to the power, with priorities that stay within 64 bits.
  \<^item> \<open>CommitVerify\<close>: the three checks of a commit, exactly when they accept, and the locale \<open>quorum_system\<close> of sets of
    validators with more than two thirds of the power, interpreted on validator lists (\<open>vq\<close>): two quorums share a correct member.
  \<^item> \<open>VoteSet\<close>, \<open>VoteSetInvariant\<close>, \<open>VoteSetCommit\<close>: \<open>types/vote_set.go\<close>. A reported majority consists of genuine votes of more
    than two thirds of the power, and the commit made from it verifies.
  \<^item> \<open>HeightVoteSet\<close>: the vote sets of all rounds of a height; the rounds a peer can open are bounded.
  \<^item> \<open>PrivVal\<close> (with \<open>SampleCodec\<close>, an executable codec for the witnesses): the signer with its file; across crashes at any
    point it never signs two different messages for one height, round and step, and it can sign the last one again.
  \<^item> \<open>Merkle\<close>, \<open>MerkleProof\<close>, \<open>PartSet\<close>, \<open>Blocks\<close>: hash trees and proofs, parts of a block, block hashes. The proof structure of
    the code links heap nodes by pointers; it is modelled by a store of nodes.

  \<^bold>\<open>Execution.\<close> \<open>Execution\<close>: \<open>state/state.go\<close>, \<open>validation.go\<close>, \<open>execution.go\<close>, \<open>types/params.go\<close>, \<open>types/genesis.go\<close>,
  \<open>types/time\<close>. \<open>ChainInvariant\<close>: applying a block keeps the invariant of the chain state and advances it by one height; the
  block a proposer makes is valid. \<open>BlockTime\<close>: between which times the time of a block lies, and how it can be moved.
  \<open>ValidatorProto\<close>: validator sets as protobuf. \<open>StateStore\<close>: \<open>state/store.go\<close>, tables by height; in a chain whose states are
  saved (\<open>saved\<close>), what was in force at a height loads again, also after pruning, but for the priorities of the validators.

  \<^bold>\<open>Light client.\<close>
  \<^item> \<open>LightVerify\<close>: light blocks and \<open>light/verifier.go\<close>; what is known of a header that is accepted.
  \<^item> \<open>LightSkipping\<close>: the state of the client, its providers and skipping verification, which returns for a provider that answers
    with the heights it is asked for, and returns a chain of accepted blocks.
  \<^item> \<open>LightClient\<close>: the trusted store (\<open>light/store/db\<close>), sequential and backwards verification, the detector
    (\<open>light/detector.go\<close>) and the operations a user calls, from \<open>NewClient\<close> to \<open>Update\<close>. Providers answer as a function of the number
    of the request; the order in which the answers of witnesses arrive is an argument.
  \<^item> \<open>LightTrace\<close>: what a forward verification that succeeds has checked. \<open>LightAttacks\<close>: three runs that end in a state the
    client means to exclude.

  \<^bold>\<open>Consensus.\<close>
  \<^item> \<open>ConsensusState\<close>: \<open>consensus/state.go\<close>: one definition per handler and step, over one record (\<open>cs_state\<close>) that has the
    round state, the chain state, the signer, the block store, the messages a node sent to itself (\<open>csInternal\<close>, kept
    after they were handled, so that it is also the log of what was sent) and the timeouts it scheduled.
  \<^item> \<open>VoteHistory\<close>, \<open>ConsensusInvariant\<close>: the votes a height keeps, and the invariant: what locks, sent votes and stored blocks rest on.
  \<^item> \<open>ConsensusSafety\<close>, \<open>ConsensusHandlers\<close>: every step and handler keeps the invariant (\<open>move\<close>), by rules for results (\<open>ensures\<close>).
  \<^item> \<open>ConsensusRun\<close>: \<open>node_run\<close>, the states a node can reach by events in any order, and what holds of them.
  \<^item> \<open>Network\<close>: \<open>net_run\<close>, correct nodes and a pool of votes to which faulty validators may add anything that is not a forged
    vote of a correct one; any two correct nodes that store a block at a height store blocks with one hash.

  \<^bold>\<open>Bounds and loops.\<close> No definition of the model has fuel: loops over a slice recurse on the list, loops that count recurse on
  the number of rounds that are left (\<open>setRoundLoop\<close>, \<open>polLoop\<close>, \<open>incLoop\<close>), and the others have a termination proof
  (\<open>HashFromByteSlices\<close>, \<open>iterLoop\<close>, \<open>trailsFromByteSlices\<close>, \<open>computeHashFromAunts\<close>, \<open>PSR_Read\<close>, \<open>readAll\<close>, \<open>pruneRange\<close>,
  \<open>lightBlockFromPrimary\<close>, \<open>sequentialLoop\<close>). The loops of the light client that depend on what providers answer may go on forever and
  are partial functions with \<open>None\<close> for that (\<open>skippingLoop\<close>, \<open>skippingAgainstPrimary\<close>, \<open>backwards\<close>, \<open>cleanupLoop\<close>).

  \<^bold>\<open>Not modelled.\<close> Goroutines, channels and mutexes: every handler runs under the mutex of its component, and the events of a
  node may come in any order. The write-ahead log, replay and a restart of a correct node (\<open>consensus/wal.go\<close>, \<open>replay.go\<close>): the
  runs start from a chain state and an empty set of sent votes; that a restarted node does not contradict its earlier votes
  is shown for the signer alone. Gossip (\<open>consensus/reactor.go\<close>, \<open>p2p\<close>, \<open>mempool\<close>, \<open>blockchain\<close>, \<open>statesync\<close>), the evidence pool, the contents of evidence of an attack on a light client, the application and
  its transports (\<open>abci\<close>, \<open>proxy\<close>), \<open>rpc\<close>, \<open>node\<close>, \<open>config\<close>, \<open>libs\<close> apart from bit arrays, command-line tools, and the test
  framework in \<open>src/netrix\<close> are input and output, wiring or concurrency around the modelled code. Liveness of consensus is
  not stated: the model has no time beyond what the handlers read from the clock.
\<close>

end
